(* ===== verification/Umap_Prelude.thy ===== *)
theory Umap_Prelude
  imports Main "HOL-Library.Word"
begin

text \<open>
  Shared vocabulary of the development: the machine types the sources use, the
  error values that stand for C++ exceptions, failed assertions and undefined
  behaviour, the sequencing of fallible operations, and the generic lemmas on
  lists and words that the component theories share.
\<close>

unbundle bit_operations_syntax

named_theorems umap_defs \<open>definitions the component proofs unfold together\<close>

section \<open>Machine types\<close>

type_synonym u64 = "64 word"
type_synonym u32 = "32 word"
type_synonym u16 = "16 word"
type_synonym byte = "8 word"

text \<open>An address (\<^verbatim>\<open>char*\<close>, \<^verbatim>\<open>void*\<close>) is a 64-bit value; 0 is \<^verbatim>\<open>nullptr\<close>.\<close>

type_synonym addr = u64

section \<open>Errors as values\<close>

text \<open>
  \<open>UMAP_ERROR\<close> stands for the exception that the macro of
  \<^verbatim>\<open>util/Macros.hpp\<close> throws, \<open>ASSERT_FAIL\<close> for a failed \<^verbatim>\<open>assert\<close> and
  \<open>UNDEFINED\<close> for a point the source reaches with undefined behaviour (an access
  out of the bounds of a container).
\<close>

datatype umap_error =
    UMAP_ERROR string
  | ASSERT_FAIL string
  | UNDEFINED string

type_synonym 'a result = "umap_error + 'a"

definition bindR :: "'a result \<Rightarrow> ('a \<Rightarrow> 'b result) \<Rightarrow> 'b result" where
  "bindR m f = (case m of Inl e \<Rightarrow> Inl e | Inr x \<Rightarrow> f x)"

lemma bindR_simps [simp]:
  "bindR (Inl e) f = Inl e"
  "bindR (Inr x) f = f x"
  by (simp_all add: bindR_def)

lemma bindR_eq_Inr_iff:
  "bindR m f = Inr y \<longleftrightarrow> (\<exists>x. m = Inr x \<and> f x = Inr y)"
  by (cases m) simp_all

lemma bindR_eq_Inl_iff:
  "bindR m f = Inl e \<longleftrightarrow> m = Inl e \<or> (\<exists>x. m = Inr x \<and> f x = Inl e)"
  by (cases m) auto

lemma bindR_assoc: "bindR (bindR m f) g = bindR m (\<lambda>x. bindR (f x) g)"
  by (cases m) simp_all

definition is_ok :: "'a result \<Rightarrow> bool" where
  "is_ok m = (case m of Inl _ \<Rightarrow> False | Inr _ \<Rightarrow> True)"

lemma is_ok_simps [simp]: "is_ok (Inr x)" "\<not> is_ok (Inl e)"
  by (simp_all add: is_ok_def)

section \<open>Words\<close>

lemma of_nat_u64_inj:
  assumes "m < 2 ^ 64" and "n < 2 ^ 64"
  shows "(of_nat m :: u64) = of_nat n \<longleftrightarrow> m = n"
proof -
  have "take_bit 64 m = m" and "take_bit 64 n = n"
    using assms by (simp_all add: take_bit_nat_eq_self_iff)
  then show ?thesis by (simp add: word_of_nat_eq_iff)
qed

lemma unat_of_nat_u64: "n < 2 ^ 64 \<Longrightarrow> unat (of_nat n :: u64) = n"
  by (simp add: unat_of_nat)

lemma unat_bound_u64: "unat (x :: u64) < 2 ^ 64"
  using unsigned_less [of x, where ?'a = nat] by simp

text \<open>The base address of the page of \<open>a\<close>, as the sources compute it with a mask.\<close>

definition page_base :: "u64 \<Rightarrow> addr \<Rightarrow> addr" where
  "page_base page_size a = a AND NOT (page_size - 1)"

lemma page_base_drop: "page_base (2 ^ k) a = push_bit k (drop_bit k a)"
  unfolding page_base_def
  by (rule bit_eqI) (auto simp: bit_simps mask_eq_exp_minus_1 [symmetric] simp del: mask_eq_exp_minus_1)

lemma unat_page_base: "unat (page_base (2 ^ k) a) = unat a div 2 ^ k * 2 ^ k"
proof -
  have d: "unat (drop_bit k a) = unat a div 2 ^ k" by (rule trans [OF unat_drop_bit_eq drop_bit_eq_div])
  then have lt: "unat (drop_bit k a) * 2 ^ k < 2 ^ 64"
    using unsigned_less [of a, where ?'a = nat]
    by (auto intro: le_less_trans [OF div_times_less_eq_dividend])
  have "unat (push_bit k (drop_bit k a)) = (unat (drop_bit k a) * 2 ^ k) mod 2 ^ 64"
    by (simp add: unsigned_push_bit_eq push_bit_eq_mult [of k "unat _"] take_bit_eq_mod)
  with lt d show ?thesis by (simp only: page_base_drop mod_less)
qed

section \<open>Rounding up\<close>

lemma ceil_div_eqI:
  fixes x y :: nat
  assumes "x \<le> n * y" and "n * y < x + y"
  shows "(x + y - 1) div y = n"
  using assms by (intro div_nat_eqI) (auto simp: algebra_simps)

section \<open>Counting threads\<close>

text \<open>The number of threads below \<open>n\<close> whose program counter satisfies \<open>P\<close>.\<close>

definition count_pc :: "nat \<Rightarrow> ('p \<Rightarrow> bool) \<Rightarrow> (nat \<Rightarrow> 'p) \<Rightarrow> nat" where
  "count_pc n P f = card {i. i < n \<and> P (f i)}"

lemma card_remove_bool:
  assumes "finite A"
  shows "card A = card (A - {i}) + of_bool (i \<in> A)"
  using assms card_Suc_Diff1 [of A i] by (cases "i \<in> A") simp_all

lemma count_pc_upd:
  assumes "i < n"
  shows "count_pc n P (f(i := v)) + of_bool (P (f i)) = count_pc n P f + of_bool (P v)"
proof -
  let ?A = "{j. j < n \<and> P (f j)}" and ?B = "{j. j < n \<and> P ((f(i := v)) j)}"
  have "?A - {i} = ?B - {i}" by auto
  with card_remove_bool [of ?A i] card_remove_bool [of ?B i] assms
  show ?thesis by (simp add: count_pc_def)
qed

lemma count_pc_le: "count_pc n P f \<le> n"
proof -
  have "card {i. i < n \<and> P (f i)} \<le> card {..<n}" by (rule card_mono) auto
  then show ?thesis by (simp add: count_pc_def)
qed

lemma count_pc_all: "count_pc n P f = n \<longleftrightarrow> (\<forall>i<n. P (f i))"
proof
  assume "count_pc n P f = n"
  then have "card {i. i < n \<and> P (f i)} = card {..<n}" by (simp add: count_pc_def)
  then have "{i. i < n \<and> P (f i)} = {..<n}" by (intro card_subset_eq) auto
  then show "\<forall>i<n. P (f i)" by auto
next
  assume "\<forall>i<n. P (f i)"
  then have "{i. i < n \<and> P (f i)} = {..<n}" by auto
  then show "count_pc n P f = n" by (simp add: count_pc_def)
qed

lemma count_pc_0: "count_pc n P f = 0 \<longleftrightarrow> (\<forall>i<n. \<not> P (f i))"
  by (auto simp: count_pc_def)

text \<open>Rounding up to a multiple, when the sum does not wrap around.\<close>

lemma unat_round_up:
  fixes n p :: u64
  assumes "0 < p" and "unat n + unat p < 2 ^ 64"
  defines "s \<equiv> n + (if n mod p \<noteq> 0 then p - n mod p else 0)"
  shows "unat p dvd unat s" and "unat n \<le> unat s" and "unat s < unat n + unat p"
proof -
  have p: "0 < unat p" using assms(1) by (simp add: word_less_nat_alt)
  let ?m = "unat n mod unat p"
  have m: "unat (n mod p) = ?m" by (simp only: unat_mod_distrib)
  have lt: "?m < unat p" using p by simp
  have "unat s = (if ?m = 0 then unat n else unat n + (unat p - ?m))"
  proof (cases "n mod p = 0")
    case True
    then show ?thesis using m by (simp add: s_def)
  next
    case False
    have "n mod p \<le> p" using m lt by (simp add: word_le_nat_alt)
    then have d: "unat (p - n mod p) = unat p - ?m" by (simp only: unat_sub m)
    have "?m \<noteq> 0" using False m by (metis unat_eq_0)
    moreover have "unat n + unat (p - n mod p) < 2 ^ LENGTH(64)" using assms(2) d by simp
    then have "unat (n + (p - n mod p)) = unat n + unat (p - n mod p)" by (simp only: unat_add_lem)
    ultimately show ?thesis using False d by (simp add: s_def)
  qed
  moreover have "unat n + (unat p - ?m) = unat n div unat p * unat p + unat p"
    using div_mult_mod_eq [of "unat n" "unat p"] lt by linarith
  ultimately show "unat p dvd unat s" and "unat n \<le> unat s" and "unat s < unat n + unat p"
    using p lt by auto
qed

end
