(* ===== verification/Token_Pool.thy ===== *)
theory Token_Pool
  imports Umap_Prelude "HOL-Library.Multiset"
begin

text \<open>
  Ownership of work. A pool hands items from a queue to threads; the item a thread works
  on is read off its program counter. An item is a token: it is in the queue or with one
  thread, never twice. This theory states the discipline once, for the fill and for the
  eviction workers: \<open>own\<close> gives the item of a program counter together with what the thread
  knows of it there, \<open>q\<close> is what is known of an item in the queue, \<open>F\<close> maps an item to the
  part of the state that is known of it, and \<open>A\<close> is the set of the items that are out.
\<close>

definition tokens ::
  "('pc \<Rightarrow> ('i \<times> ('f \<Rightarrow> bool)) option) \<Rightarrow> 'i list \<Rightarrow> nat \<Rightarrow> (nat \<Rightarrow> 'pc) \<Rightarrow> 'i multiset" where
  "tokens own qs n pcs =
     mset qs + (\<Sum>j<n. case own (pcs j) of None \<Rightarrow> {#} | Some (i, _) \<Rightarrow> {#i#})"

definition pool_inv ::
  "('pc \<Rightarrow> ('i \<times> ('f \<Rightarrow> bool)) option) \<Rightarrow> ('f \<Rightarrow> bool) \<Rightarrow> ('i \<Rightarrow> 'f) \<Rightarrow> 'i set \<Rightarrow> 'i list \<Rightarrow> nat
     \<Rightarrow> (nat \<Rightarrow> 'pc) \<Rightarrow> bool" where
  "pool_inv own q F A qs n pcs \<longleftrightarrow>
     (\<forall>i. count (tokens own qs n pcs) i = of_bool (i \<in> A))
   \<and> (\<forall>i\<in>set qs. q (F i))
   \<and> (\<forall>j<n. \<forall>i P. own (pcs j) = Some (i, P) \<longrightarrow> P (F i))"

section \<open>Tokens\<close>

lemma sum_pcs_upd:
  fixes f :: "'pc \<Rightarrow> 'a :: comm_monoid_add" and pcs :: "nat \<Rightarrow> 'pc"
  assumes "j < n"
  shows "(\<Sum>k<n. f ((pcs(j := pc)) k)) + f (pcs j) = (\<Sum>k<n. f (pcs k)) + f pc"
proof -
  have "(\<Sum>k<n. f ((pcs(j := pc)) k)) = f pc + (\<Sum>k\<in>{..<n} - {j}. f ((pcs(j := pc)) k))"
    using assms by (subst sum.remove [of _ j]) simp_all
  also have "(\<Sum>k\<in>{..<n} - {j}. f ((pcs(j := pc)) k)) = (\<Sum>k\<in>{..<n} - {j}. f (pcs k))"
    by (rule sum.cong) simp_all
  finally show ?thesis
    using assms sum.remove [of "{..<n}" j "\<lambda>k. f (pcs k)"] by (simp add: ac_simps)
qed

lemma tokens_upd:
  assumes "j < n"
  shows "tokens own qs n (pcs(j := pc)) + (case own (pcs j) of None \<Rightarrow> {#} | Some (i, _) \<Rightarrow> {#i#})
       = tokens own qs n pcs + (case own pc of None \<Rightarrow> {#} | Some (i, _) \<Rightarrow> {#i#})"
  using sum_pcs_upd [OF assms, of "\<lambda>pc. case own pc of None \<Rightarrow> {#} | Some (i, _) \<Rightarrow> {#i#}" pcs pc]
  by (simp add: tokens_def ac_simps)

lemma tokens_append: "tokens own (qs @ is) n pcs = tokens own qs n pcs + mset is"
  by (simp add: tokens_def ac_simps)

lemma tokens_Cons: "tokens own (i # qs) n pcs = add_mset i (tokens own qs n pcs)"
  by (simp add: tokens_def)

lemma in_tokens_pc:
  assumes "j < n" and "own (pcs j) = Some (i, P)"
  shows "i \<in># tokens own qs n pcs"
  using assms by (auto simp: tokens_def set_mset_sum intro!: bexI [of _ j])

lemma in_tokensE:
  assumes "i \<in># tokens own qs n pcs"
  obtains "i \<in> set qs" | j P where "j < n" and "own (pcs j) = Some (i, P)"
  using assms by (auto simp: tokens_def set_mset_sum split: option.splits)

lemma token_once:
  assumes "j < n" and "own (pcs j) = Some (i, P)" and "count (tokens own qs n pcs) i = 1"
  shows "i \<notin> set qs" and "k < n \<Longrightarrow> k \<noteq> j \<Longrightarrow> own (pcs k) \<noteq> Some (i, P')"
proof -
  let ?f = "\<lambda>k. case own (pcs k) of None \<Rightarrow> {#} | Some (i, _) \<Rightarrow> {#i#}"
  have "(\<Sum>k<n. ?f k) = add_mset i (\<Sum>k\<in>{..<n} - {j}. ?f k)"
    using assms(1,2) by (subst sum.remove [of _ j]) simp_all
  then have none: "count (mset qs) i + count (\<Sum>k\<in>{..<n} - {j}. ?f k) i = 0"
    using assms(3) by (simp add: tokens_def)
  then show "i \<notin> set qs" by (simp add: count_mset_0_iff)
  show "own (pcs k) \<noteq> Some (i, P')" if k: "k < n" "k \<noteq> j"
  proof
    assume "own (pcs k) = Some (i, P')"
    with k have "i \<in># (\<Sum>k\<in>{..<n} - {j}. ?f k)"
      by (auto simp: set_mset_sum intro!: bexI [of _ k])
    then have "count (\<Sum>k\<in>{..<n} - {j}. ?f k) i \<noteq> 0" by (simp only: count_eq_zero_iff not_not)
    with none show False by simp
  qed
qed

section \<open>Steps of a pool\<close>

lemma pool_invI:
  assumes "\<And>i. count (tokens own qs n pcs) i = of_bool (i \<in> A)"
    and "\<And>i. i \<in> set qs \<Longrightarrow> q (F i)"
    and "\<And>j i P. j < n \<Longrightarrow> own (pcs j) = Some (i, P) \<Longrightarrow> P (F i)"
  shows "pool_inv own q F A qs n pcs"
  using assms unfolding pool_inv_def by blast

lemma pool_inv_count:
  assumes "pool_inv own q F A qs n pcs"
  shows "count (tokens own qs n pcs) i = of_bool (i \<in> A)"
  using assms by (simp add: pool_inv_def)

lemma pool_inv_tokens:
  assumes "pool_inv own q F A qs n pcs"
  shows "i \<in># tokens own qs n pcs \<longleftrightarrow> i \<in> A"
  using assms count_eq_zero_iff [of "tokens own qs n pcs" i] by (simp add: pool_inv_def)

lemma pool_inv_pc:
  assumes "pool_inv own q F A qs n pcs" and "j < n" and "own (pcs j) = Some (i, P)"
  shows "i \<in> A" and "P (F i)" and "count (tokens own qs n pcs) i = 1"
proof -
  show "i \<in> A"
    using in_tokens_pc [of j n own pcs i P qs, OF assms(2,3)] pool_inv_tokens [OF assms(1)] by simp
  then show "count (tokens own qs n pcs) i = 1" using assms(1) by (simp add: pool_inv_def)
  show "P (F i)" using assms unfolding pool_inv_def by blast
qed

lemma pool_inv_queue:
  assumes "pool_inv own q F A qs n pcs" and "i \<in> set qs"
  shows "i \<in> A" and "q (F i)"
  using assms pool_inv_tokens [OF assms(1), of i] by (simp_all add: tokens_def pool_inv_def)

lemma pool_inv_frame:
  assumes inv: "pool_inv own q F A qs n pcs" and same: "\<forall>i\<in>A. F' i = F i"
  shows "pool_inv own q F' A qs n pcs"
  unfolding pool_inv_def
proof (intro conjI allI ballI impI)
  show "count (tokens own qs n pcs) i = of_bool (i \<in> A)" for i
    using inv by (simp add: pool_inv_def)
  show "q (F' i)" if "i \<in> set qs" for i
    using pool_inv_queue [OF inv that] same by simp
  show "P (F' i)" if "j < n" "own (pcs j) = Some (i, P)" for j i P
    using pool_inv_pc [OF inv that] same by simp
qed

lemma pool_inv_send:
  assumes inv: "pool_inv own q F A qs n pcs" and same: "\<forall>i\<in>A. F' i = F i"
    and new: "distinct is" "set is \<inter> A = {}" "\<forall>i\<in>set is. q (F' i)"
  shows "pool_inv own q F' (A \<union> set is) (qs @ is) n pcs"
proof -
  have inv': "pool_inv own q F' A qs n pcs" using pool_inv_frame [OF inv same] .
  have "count (tokens own (qs @ is) n pcs) i = of_bool (i \<in> A \<union> set is)" for i
    using inv' new(1,2) by (auto simp: pool_inv_def tokens_append distinct_count_atmost_1)
  with inv' new(3) show ?thesis by (auto simp: pool_inv_def)
qed

lemma pool_inv_get:
  assumes inv: "pool_inv own q F A (i # qs) n pcs" and j: "j < n" "own (pcs j) = None"
    and pc: "own pc = Some (i, P)" "P (F i)"
  shows "pool_inv own q F A qs n (pcs(j := pc))"
proof -
  have "tokens own qs n (pcs(j := pc)) = tokens own (i # qs) n pcs"
    using tokens_upd [OF j(1), of own qs pcs pc] j(2) pc(1) by (simp add: tokens_Cons)
  with inv pc show ?thesis by (auto simp: pool_inv_def)
qed

lemma pool_inv_move:
  assumes inv: "pool_inv own q F A qs n pcs" and j: "j < n" "own (pcs j) = Some (i, P)"
    and pc: "own pc = Some (i, P')" "P' (F' i)" and same: "\<forall>k\<in>A - {i}. F' k = F k"
  shows "pool_inv own q F' A qs n (pcs(j := pc))"
proof -
  note once = token_once [OF j pool_inv_pc(3) [OF inv j]]
  have "tokens own qs n (pcs(j := pc)) = tokens own qs n pcs"
    using tokens_upd [OF j(1), of own qs pcs pc] j(2) pc(1) by simp
  then have "count (tokens own qs n (pcs(j := pc))) i = of_bool (i \<in> A)" for i
    using pool_inv_count [OF inv] by simp
  moreover have "q (F' k)" if "k \<in> set qs" for k
    using pool_inv_queue [OF inv that] same that once(1) by (cases "k = i") auto
  moreover have "Q (F' k)" if "l < n" "own ((pcs(j := pc)) l) = Some (k, Q)" for l k Q
  proof (cases "l = j")
    case True
    with that pc show ?thesis by simp
  next
    case False
    with that have l: "own (pcs l) = Some (k, Q)" by simp
    with once(2) [OF that(1) False] have "k \<noteq> i" by auto
    with pool_inv_pc [OF inv that(1) l] same show ?thesis by simp
  qed
  ultimately show ?thesis by (intro pool_invI) blast+
qed

lemma pool_inv_done:
  assumes inv: "pool_inv own q F A qs n pcs" and j: "j < n" "own (pcs j) = Some (i, P)"
    and pc: "own pc = None" and same: "\<forall>k\<in>A - {i}. F' k = F k"
  shows "pool_inv own q F' (A - {i}) qs n (pcs(j := pc))"
proof -
  note once = token_once [OF j pool_inv_pc(3) [OF inv j]]
  have "add_mset i (tokens own qs n (pcs(j := pc))) = tokens own qs n pcs"
    using tokens_upd [OF j(1), of own qs pcs pc] j(2) pc(1) by simp
  then have tok: "of_bool (k \<in> A) = of_bool (k = i) + count (tokens own qs n (pcs(j := pc))) k" for k
    unfolding pool_inv_count [OF inv, symmetric] by (cases "k = i") (simp_all flip: \<open>add_mset i _ = _\<close>)
  have "count (tokens own qs n (pcs(j := pc))) k = of_bool (k \<in> A - {i})" for k
    using tok [of k] pool_inv_pc(1) [OF inv j] by (cases "k = i") simp_all
  moreover have "q (F' k)" if "k \<in> set qs" for k
    using pool_inv_queue [OF inv that] same that once(1) by (cases "k = i") auto
  moreover have "Q (F' k)" if "l < n" "own ((pcs(j := pc)) l) = Some (k, Q)" for l k Q
  proof -
    from that pc have l: "l \<noteq> j" "own (pcs l) = Some (k, Q)" by (auto split: if_splits)
    with once(2) [OF that(1) l(1)] have "k \<noteq> i" by auto
    with pool_inv_pc [OF inv that(1) l(2)] same show ?thesis by simp
  qed
  ultimately show ?thesis by (intro pool_invI) blast+
qed

lemma pool_inv_mono:
  assumes inv: "pool_inv own q F A qs n pcs"
    and q: "\<And>i. i \<in> A \<Longrightarrow> q (F i) \<Longrightarrow> q (F' i)"
    and P: "\<And>pc i P. own pc = Some (i, P) \<Longrightarrow> i \<in> A \<Longrightarrow> P (F i) \<Longrightarrow> P (F' i)"
  shows "pool_inv own q F' A qs n pcs"
proof (rule pool_invI [OF pool_inv_count [OF inv]])
  show "q (F' i)" if "i \<in> set qs" for i using pool_inv_queue [OF inv that] q by blast
  show "P (F' i)" if "j < n" "own (pcs j) = Some (i, P)" for j i P
    using pool_inv_pc(1,2) [OF inv that] P [OF that(2)] by blast
qed

lemma pool_inv_idle:
  assumes "\<forall>j<n. own (pcs j) = None"
  shows "pool_inv own q F {} [] n pcs"
  using assms by (simp add: pool_inv_def tokens_def)

end
