(* ===== verification/Page_Descriptor.thy ===== *)
theory Page_Descriptor
  imports Umap_Prelude
begin

text \<open>
  The page descriptors of \<^verbatim>\<open>PageDescriptor.hpp\<close> and \<^verbatim>\<open>PageDescriptor.cpp\<close>:
  the record itself, its five states, the guarded transitions between them and
  the printers. The lemmas characterise the life cycle that the guards enforce.
\<close>

section \<open>Data\<close>

datatype State = FREE | FILLING | PRESENT | UPDATING | LEAVING

text \<open>
  A descriptor points to its region: region descriptors are allocated on the heap
  and are named here by a number, \<open>None\<close> being the null pointer. \<open>page = 0\<close> is
  \<^verbatim>\<open>nullptr\<close>.
\<close>

type_synonym rid = nat

record PageDescriptor =
  page :: addr
  region :: "rid option"
  state :: State
  dirty :: bool
  deferred :: bool
  data_present :: bool
  spurious_count :: int

text \<open>What \<^verbatim>\<open>calloc\<close> makes of a descriptor: every field is zero, and \<^verbatim>\<open>FREE = 0\<close>.\<close>

definition zero_PageDescriptor :: PageDescriptor where
  "zero_PageDescriptor =
     \<lparr>page = 0, region = None, state = FREE, dirty = False, deferred = False,
      data_present = False, spurious_count = 0\<rparr>"

section \<open>Operations\<close>

definition print_state_pd :: "PageDescriptor \<Rightarrow> string" where
  "print_state_pd pd =
     (case state pd of
        FREE \<Rightarrow> ''FREE''
      | FILLING \<Rightarrow> ''FILLING''
      | PRESENT \<Rightarrow> ''PRESENT''
      | UPDATING \<Rightarrow> ''UPDATING''
      | LEAVING \<Rightarrow> ''LEAVING'')"

definition invalid_transition :: "PageDescriptor \<Rightarrow> umap_error" where
  "invalid_transition pd = UMAP_ERROR (''Invalid state transition from: '' @ print_state_pd pd)"

definition set_state_free :: "PageDescriptor \<Rightarrow> PageDescriptor result" where
  "set_state_free pd =
     (if state pd \<noteq> LEAVING then Inl (invalid_transition pd)
      else Inr (pd\<lparr>state := FREE\<rparr>))"

definition set_state_filling :: "PageDescriptor \<Rightarrow> PageDescriptor result" where
  "set_state_filling pd =
     (if state pd \<noteq> FREE then Inl (invalid_transition pd)
      else Inr (pd\<lparr>state := FILLING\<rparr>))"

definition set_state_present :: "PageDescriptor \<Rightarrow> PageDescriptor result" where
  "set_state_present pd =
     (if state pd \<noteq> FILLING \<and> state pd \<noteq> UPDATING then Inl (invalid_transition pd)
      else Inr (pd\<lparr>state := PRESENT\<rparr>))"

definition set_state_updating :: "PageDescriptor \<Rightarrow> PageDescriptor result" where
  "set_state_updating pd =
     (if state pd \<noteq> PRESENT then Inl (invalid_transition pd)
      else Inr (pd\<lparr>state := UPDATING\<rparr>))"

definition set_state_leaving :: "PageDescriptor \<Rightarrow> PageDescriptor result" where
  "set_state_leaving pd =
     (if state pd \<noteq> PRESENT then Inl (invalid_transition pd)
      else Inr (pd\<lparr>state := LEAVING\<rparr>))"

lemmas set_state_defs =
  set_state_free_def set_state_filling_def set_state_present_def
  set_state_updating_def set_state_leaving_def

text \<open>
  The two printers. \<open>show_ptr\<close> and \<open>show_int\<close> are the stream's own conversions of a
  pointer and of an int.
\<close>

definition print_State :: "State \<Rightarrow> string" where
  "print_State st =
     (case st of
        FREE \<Rightarrow> ''FREE''
      | FILLING \<Rightarrow> ''FILLING''
      | PRESENT \<Rightarrow> ''PRESENT''
      | UPDATING \<Rightarrow> ''UPDATING''
      | LEAVING \<Rightarrow> ''LEAVING'')"

definition print_PageDescriptor ::
  "(addr \<Rightarrow> string) \<Rightarrow> (int \<Rightarrow> string) \<Rightarrow> PageDescriptor option \<Rightarrow> string" where
  "print_PageDescriptor show_ptr show_int p =
     (case p of
        None \<Rightarrow> ''{ nullptr }''
      | Some pd \<Rightarrow>
          ''{ '' @ show_ptr (page pd) @ '', '' @ print_state_pd pd
          @ (if dirty pd then '', DIRTY'' else [])
          @ (if deferred pd then '', DEFERRED'' else [])
          @ (if spurious_count pd \<noteq> 0
             then '', spurious: '' @ show_int (spurious_count pd) else [])
          @ '' }'')"

section \<open>The life cycle of a descriptor\<close>

lemma set_state_iff:
  "set_state_free pd = Inr pd' \<longleftrightarrow> state pd = LEAVING \<and> pd' = pd\<lparr>state := FREE\<rparr>"
  "set_state_filling pd = Inr pd' \<longleftrightarrow> state pd = FREE \<and> pd' = pd\<lparr>state := FILLING\<rparr>"
  "set_state_present pd = Inr pd' \<longleftrightarrow>
     state pd \<in> {FILLING, UPDATING} \<and> pd' = pd\<lparr>state := PRESENT\<rparr>"
  "set_state_updating pd = Inr pd' \<longleftrightarrow> state pd = PRESENT \<and> pd' = pd\<lparr>state := UPDATING\<rparr>"
  "set_state_leaving pd = Inr pd' \<longleftrightarrow> state pd = PRESENT \<and> pd' = pd\<lparr>state := LEAVING\<rparr>"
  by (auto simp: set_state_defs)

text \<open>A history of a descriptor is a sequence of calls of the five setters.\<close>

datatype setter = Free | Filling | Present | Updating | Leaving

fun call_setter :: "setter \<Rightarrow> PageDescriptor \<Rightarrow> PageDescriptor result" where
  "call_setter Free pd = set_state_free pd"
| "call_setter Filling pd = set_state_filling pd"
| "call_setter Present pd = set_state_present pd"
| "call_setter Updating pd = set_state_updating pd"
| "call_setter Leaving pd = set_state_leaving pd"

fun call_setters :: "setter list \<Rightarrow> PageDescriptor \<Rightarrow> PageDescriptor result" where
  "call_setters [] pd = Inr pd"
| "call_setters (c # cs) pd = bindR (call_setter c pd) (call_setters cs)"

text \<open>
  The calls made so far determine the state: what has been filled and not freed is
  in use, what has left and not been freed is leaving, and every fill and every
  update but a running one has been completed.
\<close>

lemma call_setters_counts_gen:
  assumes "call_setters cs pd = Inr pd'"
  shows "count_list cs Filling + of_bool (state pd \<noteq> FREE)
           = count_list cs Free + of_bool (state pd' \<noteq> FREE)
       \<and> count_list cs Leaving + of_bool (state pd = LEAVING)
           = count_list cs Free + of_bool (state pd' = LEAVING)
       \<and> count_list cs Filling + count_list cs Updating + of_bool (state pd \<in> {FILLING, UPDATING})
           = count_list cs Present + of_bool (state pd' \<in> {FILLING, UPDATING})"
  using assms
proof (induction cs arbitrary: pd)
  case Nil
  then show ?case by simp
next
  case (Cons c cs)
  then obtain pd1 where step: "call_setter c pd = Inr pd1"
    and rest: "call_setters cs pd1 = Inr pd'"
    by (auto simp: bindR_eq_Inr_iff)
  from Cons.IH [OF rest] step show ?case
    by (cases c) (auto simp: set_state_iff)
qed

section \<open>Properties\<close>



end
