(* ===== verification/Region_Descriptor.thy ===== *)
theory Region_Descriptor
  imports Page_Descriptor
begin

text \<open>
  The region descriptors of \<^verbatim>\<open>RegionDescriptor.hpp\<close>: an address range of the
  application, the store that backs it and the set of page descriptors that are
  active in it. Page descriptors are named by their index in the buffer's array,
  stores by a number.
\<close>

section \<open>Data and operations\<close>

type_synonym pd_ref = nat
type_synonym store_ref = nat

record RegionDescriptor =
  m_umap_region :: addr
  m_umap_region_size :: u64
  m_mmap_region :: addr
  m_mmap_region_size :: u64
  m_store :: store_ref
  m_active_pages :: "pd_ref set"

definition RegionDescriptor_init ::
  "addr \<Rightarrow> u64 \<Rightarrow> addr \<Rightarrow> u64 \<Rightarrow> store_ref \<Rightarrow> RegionDescriptor" where
  "RegionDescriptor_init umap_region umap_size mmap_region mmap_size str =
     \<lparr>m_umap_region = umap_region, m_umap_region_size = umap_size,
      m_mmap_region = mmap_region, m_mmap_region_size = mmap_size,
      m_store = str, m_active_pages = {}\<rparr>"

definition rd_size :: "RegionDescriptor \<Rightarrow> u64" where
  "rd_size rd = m_umap_region_size rd"

definition rd_start :: "RegionDescriptor \<Rightarrow> addr" where
  "rd_start rd = m_umap_region rd"

definition rd_end :: "RegionDescriptor \<Rightarrow> addr" where
  "rd_end rd = rd_start rd + rd_size rd"

definition rd_count :: "RegionDescriptor \<Rightarrow> nat" where
  "rd_count rd = card (m_active_pages rd)"

definition store_offset :: "RegionDescriptor \<Rightarrow> addr \<Rightarrow> u64 result" where
  "store_offset rd a =
     (if rd_start rd \<le> a \<and> a < rd_end rd then Inr (a - rd_start rd)
      else Inl (ASSERT_FAIL ''Invalid address for calculating offset''))"

definition insert_page_descriptor :: "pd_ref \<Rightarrow> RegionDescriptor \<Rightarrow> RegionDescriptor" where
  "insert_page_descriptor pd rd = rd\<lparr>m_active_pages := insert pd (m_active_pages rd)\<rparr>"

definition erase_page_descriptor :: "pd_ref \<Rightarrow> RegionDescriptor \<Rightarrow> RegionDescriptor" where
  "erase_page_descriptor pd rd = rd\<lparr>m_active_pages := m_active_pages rd - {pd}\<rparr>"

text \<open>
  The first element of the unordered set is whatever \<^verbatim>\<open>begin()\<close> of the standard
  library yields: the argument \<open>begin_of\<close>. The descriptor it names is updated in
  the buffer's array \<open>arr\<close>.
\<close>

definition get_next_page_descriptor ::
  "(pd_ref set \<Rightarrow> pd_ref) \<Rightarrow> (pd_ref \<Rightarrow> PageDescriptor) \<Rightarrow> RegionDescriptor
     \<Rightarrow> pd_ref option \<times> (pd_ref \<Rightarrow> PageDescriptor) \<times> RegionDescriptor" where
  "get_next_page_descriptor begin_of arr rd =
     (if card (m_active_pages rd) = 0 then (None, arr, rd)
      else
        let rval = begin_of (m_active_pages rd);
            arr' = arr(rval := (arr rval)\<lparr>deferred := False\<rparr>)
        in (Some rval, arr', erase_page_descriptor rval rd))"

lemmas rd_defs = rd_size_def rd_start_def rd_end_def rd_count_def store_offset_def
  insert_page_descriptor_def erase_page_descriptor_def get_next_page_descriptor_def

section \<open>Address ranges\<close>

text \<open>
  A region is sound when it is not empty and does not run past the end of the
  address space. Then membership is what its two bounds say over the naturals.
\<close>

definition rd_sound :: "RegionDescriptor \<Rightarrow> bool" where
  "rd_sound rd \<longleftrightarrow> 0 < unat (rd_size rd) \<and> unat (rd_start rd) + unat (rd_size rd) < 2 ^ 64"

definition in_region :: "RegionDescriptor \<Rightarrow> addr \<Rightarrow> bool" where
  "in_region rd a \<longleftrightarrow> rd_start rd \<le> a \<and> a < rd_end rd"

lemma unat_rd_end:
  assumes "rd_sound rd"
  shows "unat (rd_end rd) = unat (rd_start rd) + unat (rd_size rd)"
  using assms unat_add_lem [of "rd_start rd" "rd_size rd"]
  by (simp add: rd_sound_def rd_end_def)

lemma in_region_unat:
  assumes "rd_sound rd"
  shows "in_region rd a \<longleftrightarrow>
     unat (rd_start rd) \<le> unat a \<and> unat a < unat (rd_start rd) + unat (rd_size rd)"
  using unat_rd_end [OF assms] by (simp add: in_region_def word_le_nat_alt word_less_nat_alt)

lemma start_in_region: "rd_sound rd \<Longrightarrow> in_region rd (rd_start rd)"
  by (simp add: in_region_unat) (simp add: rd_sound_def)

lemma store_offset_in_region:
  assumes "rd_sound rd" and "in_region rd a"
  shows "store_offset rd a = Inr (a - rd_start rd)
       \<and> unat (a - rd_start rd) = unat a - unat (rd_start rd)
       \<and> unat (a - rd_start rd) < unat (rd_size rd)"
proof -
  have le: "rd_start rd \<le> a" using assms(2) by (simp add: in_region_def)
  then have "unat (a - rd_start rd) = unat a - unat (rd_start rd)"
    by (simp add: unat_sub)
  moreover have "store_offset rd a = Inr (a - rd_start rd)"
    using assms(2) by (simp add: store_offset_def in_region_def)
  ultimately show ?thesis using assms in_region_unat [OF assms(1), of a] by linarith
qed

lemma rd_bounds_frame [simp]:
  "rd_start (insert_page_descriptor pd rd) = rd_start rd"
  "rd_size (insert_page_descriptor pd rd) = rd_size rd"
  "rd_start (erase_page_descriptor pd rd) = rd_start rd"
  "rd_size (erase_page_descriptor pd rd) = rd_size rd"
  "m_store (insert_page_descriptor pd rd) = m_store rd"
  "m_store (erase_page_descriptor pd rd) = m_store rd"
  by (simp_all add: rd_defs)

lemma rd_sound_frame [simp]:
  "rd_sound (insert_page_descriptor pd rd) = rd_sound rd"
  "rd_sound (erase_page_descriptor pd rd) = rd_sound rd"
  by (simp_all add: rd_sound_def)

end
