(* ===== verification/Region_Manager.thy ===== *)
theory Region_Manager
  imports Region_Descriptor
begin

text \<open>
  The region table of \<^verbatim>\<open>RegionManager.hpp\<close> and \<^verbatim>\<open>RegionManager.cpp\<close>: the ordered map of the
  active regions and the lookup of the region that contains an address, with its
  one-entry cache. The settings are in the theory \<^verbatim>\<open>Config\<close>, the operations that start and
  stop the paging engine in \<^verbatim>\<open>Umap_API\<close>.
\<close>

section \<open>The ordered map of active regions\<close>

text \<open>
  \<^verbatim>\<open>std::map<void*, RegionDescriptor*>\<close>: an association list with strictly increasing
  keys. An iterator is a position; \<^verbatim>\<open>end()\<close> is the length. The cached iterator
  \<^verbatim>\<open>m_last_iter\<close> is stable under insertion and is named by its key, \<open>None\<close> being
  \<^verbatim>\<open>end()\<close>.
\<close>

type_synonym region_map = "(addr \<times> rid) list"

fun map_insert :: "addr \<Rightarrow> rid \<Rightarrow> region_map \<Rightarrow> region_map" where
  "map_insert k v [] = [(k, v)]"
| "map_insert k v ((k', v') # m) =
     (if k < k' then (k, v) # (k', v') # m
      else if k = k' then (k, v) # m
      else (k', v') # map_insert k v m)"

definition map_erase :: "addr \<Rightarrow> region_map \<Rightarrow> region_map" where
  "map_erase k m = filter (\<lambda>(k', _). k' \<noteq> k) m"

definition upper_bound :: "region_map \<Rightarrow> addr \<Rightarrow> nat" where
  "upper_bound m k = length (takeWhile (\<lambda>(k', _). k' \<le> k) m)"

record RegionTable =
  m_active_regions :: region_map
  m_last_iter :: "addr option"
  rds :: "rid \<Rightarrow> RegionDescriptor"

definition get_num_active_regions :: "RegionTable \<Rightarrow> nat" where
  "get_num_active_regions rt = length (m_active_regions rt)"

definition region_search :: "addr \<Rightarrow> RegionTable \<Rightarrow> rid option \<times> RegionTable" where
  "region_search vaddr rt =
     (let iter = upper_bound (m_active_regions rt) vaddr in
      if iter \<noteq> 0 then
        let kr = m_active_regions rt ! (iter - 1);
            b = rd_start (rds rt (snd kr)); e = rd_end (rds rt (snd kr))
        in if b \<le> vaddr \<and> vaddr < e
           then (Some (snd kr), rt\<lparr>m_last_iter := Some (fst kr)\<rparr>)
           else (None, rt)
      else (None, rt))"

definition containing_region :: "addr \<Rightarrow> RegionTable \<Rightarrow> rid option \<times> RegionTable" where
  "containing_region vaddr rt =
     (case Option.bind (m_last_iter rt) (map_of (m_active_regions rt)) of
        None \<Rightarrow> region_search vaddr rt
      | Some r \<Rightarrow>
          if rd_start (rds rt r) \<le> vaddr \<and> vaddr < rd_end (rds rt r)
          then (Some r, rt) else region_search vaddr rt)"

text \<open>The table part of \<open>addRegion\<close> and of \<open>removeRegion\<close>.\<close>

definition table_add :: "rid \<Rightarrow> RegionDescriptor \<Rightarrow> RegionTable \<Rightarrow> RegionTable" where
  "table_add r rd rt =
     rt\<lparr>m_active_regions := map_insert (rd_start rd) r (m_active_regions rt),
        rds := (rds rt)(r := rd), m_last_iter := None\<rparr>"

definition table_remove :: "addr \<Rightarrow> RegionTable \<Rightarrow> RegionTable" where
  "table_remove k rt =
     rt\<lparr>m_active_regions := map_erase k (m_active_regions rt), m_last_iter := None\<rparr>"

section \<open>Ordered maps\<close>

abbreviation keys_sorted :: "region_map \<Rightarrow> bool" where
  "keys_sorted m \<equiv> sorted_wrt (<) (map fst m)"

lemma set_map_insert:
  "keys_sorted m \<Longrightarrow> set (map_insert k v m) = insert (k, v) {p \<in> set m. fst p \<noteq> k}"
  by (induction k v m rule: map_insert.induct) auto

lemma keys_map_insert: "fst ` set (map_insert k v m) = insert k (fst ` set m)"
  by (induction k v m rule: map_insert.induct) auto

lemma keys_sorted_map_insert: "keys_sorted m \<Longrightarrow> keys_sorted (map_insert k v m)"
proof (induction k v m rule: map_insert.induct)
  case (2 k v k' v' m)
  have "\<forall>x\<in>fst ` set (map_insert k v m). k' < x" if "\<not> k < k'" "k \<noteq> k'"
    using 2 that by (auto simp: keys_map_insert)
  with 2 show ?case by auto
qed simp

lemma map_of_map_insert: "keys_sorted m \<Longrightarrow> map_of (map_insert k v m) = (map_of m)(k \<mapsto> v)"
  by (induction k v m rule: map_insert.induct) (auto simp: fun_eq_iff map_of_eq_None_iff)

lemma keys_sorted_map_erase: "keys_sorted m \<Longrightarrow> keys_sorted (map_erase k m)"
proof (induction m)
  case (Cons p m)
  then show ?case by (auto simp: map_erase_def split: prod.splits)
qed (simp add: map_erase_def)

lemma keys_sorted_distinct: "keys_sorted m \<Longrightarrow> distinct (map fst m)"
  by (induction m) auto

lemma keys_sorted_key_inj:
  assumes "keys_sorted m" and "(k, v) \<in> set m" and "(k, v') \<in> set m"
  shows "v = v'"
  using assms keys_sorted_distinct eq_key_imp_eq_value by metis

text \<open>The element before the upper bound has the greatest key that is not above the argument.\<close>

lemma upper_bound_before:
  assumes "keys_sorted m" and "upper_bound m a \<noteq> 0"
  shows "m ! (upper_bound m a - 1) \<in> set m \<and> fst (m ! (upper_bound m a - 1)) \<le> a
       \<and> (\<forall>p\<in>set m. fst p \<le> a \<longrightarrow> fst p \<le> fst (m ! (upper_bound m a - 1)))"
  using assms
proof (induction m)
  case Nil
  then show ?case by (simp add: upper_bound_def)
next
  case (Cons p m)
  then have hd: "fst p \<le> a" by (auto simp: upper_bound_def split: if_splits prod.splits)
  then have ub: "upper_bound (p # m) a = Suc (upper_bound m a)"
    by (cases p) (simp add: upper_bound_def)
  show ?case
  proof (cases "upper_bound m a = 0")
    case True
    have "\<not> fst q \<le> a" if "q \<in> set m" for q
    proof (cases m)
      case (Cons q' m')
      with True have "a < fst q'" by (auto simp: upper_bound_def split: if_splits prod.splits)
      with Cons \<open>keys_sorted (p # m)\<close> that show ?thesis by force
    qed (use that in simp)
    with True ub hd show ?thesis by auto
  next
    case False
    with Cons have IH: "m ! (upper_bound m a - 1) \<in> set m \<and> fst (m ! (upper_bound m a - 1)) \<le> a
       \<and> (\<forall>p\<in>set m. fst p \<le> a \<longrightarrow> fst p \<le> fst (m ! (upper_bound m a - 1)))"
      by simp
    moreover have "(p # m) ! (upper_bound (p # m) a - 1) = m ! (upper_bound m a - 1)"
      using False ub by (cases "upper_bound m a") simp_all
    moreover have "fst p \<le> fst (m ! (upper_bound m a - 1))"
      using IH \<open>keys_sorted (p # m)\<close> by force
    ultimately show ?thesis by auto
  qed
qed

lemma upper_bound_0:
  assumes "keys_sorted m" and "upper_bound m a = 0" and "p \<in> set m"
  shows "a < fst p"
proof (cases m)
  case (Cons q m')
  with assms(2) have "a < fst q" by (auto simp: upper_bound_def split: if_splits prod.splits)
  with Cons assms(1,3) show ?thesis by force
qed (use assms in simp)

section \<open>The table invariant\<close>

definition table_ok :: "RegionTable \<Rightarrow> bool" where
  "table_ok rt \<longleftrightarrow>
     keys_sorted (m_active_regions rt)
   \<and> (\<forall>(k, r) \<in> set (m_active_regions rt). rd_start (rds rt r) = k \<and> rd_sound (rds rt r))
   \<and> (\<forall>(k, r) \<in> set (m_active_regions rt). \<forall>(k', r') \<in> set (m_active_regions rt).
        k \<noteq> k' \<longrightarrow> (\<forall>a. \<not> (in_region (rds rt r) a \<and> in_region (rds rt r') a)))
   \<and> (\<forall>k. m_last_iter rt = Some k \<longrightarrow> k \<in> fst ` set (m_active_regions rt))"

text \<open>The address lies in the active region \<open>r\<close>.\<close>

definition covers :: "RegionTable \<Rightarrow> rid \<Rightarrow> addr \<Rightarrow> bool" where
  "covers rt r a \<longleftrightarrow> (\<exists>k. (k, r) \<in> set (m_active_regions rt)) \<and> in_region (rds rt r) a"

lemma table_okD:
  assumes "table_ok rt"
  shows "keys_sorted (m_active_regions rt)"
    and "(k, r) \<in> set (m_active_regions rt) \<Longrightarrow> rd_start (rds rt r) = k"
    and "(k, r) \<in> set (m_active_regions rt) \<Longrightarrow> rd_sound (rds rt r)"
    and "(k, r) \<in> set (m_active_regions rt) \<Longrightarrow> (k', r') \<in> set (m_active_regions rt) \<Longrightarrow>
         in_region (rds rt r) a \<Longrightarrow> in_region (rds rt r') a \<Longrightarrow> k = k'"
    and "m_last_iter rt = Some k \<Longrightarrow> k \<in> fst ` set (m_active_regions rt)"
  using assms unfolding table_ok_def by fast+

lemma table_okI:
  assumes "keys_sorted (m_active_regions rt)"
    and "\<And>k r. (k, r) \<in> set (m_active_regions rt) \<Longrightarrow>
           rd_start (rds rt r) = k \<and> rd_sound (rds rt r)"
    and "\<And>k r k' r' a. (k, r) \<in> set (m_active_regions rt) \<Longrightarrow>
           (k', r') \<in> set (m_active_regions rt) \<Longrightarrow> k \<noteq> k' \<Longrightarrow>
           \<not> (in_region (rds rt r) a \<and> in_region (rds rt r') a)"
    and "\<And>k. m_last_iter rt = Some k \<Longrightarrow> k \<in> fst ` set (m_active_regions rt)"
  shows "table_ok rt"
  using assms unfolding table_ok_def by blast

lemma covers_unique:
  assumes "table_ok rt" and "covers rt r a" and "covers rt r' a"
  shows "r = r'"
proof -
  from assms(2,3) obtain k k' where
    k: "(k, r) \<in> set (m_active_regions rt)" "(k', r') \<in> set (m_active_regions rt)"
    and "in_region (rds rt r) a" "in_region (rds rt r') a"
    by (auto simp: covers_def)
  with table_okD(4) [OF assms(1) k] have "k = k'" by blast
  with k table_okD(1) [OF assms(1)] show ?thesis using keys_sorted_key_inj by blast
qed

text \<open>If the region with the greatest start below the address does not hold it, none does.\<close>

lemma greatest_start_covers:
  assumes ok: "table_ok rt" and p: "(k, r) \<in> set (m_active_regions rt)" and le: "k \<le> a"
    and greatest: "\<forall>p\<in>set (m_active_regions rt). fst p \<le> a \<longrightarrow> fst p \<le> k"
    and c: "covers rt r' a"
  shows "r' = r"
proof -
  from c obtain k' where k': "(k', r') \<in> set (m_active_regions rt)"
    and a: "in_region (rds rt r') a"
    by (auto simp: covers_def)
  have start': "rd_start (rds rt r') = k'" and start: "rd_start (rds rt r) = k"
    using table_okD(2) [OF ok] k' p by auto
  from a start' have "k' \<le> a" by (simp add: in_region_def)
  with greatest k' have "k' \<le> k" by force
  with a le start' have "in_region (rds rt r') k" by (auto simp: in_region_def)
  moreover have "in_region (rds rt r) k"
    using start_in_region [OF table_okD(3) [OF ok p]] start by simp
  ultimately have "k = k'" using table_okD(4) [OF ok p k'] by blast
  with p k' table_okD(1) [OF ok] show ?thesis using keys_sorted_key_inj by blast
qed

lemma region_search_cases:
  fixes rt a
  defines "kr \<equiv> m_active_regions rt ! (upper_bound (m_active_regions rt) a - 1)"
  shows "region_search a rt =
     (if upper_bound (m_active_regions rt) a \<noteq> 0 \<and> in_region (rds rt (snd kr)) a
      then (Some (snd kr), rt\<lparr>m_last_iter := Some (fst kr)\<rparr>) else (None, rt))"
  by (simp add: region_search_def kr_def in_region_def Let_def)

lemma containing_region_cases:
  "containing_region a rt =
     (case Option.bind (m_last_iter rt) (map_of (m_active_regions rt)) of
        None \<Rightarrow> region_search a rt
      | Some r \<Rightarrow> if in_region (rds rt r) a then (Some r, rt) else region_search a rt)"
  by (simp only: containing_region_def in_region_def)

lemma containing_region_frame:
  "m_active_regions (snd (containing_region a rt)) = m_active_regions rt"
  "rds (snd (containing_region a rt)) = rds rt"
  by (simp_all add: containing_region_cases region_search_cases split: option.split)

lemma region_search_Some:
  assumes ok: "table_ok rt" and res: "region_search a rt = (Some r, rt')"
  shows "covers rt r a \<and> table_ok rt'"
proof -
  let ?m = "m_active_regions rt" and ?i = "upper_bound (m_active_regions rt) a"
  have i: "?i \<noteq> 0" and r: "r = snd (?m ! (?i - 1))" and a: "in_region (rds rt r) a"
    and rt': "rt' = rt\<lparr>m_last_iter := Some (fst (?m ! (?i - 1)))\<rparr>"
    using res by (simp_all add: region_search_cases split: if_splits)
  have mem: "?m ! (?i - 1) \<in> set ?m"
    using upper_bound_before [OF table_okD(1) [OF ok] i] by blast
  then have "covers rt r a" using r a by (metis covers_def prod.collapse)
  moreover have "table_ok rt'" using ok mem rt' by (simp add: table_ok_def)
  ultimately show ?thesis by blast
qed

lemma region_search_None:
  assumes ok: "table_ok rt" and res: "region_search a rt = (None, rt')"
  shows "\<not> covers rt r a \<and> rt' = rt"
proof -
  let ?m = "m_active_regions rt" and ?i = "upper_bound (m_active_regions rt) a"
  have sorted: "keys_sorted ?m" using ok by (rule table_okD)
  have miss: "?i \<noteq> 0 \<Longrightarrow> \<not> in_region (rds rt (snd (?m ! (?i - 1)))) a" and rt': "rt' = rt"
    using res by (simp_all add: region_search_cases split: if_splits)
  have "\<not> covers rt r a"
  proof
    assume c: "covers rt r a"
    then obtain k where k: "(k, r) \<in> set ?m" and a: "in_region (rds rt r) a"
      by (auto simp: covers_def)
    then have "k \<le> a" using table_okD(2) [OF ok k] by (simp add: in_region_def)
    then have i: "?i \<noteq> 0" using upper_bound_0 [OF sorted _ k] by force
    obtain k' q where kq: "?m ! (?i - 1) = (k', q)" by (cases "?m ! (?i - 1)")
    then have "r = q"
      using greatest_start_covers [OF ok _ _ _ c, of k' q] upper_bound_before [OF sorted i] by auto
    with a miss [OF i] kq show False by simp
  qed
  with rt' show ?thesis by simp
qed

lemma containing_region_Some:
  assumes ok: "table_ok rt" and res: "containing_region a rt = (Some r, rt')"
  shows "covers rt r a \<and> table_ok rt'"
proof (cases "Option.bind (m_last_iter rt) (map_of (m_active_regions rt))")
  case None
  with res have "region_search a rt = (Some r, rt')" by (simp add: containing_region_cases)
  with ok show ?thesis by (rule region_search_Some)
next
  case (Some q)
  show ?thesis
  proof (cases "in_region (rds rt q) a")
    case True
    with res Some have "q = r" "rt' = rt" by (simp_all add: containing_region_cases)
    moreover from Some obtain k where "(k, q) \<in> set (m_active_regions rt)"
      by (metis bind_eq_Some_conv map_of_SomeD)
    ultimately show ?thesis using ok True by (metis covers_def)
  next
    case False
    with res Some have "region_search a rt = (Some r, rt')" by (simp add: containing_region_cases)
    with ok show ?thesis by (rule region_search_Some)
  qed
qed

lemma containing_region_None:
  assumes ok: "table_ok rt" and res: "containing_region a rt = (None, rt')"
  shows "\<not> covers rt r a \<and> rt' = rt"
proof (rule region_search_None [OF ok])
  show "region_search a rt = (None, rt')"
    using res by (simp add: containing_region_cases split: option.splits if_splits)
qed

section \<open>The lookup interface\<close>

text \<open>
  What the callers of a region lookup rely on: the answer is the one region that
  covers the address, and the lookup changes nothing but its own cache.
\<close>

locale region_lookup =
  fixes lookup :: "addr \<Rightarrow> 't \<Rightarrow> 'r option \<times> 't"
    and cover :: "'t \<Rightarrow> 'r \<Rightarrow> addr \<Rightarrow> bool"
    and invar :: "'t \<Rightarrow> bool"
  assumes lookup_Some: "invar t \<Longrightarrow> lookup a t = (Some r, t') \<Longrightarrow> cover t r a"
    and lookup_None: "invar t \<Longrightarrow> lookup a t = (None, t') \<Longrightarrow> \<not> cover t r a"
    and lookup_invar: "invar t \<Longrightarrow> invar (snd (lookup a t))"
    and lookup_cover: "cover (snd (lookup a t)) = cover t"
    and cover_unique: "invar t \<Longrightarrow> cover t r a \<Longrightarrow> cover t r' a \<Longrightarrow> r = r'"
begin

lemma lookup_iff: "invar t \<Longrightarrow> fst (lookup a t) = Some r \<longleftrightarrow> cover t r a"
  using lookup_Some lookup_None cover_unique by (metis option.exhaust prod.collapse)

fun lookup_all :: "addr list \<Rightarrow> 't \<Rightarrow> 't" where
  "lookup_all [] t = t"
| "lookup_all (a # as) t = lookup_all as (snd (lookup a t))"

lemma lookup_all_invar: "invar t \<Longrightarrow> invar (lookup_all as t) \<and> cover (lookup_all as t) = cover t"
  by (induction as arbitrary: t) (simp_all add: lookup_invar lookup_cover)

lemma lookup_history_irrelevant:
  assumes "invar t"
  shows "fst (lookup a (lookup_all as t)) = fst (lookup a t)"
  using assms lookup_all_invar [OF assms, of as] lookup_iff by (metis option.exhaust)

end

interpretation rm: region_lookup containing_region covers table_ok
proof unfold_locales
  fix a t r t'
  show "table_ok t \<Longrightarrow> containing_region a t = (Some r, t') \<Longrightarrow> covers t r a"
    using containing_region_Some by blast
  show "table_ok t \<Longrightarrow> containing_region a t = (None, t') \<Longrightarrow> \<not> covers t r a"
    using containing_region_None by blast
  show "table_ok t \<Longrightarrow> table_ok (snd (containing_region a t))"
    using containing_region_Some containing_region_None by (metis option.exhaust prod.collapse)
  show "covers (snd (containing_region a t)) = covers t"
    by (simp add: covers_def fun_eq_iff containing_region_frame)
  show "table_ok t \<Longrightarrow> covers t r a \<Longrightarrow> covers t r' a \<Longrightarrow> r = r'" for r'
    by (rule covers_unique)
qed

section \<open>Adding and removing regions\<close>

definition no_overlap :: "RegionTable \<Rightarrow> RegionDescriptor \<Rightarrow> bool" where
  "no_overlap rt rd \<longleftrightarrow> (\<forall>q a. covers rt q a \<longrightarrow> \<not> in_region rd a)"

lemma new_start_fresh:
  assumes "table_ok rt" and "rd_sound rd" and "no_overlap rt rd"
  shows "rd_start rd \<notin> fst ` set (m_active_regions rt)"
proof
  assume "rd_start rd \<in> fst ` set (m_active_regions rt)"
  then obtain q where q: "(rd_start rd, q) \<in> set (m_active_regions rt)" by force
  then have "in_region (rds rt q) (rd_start rd)"
    using start_in_region [OF table_okD(3) [OF assms(1) q]] table_okD(2) [OF assms(1) q] by simp
  with q assms(3) start_in_region [OF assms(2)] show False by (metis covers_def no_overlap_def)
qed

lemma set_table_add:
  assumes "table_ok rt" and "rd_sound rd" and "no_overlap rt rd"
  shows "set (m_active_regions (table_add r rd rt)) =
     insert (rd_start rd, r) (set (m_active_regions rt))"
proof -
  have "{p \<in> set (m_active_regions rt). fst p \<noteq> rd_start rd} = set (m_active_regions rt)"
    using new_start_fresh [OF assms] by force
  then show ?thesis
    using set_map_insert [OF table_okD(1) [OF assms(1)], of "rd_start rd" r]
    by (simp add: table_add_def)
qed

lemma covers_table_add:
  assumes "table_ok rt" and "rd_sound rd" and "r \<notin> snd ` set (m_active_regions rt)"
    and "no_overlap rt rd"
  shows "covers (table_add r rd rt) q a \<longleftrightarrow> (q = r \<and> in_region rd a) \<or> covers rt q a"
proof -
  have "rds (table_add r rd rt) q = (if q = r then rd else rds rt q)"
    by (simp add: table_add_def)
  moreover have "\<not> covers rt r a" using assms(3) by (force simp: covers_def)
  ultimately show ?thesis
    unfolding covers_def set_table_add [OF assms(1,2,4)] by auto
qed

lemma table_add_ok:
  assumes ok: "table_ok rt" and sound: "rd_sound rd"
    and fresh: "r \<notin> snd ` set (m_active_regions rt)"
    and apart: "no_overlap rt rd"
  shows "table_ok (table_add r rd rt)"
proof -
  let ?t = "table_add r rd rt"
  have old: "rds ?t q = rds rt q" if "(k, q) \<in> set (m_active_regions rt)" for k q
    using that fresh by (force simp: table_add_def)
  have new: "rds ?t r = rd" by (simp add: table_add_def)
  have clash: False if "(k, q) \<in> set (m_active_regions rt)" "in_region (rds rt q) a"
    "in_region rd a" for k q a
    using that apart by (auto simp: covers_def no_overlap_def)
  have "keys_sorted (m_active_regions ?t)"
    using table_okD(1) [OF ok] by (simp add: table_add_def keys_sorted_map_insert)
  moreover have "rd_start (rds ?t q) = k \<and> rd_sound (rds ?t q)"
    if "(k, q) \<in> set (m_active_regions ?t)" for k q
    using that sound old new table_okD(2,3) [OF ok]
    unfolding set_table_add [OF ok sound apart] by auto
  moreover have "\<not> (in_region (rds ?t q) a \<and> in_region (rds ?t q') a)"
    if "(k, q) \<in> set (m_active_regions ?t)" "(k', q') \<in> set (m_active_regions ?t)" "k \<noteq> k'"
    for k q k' q' a
    using that clash old new table_okD(4) [OF ok]
    unfolding set_table_add [OF ok sound apart] by auto
  moreover have "m_last_iter ?t = None" by (simp add: table_add_def)
  ultimately show ?thesis by (intro table_okI) simp_all
qed

lemma table_remove_ok:
  assumes "table_ok rt"
  shows "table_ok (table_remove k rt)"
proof (rule table_okI)
  show "keys_sorted (m_active_regions (table_remove k rt))"
    using keys_sorted_map_erase [OF table_okD(1) [OF assms]] by (simp add: table_remove_def)
  have old: "p \<in> set (m_active_regions rt)" if "p \<in> set (m_active_regions (table_remove k rt))" for p
    using that by (simp add: table_remove_def map_erase_def)
  have rds: "rds (table_remove k rt) = rds rt" by (simp add: table_remove_def)
  show "rd_start (rds (table_remove k rt) r) = k' \<and> rd_sound (rds (table_remove k rt) r)"
    if "(k', r) \<in> set (m_active_regions (table_remove k rt))" for k' r
    using table_okD(2,3) [OF assms old [OF that]] by (simp add: rds)
  show "\<not> (in_region (rds (table_remove k rt) r) a \<and> in_region (rds (table_remove k rt) r') a)"
    if "(k1, r) \<in> set (m_active_regions (table_remove k rt))"
      "(k2, r') \<in> set (m_active_regions (table_remove k rt))" "k1 \<noteq> k2" for k1 r k2 r' a
    using table_okD(4) [OF assms old [OF that(1)] old [OF that(2)]] that(3) by (auto simp: rds)
qed (simp add: table_remove_def)

lemma covers_table_remove:
  assumes "table_ok rt"
  shows "covers (table_remove k rt) q a \<longleftrightarrow> covers rt q a \<and> rd_start (rds rt q) \<noteq> k"
  using table_okD(2) [OF assms]
  by (auto simp: covers_def table_remove_def map_erase_def)

section \<open>Properties\<close>

text \<open>
  C19: The cached region lookup is exact. For any table whose regions do not overlap,
  \<open>containing_region\<close> returns a region if and only if the address lies in it,
  whatever earlier lookups left in the one-entry cache, and it keeps the table
  sound.
\<close>

theorem containing_region_correct:
  assumes "table_ok rt"
  shows "(fst (containing_region a rt) = Some r \<longleftrightarrow> covers rt r a)
       \<and> fst (containing_region a (snd (containing_region b rt))) = fst (containing_region a rt)
       \<and> table_ok (snd (containing_region b rt))"
  using assms rm.lookup_iff [OF assms, of a r] rm.lookup_history_irrelevant [OF assms, of a "[b]"]
    rm.lookup_invar [OF assms, of b]
  by simp

definition rt_demo :: RegionTable where
  "rt_demo =
     table_add 1 (RegionDescriptor_init 0x9000 0x1000 0x9000 0x2000 0)
       (table_add 0 (RegionDescriptor_init 0x4000 0x2000 0x4000 0x3000 0)
          \<lparr>m_active_regions = [], m_last_iter = None,
           rds = (\<lambda>_. RegionDescriptor_init 0 0 0 0 0)\<rparr>)"

lemma rt_demo_ok: "table_ok rt_demo"
proof -
  have eval: "rt_demo = \<lparr>m_active_regions = [(0x4000, 0), (0x9000, 1)], m_last_iter = None,
      rds = (\<lambda>_. RegionDescriptor_init 0 0 0 0 0)
        (0 := RegionDescriptor_init 0x4000 0x2000 0x4000 0x3000 0,
         1 := RegionDescriptor_init 0x9000 0x1000 0x9000 0x2000 0)\<rparr>"
    by (simp add: rt_demo_def table_add_def RegionDescriptor_init_def rd_start_def)
  have "\<not> (0x9000 \<le> a \<and> a < 0x6000)" for a :: addr
    using order.strict_trans1 [of "0x9000" a "0x6000"] by auto
  then show ?thesis
    unfolding eval
    by (auto simp: table_ok_def RegionDescriptor_init_def rd_start_def rd_size_def rd_end_def
        rd_sound_def in_region_def)
qed

theorem containing_region_correct_witness:
  "table_ok rt_demo \<and> fst (containing_region 0x5FFF rt_demo) = Some 0
   \<and> fst (containing_region 0x5FFF (snd (containing_region 0x9000 rt_demo))) = Some 0"
proof -
  have "fst (containing_region 0x5FFF rt_demo) = Some 0"
    by (simp add: rt_demo_def table_add_def RegionDescriptor_init_def rd_defs
        containing_region_def region_search_def upper_bound_def)
  with containing_region_correct [OF rt_demo_ok, of "0x5FFF" 0 "0x9000"] rt_demo_ok
  show ?thesis by simp
qed

text \<open>
  C20: Registration and removal. Adding a region that overlaps no active one keeps the
  table sound and adds exactly its addresses; removing the region that starts at
  an address keeps the table sound and drops exactly that region's addresses.
\<close>

theorem region_table_updates:
  assumes "table_ok rt" and "rd_sound rd" and "r \<notin> snd ` set (m_active_regions rt)"
    and "no_overlap rt rd"
  shows "table_ok (table_add r rd rt)
       \<and> (covers (table_add r rd rt) q a \<longleftrightarrow> (q = r \<and> in_region rd a) \<or> covers rt q a)
       \<and> table_ok (table_remove k rt)
       \<and> (covers (table_remove k rt) q a \<longleftrightarrow> covers rt q a \<and> rd_start (rds rt q) \<noteq> k)"
  using table_add_ok [OF assms] covers_table_add [OF assms] table_remove_ok [OF assms(1)]
    covers_table_remove [OF assms(1)]
  by blast

theorem region_table_updates_witness:
  "table_ok (table_add 2 (RegionDescriptor_init 0x1000 0x1000 0x1000 0x2000 0) rt_demo)
   \<and> covers (table_add 2 (RegionDescriptor_init 0x1000 0x1000 0x1000 0x2000 0) rt_demo) 2 0x1800"
proof -
  let ?rd = "RegionDescriptor_init 0x1000 0x1000 0x1000 0x2000 0"
  have eval: "m_active_regions rt_demo = [(0x4000, 0), (0x9000, 1)]"
    "rds rt_demo 0 = RegionDescriptor_init 0x4000 0x2000 0x4000 0x3000 0"
    "rds rt_demo 1 = RegionDescriptor_init 0x9000 0x1000 0x9000 0x2000 0"
    by (simp_all add: rt_demo_def table_add_def RegionDescriptor_init_def rd_start_def)
  have bounds: "rd_start ?rd = 0x1000" "rd_end ?rd = 0x2000" "rd_size ?rd = 0x1000"
    by (simp_all add: RegionDescriptor_init_def rd_defs)
  have "\<not> in_region ?rd a" if "covers rt_demo q a" for q a
  proof -
    have "q = 0 \<and> 0x4000 \<le> a \<or> q = 1 \<and> 0x9000 \<le> a"
      using that unfolding covers_def eval
      by (auto simp: in_region_def rd_start_def eval [unfolded One_nat_def]
          RegionDescriptor_init_def)
    then have "0x4000 \<le> a" using order_trans [of "0x4000" "0x9000" a] by auto
    then have "\<not> a < 0x2000" using order.strict_trans1 [of "0x4000" a "0x2000"] by auto
    then show ?thesis by (simp add: in_region_def bounds)
  qed
  then have "no_overlap rt_demo ?rd" by (simp add: no_overlap_def)
  moreover have "rd_sound ?rd" by (simp add: rd_sound_def bounds)
  moreover have "(2::rid) \<notin> snd ` set (m_active_regions rt_demo)" by (simp add: eval)
  ultimately show ?thesis
    using region_table_updates [OF rt_demo_ok, of ?rd 2 2 "0x1800" 0]
    by (simp add: in_region_def bounds)
qed

end
