(* ===== verification/Work_Queue.thy ===== *)
theory Work_Queue
  imports Umap_Prelude
begin

text \<open>
  The blocking queue of \<^verbatim>\<open>WorkQueue.hpp\<close>. Every method is a critical section of the
  queue's mutex; a section that calls \<^verbatim>\<open>pthread_cond_wait\<close> ends there and is resumed
  by a later one, so \<open>dequeue\<close> and \<open>wait_for_idle\<close> are given by their entry and by
  their loop, which either finishes or has to wait. On top of the sections stands
  the machine of the worker threads and of the threads in \<open>wait_for_idle\<close>, with
  the two condition variables explicit: a waiting thread is asleep until it is
  signalled, or wakes up spuriously as POSIX allows.
\<close>

section \<open>The queue and its methods\<close>

record 'a WorkQueue =
  m_queue :: "'a list"
  m_max_waiting :: u64
  m_waiting_workers :: u64
  m_idle_waiters :: int

definition WorkQueue_init :: "int \<Rightarrow> 'a WorkQueue" where
  "WorkQueue_init max_workers =
     \<lparr>m_queue = [], m_max_waiting = word_of_int max_workers, m_waiting_workers = 0,
      m_idle_waiters = 0\<rparr>"

text \<open>
  What a critical section does to the condition variables: nothing, one signal, or
  the caller goes to sleep (after a signal of \<^verbatim>\<open>m_idle_cond\<close> or without one).
\<close>

definition enqueue :: "'a \<Rightarrow> 'a WorkQueue \<Rightarrow> 'a WorkQueue" where
  "enqueue item wq = wq\<lparr>m_queue := m_queue wq @ [item]\<rparr>"

definition dequeue_begin :: "'a WorkQueue \<Rightarrow> 'a WorkQueue" where
  "dequeue_begin wq = wq\<lparr>m_waiting_workers := m_waiting_workers wq + 1\<rparr>"

definition signals_idle :: "'a WorkQueue \<Rightarrow> bool" where
  "signals_idle wq \<longleftrightarrow> m_waiting_workers wq = m_max_waiting wq \<and> m_idle_waiters wq \<noteq> 0"

datatype 'a dequeue_out = Must_wait bool | Got 'a

definition dequeue_loop :: "'a WorkQueue \<Rightarrow> 'a WorkQueue \<times> 'a dequeue_out" where
  "dequeue_loop wq =
     (case m_queue wq of
        [] \<Rightarrow> (wq, Must_wait (signals_idle wq))
      | item # rest \<Rightarrow>
          (wq\<lparr>m_waiting_workers := m_waiting_workers wq - 1, m_queue := rest\<rparr>, Got item))"

definition dequeue :: "'a WorkQueue \<Rightarrow> 'a WorkQueue \<times> 'a dequeue_out" where
  "dequeue wq = dequeue_loop (dequeue_begin wq)"

definition is_idle :: "'a WorkQueue \<Rightarrow> bool" where
  "is_idle wq \<longleftrightarrow> m_queue wq = [] \<and> m_waiting_workers wq = m_max_waiting wq"

definition wait_for_idle_begin :: "'a WorkQueue \<Rightarrow> 'a WorkQueue" where
  "wait_for_idle_begin wq = wq\<lparr>m_idle_waiters := m_idle_waiters wq + 1\<rparr>"

text \<open>\<open>None\<close>: the loop has to wait on \<^verbatim>\<open>m_idle_cond\<close>.\<close>

definition wait_for_idle_loop :: "'a WorkQueue \<Rightarrow> 'a WorkQueue option" where
  "wait_for_idle_loop wq =
     (if \<not> is_idle wq then None
      else Some (wq\<lparr>m_idle_waiters := m_idle_waiters wq - 1\<rparr>))"

definition is_empty :: "'a WorkQueue \<Rightarrow> bool" where
  "is_empty wq \<longleftrightarrow> length (m_queue wq) = 0"

lemmas wq_defs = enqueue_def dequeue_begin_def dequeue_loop_def dequeue_def is_idle_def
  wait_for_idle_begin_def wait_for_idle_loop_def signals_idle_def is_empty_def

section \<open>The channel interface\<close>

text \<open>
  What the users of a queue rely on: what is sent is received once, in the order
  of sending.
\<close>

locale work_channel =
  fixes send :: "'a \<Rightarrow> 'q \<Rightarrow> 'q"
    and recv :: "'q \<Rightarrow> ('a \<times> 'q) option"
    and items :: "'q \<Rightarrow> 'a list"
  assumes items_send: "items (send x q) = items q @ [x]"
    and recv_None: "recv q = None \<longleftrightarrow> items q = []"
    and recv_Some: "recv q = Some (x, q') \<Longrightarrow> items q = x # items q'"
begin

fun send_all :: "'a list \<Rightarrow> 'q \<Rightarrow> 'q" where
  "send_all [] q = q"
| "send_all (x # xs) q = send_all xs (send x q)"

fun recv_n :: "nat \<Rightarrow> 'q \<Rightarrow> 'a list \<times> 'q" where
  "recv_n 0 q = ([], q)"
| "recv_n (Suc n) q =
     (case recv q of
        None \<Rightarrow> ([], q)
      | Some (x, q') \<Rightarrow> (case recv_n n q' of (xs, q'') \<Rightarrow> (x # xs, q'')))"

lemma items_send_all: "items (send_all xs q) = items q @ xs"
  by (induction xs arbitrary: q) (simp_all add: items_send)

lemma recv_n_items: "recv_n n q = (xs, q') \<Longrightarrow> items q = xs @ items q' \<and> length xs = min n (length (items q))"
proof (induction n arbitrary: q xs q')
  case 0
  then show ?case by simp
next
  case (Suc n)
  show ?case
  proof (cases "recv q")
    case None
    with Suc.prems recv_None [of q] show ?thesis by auto
  next
    case (Some p)
    obtain x q1 where p: "p = (x, q1)" by (cases p)
    obtain ys q2 where r: "recv_n n q1 = (ys, q2)" by (cases "recv_n n q1")
    from Some p recv_Some have q: "items q = x # items q1" by blast
    from Suc.prems Some p r have xs: "xs = x # ys" "q' = q2" by simp_all
    from Suc.IH [OF r] have "items q1 = ys @ items q2" by blast
    then have split: "items q = xs @ items q'" by (simp add: q xs)
    from Suc.IH [OF r] have "length ys = min n (length (items q1))" by blast
    then have "length xs = min (Suc n) (length (items q))" by (simp add: q xs)
    with split show ?thesis by blast
  qed
qed

lemma recv_n_send_all:
  assumes "items q = []"
  shows "fst (recv_n (length xs) (send_all xs q)) = xs"
proof -
  obtain ys q' where r: "recv_n (length xs) (send_all xs q) = (ys, q')"
    by (cases "recv_n (length xs) (send_all xs q)")
  have eq: "xs = ys @ items q'"
    using recv_n_items [OF r, THEN conjunct1] assms by (simp add: items_send_all)
  have len: "length ys = length xs"
    using recv_n_items [OF r, THEN conjunct2] assms by (simp add: items_send_all)
  from len have "items q' = []" by (subst (asm) eq) simp
  with eq r show ?thesis by simp
qed

end

text \<open>The receiving side of the queue as one function: \<open>None\<close> when the caller would wait.\<close>

definition try_dequeue :: "'a WorkQueue \<Rightarrow> ('a \<times> 'a WorkQueue) option" where
  "try_dequeue wq =
     (case dequeue wq of (_, Must_wait _) \<Rightarrow> None | (wq', Got x) \<Rightarrow> Some (x, wq'))"

interpretation wq: work_channel enqueue try_dequeue m_queue
  by unfold_locales
    (auto simp: wq_defs try_dequeue_def split: list.splits)

section \<open>Threads on the queue\<close>

text \<open>
  A worker is busy (outside of \<open>dequeue\<close>), asleep on \<^verbatim>\<open>m_cond\<close>, or signalled and about
  to run the loop again. A thread in \<open>wait_for_idle\<close> is described in the same way.
\<close>

datatype wait_pc = Busy | Sleeping | Signalled

record 'a wq_sys =
  wq_of :: "'a WorkQueue"
  workers :: "nat \<Rightarrow> wait_pc"
  waiters :: "nat \<Rightarrow> wait_pc"

text \<open>
  \<^verbatim>\<open>pthread_cond_signal\<close> wakes one of the threads below \<open>n\<close> that sleep on the
  variable, and does nothing when there is none.
\<close>

inductive cond_signal :: "nat \<Rightarrow> (nat \<Rightarrow> wait_pc) \<Rightarrow> (nat \<Rightarrow> wait_pc) \<Rightarrow> bool" where
  wake_one: "i < n \<Longrightarrow> pc i = Sleeping \<Longrightarrow> cond_signal n pc (pc(i := Signalled))"
| wake_none: "\<forall>i<n. pc i \<noteq> Sleeping \<Longrightarrow> cond_signal n pc pc"

datatype 'a wq_event = Enq 'a | Deq nat 'a | Idle nat | Tau

text \<open>\<open>n\<close> workers, \<open>m\<close> threads that may call \<open>wait_for_idle\<close>.\<close>

inductive wq_step ::
  "nat \<Rightarrow> nat \<Rightarrow> 'a wq_sys \<Rightarrow> 'a wq_event \<Rightarrow> 'a wq_sys \<Rightarrow> bool" for n m where
  step_enqueue:
    "cond_signal n (workers s) ws \<Longrightarrow>
     wq_step n m s (Enq x) (s\<lparr>wq_of := enqueue x (wq_of s), workers := ws\<rparr>)"
| step_dequeue:
    "i < n \<Longrightarrow> workers s i = Busy \<Longrightarrow> dequeue (wq_of s) = (wq', Got x) \<Longrightarrow>
     wq_step n m s (Deq i x) (s\<lparr>wq_of := wq'\<rparr>)"
| step_dequeue_sleep:
    "i < n \<Longrightarrow> workers s i = Busy \<Longrightarrow> dequeue (wq_of s) = (wq', Must_wait False) \<Longrightarrow>
     wq_step n m s Tau (s\<lparr>wq_of := wq', workers := (workers s)(i := Sleeping)\<rparr>)"
| step_dequeue_sleep_signal:
    "i < n \<Longrightarrow> workers s i = Busy \<Longrightarrow> dequeue (wq_of s) = (wq', Must_wait True) \<Longrightarrow>
     cond_signal m (waiters s) vs \<Longrightarrow>
     wq_step n m s Tau
       (s\<lparr>wq_of := wq', workers := (workers s)(i := Sleeping), waiters := vs\<rparr>)"
| step_resume:
    "i < n \<Longrightarrow> workers s i = Signalled \<Longrightarrow> dequeue_loop (wq_of s) = (wq', Got x) \<Longrightarrow>
     wq_step n m s (Deq i x) (s\<lparr>wq_of := wq', workers := (workers s)(i := Busy)\<rparr>)"
| step_resume_sleep:
    "i < n \<Longrightarrow> workers s i = Signalled \<Longrightarrow>
     dequeue_loop (wq_of s) = (wq', Must_wait False) \<Longrightarrow>
     wq_step n m s Tau (s\<lparr>wq_of := wq', workers := (workers s)(i := Sleeping)\<rparr>)"
| step_resume_sleep_signal:
    "i < n \<Longrightarrow> workers s i = Signalled \<Longrightarrow>
     dequeue_loop (wq_of s) = (wq', Must_wait True) \<Longrightarrow> cond_signal m (waiters s) vs \<Longrightarrow>
     wq_step n m s Tau
       (s\<lparr>wq_of := wq', workers := (workers s)(i := Sleeping), waiters := vs\<rparr>)"
| step_spurious: "i < n \<Longrightarrow> workers s i = Sleeping \<Longrightarrow>
     wq_step n m s Tau (s\<lparr>workers := (workers s)(i := Signalled)\<rparr>)"
| step_idle:
    "j < m \<Longrightarrow> waiters s j = Busy \<Longrightarrow>
     wait_for_idle_loop (wait_for_idle_begin (wq_of s)) = Some wq' \<Longrightarrow>
     wq_step n m s (Idle j) (s\<lparr>wq_of := wq'\<rparr>)"
| step_idle_sleep:
    "j < m \<Longrightarrow> waiters s j = Busy \<Longrightarrow>
     wait_for_idle_loop (wait_for_idle_begin (wq_of s)) = None \<Longrightarrow>
     wq_step n m s Tau
       (s\<lparr>wq_of := wait_for_idle_begin (wq_of s), waiters := (waiters s)(j := Sleeping)\<rparr>)"
| step_idle_resume:
    "j < m \<Longrightarrow> waiters s j = Signalled \<Longrightarrow> wait_for_idle_loop (wq_of s) = Some wq' \<Longrightarrow>
     wq_step n m s (Idle j) (s\<lparr>wq_of := wq', waiters := (waiters s)(j := Busy)\<rparr>)"
| step_idle_resume_sleep:
    "j < m \<Longrightarrow> waiters s j = Signalled \<Longrightarrow> wait_for_idle_loop (wq_of s) = None \<Longrightarrow>
     wq_step n m s Tau (s\<lparr>waiters := (waiters s)(j := Sleeping)\<rparr>)"
| step_idle_spurious: "j < m \<Longrightarrow> waiters s j = Sleeping \<Longrightarrow>
     wq_step n m s Tau (s\<lparr>waiters := (waiters s)(j := Signalled)\<rparr>)"

definition wq_start :: "nat \<Rightarrow> 'a wq_sys" where
  "wq_start n =
     \<lparr>wq_of = WorkQueue_init (int n), workers = (\<lambda>_. Busy), waiters = (\<lambda>_. Busy)\<rparr>"

text \<open>The states the threads can reach, with the trace of what they did.\<close>

inductive wq_run :: "nat \<Rightarrow> nat \<Rightarrow> 'a wq_event list \<Rightarrow> 'a wq_sys \<Rightarrow> bool" for n m where
  run_start: "wq_run n m [] (wq_start n)"
| run_step: "wq_run n m tr s \<Longrightarrow> wq_step n m s e t \<Longrightarrow> wq_run n m (tr @ [e]) t"

section \<open>What the counters say about the threads\<close>

abbreviation waiting_pc :: "wait_pc \<Rightarrow> bool" where
  "waiting_pc p \<equiv> p \<noteq> Busy"

lemma cond_signal_waiting:
  assumes "cond_signal n pc pc'"
  shows "count_pc n waiting_pc pc' = count_pc n waiting_pc pc"
  using assms
proof cases
  case (wake_one i)
  then show ?thesis using count_pc_upd [of i n waiting_pc pc Signalled] by simp
qed simp

lemma cond_signal_counts:
  assumes "cond_signal n pc pc'"
  shows "count_pc n ((=) Signalled) pc' = Suc (count_pc n ((=) Signalled) pc)
       \<or> count_pc n ((=) Sleeping) pc' = 0"
  using assms
proof cases
  case (wake_one i)
  then show ?thesis using count_pc_upd [of i n "(=) Signalled" pc Signalled] by simp
next
  case wake_none
  then have "\<forall>i<n. Sleeping \<noteq> pc' i" by auto
  then show ?thesis by (simp add: count_pc_0)
qed

definition counters_ok :: "nat \<Rightarrow> nat \<Rightarrow> 'a wq_sys \<Rightarrow> bool" where
  "counters_ok n m s \<longleftrightarrow>
     m_max_waiting (wq_of s) = of_nat n
   \<and> m_waiting_workers (wq_of s) = of_nat (count_pc n waiting_pc (workers s))
   \<and> m_idle_waiters (wq_of s) = int (count_pc m waiting_pc (waiters s))"

text \<open>No wake-up of a worker is lost: items wait only while no worker sleeps that no signal is due to.\<close>

definition no_lost_work :: "nat \<Rightarrow> 'a wq_sys \<Rightarrow> bool" where
  "no_lost_work n s \<longleftrightarrow>
     length (m_queue (wq_of s)) \<le> count_pc n ((=) Signalled) (workers s)
   \<or> count_pc n ((=) Sleeping) (workers s) = 0"

lemma count_pc_waiting_upd:
  assumes "i < n"
  shows "pc i = Busy \<Longrightarrow> v \<noteq> Busy \<Longrightarrow>
           count_pc n waiting_pc (pc(i := v)) = Suc (count_pc n waiting_pc pc)"
    and "pc i \<noteq> Busy \<Longrightarrow>
           count_pc n waiting_pc (pc(i := Busy)) = count_pc n waiting_pc pc - 1"
    and "pc i \<noteq> Busy \<Longrightarrow> 0 < count_pc n waiting_pc pc"
    and "pc i \<noteq> Busy \<Longrightarrow> v \<noteq> Busy \<Longrightarrow>
           count_pc n waiting_pc (pc(i := v)) = count_pc n waiting_pc pc"
  using count_pc_upd [OF assms, of waiting_pc pc v] count_pc_upd [OF assms, of waiting_pc pc Busy]
  by simp_all

lemma counters_ok_step:
  assumes "wq_step n m s e t" and "counters_ok n m s"
  shows "counters_ok n m t"
  using assms
proof (induction rule: wq_step.induct)
  case (step_resume i s wq' x)
  from step_resume(1,2) count_pc_waiting_upd(3) [of i n "workers s"]
  have "0 < count_pc n waiting_pc (workers s)" by simp
  with step_resume show ?case
    by (auto simp: counters_ok_def wq_defs count_pc_waiting_upd(2) of_nat_diff split: list.splits)
next
  case (step_idle_resume j s wq')
  from step_idle_resume(1,2) count_pc_waiting_upd(3) [of j m "waiters s"]
  have "0 < count_pc m waiting_pc (waiters s)" by simp
  with step_idle_resume show ?case
    by (auto simp: counters_ok_def wq_defs count_pc_waiting_upd(2) of_nat_diff split: if_splits)
qed (auto simp: counters_ok_def wq_defs cond_signal_waiting count_pc_waiting_upd(1,4)
      add.commute split: list.splits if_splits)

lemma no_lost_work_step:
  assumes "wq_step n m s e t" and "no_lost_work n s"
  shows "no_lost_work n t"
  using assms
proof (induction rule: wq_step.induct)
  case (step_enqueue s ws x)
  from step_enqueue(1) show ?case
  proof cases
    case (wake_one i)
    then have "count_pc n ((=) Sleeping) (workers s) \<noteq> 0" by (auto simp: count_pc_0)
    with step_enqueue(2) wake_one count_pc_upd [of i n "(=) Signalled" "workers s" Signalled]
    show ?thesis by (simp add: no_lost_work_def wq_defs)
  next
    case wake_none
    then have "\<forall>i<n. Sleeping \<noteq> ws i" by auto
    then show ?thesis by (simp add: no_lost_work_def count_pc_0)
  qed
next
  case (step_resume i s wq' x)
  then show ?case
    using count_pc_upd [of i n "(=) Signalled" "workers s" Busy]
      count_pc_upd [of i n "(=) Sleeping" "workers s" Busy]
    by (auto simp: no_lost_work_def wq_defs split: list.splits)
next
  case (step_spurious i s)
  then have "count_pc n ((=) Sleeping) (workers s) \<noteq> 0" by (auto simp: count_pc_0)
  with step_spurious count_pc_upd [of i n "(=) Signalled" "workers s" Signalled]
  show ?case by (simp add: no_lost_work_def)
qed (auto simp: no_lost_work_def wq_defs split: list.splits if_splits)

text \<open>
  With one thread in \<open>wait_for_idle\<close> no wake-up of it is lost: while it sleeps, the
  pool is not idle.
\<close>

definition no_lost_idle :: "'a wq_sys \<Rightarrow> bool" where
  "no_lost_idle s \<longleftrightarrow> (waiters s 0 = Sleeping \<longrightarrow> \<not> is_idle (wq_of s))"

lemma cond_signal_single:
  assumes "cond_signal (Suc 0) pc pc'"
  shows "pc' 0 \<noteq> Sleeping"
  using assms by cases auto

lemma is_idle_iff:
  assumes "counters_ok n m s" and "n < 2 ^ 64"
  shows "is_idle (wq_of s) \<longleftrightarrow> m_queue (wq_of s) = [] \<and> (\<forall>i<n. workers s i \<noteq> Busy)"
proof -
  have "count_pc n waiting_pc (workers s) < 2 ^ 64"
    using assms(2) count_pc_le [of n waiting_pc "workers s"] by simp
  with assms show ?thesis
    by (simp add: is_idle_def counters_ok_def of_nat_u64_inj count_pc_all)
qed

lemma no_lost_idle_step:
  assumes step: "wq_step n (Suc 0) s e t" and ok: "counters_ok n (Suc 0) s"
    and n: "n < 2 ^ 64" and inv: "no_lost_idle s"
  shows "no_lost_idle t"
proof -
  have ok': "counters_ok n (Suc 0) t" using step ok by (rule counters_ok_step)
  have idle: "is_idle (wq_of t) \<longleftrightarrow> m_queue (wq_of t) = [] \<and> (\<forall>i<n. workers t i \<noteq> Busy)"
    using ok' n by (rule is_idle_iff)
  have wait0: "waiters t 0 = Sleeping \<Longrightarrow> m_idle_waiters (wq_of t) \<noteq> 0"
    using ok' count_pc_waiting_upd(3) [of 0 "Suc 0" "waiters t"] by (auto simp: counters_ok_def)
  from step show ?thesis
  proof cases
    case (step_dequeue_sleep i wq')
    with wait0 show ?thesis
      by (auto simp: no_lost_idle_def wq_defs split: list.splits)
  next
    case (step_resume_sleep i wq')
    with wait0 show ?thesis
      by (auto simp: no_lost_idle_def wq_defs split: list.splits)
  next
    case (step_dequeue i wq' x)
    with idle show ?thesis by (auto simp: no_lost_idle_def)
  next
    case (step_resume i wq' x)
    with idle show ?thesis by (auto simp: no_lost_idle_def)
  qed (use inv in \<open>auto simp: no_lost_idle_def wq_defs dest: cond_signal_single split: if_splits\<close>)
qed

section \<open>Reachable states\<close>

lemma wq_run_counters_ok: "wq_run n m tr s \<Longrightarrow> counters_ok n m s"
proof (induction rule: wq_run.induct)
  case run_start
  then show ?case
    by (simp add: counters_ok_def wq_start_def WorkQueue_init_def count_pc_def)
qed (rule counters_ok_step)

lemma wq_run_no_lost_work: "wq_run n m tr s \<Longrightarrow> no_lost_work n s"
proof (induction rule: wq_run.induct)
  case run_start
  then show ?case by (simp add: no_lost_work_def wq_start_def WorkQueue_init_def)
qed (rule no_lost_work_step)

lemma wq_run_no_lost_idle:
  assumes "wq_run n (Suc 0) tr s" and "n < 2 ^ 64"
  shows "no_lost_idle s"
  using assms(1)
proof (induction rule: wq_run.induct)
  case run_start
  then show ?case by (simp add: no_lost_idle_def wq_start_def)
next
  case (run_step tr s e t)
  then show ?case using no_lost_idle_step wq_run_counters_ok assms(2) by blast
qed

text \<open>What a trace has put into the queue and taken out of it.\<close>

fun enqueued :: "'a wq_event list \<Rightarrow> 'a list" where
  "enqueued [] = []"
| "enqueued (Enq x # tr) = x # enqueued tr"
| "enqueued (_ # tr) = enqueued tr"

fun dequeued :: "'a wq_event list \<Rightarrow> 'a list" where
  "dequeued [] = []"
| "dequeued (Deq i x # tr) = x # dequeued tr"
| "dequeued (_ # tr) = dequeued tr"

lemma enqueued_append [simp]: "enqueued (tr @ tr') = enqueued tr @ enqueued tr'"
  by (induction tr rule: enqueued.induct) simp_all

lemma dequeued_append [simp]: "dequeued (tr @ tr') = dequeued tr @ dequeued tr'"
  by (induction tr rule: dequeued.induct) simp_all

lemma wq_step_fifo:
  assumes "wq_step n m s e t"
  shows "m_queue (wq_of s) @ enqueued [e] = dequeued [e] @ m_queue (wq_of t)"
  using assms by cases (auto simp: wq_defs split: list.splits if_splits)

lemma wq_run_fifo: "wq_run n m tr s \<Longrightarrow> enqueued tr = dequeued tr @ m_queue (wq_of s)"
proof (induction rule: wq_run.induct)
  case run_start
  then show ?case by (simp add: wq_start_def WorkQueue_init_def)
next
  case (run_step tr s e t)
  then show ?case using wq_step_fifo [of n m s e t] by simp
qed

section \<open>Properties\<close>

text \<open>
  C16: The queue is first-in first-out over any number of worker threads and any
  interleaving of \<open>enqueue\<close>, \<open>dequeue\<close>, \<open>wait_for_idle\<close>, signals and spurious wake-ups:
  the items received are, in the order of their reception, a prefix of the items
  sent, and the rest is what the queue holds. Nothing is lost or received twice.
\<close>

theorem wq_fifo:
  assumes "wq_run n m tr s"
  shows "enqueued tr = dequeued tr @ m_queue (wq_of s)"
  using assms by (rule wq_run_fifo)

definition wq_demo :: "nat wq_sys" where
  "wq_demo =
     \<lparr>wq_of = \<lparr>m_queue = [8], m_max_waiting = 1, m_waiting_workers = 0, m_idle_waiters = 0\<rparr>,
      workers = (\<lambda>_. Busy), waiters = (\<lambda>_. Busy)\<rparr>"

lemma wq_demo_run: "wq_run 1 1 [Enq 7, Enq 8, Deq 0 7] wq_demo"
proof -
  let ?s = "\<lambda>q. \<lparr>wq_of = \<lparr>m_queue = q, m_max_waiting = 1, m_waiting_workers = 0,
     m_idle_waiters = 0\<rparr>, workers = (\<lambda>_. Busy), waiters = (\<lambda>_. Busy)\<rparr> :: nat wq_sys"
  have sig: "cond_signal 1 (\<lambda>_. Busy) (\<lambda>_. Busy)" by (simp add: wake_none)
  have e: "wq_step 1 1 (?s q) (Enq x) (?s (q @ [x]))" for q x
    using sig step_enqueue [of 1 "?s q" "\<lambda>_. Busy" 1 x] by (simp add: enqueue_def)
  have "wq_run 1 1 [] (?s [])"
    using run_start [of 1 1] by (simp add: wq_start_def WorkQueue_init_def)
  then have "wq_run 1 1 [Enq 7] (?s [7])" using run_step [OF _ e [of "[]" 7]] by fastforce
  then have "wq_run 1 1 [Enq 7, Enq 8] (?s [7, 8])"
    using run_step [OF _ e [of "[7]" 8]] by fastforce
  moreover have "wq_step 1 1 (?s [7, 8]) (Deq 0 7) (?s [8])"
    using step_dequeue [of 0 1 "?s [7, 8]" "wq_of (?s [8])" 7 1] by (simp add: wq_defs)
  ultimately show ?thesis unfolding wq_demo_def using run_step by fastforce
qed

theorem wq_fifo_witness:
  "enqueued [Enq 7, Enq 8, Deq 0 7] = dequeued [Enq 7, Enq 8, Deq 0 7] @ m_queue (wq_of wq_demo)"
  by (rule wq_fifo [OF wq_demo_run])

text \<open>
  C17: \<open>wait_for_idle\<close> is a barrier: whenever it returns, in any run of the threads,
  the queue is empty and no worker is busy with an item it has received.
\<close>

theorem wait_for_idle_barrier:
  assumes "wq_run n m tr s" and "n < 2 ^ 64" and "wq_step n m s (Idle j) t"
  shows "m_queue (wq_of t) = [] \<and> (\<forall>i<n. workers t i \<noteq> Busy)
       \<and> enqueued tr = dequeued tr"
proof -
  have ok: "counters_ok n m s" using assms(1) by (rule wq_run_counters_ok)
  from assms(3) have "is_idle (wq_of s)" and same: "m_queue (wq_of t) = m_queue (wq_of s)"
    "workers t = workers s"
    by (cases; auto simp: wq_defs split: if_splits)+
  with is_idle_iff [OF ok assms(2)] have "m_queue (wq_of s) = []" "\<forall>i<n. workers s i \<noteq> Busy"
    by auto
  with same wq_run_fifo [OF assms(1)] show ?thesis by simp
qed

definition wq_demo_asleep :: "nat wq_sys" where
  "wq_demo_asleep =
     \<lparr>wq_of = \<lparr>m_queue = [], m_max_waiting = 1, m_waiting_workers = 1, m_idle_waiters = 0\<rparr>,
      workers = (\<lambda>_. Busy)(0 := Sleeping), waiters = (\<lambda>_. Busy)\<rparr>"

lemma wq_demo_asleep_run: "wq_run 1 1 [Tau] wq_demo_asleep"
proof -
  have "wq_step 1 1 (wq_start 1) Tau wq_demo_asleep"
    using step_dequeue_sleep [of 0 1 "wq_start 1" "wq_of wq_demo_asleep" 1]
    by (simp add: wq_start_def WorkQueue_init_def wq_demo_asleep_def wq_defs)
  from run_step [OF run_start this] show ?thesis by simp
qed

theorem wait_for_idle_barrier_witness:
  "m_queue (wq_of wq_demo_asleep) = [] \<and> workers wq_demo_asleep 0 = Sleeping
   \<and> enqueued [Tau] = (dequeued [Tau] :: nat list)"
proof -
  have "wq_step 1 1 wq_demo_asleep (Idle 0) wq_demo_asleep"
    using step_idle [of 0 1 wq_demo_asleep "wq_of wq_demo_asleep" 1]
    by (simp add: wq_demo_asleep_def wq_defs)
  from wait_for_idle_barrier [OF wq_demo_asleep_run _ this] show ?thesis
    by (simp add: wq_demo_asleep_def)
qed

text \<open>
  C18: No wake-up is lost. In every reachable state, items are left in the queue only
  if enough signalled workers are about to take them or no worker sleeps; and a
  single thread in \<open>wait_for_idle\<close> sleeps only while an item is queued or a worker
  is busy.
\<close>

theorem wq_no_lost_wakeup:
  assumes "wq_run n (Suc 0) tr s" and "n < 2 ^ 64"
  shows "(length (m_queue (wq_of s)) \<le> count_pc n ((=) Signalled) (workers s)
          \<or> (\<forall>i<n. workers s i \<noteq> Sleeping))
       \<and> (waiters s 0 = Sleeping \<longrightarrow> m_queue (wq_of s) \<noteq> [] \<or> (\<exists>i<n. workers s i = Busy))"
proof -
  have work: "no_lost_work n s" using assms(1) by (rule wq_run_no_lost_work)
  have idle: "no_lost_idle s" using assms by (rule wq_run_no_lost_idle)
  from work have "length (m_queue (wq_of s)) \<le> count_pc n ((=) Signalled) (workers s)
      \<or> (\<forall>i<n. workers s i \<noteq> Sleeping)"
    by (auto simp: no_lost_work_def count_pc_0)
  moreover from idle is_idle_iff [OF wq_run_counters_ok [OF assms(1)] assms(2)]
  have "waiters s 0 = Sleeping \<longrightarrow> m_queue (wq_of s) \<noteq> [] \<or> (\<exists>i<n. workers s i = Busy)"
    by (auto simp: no_lost_idle_def)
  ultimately show ?thesis by blast
qed

definition wq_demo_waiting :: "nat wq_sys" where
  "wq_demo_waiting =
     \<lparr>wq_of = \<lparr>m_queue = [], m_max_waiting = 1, m_waiting_workers = 0, m_idle_waiters = 1\<rparr>,
      workers = (\<lambda>_. Busy), waiters = (\<lambda>_. Busy)(0 := Sleeping)\<rparr>"

lemma wq_demo_waiting_run: "wq_run 1 (Suc 0) [Tau] wq_demo_waiting"
proof -
  have "wq_step 1 (Suc 0) (wq_start 1) Tau wq_demo_waiting"
    using step_idle_sleep [of 0 "Suc 0" "wq_start 1" 1]
    by (simp add: wq_start_def WorkQueue_init_def wq_demo_waiting_def wq_defs)
  from run_step [OF run_start this] show ?thesis by simp
qed

theorem wq_no_lost_wakeup_witness:
  "waiters wq_demo_waiting 0 = Sleeping
   \<and> (\<exists>i<1. workers wq_demo_waiting i = Busy)"
  using wq_no_lost_wakeup [OF wq_demo_waiting_run] by (simp add: wq_demo_waiting_def)

end
