(* ===== verification/Worker_Pool.thy ===== *)
theory Worker_Pool
  imports Page_Descriptor Region_Descriptor Work_Queue
begin

text \<open>
  Work items and worker pools of \<^verbatim>\<open>WorkerPool.hpp\<close>: a named pool of threads around a
  work queue. Thread creation and naming are pthread calls: their answers are
  arguments of \<open>start_thread_pool\<close>.
\<close>

section \<open>Work items\<close>

datatype WorkType = NONE | EXIT | THRESHOLD | EVICT | FAST_EVICT | FLUSH

record WorkItem =
  page_desc :: "pd_ref option"
  work_type :: WorkType

definition print_WorkType :: "WorkType \<Rightarrow> string" where
  "print_WorkType t =
     (case t of
        NONE \<Rightarrow> '', type: NONE''
      | EXIT \<Rightarrow> '', type: EXIT''
      | THRESHOLD \<Rightarrow> '', type: THRESHOLD''
      | EVICT \<Rightarrow> '', type: EVICT''
      | FAST_EVICT \<Rightarrow> '', type: FAST_EVICT''
      | FLUSH \<Rightarrow> '', type: FLUSH'')"

definition print_WorkItem :: "(pd_ref option \<Rightarrow> string) \<Rightarrow> WorkItem \<Rightarrow> string" where
  "print_WorkItem show_pd w =
     ''{ page_desc: '' @ show_pd (page_desc w) @ print_WorkType (work_type w) @ '' }''"

section \<open>Pools\<close>

record WorkerPool =
  m_pool_name :: string
  m_num_threads :: u64
  m_wq :: "WorkItem WorkQueue"
  m_threads :: "nat list"

text \<open>The thread count reaches the queue's constructor as an \<^verbatim>\<open>int\<close>.\<close>

definition WorkerPool_init :: "string \<Rightarrow> u64 \<Rightarrow> WorkerPool" where
  "WorkerPool_init pool_name num_threads =
     \<lparr>m_pool_name = (if 15 < length pool_name then take 15 pool_name else pool_name),
      m_num_threads = num_threads,
      m_wq = WorkQueue_init (sint (ucast num_threads :: u32)),
      m_threads = []\<rparr>"

definition send_work :: "WorkItem \<Rightarrow> WorkerPool \<Rightarrow> WorkerPool" where
  "send_work work p = p\<lparr>m_wq := enqueue work (m_wq p)\<rparr>"

definition get_work :: "WorkerPool \<Rightarrow> WorkerPool \<times> WorkItem dequeue_out" where
  "get_work p = (case dequeue (m_wq p) of (wq', out) \<Rightarrow> (p\<lparr>m_wq := wq'\<rparr>, out))"

definition wq_is_empty :: "WorkerPool \<Rightarrow> bool" where
  "wq_is_empty p = is_empty (m_wq p)"

text \<open>
  \<open>create i\<close> is the handle of the \<open>i\<close>-th thread or \<open>None\<close> when \<^verbatim>\<open>pthread_create\<close> fails,
  \<open>named t\<close> whether \<^verbatim>\<open>pthread_setname_np\<close> succeeds.
\<close>

fun start_threads ::
  "(nat \<Rightarrow> nat option) \<Rightarrow> (nat \<Rightarrow> bool) \<Rightarrow> nat \<Rightarrow> nat \<Rightarrow> WorkerPool \<Rightarrow> WorkerPool result" where
  "start_threads create named i 0 p = Inr p"
| "start_threads create named i (Suc k) p =
     (case create i of
        None \<Rightarrow> Inl (UMAP_ERROR ''Failed to launch thread'')
      | Some t \<Rightarrow>
          if \<not> named t then Inl (UMAP_ERROR ''Failed to set thread name'')
          else start_threads create named (Suc i) k (p\<lparr>m_threads := m_threads p @ [t]\<rparr>))"

definition start_thread_pool ::
  "(nat \<Rightarrow> nat option) \<Rightarrow> (nat \<Rightarrow> bool) \<Rightarrow> WorkerPool \<Rightarrow> WorkerPool result" where
  "start_thread_pool create named p = start_threads create named 0 (unat (m_num_threads p)) p"

definition exit_item :: WorkItem where
  "exit_item = \<lparr>page_desc = None, work_type = EXIT\<rparr>"

definition send_exits :: "WorkerPool \<Rightarrow> WorkerPool" where
  "send_exits p = (send_work exit_item ^^ unat (m_num_threads p)) p"

text \<open>The join of the threads between the two halves of \<open>stop_thread_pool\<close> changes no state of the pool.\<close>

definition stop_thread_pool :: "WorkerPool \<Rightarrow> WorkerPool" where
  "stop_thread_pool p = (send_exits p)\<lparr>m_threads := []\<rparr>"

definition pool_wait_for_idle :: "WorkerPool \<Rightarrow> WorkerPool option" where
  "pool_wait_for_idle p =
     (case wait_for_idle_loop (wait_for_idle_begin (m_wq p)) of
        None \<Rightarrow> None | Some wq' \<Rightarrow> Some (p\<lparr>m_wq := wq'\<rparr>))"

abbreviation pool_queue :: "WorkerPool \<Rightarrow> WorkItem list" where
  "pool_queue p \<equiv> m_queue (m_wq p)"

section \<open>Lemmas\<close>

lemma pool_queue_send_work [simp]: "pool_queue (send_work w p) = pool_queue p @ [w]"
  by (simp add: send_work_def enqueue_def)

lemma pool_queue_sends: "pool_queue ((send_work w ^^ n) p) = pool_queue p @ replicate n w"
  by (induction n) (simp_all add: replicate_append_same)

lemma start_threads_ok:
  "start_threads create named i k p = Inr p' \<Longrightarrow>
     m_threads p' = m_threads p @ map (the \<circ> create) [i ..< i + k]
   \<and> p' = p\<lparr>m_threads := m_threads p'\<rparr>"
proof (induction create named i k p rule: start_threads.induct)
  case (2 create named i k p)
  then show ?case
    by (auto simp: upt_rec [of i] split: option.splits if_splits)
qed simp

text \<open>A pool is a channel too: what is sent is received in order.\<close>

definition pool_recv :: "WorkerPool \<Rightarrow> (WorkItem \<times> WorkerPool) option" where
  "pool_recv p =
     (case get_work p of (_, Must_wait _) \<Rightarrow> None | (p', Got w) \<Rightarrow> Some (w, p'))"

interpretation pool: work_channel send_work pool_recv pool_queue
  by unfold_locales
    (auto simp: send_work_def pool_recv_def get_work_def wq_defs split: list.splits)

section \<open>Properties\<close>

text \<open>
  Stopping a pool loses no work: the threads of a pool of \<open>n\<close> receive, in order,
  all items sent before the stop and then exactly one \<open>EXIT\<close> each.
\<close>

lemma stop_thread_pool_drains:
  "fst (pool.recv_n (length (pool_queue p) + unat (m_num_threads p)) (stop_thread_pool p))
     = pool_queue p @ replicate (unat (m_num_threads p)) exit_item
   \<and> m_threads (stop_thread_pool p) = []"
proof -
  let ?n = "length (pool_queue p) + unat (m_num_threads p)"
  have q: "pool_queue (stop_thread_pool p) =
      pool_queue p @ replicate (unat (m_num_threads p)) exit_item"
    by (simp add: stop_thread_pool_def send_exits_def pool_queue_sends)
  obtain xs p' where r: "pool.recv_n ?n (stop_thread_pool p) = (xs, p')"
    by (cases "pool.recv_n ?n (stop_thread_pool p)")
  have split: "pool_queue (stop_thread_pool p) = xs @ pool_queue p'"
    using pool.recv_n_items [OF r] by blast
  have len: "length xs = length (pool_queue (stop_thread_pool p))"
    using pool.recv_n_items [OF r, THEN conjunct2] by (simp add: q)
  from arg_cong [OF split, of length] len have "length (pool_queue p') = 0"
    unfolding length_append by linarith
  with split have "xs = pool_queue (stop_thread_pool p)" by simp
  with r q show ?thesis by (simp add: stop_thread_pool_def)
qed

end
