(* ===== verification/Float_Round.thy ===== *)
theory Float_Round
  imports Complex_Main Umap_Prelude
begin

text \<open>
  The floating-point arithmetic of the sources. UMap computes its water marks in
  \<^verbatim>\<open>float\<close> and the file sizes of a sparse store in \<^verbatim>\<open>double\<close>. A result is the exact
  rational rounded to the nearest value with \<open>p\<close> significant bits, ties to even
  (IEEE 754 binary32 has \<open>p = 24\<close>, binary64 \<open>p = 53\<close>); every value met here is far
  inside the exponent range, so that only the significand matters.
\<close>

section \<open>Rounding to nearest, ties to even\<close>

definition round_even :: "rat \<Rightarrow> int" where
  "round_even x =
     (let n = \<lfloor>x\<rfloor>; d = x - of_int n
      in if d < 1 / 2 then n else if 1 / 2 < d then n + 1 else if even n then n else n + 1)"

lemma floor_half_less:
  fixes x :: rat
  assumes "1 \<le> x"
  shows "\<lfloor>x / 2\<rfloor> < \<lfloor>x\<rfloor>"
proof -
  have "1 \<le> \<lfloor>x\<rfloor>" using assms by (simp add: le_floor_iff)
  then have "(1 :: rat) \<le> of_int \<lfloor>x\<rfloor>" by simp
  moreover have "x < of_int \<lfloor>x\<rfloor> + 1" using floor_correct [of x] by simp
  ultimately have "x / 2 < of_int \<lfloor>x\<rfloor>" by linarith
  then show ?thesis by (simp add: floor_less_iff)
qed

function fl_halve :: "nat \<Rightarrow> rat \<Rightarrow> rat" where
  "fl_halve p x =
     (if 2 ^ p \<le> x then 2 * fl_halve p (x / 2) else of_int (round_even x))"
  by pat_completeness auto
termination
proof (relation "measure (\<lambda>(p, x). nat \<lfloor>x\<rfloor>)")
  fix p :: nat and x :: rat
  assume "2 ^ p \<le> x"
  moreover have "(1 :: rat) \<le> 2 ^ p" by simp
  ultimately have x: "1 \<le> x" by (rule order_trans [rotated])
  then have "\<lfloor>x / 2\<rfloor> < \<lfloor>x\<rfloor>" by (rule floor_half_less)
  with x show "((p, x / 2), p, x) \<in> measure (\<lambda>(p, x). nat \<lfloor>x\<rfloor>)" by simp
qed simp

function fl_round :: "nat \<Rightarrow> rat \<Rightarrow> rat" where
  "fl_round p x =
     (if 0 < x \<and> x < 2 ^ (p - 1) then fl_round p (2 * x) / 2 else fl_halve p x)"
  by pat_completeness auto
termination
proof (relation "measure (\<lambda>(p, x). nat \<lfloor>2 ^ (p - 1) / x\<rfloor>)")
  fix p :: nat and x :: rat
  assume x: "0 < x \<and> x < 2 ^ (p - 1)"
  let ?y = "2 ^ (p - 1) / x"
  from x have y: "1 < ?y" by simp
  then have "\<lfloor>?y / 2\<rfloor> < \<lfloor>?y\<rfloor>" by (intro floor_half_less) simp
  moreover have "?y / 2 = 2 ^ (p - 1) / (2 * x)" by simp
  ultimately have "\<lfloor>2 ^ (p - 1) / (2 * x)\<rfloor> < \<lfloor>?y\<rfloor>" by (simp only:)
  moreover from y have "0 < \<lfloor>?y\<rfloor>" by (simp add: less_floor_iff)
  ultimately show "((p, 2 * x), p, x) \<in> measure (\<lambda>(p, x). nat \<lfloor>2 ^ (p - 1) / x\<rfloor>)"
    by (simp only: in_measure prod.case zless_nat_conj)
qed simp

declare fl_halve.simps [simp del] fl_round.simps [simp del]

abbreviation f32 :: "rat \<Rightarrow> rat" where "f32 \<equiv> fl_round 24"
abbreviation f64 :: "rat \<Rightarrow> rat" where "f64 \<equiv> fl_round 53"

section \<open>Error bound and exactness\<close>

lemma round_even_error: "\<bar>of_int (round_even x) - x\<bar> \<le> 1 / 2"
proof -
  have "of_int \<lfloor>x\<rfloor> \<le> x" "x < of_int \<lfloor>x\<rfloor> + 1" using floor_correct [of x] by simp_all
  then show ?thesis by (auto simp: round_even_def Let_def abs_le_iff)
qed

lemma round_even_int [simp]: "round_even (of_int n) = n"
  by (simp add: round_even_def)

lemma fl_halve_error:
  assumes "1 \<le> p" and "2 ^ (p - 1) \<le> x"
  shows "\<bar>fl_halve p x - x\<bar> \<le> x / 2 ^ p"
  using assms
proof (induction p x rule: fl_halve.induct)
  case (1 p x)
  show ?case
  proof (cases "2 ^ p \<le> x")
    case True
    have p: "(2 :: rat) ^ p = 2 * 2 ^ (p - 1)" using \<open>1 \<le> p\<close> by (cases p) simp_all
    with True have "2 ^ (p - 1) \<le> x / 2" by simp
    with "1.IH" [OF True \<open>1 \<le> p\<close>] have IH: "\<bar>fl_halve p (x / 2) - x / 2\<bar> \<le> (x / 2) / 2 ^ p" .
    have "\<bar>fl_halve p x - x\<bar> = \<bar>2 * (fl_halve p (x / 2) - x / 2)\<bar>"
      using True by (subst fl_halve.simps) (simp add: algebra_simps)
    also have "\<dots> = 2 * \<bar>fl_halve p (x / 2) - x / 2\<bar>" by (simp only: abs_mult abs_numeral)
    also have "\<dots> \<le> 2 * ((x / 2) / 2 ^ p)" using IH by (rule mult_left_mono) simp
    finally show ?thesis by simp
  next
    case False
    have "(1 :: rat) / 2 = 2 ^ (p - 1) / 2 ^ p" using \<open>1 \<le> p\<close> by (cases p) simp_all
    also have "\<dots> \<le> x / 2 ^ p" using "1.prems"(2) by (rule divide_right_mono) simp
    finally have "1 / 2 \<le> x / 2 ^ p" .
    with round_even_error [of x] have "\<bar>of_int (round_even x) - x\<bar> \<le> x / 2 ^ p"
      by (rule order_trans)
    with False show ?thesis by (subst fl_halve.simps) simp
  qed
qed

lemma fl_round_error:
  assumes "1 \<le> p" and "0 < x"
  shows "\<bar>fl_round p x - x\<bar> \<le> x / 2 ^ p"
  using assms
proof (induction p x rule: fl_round.induct)
  case (1 p x)
  show ?case
  proof (cases "x < 2 ^ (p - 1)")
    case True
    with "1" have IH: "\<bar>fl_round p (2 * x) - 2 * x\<bar> \<le> 2 * x / 2 ^ p" by simp
    have "fl_round p x = fl_round p (2 * x) / 2"
      using True \<open>0 < x\<close> by (subst fl_round.simps) simp
    then have "\<bar>fl_round p x - x\<bar> = \<bar>(fl_round p (2 * x) - 2 * x) / 2\<bar>"
      by (simp add: diff_divide_distrib)
    also have "\<dots> = \<bar>fl_round p (2 * x) - 2 * x\<bar> / 2" by (simp only: abs_divide abs_numeral)
    also have "\<dots> \<le> (2 * x / 2 ^ p) / 2" using IH by (rule divide_right_mono) simp
    finally show ?thesis by simp
  next
    case False
    then show ?thesis
      using fl_halve_error [OF \<open>1 \<le> p\<close>, of x] by (subst fl_round.simps) simp
  qed
qed

text \<open>An integer with at most \<open>p\<close> bits is not changed.\<close>

lemma fl_round_int:
  assumes "x = of_int n" and "0 \<le> n" and "x < 2 ^ p"
  shows "fl_round p x = x"
  using assms
proof (induction p x arbitrary: n rule: fl_round.induct)
  case (1 p x)
  show ?case
  proof (cases "0 < x \<and> x < 2 ^ (p - 1)")
    case True
    then have p: "(2 :: rat) ^ p = 2 * 2 ^ (p - 1)" by (cases p) (use "1.prems" in auto)
    have "fl_round p (2 * x) = 2 * x"
      using "1.IH" [OF True, of "2 * n"] "1.prems" True p by simp
    with True show ?thesis by (subst fl_round.simps) simp
  next
    case False
    then have "fl_round p x = fl_halve p x" by (simp only: fl_round.simps [of p x] if_False)
    also have "\<dots> = x" using "1.prems" by (subst fl_halve.simps) simp
    finally show ?thesis .
  qed
qed

lemma fl_round_bounds:
  assumes "1 \<le> p" and "0 < x"
  shows "x * (1 - 1 / 2 ^ p) \<le> fl_round p x" and "fl_round p x \<le> x * (1 + 1 / 2 ^ p)"
  using fl_round_error [OF assms] by (simp_all add: algebra_simps abs_le_iff)

lemma fl_round_pos:
  assumes "1 \<le> p" and "0 < x"
  shows "0 < fl_round p x"
proof -
  have "(1 :: rat) < 2 ^ p" using assms(1) by (intro one_less_power) simp_all
  then have "(1 :: rat) / 2 ^ p < 1" by simp
  then have "0 < x * (1 - 1 / 2 ^ p)" using assms(2) by simp
  also have "\<dots> \<le> fl_round p x" by (rule fl_round_bounds [OF assms])
  finally show ?thesis .
qed

lemma fl_round_0 [simp]: "fl_round p 0 = 0"
  by (rule fl_round_int [of _ 0]) simp_all

end
