(* ===== verification/Buffer.thy ===== *)
theory Buffer
  imports Region_Manager Worker_Pool Float_Round
begin

text \<open>
  The page buffer of \<^verbatim>\<open>Buffer.hpp\<close> and \<^verbatim>\<open>Buffer.cpp\<close>: its state, the page fault handler
  \<open>process_page_event\<close>, the completion calls of the workers and the choice of the
  pages to evict. Every method runs under the buffer's mutex. A
  \<^verbatim>\<open>pthread_cond_wait\<close> gives the mutex up, so a method that waits is split there: it
  reports where it blocks, and its continuation is a definition of its own.
\<close>

section \<open>State\<close>

record BufferStats =
  lock_collision :: u64
  lock_count :: u64
  pages_inserted :: u64
  pages_deleted :: u64
  not_avail :: u64
  waits :: u64
  events_processed :: u64

definition BufferStats_init :: BufferStats where
  "BufferStats_init =
     \<lparr>lock_collision = 0, lock_count = 0, pages_inserted = 0, pages_deleted = 0,
      not_avail = 0, waits = 0, events_processed = 0\<rparr>"

text \<open>
  The front of \<^verbatim>\<open>m_busy_pages\<close> is the head of the list, its back and the back of
  \<^verbatim>\<open>m_free_pages\<close> are the last elements. Of a condition variable only the number of
  its broadcasts is kept.
\<close>

record Buffer =
  m_size :: nat
  m_array :: "pd_ref \<Rightarrow> PageDescriptor"
  m_present_pages :: "addr \<rightharpoonup> pd_ref"
  m_free_pages :: "pd_ref list"
  m_busy_pages :: "pd_ref list"
  m_evict_low_water :: nat
  m_evict_high_water :: nat
  m_waits_for_avail_pd :: int
  m_avail_pd_cond :: nat
  m_waits_for_state_change :: int
  m_state_change_cond :: nat
  m_stats :: BufferStats
  is_monitor_on :: bool

text \<open>The buffer together with what its methods touch: the regions and the worker pools.\<close>

record engine =
  buf :: Buffer
  table :: RegionTable
  fill_workers :: WorkerPool
  evict_manager :: WorkerPool
  evict_workers :: WorkerPool

definition set_pd :: "pd_ref \<Rightarrow> PageDescriptor \<Rightarrow> Buffer \<Rightarrow> Buffer" where
  "set_pd i pd b = b\<lparr>m_array := (m_array b)(i := pd)\<rparr>"

section \<open>Small methods\<close>

definition apply_int_percentage :: "int \<Rightarrow> nat \<Rightarrow> nat result" where
  "apply_int_percentage percentage item =
     (if percentage < 0 \<or> 100 < percentage then Inl (UMAP_ERROR ''Invalid percentage given'')
      else if percentage = 0 \<or> percentage = 100 then Inr item
      else
        let f = f32 (f32 (of_int percentage) / f32 100)
        in Inr (nat \<lfloor>f32 (f * f32 (of_nat item))\<rfloor>))"

text \<open>
  \<open>lock\<close> on the values of \<^verbatim>\<open>pthread_mutex_trylock\<close> and, when that is \<^verbatim>\<open>EBUSY\<close>, of
  \<^verbatim>\<open>pthread_mutex_lock\<close>. For the default mutex of the buffer both calls succeed or
  report \<^verbatim>\<open>EBUSY\<close>; \<open>lock_buffer\<close> is \<open>lock\<close> in these cases, its argument saying
  whether the mutex was taken.
\<close>

definition lock_buffer :: "bool \<Rightarrow> Buffer \<Rightarrow> Buffer" where
  "lock_buffer busy b =
     b\<lparr>m_stats := (m_stats b)
         \<lparr>lock_collision := lock_collision (m_stats b) + of_bool busy,
          lock_count := lock_count (m_stats b) + 1\<rparr>\<rparr>"

definition lock :: "int \<Rightarrow> int \<Rightarrow> int \<Rightarrow> Buffer \<Rightarrow> Buffer result" where
  "lock EBUSY try_err lock_err b =
     (if try_err \<noteq> 0 then
        if try_err \<noteq> EBUSY then Inl (UMAP_ERROR ''pthread_mutex_trylock failed'')
        else if lock_err \<noteq> 0 then Inl (UMAP_ERROR ''pthread_mutex_lock failed'')
        else Inr (lock_buffer True b)
      else Inr (lock_buffer False b))"

definition low_threshold_reached :: "Buffer \<Rightarrow> bool" where
  "low_threshold_reached b \<longleftrightarrow> length (m_busy_pages b) \<le> m_evict_low_water b"

definition broadcast_state :: "Buffer \<Rightarrow> Buffer" where
  "broadcast_state b =
     (if m_waits_for_state_change b \<noteq> 0
      then b\<lparr>m_state_change_cond := Suc (m_state_change_cond b)\<rparr> else b)"

definition release_page_descriptor :: "pd_ref \<Rightarrow> Buffer \<Rightarrow> Buffer" where
  "release_page_descriptor pd b =
     (let b1 = b\<lparr>m_free_pages := m_free_pages b @ [pd]\<rparr>
      in if m_waits_for_avail_pd b1 \<noteq> 0
         then b1\<lparr>m_avail_pd_cond := Suc (m_avail_pd_cond b1)\<rparr> else b1)"

text \<open>The two ways of going to sleep and of coming back, with their counters.\<close>

definition begin_state_wait :: "Buffer \<Rightarrow> Buffer" where
  "begin_state_wait b =
     b\<lparr>m_stats := (m_stats b)\<lparr>waits := waits (m_stats b) + 1\<rparr>,
       m_waits_for_state_change := m_waits_for_state_change b + 1\<rparr>"

definition end_state_wait :: "Buffer \<Rightarrow> Buffer" where
  "end_state_wait b = b\<lparr>m_waits_for_state_change := m_waits_for_state_change b - 1\<rparr>"

definition begin_avail_wait :: "Buffer \<Rightarrow> Buffer" where
  "begin_avail_wait b =
     b\<lparr>m_waits_for_avail_pd := m_waits_for_avail_pd b + 1,
       m_stats := (m_stats b)\<lparr>not_avail := not_avail (m_stats b) + 1,
                              waits := waits (m_stats b) + 1\<rparr>,
       m_waits_for_state_change := m_waits_for_state_change b + 1\<rparr>"

definition end_avail_wait :: "Buffer \<Rightarrow> Buffer" where
  "end_avail_wait b = b\<lparr>m_waits_for_avail_pd := m_waits_for_avail_pd b - 1\<rparr>"

section \<open>Completion calls of the workers\<close>

definition mark_page_as_present :: "bool \<Rightarrow> pd_ref \<Rightarrow> engine \<Rightarrow> engine result" where
  "mark_page_as_present busy pd e =
     (let b = lock_buffer busy (buf e)
      in bindR (set_state_present (m_array b pd)) (\<lambda>d.
           Inr (e\<lparr>buf := broadcast_state (set_pd pd d b)\<rparr>)))"

definition mark_page_as_free :: "bool \<Rightarrow> pd_ref \<Rightarrow> engine \<Rightarrow> engine result" where
  "mark_page_as_free busy pd e =
     (let b = lock_buffer busy (buf e); d = m_array b pd
      in case region d of
           None \<Rightarrow> Inl (UNDEFINED ''null region'')
         | Some r \<Rightarrow>
             let rt = table e;
                 rt' = rt\<lparr>rds := (rds rt)(r := erase_page_descriptor pd (rds rt r))\<rparr>;
                 b1 = b\<lparr>m_present_pages := (m_present_pages b)(page d := None)\<rparr>
             in bindR (set_state_free d) (\<lambda>d'.
                  let b2 = set_pd pd (d'\<lparr>spurious_count := 0\<rparr>) b1;
                      b3 = (if \<not> deferred d' then release_page_descriptor pd b2 else b2);
                      b4 = broadcast_state b3;
                      b5 = set_pd pd ((m_array b4 pd)\<lparr>page := 0\<rparr>) b4
                  in Inr (e\<lparr>buf := b5, table := rt'\<rparr>)))"

section \<open>The page fault handler\<close>

datatype present_out = Absent | Present_pd pd_ref | Wait_state

text \<open>One pass of the loop of \<open>page_already_present\<close>.\<close>

definition page_already_present :: "addr \<Rightarrow> Buffer \<Rightarrow> present_out" where
  "page_already_present page_addr b =
     (case m_present_pages b page_addr of
        None \<Rightarrow> Absent
      | Some pd \<Rightarrow> if state (m_array b pd) = PRESENT then Present_pd pd else Wait_state)"

text \<open>One pass of the loop of \<open>get_page_descriptor\<close>: \<open>None\<close> when it has to wait.\<close>

definition get_page_descriptor ::
  "addr \<Rightarrow> rid \<Rightarrow> Buffer \<Rightarrow> (Buffer \<times> pd_ref option) result" where
  "get_page_descriptor vaddr rd b =
     (if m_free_pages b = [] then Inr (begin_avail_wait b, None)
      else
        let rval = last (m_free_pages b);
            d = (m_array b rval)\<lparr>page := vaddr, region := Some rd, dirty := False,
                                 deferred := False\<rparr>
        in bindR (set_state_filling d) (\<lambda>d'.
             Inr ((set_pd rval (d'\<lparr>spurious_count := 0\<rparr>) b)
                    \<lparr>m_free_pages := butlast (m_free_pages b),
                     m_stats := (m_stats b)\<lparr>pages_inserted := pages_inserted (m_stats b) + 1\<rparr>,
                     m_busy_pages := rval # m_busy_pages b\<rparr>,
                  Some rval)))"

datatype ppe_out = PPE_done | PPE_wait_state | PPE_wait_avail

definition fill_item :: "pd_ref \<Rightarrow> WorkItem" where
  "fill_item pd = \<lparr>page_desc = Some pd, work_type = NONE\<rparr>"

definition threshold_item :: WorkItem where
  "threshold_item = \<lparr>page_desc = None, work_type = THRESHOLD\<rparr>"

text \<open>The end of the handler: the work is sent, and the eviction daemon is kicked at the high water mark.\<close>

definition ppe_send :: "pd_ref \<Rightarrow> engine \<Rightarrow> engine" where
  "ppe_send pd e =
     (let e1 = e\<lparr>fill_workers := send_work (fill_item pd) (fill_workers e)\<rparr>;
          e2 = (if length (m_busy_pages (buf e1)) = m_evict_high_water (buf e1)
                then e1\<lparr>evict_manager := send_work threshold_item (evict_manager e1)\<rparr>
                else e1);
          b = buf e2
      in e2\<lparr>buf := b\<lparr>m_stats := (m_stats b)\<lparr>events_processed := events_processed (m_stats b) + 1\<rparr>\<rparr>\<rparr>)"

definition ppe_alloc :: "addr \<Rightarrow> bool \<Rightarrow> rid \<Rightarrow> engine \<Rightarrow> (engine \<times> ppe_out) result" where
  "ppe_alloc paddr iswrite rd e =
     bindR (get_page_descriptor paddr rd (buf e)) (\<lambda>(b, got).
       case got of
         None \<Rightarrow> Inr (e\<lparr>buf := b\<rparr>, PPE_wait_avail)
       | Some pd \<Rightarrow>
           let d = (m_array b pd)\<lparr>data_present := False\<rparr>;
               rt = table e;
               rt' = rt\<lparr>rds := (rds rt)(rd := insert_page_descriptor pd (rds rt rd))\<rparr>;
               d' = (if iswrite then d\<lparr>dirty := True\<rparr> else d);
               b' = (set_pd pd d' b)\<lparr>m_present_pages := (m_present_pages b)(page d \<mapsto> pd)\<rparr>
           in Inr (ppe_send pd (e\<lparr>buf := b', table := rt'\<rparr>), PPE_done))"

definition ppe_check :: "addr \<Rightarrow> bool \<Rightarrow> rid \<Rightarrow> engine \<Rightarrow> (engine \<times> ppe_out) result" where
  "ppe_check paddr iswrite rd e =
     (case page_already_present paddr (buf e) of
        Absent \<Rightarrow> ppe_alloc paddr iswrite rd e
      | Wait_state \<Rightarrow> Inr (e\<lparr>buf := begin_state_wait (buf e)\<rparr>, PPE_wait_state)
      | Present_pd pd \<Rightarrow>
          let d = m_array (buf e) pd in
          if iswrite \<and> \<not> dirty d then
            bindR (set_state_updating (d\<lparr>dirty := True\<rparr>)) (\<lambda>d'.
              Inr (ppe_send pd (e\<lparr>buf := set_pd pd d' (buf e)\<rparr>), PPE_done))
          else
            Inr (e\<lparr>buf := set_pd pd (d\<lparr>spurious_count := spurious_count d + 1\<rparr>) (buf e)\<rparr>,
                 PPE_done))"

definition process_page_event ::
  "bool \<Rightarrow> addr \<Rightarrow> bool \<Rightarrow> rid \<Rightarrow> engine \<Rightarrow> (engine \<times> ppe_out) result" where
  "process_page_event busy paddr iswrite rd e =
     ppe_check paddr iswrite rd (e\<lparr>buf := lock_buffer busy (buf e)\<rparr>)"

text \<open>The handler after it has slept for a state change, and after it has slept for a descriptor.\<close>

definition ppe_resume_state :: "addr \<Rightarrow> bool \<Rightarrow> rid \<Rightarrow> engine \<Rightarrow> (engine \<times> ppe_out) result" where
  "ppe_resume_state paddr iswrite rd e =
     ppe_check paddr iswrite rd (e\<lparr>buf := end_state_wait (buf e)\<rparr>)"

definition ppe_resume_avail :: "addr \<Rightarrow> bool \<Rightarrow> rid \<Rightarrow> engine \<Rightarrow> (engine \<times> ppe_out) result" where
  "ppe_resume_avail paddr iswrite rd e =
     ppe_alloc paddr iswrite rd (e\<lparr>buf := end_avail_wait (buf e)\<rparr>)"

section \<open>Choosing pages to evict\<close>

datatype evict_out = Evicted "pd_ref option" | Wait_evict pd_ref State

definition count_deleted :: "Buffer \<Rightarrow> Buffer" where
  "count_deleted b =
     b\<lparr>m_stats := (m_stats b)\<lparr>pages_deleted := pages_deleted (m_stats b) + 1\<rparr>\<rparr>"

text \<open>
  \<open>evict_oldest_page\<close>: the loop, and what follows its two waits. After a wait the
  method goes on with the descriptor it has read before, and takes the back of the
  busy list off as it is then.
\<close>

definition evict_take_deferred :: "pd_ref \<Rightarrow> Buffer \<Rightarrow> Buffer" where
  "evict_take_deferred pd b =
     release_page_descriptor pd
       (count_deleted (b\<lparr>m_busy_pages := butlast (m_busy_pages b)\<rparr>))"

definition evict_take_normal :: "pd_ref \<Rightarrow> Buffer \<Rightarrow> (Buffer \<times> evict_out) result" where
  "evict_take_normal pd b =
     (let b1 = count_deleted (b\<lparr>m_busy_pages := butlast (m_busy_pages b)\<rparr>)
      in bindR (set_state_leaving (m_array b1 pd)) (\<lambda>d.
           Inr (set_pd pd d b1, Evicted (Some pd))))"

function evict_oldest_loop :: "Buffer \<Rightarrow> (Buffer \<times> evict_out) result" where
  "evict_oldest_loop b =
     (if m_busy_pages b = [] then Inr (b, Evicted None)
      else
        let pd = last (m_busy_pages b); d = m_array b pd in
        if deferred d then
          if state d \<noteq> FREE then Inr (begin_state_wait b, Wait_evict pd FREE)
          else evict_oldest_loop (evict_take_deferred pd b)
        else
          if state d \<noteq> PRESENT then Inr (begin_state_wait b, Wait_evict pd PRESENT)
          else evict_take_normal pd b)"
  by pat_completeness auto
termination
  by (relation "measure (\<lambda>b. length (m_busy_pages b))")
    (auto simp: evict_take_deferred_def release_page_descriptor_def count_deleted_def Let_def)

declare evict_oldest_loop.simps [simp del]

definition evict_oldest_page :: "bool \<Rightarrow> Buffer \<Rightarrow> (Buffer \<times> evict_out) result" where
  "evict_oldest_page busy b = evict_oldest_loop (lock_buffer busy b)"

definition evict_oldest_resume :: "pd_ref \<Rightarrow> State \<Rightarrow> Buffer \<Rightarrow> (Buffer \<times> evict_out) result" where
  "evict_oldest_resume pd st b =
     (let b1 = end_state_wait b; d = m_array b1 pd in
      if state d \<noteq> st then Inr (begin_state_wait b1, Wait_evict pd st)
      else if m_busy_pages b1 = [] then Inl (UNDEFINED ''pop_back of an empty deque'')
      else if st = FREE then evict_oldest_loop (evict_take_deferred pd b1)
      else evict_take_normal pd b1)"

text \<open>
  \<open>evict_oldest_pages\<close>: the counter is a \<^verbatim>\<open>size_t\<close>, so that \<^verbatim>\<open>i >= 0\<close> always holds and
  \<^verbatim>\<open>i--\<close> wraps around; an index that is not below the size of the deque is an access
  out of bounds.
\<close>

definition max_num_evicted_pages :: nat where
  "max_num_evicted_pages = 32"

function evict_scan ::
  "Buffer \<Rightarrow> u64 \<Rightarrow> pd_ref list \<Rightarrow> pd_ref list
     \<Rightarrow> (Buffer \<times> pd_ref list \<times> pd_ref list) result" where
  "evict_scan b i evicted pending =
     (if 0 \<le> i \<and> length evicted < max_num_evicted_pages then
        if length (m_busy_pages b) \<le> unat i then Inl (UNDEFINED ''deque index out of range'')
        else
          let pd = m_busy_pages b ! unat i; d = m_array b pd in
          if \<not> deferred d \<and> state d = PRESENT then
            let b1 = set_pd pd (d\<lparr>state := LEAVING\<rparr>) (count_deleted b)
            in evict_scan (b1\<lparr>m_busy_pages := butlast (m_busy_pages b1)\<rparr>) (i - 1)
                 (evicted @ [pd]) pending
          else
            evict_scan (b\<lparr>m_busy_pages := butlast (m_busy_pages b)\<rparr>) (i - 1)
              evicted (pending @ [pd])
      else Inr (b, evicted, pending))"
  by pat_completeness auto
termination
  by (relation "measure (\<lambda>(b, i, ev, pend). length (m_busy_pages b))")
    (auto simp: set_pd_def count_deleted_def)

declare evict_scan.simps [simp del]

definition evict_oldest_pages :: "bool \<Rightarrow> Buffer \<Rightarrow> (Buffer \<times> pd_ref list) result" where
  "evict_oldest_pages busy b =
     (let b1 = lock_buffer busy b; num_busy_pages = length (m_busy_pages b1) in
      if 0 < num_busy_pages then
        bindR (evict_scan b1 (of_nat (num_busy_pages - 1)) [] []) (\<lambda>(b2, evicted, pending).
          Inr (b2\<lparr>m_busy_pages := m_busy_pages b2 @ pending\<rparr>, evicted))
      else Inr (b1, []))"

section \<open>Construction\<close>

text \<open>
  The constructor on the settings of the region manager. \<open>alloc_ok\<close>: \<^verbatim>\<open>calloc\<close> succeeds;
  \<open>monitor_ok\<close>: the monitor thread is created.
\<close>

definition Buffer_init ::
  "bool \<Rightarrow> bool \<Rightarrow> nat \<Rightarrow> int \<Rightarrow> int \<Rightarrow> int \<Rightarrow> Buffer result" where
  "Buffer_init alloc_ok monitor_ok max_pages low_threshold high_threshold monitor_freq =
     (if \<not> alloc_ok then Inl (UMAP_ERROR ''Failed to allocate bytes for buffer page descriptors'')
      else
        bindR (apply_int_percentage low_threshold max_pages) (\<lambda>low.
        bindR (apply_int_percentage high_threshold max_pages) (\<lambda>high.
          if 0 < monitor_freq \<and> \<not> monitor_ok
          then Inl (UMAP_ERROR ''Failed to launch the monitor thread'')
          else Inr
            \<lparr>m_size = max_pages, m_array = (\<lambda>_. zero_PageDescriptor),
             m_present_pages = Map.empty, m_free_pages = [0 ..< max_pages],
             m_busy_pages = [], m_evict_low_water = low, m_evict_high_water = high,
             m_waits_for_avail_pd = 0, m_avail_pd_cond = 0, m_waits_for_state_change = 0,
             m_state_change_cond = 0, m_stats = BufferStats_init,
             is_monitor_on = (0 < monitor_freq)\<rparr>)))"

text \<open>The destructor asserts that no page is left.\<close>

definition Buffer_destroy :: "Buffer \<Rightarrow> unit result" where
  "Buffer_destroy b =
     (if dom (m_present_pages b) = {} then Inr ()
      else Inl (ASSERT_FAIL ''Pages are still present''))"

end
