(* ===== verification/Buffer_Inv.thy ===== *)
theory Buffer_Inv
  imports Buffer "HOL-Library.Multiset"
begin

text \<open>
  The invariant of the page buffer and its preservation by every critical section:
  a descriptor is on at most one of the two lists, free ones are free, busy ones are
  in use unless their region has been unmapped, and the page table maps exactly the
  pages of the descriptors in use. Also the exact effect of \<open>evict_oldest_pages\<close> and
  the bounds of the water marks.
\<close>

section \<open>The invariant\<close>

definition in_use :: "State set" where
  "in_use = {FILLING, PRESENT, UPDATING}"

definition pages_ok ::
  "(pd_ref \<Rightarrow> PageDescriptor) \<Rightarrow> (addr \<rightharpoonup> pd_ref) \<Rightarrow> pd_ref list \<Rightarrow> pd_ref list \<Rightarrow> bool" where
  "pages_ok arr pres fr bs \<longleftrightarrow>
     distinct (fr @ bs)
   \<and> (\<forall>i \<in> set fr. state (arr i) = FREE)
   \<and> (\<forall>i \<in> set bs. \<not> deferred (arr i) \<longrightarrow> state (arr i) \<in> in_use)
   \<and> (\<forall>a i. pres a = Some i \<longrightarrow> page (arr i) = a \<and> state (arr i) \<noteq> FREE)
   \<and> (\<forall>i. state (arr i) \<noteq> FREE \<longrightarrow> pres (page (arr i)) = Some i)"

definition buf_inv :: "Buffer \<Rightarrow> bool" where
  "buf_inv b = pages_ok (m_array b) (m_present_pages b) (m_free_pages b) (m_busy_pages b)"

lemma pages_okD:
  assumes "pages_ok arr pres fr bs"
  shows "distinct fr" and "distinct bs" and "set fr \<inter> set bs = {}"
    and "i \<in> set fr \<Longrightarrow> state (arr i) = FREE"
    and "i \<in> set bs \<Longrightarrow> \<not> deferred (arr i) \<Longrightarrow> state (arr i) \<in> in_use"
    and "pres a = Some i \<Longrightarrow> page (arr i) = a"
    and "pres a = Some i \<Longrightarrow> state (arr i) \<noteq> FREE"
    and "state (arr i) \<noteq> FREE \<Longrightarrow> pres (page (arr i)) = Some i"
  using assms by (auto simp: pages_ok_def)

lemma pages_okI:
  assumes "distinct (fr @ bs)"
    and "\<And>i. i \<in> set fr \<Longrightarrow> state (arr i) = FREE"
    and "\<And>i. i \<in> set bs \<Longrightarrow> \<not> deferred (arr i) \<Longrightarrow> state (arr i) \<in> in_use"
    and "\<And>a i. pres a = Some i \<Longrightarrow> page (arr i) = a \<and> state (arr i) \<noteq> FREE"
    and "\<And>i. state (arr i) \<noteq> FREE \<Longrightarrow> pres (page (arr i)) = Some i"
  shows "pages_ok arr pres fr bs"
  using assms unfolding pages_ok_def by blast

lemma leaving_not_listed:
  assumes "pages_ok arr pres fr bs" and "state (arr i) = LEAVING"
  shows "i \<notin> set fr" and "i \<in> set bs \<Longrightarrow> deferred (arr i)"
  using pages_okD(4,5) [OF assms(1), of i] assms(2) by (auto simp: in_use_def)

text \<open>A free descriptor is taken for an absent page.\<close>

lemma pages_ok_alloc:
  assumes ok: "pages_ok arr pres (fr @ [i]) bs" and absent: "pres a = None"
    and d: "state d = FILLING" "page d = a" "\<not> deferred d"
  shows "pages_ok (arr(i := d)) (pres(a \<mapsto> i)) fr (i # bs)"
proof (rule pages_okI)
  have free: "state (arr i) = FREE" using pages_okD(4) [OF ok] by simp
  then have unused: "pres x \<noteq> Some i" for x using pages_okD(7) [OF ok] by blast
  have dist: "distinct ((fr @ [i]) @ bs)" using ok by (simp add: pages_ok_def)
  then show "distinct (fr @ i # bs)" by simp
  show "state ((arr(i := d)) j) = FREE" if "j \<in> set fr" for j
    using that dist pages_okD(4) [OF ok, of j] by auto
  show "state ((arr(i := d)) j) \<in> in_use"
    if "j \<in> set (i # bs)" "\<not> deferred ((arr(i := d)) j)" for j
    using that d pages_okD(5) [OF ok, of j] by (cases "j = i") (simp_all add: in_use_def)
  show "page ((arr(i := d)) j) = x \<and> state ((arr(i := d)) j) \<noteq> FREE"
    if "(pres(a \<mapsto> i)) x = Some j" for x j
    using that d unused [of x] pages_okD(6,7) [OF ok, of x j]
    by (cases "x = a"; cases "j = i") simp_all
  show "(pres(a \<mapsto> i)) (page ((arr(i := d)) j)) = Some j" if "state ((arr(i := d)) j) \<noteq> FREE" for j
    using that d absent pages_okD(8) [OF ok, of j] by (cases "j = i") auto
qed

text \<open>A descriptor in use stays in use for the same page.\<close>

lemma pages_ok_touch:
  assumes ok: "pages_ok arr pres fr bs" and "state (arr i) \<noteq> FREE" and "state d \<noteq> FREE"
    and "page d = page (arr i)" and "i \<in> set bs \<Longrightarrow> \<not> deferred d \<Longrightarrow> state d \<in> in_use"
  shows "pages_ok (arr(i := d)) pres fr bs"
  using assms by (auto simp: pages_ok_def)

text \<open>Descriptors leave the busy list.\<close>

lemma pages_ok_shrink:
  assumes "pages_ok arr pres fr bs" and "distinct bs'" and "set bs' \<subseteq> set bs"
  shows "pages_ok arr pres fr bs'"
  using assms by (auto simp: pages_ok_def)

text \<open>A leaving descriptor is freed, and released unless it is deferred.\<close>

lemma pages_ok_free:
  assumes ok: "pages_ok arr pres fr bs" and leaving: "state (arr i) = LEAVING"
    and d: "state d = FREE" "deferred d = deferred (arr i)"
  shows "pages_ok (arr(i := d)) (pres(page (arr i) := None))
           (if deferred d then fr else fr @ [i]) bs"
proof -
  have fr: "i \<notin> set fr" and bs: "i \<in> set bs \<Longrightarrow> deferred d"
    using leaving_not_listed [OF ok leaving] d by auto
  have pres: "pres (page (arr i)) = Some i" using pages_okD(8) [OF ok] leaving by simp
  then have "pres a = Some i \<Longrightarrow> a = page (arr i)" for a using pages_okD(6) [OF ok] by blast
  moreover have "state (arr j) \<noteq> FREE \<Longrightarrow> j \<noteq> i \<Longrightarrow> page (arr j) \<noteq> page (arr i)" for j
    using pages_okD(8) [OF ok, of j] pres by force
  ultimately show ?thesis
    using ok fr bs d unfolding pages_ok_def by (auto split: if_splits)
qed

text \<open>A deferred descriptor that has become free is released.\<close>

lemma pages_ok_release:
  assumes "pages_ok arr pres fr (bs @ [i])" and "state (arr i) = FREE"
  shows "pages_ok arr pres (fr @ [i]) bs"
  using assms by (auto simp: pages_ok_def)

section \<open>Preservation by the critical sections\<close>

lemma buf_inv_frame [simp]:
  "buf_inv (lock_buffer c b) = buf_inv b"
  "buf_inv (begin_state_wait b) = buf_inv b"
  "buf_inv (end_state_wait b) = buf_inv b"
  "buf_inv (begin_avail_wait b) = buf_inv b"
  "buf_inv (end_avail_wait b) = buf_inv b"
  "buf_inv (broadcast_state b) = buf_inv b"
  by (simp_all add: buf_inv_def lock_buffer_def begin_state_wait_def end_state_wait_def
      begin_avail_wait_def end_avail_wait_def broadcast_state_def)

lemma lock_buffer_fields [simp]:
  "m_array (lock_buffer c b) = m_array b"
  "m_present_pages (lock_buffer c b) = m_present_pages b"
  "m_free_pages (lock_buffer c b) = m_free_pages b"
  "m_busy_pages (lock_buffer c b) = m_busy_pages b"
  by (simp_all add: lock_buffer_def)

lemma release_fields [simp]:
  "m_array (release_page_descriptor i b) = m_array b"
  "m_present_pages (release_page_descriptor i b) = m_present_pages b"
  "m_free_pages (release_page_descriptor i b) = m_free_pages b @ [i]"
  "m_busy_pages (release_page_descriptor i b) = m_busy_pages b"
  by (simp_all add: release_page_descriptor_def Let_def)

lemma broadcast_fields [simp]:
  "m_array (broadcast_state b) = m_array b"
  "m_present_pages (broadcast_state b) = m_present_pages b"
  "m_free_pages (broadcast_state b) = m_free_pages b"
  "m_busy_pages (broadcast_state b) = m_busy_pages b"
  by (simp_all add: broadcast_state_def)

lemma ppe_send_buf [simp]: "buf_inv (buf (ppe_send pd e)) = buf_inv (buf e)"
  by (simp add: ppe_send_def buf_inv_def Let_def)

lemma mark_page_as_present_inv:
  assumes "buf_inv (buf e)" and "mark_page_as_present c pd e = Inr e'"
  shows "buf_inv (buf e')"
  using assms pages_okD(5)
  by (auto simp: mark_page_as_present_def buf_inv_def set_pd_def bindR_eq_Inr_iff set_state_iff
      in_use_def intro!: pages_ok_touch)

lemma mark_page_as_free_inv:
  assumes inv: "buf_inv (buf e)" and res: "mark_page_as_free c pd e = Inr e'"
  shows "buf_inv (buf e')"
proof -
  let ?b = "lock_buffer c (buf e)"
  let ?d = "(m_array ?b pd)\<lparr>state := FREE, spurious_count := 0, page := 0\<rparr>"
  have leaving: "state (m_array ?b pd) = LEAVING"
    using res by (auto simp: mark_page_as_free_def bindR_eq_Inr_iff set_state_iff Let_def
        split: option.splits)
  have "pages_ok ((m_array ?b)(pd := ?d)) ((m_present_pages ?b)(page (m_array ?b pd) := None))
      (if deferred ?d then m_free_pages ?b else m_free_pages ?b @ [pd]) (m_busy_pages ?b)"
    using inv leaving by (intro pages_ok_free) (simp_all add: buf_inv_def)
  then show ?thesis
    using res leaving
    by (auto simp: mark_page_as_free_def set_state_free_def set_pd_def buf_inv_def Let_def
        split: option.splits if_splits)
qed

text \<open>What a fault on an absent page does when a descriptor is free.\<close>

lemma ppe_alloc_effect:
  assumes fr: "m_free_pages (buf e) = fr @ [i]" and free: "state (m_array (buf e) i) = FREE"
  shows "\<exists>e'. ppe_alloc a w r e = Inr (e', PPE_done)
     \<and> (let d = m_array (buf e') i in
           m_array (buf e') = (m_array (buf e))(i := d)
         \<and> state d = FILLING \<and> page d = a \<and> region d = Some r \<and> dirty d = w
         \<and> \<not> deferred d \<and> \<not> data_present d)
     \<and> m_present_pages (buf e') = (m_present_pages (buf e))(a \<mapsto> i)
     \<and> m_free_pages (buf e') = fr \<and> m_busy_pages (buf e') = i # m_busy_pages (buf e)
     \<and> pool_queue (fill_workers e') = pool_queue (fill_workers e) @ [fill_item i]
     \<and> evict_workers e' = evict_workers e
     \<and> table e' = (table e)\<lparr>rds := (rds (table e))(r := insert_page_descriptor i (rds (table e) r))\<rparr>"
  using assms
  by (simp add: ppe_alloc_def get_page_descriptor_def set_state_filling_def Let_def set_pd_def
      ppe_send_def)

lemma ppe_alloc_empty:
  assumes "m_free_pages (buf e) = []"
  shows "ppe_alloc a w r e = Inr (e\<lparr>buf := begin_avail_wait (buf e)\<rparr>, PPE_wait_avail)"
  using assms by (simp add: ppe_alloc_def get_page_descriptor_def)

lemma ppe_alloc_inv:
  assumes inv: "buf_inv (buf e)" and absent: "m_present_pages (buf e) a = None"
    and res: "ppe_alloc a w r e = Inr (e', out)"
  shows "buf_inv (buf e')"
proof (cases "m_free_pages (buf e)" rule: rev_cases)
  case Nil
  with res inv show ?thesis by (auto simp: ppe_alloc_empty)
next
  case (snoc fr i)
  then have "state (m_array (buf e) i) = FREE"
    using inv pages_okD(4) [of _ _ "m_free_pages (buf e)"] by (simp add: buf_inv_def)
  from ppe_alloc_effect [OF snoc this, of a w r] res
  have "m_array (buf e') = (m_array (buf e))(i := m_array (buf e') i)"
    and "state (m_array (buf e') i) = FILLING" "page (m_array (buf e') i) = a"
      "\<not> deferred (m_array (buf e') i)"
    and "m_present_pages (buf e') = (m_present_pages (buf e))(a \<mapsto> i)"
      "m_free_pages (buf e') = fr" "m_busy_pages (buf e') = i # m_busy_pages (buf e)"
    by (auto simp: Let_def)
  moreover have "pages_ok (m_array (buf e)) (m_present_pages (buf e)) (fr @ [i])
      (m_busy_pages (buf e))"
    using inv snoc by (simp add: buf_inv_def)
  ultimately show ?thesis
    unfolding buf_inv_def using absent pages_ok_alloc by metis
qed

lemma ppe_check_inv:
  assumes inv: "buf_inv (buf e)" and res: "ppe_check a w r e = Inr (e', out)"
  shows "buf_inv (buf e')"
proof (cases "page_already_present a (buf e)")
  case Absent
  then have "m_present_pages (buf e) a = None"
    by (simp add: page_already_present_def split: option.splits if_splits)
  with Absent inv res ppe_alloc_inv show ?thesis by (simp add: ppe_check_def)
next
  case (Present_pd pd)
  then have st: "state (m_array (buf e) pd) = PRESENT"
    by (auto simp: page_already_present_def split: option.splits if_splits)
  let ?touch = "\<lambda>d. pages_ok ((m_array (buf e))(pd := d)) (m_present_pages (buf e))
    (m_free_pages (buf e)) (m_busy_pages (buf e))"
  have "?touch ((m_array (buf e) pd)\<lparr>dirty := True, state := UPDATING\<rparr>)"
    and "?touch ((m_array (buf e) pd)\<lparr>spurious_count := spurious_count (m_array (buf e) pd) + 1\<rparr>)"
    using inv st unfolding buf_inv_def
    by (auto intro!: pages_ok_touch simp: in_use_def)
  with Present_pd res st show ?thesis
    by (auto simp: ppe_check_def set_state_updating_def set_pd_def buf_inv_def ppe_send_def
        Let_def split: if_splits)
next
  case Wait_state
  with inv res show ?thesis by (auto simp: ppe_check_def)
qed

section \<open>Eviction of one page\<close>

lemma evict_fields [simp]:
  "m_array (count_deleted b) = m_array b"
  "m_present_pages (count_deleted b) = m_present_pages b"
  "m_free_pages (count_deleted b) = m_free_pages b"
  "m_busy_pages (count_deleted b) = m_busy_pages b"
  by (simp_all add: count_deleted_def)

lemma evict_take_deferred_inv:
  assumes "buf_inv b" and "m_busy_pages b = bs @ [pd]" and "state (m_array b pd) = FREE"
  shows "buf_inv (evict_take_deferred pd b)"
  using assms pages_ok_release [of "m_array b" "m_present_pages b" "m_free_pages b" bs pd]
  by (simp add: buf_inv_def evict_take_deferred_def)

lemma evict_take_normal_inv:
  assumes inv: "buf_inv b" and bs: "m_busy_pages b = bs @ [pd]"
    and res: "evict_take_normal pd b = Inr (b', out)"
  shows "buf_inv b'"
proof -
  have st: "state (m_array b pd) = PRESENT"
    using res by (auto simp: evict_take_normal_def bindR_eq_Inr_iff set_state_iff Let_def)
  have "pages_ok (m_array b) (m_present_pages b) (m_free_pages b) bs" and "pd \<notin> set bs"
    using inv bs pages_ok_shrink [of "m_array b" "m_present_pages b" "m_free_pages b" "bs @ [pd]" bs]
    by (auto simp: buf_inv_def pages_ok_def)
  with st have "pages_ok ((m_array b)(pd := (m_array b pd)\<lparr>state := LEAVING\<rparr>))
      (m_present_pages b) (m_free_pages b) bs"
    by (intro pages_ok_touch) simp_all
  with res st bs show ?thesis
    by (auto simp: evict_take_normal_def set_state_leaving_def set_pd_def buf_inv_def Let_def)
qed

lemma evict_oldest_loop_inv:
  assumes "buf_inv b" and "evict_oldest_loop b = Inr (b', out)"
  shows "buf_inv b'"
  using assms
proof (induction b rule: evict_oldest_loop.induct)
  case (1 b)
  show ?case
  proof (cases "m_busy_pages b" rule: rev_cases)
    case Nil
    with "1.prems" show ?thesis by (simp add: evict_oldest_loop.simps [of b])
  next
    case (snoc bs pd)
    consider "deferred (m_array b pd)" "state (m_array b pd) = FREE"
      | "\<not> deferred (m_array b pd)" "state (m_array b pd) = PRESENT"
      | "b' = begin_state_wait b"
      using "1.prems"(2) snoc
      by (auto simp: evict_oldest_loop.simps [of b] Let_def split: if_splits)
    then show ?thesis
    proof cases
      case 1
      with "1.IH" [OF _ refl refl] "1.prems" snoc evict_take_deferred_inv [OF _ snoc]
      show ?thesis by (simp add: evict_oldest_loop.simps [of b] Let_def)
    next
      case 2
      with "1.prems" snoc evict_take_normal_inv [OF _ snoc] show ?thesis
        by (simp add: evict_oldest_loop.simps [of b] Let_def)
    next
      case 3
      with "1.prems" show ?thesis by simp
    qed
  qed
qed

lemma evict_oldest_page_inv:
  assumes "buf_inv b" and "evict_oldest_page c b = Inr (b', out)"
  shows "buf_inv b'"
  using assms evict_oldest_loop_inv [of "lock_buffer c b"] by (simp add: evict_oldest_page_def)

section \<open>Eviction of a batch of pages\<close>

definition evictable :: "Buffer \<Rightarrow> pd_ref \<Rightarrow> bool" where
  "evictable b pd \<longleftrightarrow> \<not> deferred (m_array b pd) \<and> state (m_array b pd) = PRESENT"

definition set_leaving :: "pd_ref set \<Rightarrow> (pd_ref \<Rightarrow> PageDescriptor) \<Rightarrow> pd_ref \<Rightarrow> PageDescriptor" where
  "set_leaving A arr = (\<lambda>i. if i \<in> A then (arr i)\<lparr>state := LEAVING\<rparr> else arr i)"

lemma set_leaving_insert:
  "set_leaving A (arr(pd := (arr pd)\<lparr>state := LEAVING\<rparr>)) = set_leaving (insert pd A) arr"
  by (auto simp: set_leaving_def fun_eq_iff)

text \<open>One round of the scan, which looks at the back of the busy list.\<close>

definition leave_back :: "pd_ref \<Rightarrow> pd_ref list \<Rightarrow> Buffer \<Rightarrow> Buffer" where
  "leave_back pd bs b =
     (set_pd pd ((m_array b pd)\<lparr>state := LEAVING\<rparr>) (count_deleted b))\<lparr>m_busy_pages := bs\<rparr>"

lemma leave_back_fields [simp]:
  "m_array (leave_back pd bs b) = (m_array b)(pd := (m_array b pd)\<lparr>state := LEAVING\<rparr>)"
  "m_present_pages (leave_back pd bs b) = m_present_pages b"
  "m_free_pages (leave_back pd bs b) = m_free_pages b"
  "m_busy_pages (leave_back pd bs b) = bs"
  by (simp_all add: leave_back_def set_pd_def)

lemma evict_scan_snoc:
  assumes "m_busy_pages b = bs @ [pd]" and "length bs < 2 ^ 64"
    and "length ev < max_num_evicted_pages"
  shows "evict_scan b (of_nat (length (m_busy_pages b)) - 1) ev pend =
     (if evictable b pd
      then evict_scan (leave_back pd bs b) (of_nat (length bs) - 1) (ev @ [pd]) pend
      else evict_scan (b\<lparr>m_busy_pages := bs\<rparr>) (of_nat (length bs) - 1) ev (pend @ [pd]))"
proof -
  have i: "of_nat (length (m_busy_pages b)) - 1 = (of_nat (length bs) :: u64)"
    using assms(1) by simp
  have u: "unat (of_nat (length bs) :: u64) = length bs"
    using assms(2) by (simp add: unat_of_nat take_bit_nat_eq_self)
  show ?thesis
    unfolding i using assms u
    by (subst evict_scan.simps)
      (simp add: evictable_def leave_back_def set_pd_def nth_append Let_def)
qed

lemma evictable_leave_back:
  assumes "pd \<notin> set bs"
  shows "filter (evictable (leave_back pd bs' b)) bs = filter (evictable b) bs"
  using assms by (intro filter_cong) (auto simp: evictable_def)

lemma evictable_busy [simp]: "evictable (b\<lparr>m_busy_pages := bs\<rparr>) = evictable b"
  by (simp add: evictable_def fun_eq_iff)

text \<open>
  The scan takes the oldest evictable pages off the busy list until it has its
  number; when there are too few of them it runs past the front of the list.
\<close>

lemma evict_scan_too_few:
  assumes "distinct (m_busy_pages b)" and "length (m_busy_pages b) < 2 ^ 64"
    and "length ev + length (filter (evictable b) (m_busy_pages b)) < max_num_evicted_pages"
  shows "evict_scan b (of_nat (length (m_busy_pages b)) - 1) ev pend
           = Inl (UNDEFINED ''deque index out of range'')"
  using assms
proof (induction "m_busy_pages b" arbitrary: b ev pend rule: rev_induct)
  case Nil
  then show ?case by (subst evict_scan.simps) simp
next
  case (snoc pd bs)
  note b = snoc.hyps(2) [symmetric]
  have len: "length bs < 2 ^ 64" "length ev < max_num_evicted_pages"
    using snoc.prems(2,3) b by simp_all
  show ?case
  proof (cases "evictable b pd")
    case True
    then show ?thesis
      using snoc.hyps(1) [of "leave_back pd bs b" "ev @ [pd]" pend] snoc.prems b
        evict_scan_snoc [OF b len, of pend] evictable_leave_back [of pd bs bs b]
      by simp
  next
    case False
    then show ?thesis
      using snoc.hyps(1) [of "b\<lparr>m_busy_pages := bs\<rparr>" ev "pend @ [pd]"] snoc.prems b
        evict_scan_snoc [OF b len, of pend]
      by simp
  qed
qed

lemma evict_scan_full:
  assumes "length ev = max_num_evicted_pages"
  shows "evict_scan b i ev pend = Inr (b, ev, pend)"
  using assms by (subst evict_scan.simps) simp

lemma evict_scan_enough:
  assumes "distinct (m_busy_pages b)" and "length (m_busy_pages b) < 2 ^ 64"
    and "length ev \<le> max_num_evicted_pages"
    and "max_num_evicted_pages \<le> length ev + length (filter (evictable b) (m_busy_pages b))"
    and "new = take (max_num_evicted_pages - length ev) (filter (evictable b) (rev (m_busy_pages b)))"
  shows "\<exists>b' old. evict_scan b (of_nat (length (m_busy_pages b)) - 1) ev pend
             = Inr (b', ev @ new, pend @ old)
           \<and> m_array b' = set_leaving (set new) (m_array b)
           \<and> m_present_pages b' = m_present_pages b \<and> m_free_pages b' = m_free_pages b
           \<and> mset (m_busy_pages b' @ old @ new) = mset (m_busy_pages b)"
  using assms
proof (induction "m_busy_pages b" arbitrary: b ev pend new rule: rev_induct)
  case Nil
  then show ?case by (simp add: evict_scan_full set_leaving_def)
next
  case (snoc pd bs)
  note b = snoc.hyps(2) [symmetric]
  show ?case
  proof (cases "length ev = max_num_evicted_pages")
    case True
    then show ?thesis using snoc.prems(5) b by (simp add: evict_scan_full set_leaving_def)
  next
    case False
    then have len: "length bs < 2 ^ 64" "length ev < max_num_evicted_pages"
      using snoc.prems(2,3) b by simp_all
    have dist: "distinct bs" "pd \<notin> set bs" using snoc.prems(1) b by simp_all
    show ?thesis
    proof (cases "evictable b pd")
      case True
      let ?b1 = "leave_back pd bs b"
      let ?new = "take (max_num_evicted_pages - length (ev @ [pd])) (filter (evictable ?b1) (rev bs))"
      have new: "new = pd # ?new"
        using snoc.prems(5) b True len evictable_leave_back [of pd "rev bs" bs b] dist
        by (simp add: Suc_diff_Suc [symmetric])
      obtain b' old where ih: "evict_scan ?b1 (of_nat (length bs) - 1) (ev @ [pd]) pend
             = Inr (b', (ev @ [pd]) @ ?new, pend @ old)"
        "m_array b' = set_leaving (set ?new) (m_array ?b1)"
        "m_present_pages b' = m_present_pages ?b1" "m_free_pages b' = m_free_pages ?b1"
        "mset (m_busy_pages b' @ old @ ?new) = mset bs"
        using snoc.hyps(1) [of ?b1 "ev @ [pd]" ?new pend] snoc.prems b len dist True
          evictable_leave_back [of pd bs bs b]
        by auto
      have "m_array b' = set_leaving (set new) (m_array b)"
        using ih(2) new by (simp add: set_leaving_insert)
      with ih show ?thesis
        using evict_scan_snoc [OF b len, of pend] True new b
        by (intro exI [of _ b'] exI [of _ old]) simp
    next
      case False
      let ?b1 = "b\<lparr>m_busy_pages := bs\<rparr>"
      have new: "new = take (max_num_evicted_pages - length ev) (filter (evictable ?b1) (rev bs))"
        using snoc.prems(5) b False by simp
      obtain b' old where "evict_scan ?b1 (of_nat (length bs) - 1) ev (pend @ [pd])
             = Inr (b', ev @ new, (pend @ [pd]) @ old)"
        "m_array b' = set_leaving (set new) (m_array ?b1)"
        "m_present_pages b' = m_present_pages ?b1" "m_free_pages b' = m_free_pages ?b1"
        "mset (m_busy_pages b' @ old @ new) = mset bs"
        using snoc.hyps(1) [of ?b1 ev new "pend @ [pd]"] snoc.prems b len dist False new by auto
      then show ?thesis
        using evict_scan_snoc [OF b len, of pend] False b
        by (intro exI [of _ b'] exI [of _ "pd # old"]) simp
    qed
  qed
qed

lemma evict_oldest_pages_step:
  assumes "m_busy_pages b \<noteq> []"
  shows "evict_oldest_pages c b =
     bindR (evict_scan (lock_buffer c b) (of_nat (length (m_busy_pages b)) - 1) [] [])
       (\<lambda>(b2, evicted, pending). Inr (b2\<lparr>m_busy_pages := m_busy_pages b2 @ pending\<rparr>, evicted))"
  using assms by (cases "m_busy_pages b") (simp_all add: evict_oldest_pages_def Let_def)

lemma evictable_lock [simp]: "evictable (lock_buffer c b) = evictable b"
  by (simp add: evictable_def fun_eq_iff)

lemma pages_ok_leaving:
  assumes ok: "pages_ok arr pres fr bs" and ev: "\<And>i. i \<in> A \<Longrightarrow> state (arr i) = PRESENT"
    and bs': "distinct bs'" "set bs' = set bs - A"
  shows "pages_ok (set_leaving A arr) pres fr bs'"
proof (rule pages_okI)
  show "distinct (fr @ bs')" using pages_okD(1,3) [OF ok] bs' by auto
  show "state (set_leaving A arr i) = FREE" if "i \<in> set fr" for i
    using that pages_okD(4) [OF ok, of i] ev [of i] by (auto simp: set_leaving_def)
  show "state (set_leaving A arr i) \<in> in_use"
    if "i \<in> set bs'" "\<not> deferred (set_leaving A arr i)" for i
    using that pages_okD(5) [OF ok, of i] bs' by (auto simp: set_leaving_def)
  show "page (set_leaving A arr i) = a \<and> state (set_leaving A arr i) \<noteq> FREE"
    if "pres a = Some i" for a i
    using that pages_okD(6,7) [OF ok, of a i] by (auto simp: set_leaving_def)
  show "pres (page (set_leaving A arr i)) = Some i" if "state (set_leaving A arr i) \<noteq> FREE" for i
    using that pages_okD(8) [OF ok, of i] ev [of i] by (auto simp: set_leaving_def split: if_splits)
qed

lemma evict_oldest_pages_full:
  assumes inv: "buf_inv b" and len: "length (m_busy_pages b) < 2 ^ 64"
    and enough: "max_num_evicted_pages \<le> length (filter (evictable b) (m_busy_pages b))"
    and new: "new = take max_num_evicted_pages (filter (evictable b) (rev (m_busy_pages b)))"
  shows "\<exists>b'. evict_oldest_pages c b = Inr (b', new) \<and> buf_inv b'
           \<and> m_array b' = set_leaving (set new) (m_array b)
           \<and> m_present_pages b' = m_present_pages b \<and> m_free_pages b' = m_free_pages b
           \<and> mset (m_busy_pages b' @ new) = mset (m_busy_pages b)"
proof -
  have dist: "distinct (m_busy_pages b)" using inv by (simp add: buf_inv_def pages_ok_def)
  have ne: "m_busy_pages b \<noteq> []" using enough by (auto simp: max_num_evicted_pages_def)
  obtain b' old where scan: "evict_scan (lock_buffer c b) (of_nat (length (m_busy_pages b)) - 1) [] []
      = Inr (b', new, old)"
    and arr: "m_array b' = set_leaving (set new) (m_array b)"
      "m_present_pages b' = m_present_pages b" "m_free_pages b' = m_free_pages b"
    and ms: "mset (m_busy_pages b' @ old @ new) = mset (m_busy_pages b)"
    using evict_scan_enough [of "lock_buffer c b" "[]" new "[]"] dist len enough new by auto
  let ?b = "b'\<lparr>m_busy_pages := m_busy_pages b' @ old\<rparr>"
  have "distinct (m_busy_pages b' @ old @ new)"
    using ms dist mset_eq_imp_distinct_iff by blast
  moreover have "set (m_busy_pages b' @ old @ new) = set (m_busy_pages b)"
    using ms mset_eq_setD by blast
  ultimately have "distinct (m_busy_pages ?b)" "set (m_busy_pages ?b) = set (m_busy_pages b) - set new"
    by auto
  moreover have "state (m_array b i) = PRESENT" if "i \<in> set new" for i
    using that new by (auto simp: evictable_def dest: in_set_takeD)
  ultimately have "buf_inv ?b"
    using inv arr pages_ok_leaving [of "m_array b" "m_present_pages b" "m_free_pages b"
        "m_busy_pages b" "set new" "m_busy_pages ?b"]
    by (simp add: buf_inv_def)
  with scan arr ms ne show ?thesis by (simp add: evict_oldest_pages_step union_assoc)
qed

lemma evict_oldest_pages_out_of_range:
  assumes "buf_inv b" and "length (m_busy_pages b) < 2 ^ 64" and "m_busy_pages b \<noteq> []"
    and "length (filter (evictable b) (m_busy_pages b)) < max_num_evicted_pages"
  shows "evict_oldest_pages c b = Inl (UNDEFINED ''deque index out of range'')"
  using assms evict_scan_too_few [of "lock_buffer c b" "[]" "[]"]
  by (simp add: evict_oldest_pages_step buf_inv_def pages_ok_def)

lemma evict_oldest_pages_inv:
  assumes "buf_inv b" and "length (m_busy_pages b) < 2 ^ 64"
    and "evict_oldest_pages c b = Inr (b', new)"
  shows "buf_inv b'"
proof (cases "m_busy_pages b = []")
  case True
  with assms show ?thesis by (auto simp: evict_oldest_pages_def Let_def)
next
  case False
  show ?thesis
  proof (cases "length (filter (evictable b) (m_busy_pages b)) < max_num_evicted_pages")
    case True
    with assms False evict_oldest_pages_out_of_range show ?thesis by fastforce
  next
    case False
    with assms evict_oldest_pages_full [OF assms(1,2) _ refl, of c] show ?thesis by auto
  qed
qed

section \<open>The water marks\<close>

lemma f32_product_bounds:
  assumes "0 < x" and "0 < y"
  shows "x * y * (1 - 1 / 2 ^ 22) \<le> f32 (f32 x * f32 y)"
    and "f32 (f32 x * f32 y) \<le> x * y * (1 + 1 / 2 ^ 22)"
proof -
  let ?l = "1 - 1 / 2 ^ 24 :: rat" and ?u = "1 + 1 / 2 ^ 24 :: rat"
  have x: "x * ?l \<le> f32 x" "f32 x \<le> x * ?u" and y: "y * ?l \<le> f32 y" "f32 y \<le> y * ?u"
    using assms by (auto intro!: fl_round_bounds simp del: power_numeral)
  have pos: "0 < f32 x" "0 < f32 y" using assms by (simp_all add: fl_round_pos)
  have l: "(x * ?l) * (y * ?l) \<le> f32 x * f32 y"
    using x(1) y(1) assms pos by (intro mult_mono) simp_all
  have u: "f32 x * f32 y \<le> (x * ?u) * (y * ?u)"
    using x(2) y(2) assms pos by (intro mult_mono) simp_all
  have r: "f32 x * f32 y * ?l \<le> f32 (f32 x * f32 y)" "f32 (f32 x * f32 y) \<le> f32 x * f32 y * ?u"
    using pos by (auto intro!: fl_round_bounds mult_pos_pos simp del: power_numeral)
  have "x * y * (1 - 1 / 2 ^ 22) \<le> x * y * (?l * ?l * ?l)"
    using assms by (intro mult_left_mono) simp_all
  also have "\<dots> = (x * ?l) * (y * ?l) * ?l" by (simp only: mult.assoc mult.left_commute)
  also have "\<dots> \<le> f32 x * f32 y * ?l" using l by (rule mult_right_mono) simp
  also note r(1)
  finally show "x * y * (1 - 1 / 2 ^ 22) \<le> f32 (f32 x * f32 y)" .
  note r(2)
  also have "f32 x * f32 y * ?u \<le> (x * ?u) * (y * ?u) * ?u" using u by (rule mult_right_mono) simp
  also have "\<dots> = x * y * (?u * ?u * ?u)" by (simp only: mult.assoc mult.left_commute)
  also have "\<dots> \<le> x * y * (1 + 1 / 2 ^ 22)" using assms by (intro mult_left_mono) simp_all
  finally show "f32 (f32 x * f32 y) \<le> x * y * (1 + 1 / 2 ^ 22)" .
qed

lemma water_mark_share:
  assumes "0 < p" and "p < 100"
  shows "\<exists>m. apply_int_percentage p item = Inr m \<and> m \<le> item
           \<and> \<bar>of_nat m - of_nat item * of_int p / 100\<bar> < of_nat item / 2 ^ 22 + (1 :: rat)"
proof (cases "item = 0")
  case True
  then show ?thesis using assms by (simp add: apply_int_percentage_def Let_def)
next
  case False
  let ?q = "of_int p / 100 :: rat" and ?n = "of_nat item :: rat"
  let ?v = "f32 (f32 ?q * f32 ?n)" and ?m = "nat \<lfloor>f32 (f32 ?q * f32 ?n)\<rfloor>"
  have q: "0 < ?q" "?q \<le> 99 / 100" using assms by (simp_all add: field_simps)
  have n: "0 < ?n" using False by simp
  have p: "f32 (of_int p) = of_int p" using assms by (intro fl_round_int [of _ p]) simp_all
  have c: "f32 100 = (100 :: rat)" by (rule fl_round_int [of _ 100]) simp_all
  have b: "?q * ?n * (1 - 1 / 2 ^ 22) \<le> ?v" "?v \<le> ?q * ?n * (1 + 1 / 2 ^ 22)"
    by (rule f32_product_bounds [OF q(1) n])+
  have "?q * ?n * (1 - 1 / 2 ^ 22) > 0" using q n by simp
  with b have v: "0 < ?v" by linarith
  have m: "of_nat ?m \<le> ?v" "?v < of_nat ?m + 1" using v by (simp_all add: of_nat_floor) linarith
  have qn: "?q * ?n \<le> ?n" using q n by simp
  have "?v \<le> ?n"
  proof -
    have "?q * (1 + 1 / 2 ^ 22) \<le> 99 / 100 * (1 + 1 / 2 ^ 22)"
      using q(2) by (rule mult_right_mono) simp
    then have "?q * (1 + 1 / 2 ^ 22) \<le> 1" by simp
    with n have "?n * (?q * (1 + 1 / 2 ^ 22)) \<le> ?n * 1" by (intro mult_left_mono) simp_all
    with b(2) show ?thesis by (simp add: ac_simps)
  qed
  with m(1) have "of_nat ?m \<le> ?n" by (rule order_trans)
  then have "?m \<le> item" by simp
  moreover have "\<bar>of_nat ?m - ?n * ?q\<bar> < ?n / 2 ^ 22 + 1"
  proof -
    have "?q * ?n * (1 - 1 / 2 ^ 22) = ?n * ?q - ?q * ?n / 2 ^ 22"
      "?q * ?n * (1 + 1 / 2 ^ 22) = ?n * ?q + ?q * ?n / 2 ^ 22" by (simp_all add: algebra_simps)
    moreover have "?q * ?n / 2 ^ 22 \<le> ?n / 2 ^ 22" using qn by (rule divide_right_mono) simp
    ultimately show ?thesis using b m unfolding abs_less_iff by linarith
  qed
  moreover have "apply_int_percentage p item = Inr ?m"
    using assms by (simp add: apply_int_percentage_def Let_def p c)
  ultimately show ?thesis by (intro exI [of _ ?m]) simp
qed

section \<open>Properties\<close>

text \<open>
  C13: The eviction daemon takes the oldest pages first. When at least 32 pages of the busy
  list are present and not deferred, \<open>evict_oldest_pages\<close> returns the 32 of them that have
  been in the list longest, in that order, puts them and no others into the state
  LEAVING, removes them from the busy list and keeps every other page in it, and keeps the
  invariant of the buffer.
\<close>

theorem evict_oldest_pages_takes_oldest:
  assumes "buf_inv b" and "length (m_busy_pages b) < 2 ^ 64"
    and "32 \<le> length (filter (evictable b) (m_busy_pages b))"
    and "new = take 32 (filter (evictable b) (rev (m_busy_pages b)))"
  shows "\<exists>b'. evict_oldest_pages busy b = Inr (b', new) \<and> buf_inv b'
           \<and> m_array b' = set_leaving (set new) (m_array b)
           \<and> m_present_pages b' = m_present_pages b \<and> m_free_pages b' = m_free_pages b
           \<and> mset (m_busy_pages b' @ new) = mset (m_busy_pages b)"
  using evict_oldest_pages_full [of b new busy] assms by (simp add: max_num_evicted_pages_def)

text \<open>A buffer with \<open>k\<close> present pages on the busy list.\<close>

definition busy_buffer :: "nat \<Rightarrow> Buffer" where
  "busy_buffer k =
     \<lparr>m_size = k,
      m_array = (\<lambda>i. if i < k then zero_PageDescriptor\<lparr>page := of_nat i, state := PRESENT\<rparr>
                     else zero_PageDescriptor),
      m_present_pages = (\<lambda>a. if unat a < k then Some (unat a) else None),
      m_free_pages = [], m_busy_pages = [0..<k], m_evict_low_water = 1, m_evict_high_water = 1,
      m_waits_for_avail_pd = 0, m_avail_pd_cond = 0, m_waits_for_state_change = 0,
      m_state_change_cond = 0, m_stats = BufferStats_init, is_monitor_on = False\<rparr>"

lemma busy_buffer_inv:
  assumes "k \<le> 100"
  shows "buf_inv (busy_buffer k)"
proof -
  have "unat (of_nat i :: u64) = i" if "i < k" for i
    using that assms by (simp add: unat_of_nat take_bit_nat_eq_self)
  then show ?thesis
    unfolding buf_inv_def
    by (intro pages_okI) (auto simp: busy_buffer_def zero_PageDescriptor_def in_use_def split: if_splits)
qed

lemma busy_buffer_evictable: "filter (evictable (busy_buffer k)) [0..<k] = [0..<k]"
  by (simp add: evictable_def busy_buffer_def zero_PageDescriptor_def filter_True)

lemma busy_buffer_busy [simp]: "m_busy_pages (busy_buffer k) = [0..<k]"
  by (simp add: busy_buffer_def)

theorem evict_oldest_pages_takes_oldest_witness:
  "\<exists>b'. evict_oldest_pages False (busy_buffer 33) = Inr (b', rev [1..<33]) \<and> buf_inv b'"
proof -
  have "filter (evictable (busy_buffer 33)) (rev [0..<33]) = rev [0..<33]"
    using busy_buffer_evictable [of 33] by (simp only: rev_filter [symmetric])
  moreover have "take 32 (rev [0..<33]) = rev [1..<33]"
    using arg_cong [OF upt_conv_Cons [of 0 33], of "\<lambda>xs. take 32 (rev xs)"]
    by (simp del: upt_Suc upt_rec_numeral)
  ultimately have "take 32 (filter (evictable (busy_buffer 33)) (rev (m_busy_pages (busy_buffer 33))))
      = rev [1..<33]" by (simp del: upt_Suc upt_rec_numeral)
  with evict_oldest_pages_takes_oldest [of "busy_buffer 33" "rev [1..<33]" False] busy_buffer_inv [of 33]
  show ?thesis by (auto simp: busy_buffer_evictable)
qed

text \<open>
  C14: The loop of \<open>evict_oldest_pages\<close> does not stop at the front of the busy list: its
  counter is unsigned, so that the test for a negative index never fails. When the list
  is not empty and fewer than 32 of its pages can be evicted, the function reads past the
  end of the deque.
\<close>

theorem evict_oldest_pages_overruns:
  assumes "buf_inv b" and "length (m_busy_pages b) < 2 ^ 64" and "m_busy_pages b \<noteq> []"
    and "length (filter (evictable b) (m_busy_pages b)) < 32"
  shows "evict_oldest_pages busy b = Inl (UNDEFINED ''deque index out of range'')"
  using evict_oldest_pages_out_of_range [of b busy] assms by (simp add: max_num_evicted_pages_def)

theorem evict_oldest_pages_overruns_witness:
  "evict_oldest_pages False (busy_buffer 31) = Inl (UNDEFINED ''deque index out of range'')"
  by (rule evict_oldest_pages_overruns) (simp_all add: busy_buffer_inv busy_buffer_evictable)

text \<open>
  C21: The water marks of the buffer. A percentage outside 0 to 100 is refused; 0 and 100
  both give the whole size; any other percentage gives, in spite of the single precision
  arithmetic, at most the whole size, and the exact share up to one page and a relative
  error of 2 to the power of -22.
\<close>

theorem water_mark_bounds:
  "((\<exists>e. apply_int_percentage p item = Inl e) \<longleftrightarrow> p < 0 \<or> 100 < p)
   \<and> (p \<in> {0, 100} \<longrightarrow> apply_int_percentage p item = Inr item)
   \<and> (0 < p \<and> p < 100 \<longrightarrow>
        (\<exists>m. apply_int_percentage p item = Inr m \<and> m \<le> item
           \<and> \<bar>of_nat m - of_nat item * of_int p / 100\<bar> < of_nat item / 2 ^ 22 + (1 :: rat)))"
  using water_mark_share [of p item] by (auto simp: apply_int_percentage_def Let_def)

theorem water_mark_bounds_witness:
  "\<exists>m. apply_int_percentage 70 1000000 = Inr m \<and> m \<le> 1000000
     \<and> \<bar>of_nat m - 700000\<bar> < (2 :: rat)"
proof -
  obtain m where m: "apply_int_percentage 70 1000000 = Inr m" "m \<le> 1000000"
    and err: "\<bar>of_nat m - of_nat 1000000 * of_int 70 / 100\<bar> < of_nat 1000000 / 2 ^ 22 + (1 :: rat)"
    using water_mark_bounds [of 70 1000000] by auto
  have "of_nat 1000000 / 2 ^ 22 + 1 < (2 :: rat)" by simp
  with err have "\<bar>of_nat m - of_nat 1000000 * of_int 70 / 100\<bar> < (2 :: rat)" by (rule less_trans)
  with m show ?thesis by (intro exI [of _ m]) simp
qed

end
