(* ===== verification/Uffd.thy ===== *)
theory Uffd
  imports Buffer_Inv
begin

text \<open>
  The fault monitor of \<^verbatim>\<open>Uffd.hpp\<close> and \<^verbatim>\<open>Uffd.cpp\<close>: the loop that reads page fault
  events from the kernel, groups them by page and hands them to the buffer, and the
  calls that install, protect and register pages. The kernel's \<^verbatim>\<open>userfaultfd\<close> is not
  part of the sources: its calls and the constants of its header are arguments, and
  what the code relies on is stated as the predicate \<open>kernel_ok\<close>.
\<close>

section \<open>The kernel interface\<close>

text \<open>Constants of \<^verbatim>\<open>linux/userfaultfd.h\<close>, \<^verbatim>\<open>poll.h\<close> and \<^verbatim>\<open>errno.h\<close> that the code uses.\<close>

record uffd_abi =
  UFFD_PAGEFAULT_FLAG_WRITE :: u64
  UFFD_PAGEFAULT_FLAG_WP :: u64
  UFFDIO_COPY_MODE_WP :: u64
  UFFDIO_WRITEPROTECT_MODE_WP :: u64
  UFFDIO_REGISTER_MODE_MISSING :: u64
  UFFDIO_REGISTER_MODE_WP :: u64
  UFFDIO_COPY_bit :: nat
  UFFDIO_WRITEPROTECT_bit :: nat
  UFFD_FEATURE_PAGEFAULT_FLAG_WP :: u64
  POLLIN :: u16
  POLLERR :: u16
  EAGAIN :: int
  sizeof_uffd_msg :: nat

text \<open>
  The calls that change the application's memory, over an abstract kernel state. An
  answer \<open>None\<close> is the return value -1. \<open>page_view\<close> observes what is mapped at a page
  address: the data and whether it is write protected.
\<close>

record ('k, 'd) kernel =
  uffdio_copy :: "addr \<Rightarrow> 'd \<Rightarrow> u64 \<Rightarrow> u64 \<Rightarrow> 'k \<Rightarrow> 'k option"
  uffdio_writeprotect :: "addr \<Rightarrow> u64 \<Rightarrow> u64 \<Rightarrow> 'k \<Rightarrow> 'k option"
  madvise_dontneed :: "addr \<Rightarrow> u64 \<Rightarrow> 'k \<Rightarrow> 'k option"
  page_view :: "'k \<Rightarrow> addr \<Rightarrow> ('d \<times> bool) option"

text \<open>
  What the manual page of \<^verbatim>\<open>ioctl_userfaultfd\<close> promises for a registered page: a copy
  into a missing page installs it, protected exactly when the mode asks for it, and
  fails with \<^verbatim>\<open>EEXIST\<close> when the page is there; the protection of a page can be set and
  cleared; \<^verbatim>\<open>MADV_DONTNEED\<close> drops it. Other pages are not touched.
\<close>

definition kernel_ok :: "uffd_abi \<Rightarrow> u64 \<Rightarrow> ('k, 'd) kernel \<Rightarrow> bool" where
  "kernel_ok abi psize K \<longleftrightarrow>
     (\<forall>k a d. page_view K k a = None \<longrightarrow>
        (\<exists>k'. uffdio_copy K a d psize 0 k = Some k'
            \<and> page_view K k' = (page_view K k)(a \<mapsto> (d, False))))
   \<and> (\<forall>k a d. page_view K k a = None \<longrightarrow>
        (\<exists>k'. uffdio_copy K a d psize (UFFDIO_COPY_MODE_WP abi) k = Some k'
            \<and> page_view K k' = (page_view K k)(a \<mapsto> (d, True))))
   \<and> (\<forall>k a d mode. page_view K k a \<noteq> None \<longrightarrow> uffdio_copy K a d psize mode k = None)
   \<and> (\<forall>k a d p. page_view K k a = Some (d, p) \<longrightarrow>
        (\<exists>k'. uffdio_writeprotect K a psize (UFFDIO_WRITEPROTECT_MODE_WP abi) k = Some k'
            \<and> page_view K k' = (page_view K k)(a \<mapsto> (d, True))))
   \<and> (\<forall>k a d p. page_view K k a = Some (d, p) \<longrightarrow>
        (\<exists>k'. uffdio_writeprotect K a psize 0 k = Some k'
            \<and> page_view K k' = (page_view K k)(a \<mapsto> (d, False))))
   \<and> (\<forall>k a. \<exists>k'. madvise_dontneed K a psize k = Some k'
            \<and> page_view K k' = (page_view K k)(a := None))"

section \<open>Page operations\<close>

text \<open>\<open>ro\<close>: the code is compiled with \<^verbatim>\<open>UMAP_RO_MODE\<close>.\<close>

definition enable_write_protect ::
  "uffd_abi \<Rightarrow> bool \<Rightarrow> u64 \<Rightarrow> ('k, 'd) kernel \<Rightarrow> addr \<Rightarrow> 'k \<Rightarrow> 'k result" where
  "enable_write_protect abi ro psize K page_address k =
     (if ro then Inr k
      else case uffdio_writeprotect K page_address psize (UFFDIO_WRITEPROTECT_MODE_WP abi) k of
             None \<Rightarrow> Inl (UMAP_ERROR ''ioctl(UFFDIO_WRITEPROTECT)'')
           | Some k' \<Rightarrow> Inr k')"

definition disable_write_protect ::
  "bool \<Rightarrow> u64 \<Rightarrow> ('k, 'd) kernel \<Rightarrow> addr \<Rightarrow> 'k \<Rightarrow> 'k result" where
  "disable_write_protect ro psize K page_address k =
     (if ro then Inr k
      else case uffdio_writeprotect K page_address psize 0 k of
             None \<Rightarrow> Inl (UMAP_ERROR ''ioctl(UFFDIO_WRITEPROTECT)'')
           | Some k' \<Rightarrow> Inr k')"

definition copy_in_page :: "u64 \<Rightarrow> ('k, 'd) kernel \<Rightarrow> 'd \<Rightarrow> addr \<Rightarrow> 'k \<Rightarrow> 'k result" where
  "copy_in_page psize K data page_address k =
     (case uffdio_copy K page_address data psize 0 k of
        None \<Rightarrow> Inl (UMAP_ERROR ''UFFDIO_COPY failed'')
      | Some k' \<Rightarrow> Inr k')"

definition copy_in_page_and_write_protect ::
  "uffd_abi \<Rightarrow> bool \<Rightarrow> u64 \<Rightarrow> ('k, 'd) kernel \<Rightarrow> 'd \<Rightarrow> addr \<Rightarrow> 'k \<Rightarrow> 'k result" where
  "copy_in_page_and_write_protect abi ro psize K data page_address k =
     (case uffdio_copy K page_address data psize (if ro then 0 else UFFDIO_COPY_MODE_WP abi) k of
        None \<Rightarrow> Inl (UMAP_ERROR ''UFFDIO_COPY failed @ '')
      | Some k' \<Rightarrow> Inr k')"

text \<open>What the page operations do on a page in the right condition.\<close>

lemma kernel_calls:
  assumes "kernel_ok A p K"
  shows "page_view K k a = None \<Longrightarrow>
      \<exists>k'. copy_in_page p K d a k = Inr k' \<and> page_view K k' = (page_view K k)(a \<mapsto> (d, False))"
    and "page_view K k a = None \<Longrightarrow>
      \<exists>k'. copy_in_page_and_write_protect A False p K d a k = Inr k'
         \<and> page_view K k' = (page_view K k)(a \<mapsto> (d, True))"
    and "page_view K k a = Some (d, b) \<Longrightarrow>
      \<exists>k'. enable_write_protect A False p K a k = Inr k'
         \<and> page_view K k' = (page_view K k)(a \<mapsto> (d, True))"
    and "page_view K k a = Some (d, b) \<Longrightarrow>
      \<exists>k'. disable_write_protect False p K a k = Inr k'
         \<and> page_view K k' = (page_view K k)(a \<mapsto> (d, False))"
    and "\<exists>k'. madvise_dontneed K a p k = Some k' \<and> page_view K k' = (page_view K k)(a := None)"
    and "page_view K k a \<noteq> None \<Longrightarrow> \<exists>e. copy_in_page p K d a k = Inl e"
proof -
  note k = assms [unfolded kernel_ok_def]
  show "\<exists>k'. copy_in_page p K d a k = Inr k' \<and> page_view K k' = (page_view K k)(a \<mapsto> (d, False))"
    if "page_view K k a = None"
    using conjunct1 [OF k, rule_format, OF that, of d] by (auto simp: copy_in_page_def)
  show "\<exists>k'. copy_in_page_and_write_protect A False p K d a k = Inr k'
         \<and> page_view K k' = (page_view K k)(a \<mapsto> (d, True))" if "page_view K k a = None"
    using conjunct1 [OF conjunct2 [OF k], rule_format, OF that, of d]
    by (auto simp: copy_in_page_and_write_protect_def)
  show "\<exists>k'. enable_write_protect A False p K a k = Inr k'
         \<and> page_view K k' = (page_view K k)(a \<mapsto> (d, True))" if "page_view K k a = Some (d, b)"
    using conjunct1 [OF conjunct2 [OF conjunct2 [OF conjunct2 [OF k]]], rule_format, OF that]
    by (auto simp: enable_write_protect_def)
  show "\<exists>k'. disable_write_protect False p K a k = Inr k'
         \<and> page_view K k' = (page_view K k)(a \<mapsto> (d, False))" if "page_view K k a = Some (d, b)"
    using conjunct1 [OF conjunct2 [OF conjunct2 [OF conjunct2 [OF conjunct2 [OF k]]]], rule_format, OF that]
    by (auto simp: disable_write_protect_def)
  show "\<exists>e. copy_in_page p K d a k = Inl e" if "page_view K k a \<noteq> None"
    using conjunct1 [OF conjunct2 [OF conjunct2 [OF k]], rule_format, OF that, of d]
    by (auto simp: copy_in_page_def)
  show "\<exists>k'. madvise_dontneed K a p k = Some k' \<and> page_view K k' = (page_view K k)(a := None)"
    using k by blast
qed

section \<open>The event loop\<close>

record uffd_msg =
  msg_address :: u64
  msg_flags :: u64

definition less_than_key :: "uffd_msg \<Rightarrow> uffd_msg \<Rightarrow> bool" where
  "less_than_key lhs rhs \<longleftrightarrow>
     (if msg_address lhs = msg_address rhs then msg_flags lhs > msg_flags rhs
      else msg_address lhs < msg_address rhs)"

text \<open>
  \<^verbatim>\<open>std::sort\<close>, as an insertion sort. The order is total on the two fields that are
  compared, so that the standard fixes the result (lemma \<open>sort_msgs_unique\<close>).
\<close>

fun insort_msg :: "uffd_msg \<Rightarrow> uffd_msg list \<Rightarrow> uffd_msg list" where
  "insort_msg m [] = [m]"
| "insort_msg m (x # xs) = (if less_than_key x m then x # insort_msg m xs else m # x # xs)"

definition sort_msgs :: "uffd_msg list \<Rightarrow> uffd_msg list" where
  "sort_msgs ms = foldr insort_msg ms []"

text \<open>
  The test of the write flag: \<^verbatim>\<open>!=\<close> binds tighter than \<^verbatim>\<open>&\<close>, so that the flags are
  masked with the truth value of the comparison.
\<close>

definition iswrite_of :: "uffd_abi \<Rightarrow> bool \<Rightarrow> uffd_msg \<Rightarrow> bool" where
  "iswrite_of abi ro m \<longleftrightarrow>
     (if ro then False
      else msg_flags m AND
             (if (UFFD_PAGEFAULT_FLAG_WP abi OR UFFD_PAGEFAULT_FLAG_WRITE abi) \<noteq> 0 then 1 else 0)
           \<noteq> 0)"

fun handle_events :: "uffd_abi \<Rightarrow> bool \<Rightarrow> addr \<Rightarrow> uffd_msg list \<Rightarrow> (bool \<times> addr) list" where
  "handle_events abi ro last_addr [] = []"
| "handle_events abi ro last_addr (m # ms) =
     (if msg_address m = last_addr then handle_events abi ro last_addr ms
      else (iswrite_of abi ro m, msg_address m) # handle_events abi ro (msg_address m) ms)"

text \<open>The calls of \<open>process_page\<close> that one batch of events leads to.\<close>

definition batch_calls :: "uffd_abi \<Rightarrow> bool \<Rightarrow> u64 \<Rightarrow> uffd_msg list \<Rightarrow> (bool \<times> addr) list" where
  "batch_calls abi ro page_size events =
     handle_events abi ro 0
       (sort_msgs (map (\<lambda>m. m\<lparr>msg_address := page_base page_size (msg_address m)\<rparr>) events))"

text \<open>
  One turn of the loop: \<open>pollres\<close> and the three \<open>revents\<close> are the answer of \<^verbatim>\<open>poll\<close>, and
  \<open>readres\<close> with \<open>events\<close> or \<open>errno\<close> the answer of \<^verbatim>\<open>read\<close>.
\<close>

datatype turn = Leave | Again | Calls "(bool \<times> addr) list"

definition uffd_turn ::
  "uffd_abi \<Rightarrow> bool \<Rightarrow> u64 \<Rightarrow> nat \<Rightarrow> bool \<Rightarrow> int \<Rightarrow> u16 \<times> u16 \<times> u16
     \<Rightarrow> int \<Rightarrow> int \<Rightarrow> uffd_msg list \<Rightarrow> turn result" where
  "uffd_turn abi ro page_size max_fault_events wq_empty pollres revents readres errno events =
     (if \<not> wq_empty then Inr Leave
      else if pollres = -1 then Inl (UMAP_ERROR ''poll failed'')
      else if pollres \<noteq> 1 then Inl (UMAP_ERROR ''poll: unexpected result'')
      else case revents of (r0, r1, r2) \<Rightarrow>
        if r1 AND POLLIN abi \<noteq> 0 \<or> r2 AND POLLIN abi \<noteq> 0 then Inr Leave
        else if r0 AND POLLERR abi \<noteq> 0 then Inl (UMAP_ERROR ''POLLERR: '')
        else if r0 AND POLLIN abi = 0 then Inr Again
        else if readres = -1 then
          if errno = EAGAIN abi then Inr Again else Inl (UMAP_ERROR ''read failed'')
        else if nat readres mod sizeof_uffd_msg abi \<noteq> 0
          then Inl (ASSERT_FAIL ''Invalid read result returned'')
        else
          let msgs = nat readres div sizeof_uffd_msg abi in
          if \<not> (1 \<le> msgs \<and> msgs \<le> max_fault_events) then Inl (ASSERT_FAIL ''invalid message size'')
          else Inr (Calls (batch_calls abi ro page_size (take msgs events))))"

definition process_page ::
  "bool \<Rightarrow> bool \<Rightarrow> addr \<Rightarrow> engine \<Rightarrow> (engine \<times> rid option \<times> ppe_out) result" where
  "process_page busy iswrite a e =
     (case containing_region a (table e) of
        (None, rt) \<Rightarrow> Inr (e\<lparr>table := rt\<rparr>, None, PPE_done)
      | (Some r, rt) \<Rightarrow>
          bindR (process_page_event busy a iswrite r (e\<lparr>table := rt\<rparr>)) (\<lambda>(e', out).
            Inr (e', Some r, out)))"

section \<open>Construction, registration\<close>

record Uffd =
  m_max_fault_events :: u64
  m_page_size :: u64
  m_uffd_fd :: int
  m_pipe :: "int \<times> int"
  m_events_size :: u64
  uffd_pool :: WorkerPool

text \<open>\<open>api_out\<close>: the answer of \<^verbatim>\<open>UFFDIO_API\<close>, the features or \<open>None\<close> for -1.\<close>

definition check_uffd_compatibility :: "uffd_abi \<Rightarrow> bool \<Rightarrow> u64 option \<Rightarrow> unit result" where
  "check_uffd_compatibility abi ro api_out =
     (case api_out of
        None \<Rightarrow> Inl (UMAP_ERROR ''ioctl(UFFDIO_API) Failed'')
      | Some features \<Rightarrow>
          if \<not> ro \<and> features AND UFFD_FEATURE_PAGEFAULT_FLAG_WP abi = 0
          then Inl (UMAP_ERROR ''UFFD Compatibilty Check - unsupported userfaultfd WP'')
          else Inr ())"

definition Uffd_init ::
  "uffd_abi \<Rightarrow> bool \<Rightarrow> (nat \<Rightarrow> nat option) \<Rightarrow> (nat \<Rightarrow> bool) \<Rightarrow> u64 \<Rightarrow> u64 \<Rightarrow> int \<Rightarrow> int \<Rightarrow> int \<times> int
     \<Rightarrow> u64 option \<Rightarrow> Uffd result" where
  "Uffd_init abi ro create named max_fault_events page_size fd pipe_res pipes api_out =
     (if fd < 0 then Inl (UMAP_ERROR ''userfaultfd syscall not available in this kernel'')
      else if pipe_res < 0 then Inl (UMAP_ERROR ''userfaultfd pipe failed'')
      else
        bindR (check_uffd_compatibility abi ro api_out) (\<lambda>_.
        bindR (start_thread_pool create named (WorkerPool_init ''Uffd Manager'' 1)) (\<lambda>p.
          Inr \<lparr>m_max_fault_events = max_fault_events, m_page_size = page_size,
               m_uffd_fd = fd, m_pipe = pipes, m_events_size = max_fault_events,
               uffd_pool = p\<rparr>)))"

text \<open>The destructor writes to the pipe, which ends the event loop, and stops the pool.\<close>

definition Uffd_destroy :: "Uffd \<Rightarrow> Uffd" where
  "Uffd_destroy u = u\<lparr>uffd_pool := stop_thread_pool (uffd_pool u)\<rparr>"

text \<open>
  \<open>register_ioctl start len mode\<close>: the answer of \<^verbatim>\<open>UFFDIO_REGISTER\<close>, the set of possible
  ioctls or \<open>None\<close>.
\<close>

definition register_region ::
  "uffd_abi \<Rightarrow> bool \<Rightarrow> (addr \<Rightarrow> u64 \<Rightarrow> u64 \<Rightarrow> u64 option) \<Rightarrow> RegionDescriptor \<Rightarrow> unit result" where
  "register_region abi ro register_ioctl rd =
     (case register_ioctl (rd_start rd) (rd_size rd)
             (if ro then UFFDIO_REGISTER_MODE_MISSING abi
              else UFFDIO_REGISTER_MODE_MISSING abi OR UFFDIO_REGISTER_MODE_WP abi) of
        None \<Rightarrow> Inl (UMAP_ERROR ''ioctl(UFFDIO_REGISTER) failed'')
      | Some ioctls \<Rightarrow>
          if ioctls AND push_bit (UFFDIO_COPY_bit abi) 1 = 0
           \<or> ioctls AND push_bit (UFFDIO_WRITEPROTECT_bit abi) 1 = 0
          then Inl (UMAP_ERROR ''unexpected userfaultfd ioctl set'')
          else Inr ())"

section \<open>What a batch of events leads to\<close>

definition msg_le :: "uffd_msg \<Rightarrow> uffd_msg \<Rightarrow> bool" where
  "msg_le x y \<longleftrightarrow> \<not> less_than_key y x"

lemma msg_le_iff:
  "msg_le x y \<longleftrightarrow> msg_address x < msg_address y
     \<or> msg_address x = msg_address y \<and> msg_flags y \<le> msg_flags x"
  by (auto simp: msg_le_def less_than_key_def)

lemma msg_le_trans: "msg_le x y \<Longrightarrow> msg_le y z \<Longrightarrow> msg_le x z"
  by (auto simp: msg_le_iff)

lemma less_than_key_le: "less_than_key x y \<Longrightarrow> msg_le x y"
  by (auto simp: msg_le_iff less_than_key_def split: if_splits)

lemma set_insort_msg [simp]: "set (insort_msg m xs) = insert m (set xs)"
  by (induction xs) auto

lemma mset_insort_msg [simp]: "mset (insort_msg m xs) = add_mset m (mset xs)"
  by (induction xs) auto

lemma sorted_insort_msg: "sorted_wrt msg_le xs \<Longrightarrow> sorted_wrt msg_le (insort_msg m xs)"
  by (induction xs)
    (auto simp: less_than_key_le msg_le_def [symmetric] intro: msg_le_trans)

lemma mset_sort_msgs [simp]: "mset (sort_msgs ms) = mset ms"
  by (induction ms) (simp_all add: sort_msgs_def)

lemma sorted_sort_msgs: "sorted_wrt msg_le (sort_msgs ms)"
  by (induction ms) (simp_all add: sort_msgs_def sorted_insort_msg)

lemma set_sort_msgs [simp]: "set (sort_msgs ms) = set ms"
  using mset_eq_setD [OF mset_sort_msgs] .

lemma msg_le_antisym: "msg_le x y \<Longrightarrow> msg_le y x \<Longrightarrow> x = (y :: uffd_msg)"
  by (cases x; cases y) (auto simp: msg_le_iff)

text \<open>Whatever \<^verbatim>\<open>std::sort\<close> returns is what the insertion sort returns.\<close>

lemma sort_msgs_unique:
  assumes "sorted_wrt msg_le xs" and "mset xs = mset ms"
  shows "xs = sort_msgs ms"
proof -
  have uniq: "sorted_wrt msg_le xs \<Longrightarrow> sorted_wrt msg_le ys \<Longrightarrow> mset xs = mset ys \<Longrightarrow> xs = ys" for ys
  proof (induction xs arbitrary: ys)
    case Nil
    then show ?case by simp
  next
    case (Cons x xs)
    then obtain y ys' where ys: "ys = y # ys'" by (cases ys) auto
    have "x \<in> set ys" "y \<in> set (x # xs)"
      using mset_eq_setD [OF Cons.prems(3)] ys by auto
    moreover have "\<forall>z\<in>set xs. msg_le x z" "\<forall>z\<in>set ys'. msg_le y z"
      using Cons.prems(1,2) ys by simp_all
    ultimately have "x = y" using msg_le_antisym ys by (metis set_ConsD)
    have "mset xs = mset ys'" using Cons.prems(3) unfolding ys \<open>x = y\<close> by simp
    moreover have "sorted_wrt msg_le xs" "sorted_wrt msg_le ys'"
      using Cons.prems(1,2) unfolding ys by simp_all
    ultimately have "xs = ys'" using Cons.IH by blast
    with \<open>x = y\<close> ys show ?case by simp
  qed
  show ?thesis by (rule uniq [OF assms(1) sorted_sort_msgs]) (simp add: assms(2))
qed

text \<open>A call for page \<open>a\<close> with the write flag of the event on it that has the greatest flags.\<close>

definition top_event :: "uffd_abi \<Rightarrow> bool \<Rightarrow> uffd_msg list \<Rightarrow> bool \<times> addr \<Rightarrow> bool" where
  "top_event abi ro ms c \<longleftrightarrow>
     (\<exists>m\<in>set ms. msg_address m = snd c \<and> fst c = iswrite_of abi ro m
        \<and> (\<forall>m'\<in>set ms. msg_address m' = snd c \<longrightarrow> msg_flags m' \<le> msg_flags m))"

lemma top_event_Cons:
  assumes "top_event abi ro ms c" and "snd c \<noteq> msg_address m"
  shows "top_event abi ro (m # ms) c"
  using assms by (auto simp: top_event_def)

lemma top_event_head:
  assumes "sorted_wrt msg_le (m # ms)"
  shows "top_event abi ro (m # ms) (iswrite_of abi ro m, msg_address m)"
  using assms by (auto simp: top_event_def msg_le_iff)

lemma handle_events_spec:
  assumes "sorted_wrt msg_le ms" and "\<forall>m\<in>set ms. l \<le> msg_address m"
  shows "sorted_wrt (<) (map snd (handle_events abi ro l ms))
       \<and> snd ` set (handle_events abi ro l ms) = msg_address ` set ms - {l}
       \<and> (\<forall>c \<in> set (handle_events abi ro l ms). top_event abi ro ms c)"
  using assms
proof (induction ms arbitrary: l)
  case Nil
  then show ?case by simp
next
  case (Cons m ms)
  let ?r = "handle_events abi ro (msg_address m) ms"
  have sorted: "sorted_wrt msg_le ms" using Cons.prems(1) by simp
  have below: "\<forall>m'\<in>set ms. msg_address m \<le> msg_address m'"
    using Cons.prems(1) by (auto simp: msg_le_iff)
  note IH = Cons.IH [OF sorted below]
  have later: "\<forall>a\<in>snd ` set ?r. msg_address m < a"
    using conjunct1 [OF conjunct2 [OF IH]] below by (auto simp: order.strict_iff_order)
  have rest: "\<forall>c\<in>set ?r. top_event abi ro (m # ms) c"
    using conjunct2 [OF conjunct2 [OF IH]] later by (auto intro!: top_event_Cons)
  show ?case
  proof (cases "msg_address m = l")
    case True
    then show ?thesis using IH rest by auto
  next
    case False
    then have "sorted_wrt (<) (map snd (handle_events abi ro l (m # ms)))"
      using IH later by auto
    moreover have "snd ` set (handle_events abi ro l (m # ms)) = msg_address ` set (m # ms) - {l}"
      using conjunct1 [OF conjunct2 [OF IH]] False Cons.prems(2) below by auto
    ultimately show ?thesis
      using False rest top_event_head [OF Cons.prems(1)] by auto
  qed
qed

section \<open>The world of the paging threads\<close>

text \<open>
  What the threads share: the engine, the kernel's view of the application's memory, and
  the contents of the stores, one value per store and page offset. The answers of the
  kernel and the compile time choices are fixed in a \<open>setting\<close>.
\<close>

record ('k, 'd) setting =
  abi_of :: uffd_abi
  ro_mode :: bool
  page_sz :: u64
  kern :: "('k, 'd) kernel"

record ('k, 'd) world =
  eng :: engine
  mem :: 'k
  stores :: "store_ref \<Rightarrow> u64 \<Rightarrow> 'd"

abbreviation desc :: "('k, 'd) world \<Rightarrow> pd_ref \<Rightarrow> PageDescriptor" where
  "desc w pd \<equiv> m_array (buf (eng w)) pd"

abbreviation with_buf :: "('k, 'd) world \<Rightarrow> Buffer \<Rightarrow> ('k, 'd) world" where
  "with_buf w b \<equiv> w\<lparr>eng := (eng w)\<lparr>buf := b\<rparr>\<rparr>"

section \<open>Properties\<close>

text \<open>
  C12: A batch of fault events leads to one call of \<open>process_page\<close> per page, in the order
  of the addresses: for a page size that is a power of two the pages called are exactly
  the pages the events fall on, and a call is a write exactly when some event of the
  batch on that page is a write. This holds although the test of the flags reads only
  their lowest bit, because the kernel sets the write flag with the flag of a
  protection fault and the events of a page are sorted with the greatest flags first.
\<close>

theorem batch_calls_once_per_page:
  assumes size: "psize = 2 ^ k"
    and mapped: "\<forall>m\<in>set events. page_base psize (msg_address m) \<noteq> 0"
    and abi: "UFFD_PAGEFAULT_FLAG_WRITE abi = 1" "UFFD_PAGEFAULT_FLAG_WP abi = 2"
    and flags: "\<forall>m\<in>set events. msg_flags m \<in> {0, 1, 3}"
  shows "sorted_wrt (<) (map snd (batch_calls abi False psize events))
       \<and> unat ` snd ` set (batch_calls abi False psize events)
           = (\<lambda>m. unat (msg_address m) div 2 ^ k * 2 ^ k) ` set events
       \<and> (\<forall>(w, a) \<in> set (batch_calls abi False psize events).
            w \<longleftrightarrow> (\<exists>m\<in>set events. unat a = unat (msg_address m) div 2 ^ k * 2 ^ k
                      \<and> msg_flags m AND UFFD_PAGEFAULT_FLAG_WRITE abi \<noteq> 0))"
proof -
  let ?ms = "map (\<lambda>m. m\<lparr>msg_address := page_base psize (msg_address m)\<rparr>) events"
  let ?calls = "batch_calls abi False psize events"
  have spec: "sorted_wrt (<) (map snd ?calls)
      \<and> snd ` set ?calls = msg_address ` set (sort_msgs ?ms) - {0}
      \<and> (\<forall>c\<in>set ?calls. top_event abi False (sort_msgs ?ms) c)"
    unfolding batch_calls_def by (rule handle_events_spec [OF sorted_sort_msgs]) simp
  have base: "unat (page_base psize x) = unat x div 2 ^ k * 2 ^ k" for x
    using size by (simp only: unat_page_base)
  have "snd ` set ?calls = (\<lambda>m. page_base psize (msg_address m)) ` set events"
    using conjunct1 [OF conjunct2 [OF spec]] mapped by (auto simp: image_image)
  then have pages: "unat ` snd ` set ?calls
      = (\<lambda>m. unat (msg_address m) div 2 ^ k * 2 ^ k) ` set events"
    by (simp only: image_image base)
  have wr: "iswrite_of abi False m \<longleftrightarrow> msg_flags m \<noteq> 0" if "msg_flags m \<in> {0, 1, 3}" for m
    using that abi by (auto simp: iswrite_of_def)
  have iff: "fst c \<longleftrightarrow> (\<exists>m\<in>set events. unat (snd c) = unat (msg_address m) div 2 ^ k * 2 ^ k
                      \<and> msg_flags m AND UFFD_PAGEFAULT_FLAG_WRITE abi \<noteq> 0)"
    if c: "c \<in> set ?calls" for c
  proof -
    have "top_event abi False (sort_msgs ?ms) c" using spec c by blast
    then obtain m where m: "m \<in> set events" "page_base psize (msg_address m) = snd c"
      "fst c = iswrite_of abi False m"
      and top: "\<forall>m'\<in>set events. page_base psize (msg_address m') = snd c
                  \<longrightarrow> msg_flags m' \<le> msg_flags m"
      by (auto simp: top_event_def iswrite_of_def)
    have page: "unat (snd c) = unat (msg_address m') div 2 ^ k * 2 ^ k
        \<longleftrightarrow> page_base psize (msg_address m') = snd c" for m'
      unfolding base [symmetric] by (auto simp: word_unat_eq_iff)
    have bit: "msg_flags m' AND 1 \<noteq> 0 \<longleftrightarrow> msg_flags m' \<noteq> 0" if "m' \<in> set events" for m'
      using flags that by fastforce
    show ?thesis
      using m top flags wr [of m] bit unfolding page abi(1) by fastforce
  qed
  show ?thesis
  proof (intro conjI ballI)
    show "case c of (w, a) \<Rightarrow> w \<longleftrightarrow> (\<exists>m\<in>set events. unat a = unat (msg_address m) div 2 ^ k * 2 ^ k
                      \<and> msg_flags m AND UFFD_PAGEFAULT_FLAG_WRITE abi \<noteq> 0)"
      if "c \<in> set ?calls" for c
      using iff [OF that] by (simp only: split_beta)
  qed (use spec pages in blast)+
qed

theorem batch_calls_once_per_page_witness:
  "\<exists>abi. batch_calls abi False (2 ^ 12)
      [\<lparr>msg_address = 8195, msg_flags = 0\<rparr>, \<lparr>msg_address = 4096, msg_flags = 0\<rparr>,
       \<lparr>msg_address = 8192, msg_flags = 3\<rparr>]
     = [(False, 4096), (True, 8192)]
   \<and> sorted_wrt (<) (map snd (batch_calls abi False (2 ^ 12)
      [\<lparr>msg_address = 8195, msg_flags = 0\<rparr>, \<lparr>msg_address = 4096, msg_flags = 0\<rparr>,
       \<lparr>msg_address = 8192, msg_flags = 3\<rparr>]))"
proof -
  let ?ev = "[\<lparr>msg_address = 8195, msg_flags = 0\<rparr>, \<lparr>msg_address = 4096, msg_flags = 0\<rparr>,
       \<lparr>msg_address = 8192, msg_flags = 3\<rparr>]"
  let ?abi = "\<lparr>UFFD_PAGEFAULT_FLAG_WRITE = 1, UFFD_PAGEFAULT_FLAG_WP = 2,
     UFFDIO_COPY_MODE_WP = 2, UFFDIO_WRITEPROTECT_MODE_WP = 1,
     UFFDIO_REGISTER_MODE_MISSING = 1, UFFDIO_REGISTER_MODE_WP = 2,
     UFFDIO_COPY_bit = 3, UFFDIO_WRITEPROTECT_bit = 6,
     UFFD_FEATURE_PAGEFAULT_FLAG_WP = 1, POLLIN = 1, POLLERR = 8, EAGAIN = 11,
     sizeof_uffd_msg = 32\<rparr>"
  have run: "batch_calls ?abi False (2 ^ 12) ?ev = [(False, 4096), (True, 8192)]"
    by (simp add: batch_calls_def sort_msgs_def page_base_def less_than_key_def iswrite_of_def)
  have "sorted_wrt (<) (map snd (batch_calls ?abi False (2 ^ 12) ?ev))"
    using batch_calls_once_per_page [of "2 ^ 12" 12 ?ev ?abi] by (simp add: page_base_def)
  with run show ?thesis by (intro exI [of _ ?abi]) simp
qed

end
