(* ===== verification/Demo_World.thy ===== *)
theory Demo_World
  imports Uffd
begin

text \<open>
  A small concrete world on which the theorems of the paging theories are tried out: a
  kernel that keeps a map from page addresses to contents, one region of 64 pages at
  address 65536 whose store holds the value 3 everywhere, and a buffer of two descriptors.
\<close>

definition demo_abi :: uffd_abi where
  "demo_abi =
     \<lparr>UFFD_PAGEFAULT_FLAG_WRITE = 1, UFFD_PAGEFAULT_FLAG_WP = 2,
      UFFDIO_COPY_MODE_WP = 2, UFFDIO_WRITEPROTECT_MODE_WP = 1,
      UFFDIO_REGISTER_MODE_MISSING = 1, UFFDIO_REGISTER_MODE_WP = 2,
      UFFDIO_COPY_bit = 3, UFFDIO_WRITEPROTECT_bit = 6,
      UFFD_FEATURE_PAGEFAULT_FLAG_WP = 1, POLLIN = 1, POLLERR = 8, EAGAIN = 11,
      sizeof_uffd_msg = 32\<rparr>"

definition demo_kernel :: "(addr \<Rightarrow> ('d \<times> bool) option, 'd) kernel" where
  "demo_kernel =
     \<lparr>uffdio_copy = (\<lambda>a d len mode k. if k a = None then Some (k(a \<mapsto> (d, mode = 2))) else None),
      uffdio_writeprotect = (\<lambda>a len mode k.
        case k a of None \<Rightarrow> None | Some (d, _) \<Rightarrow> Some (k(a \<mapsto> (d, mode = 1)))),
      madvise_dontneed = (\<lambda>a len k. Some (k(a := None))),
      page_view = (\<lambda>k. k)\<rparr>"

definition demo_S :: "(addr \<Rightarrow> (nat \<times> bool) option, nat) setting" where
  "demo_S = \<lparr>abi_of = demo_abi, ro_mode = False, page_sz = 4096, kern = demo_kernel\<rparr>"

lemma demo_kernel_ok: "kernel_ok demo_abi psize demo_kernel"
  by (simp add: kernel_ok_def demo_abi_def demo_kernel_def)

definition demo_buffer :: Buffer where
  "demo_buffer =
     \<lparr>m_size = 2, m_array = (\<lambda>_. zero_PageDescriptor), m_present_pages = Map.empty,
      m_free_pages = [0 ..< 2], m_busy_pages = [], m_evict_low_water = 2,
      m_evict_high_water = 2, m_waits_for_avail_pd = 0, m_avail_pd_cond = 0,
      m_waits_for_state_change = 0, m_state_change_cond = 0, m_stats = BufferStats_init,
      is_monitor_on = False\<rparr>"

definition demo_table :: RegionTable where
  "demo_table =
     \<lparr>m_active_regions = [(65536, 0)], m_last_iter = None,
      rds = (\<lambda>_. RegionDescriptor_init 65536 262144 65536 262144 7)\<rparr>"

definition demo_uffd :: Uffd where
  "demo_uffd = \<lparr>m_max_fault_events = 256, m_page_size = 4096, m_uffd_fd = 3, m_pipe = (4, 5),
     m_events_size = 256, uffd_pool = WorkerPool_init ''uffd'' 1\<rparr>"

definition demo_world :: "(addr \<Rightarrow> (nat \<times> bool) option, nat) world" where
  "demo_world =
     \<lparr>eng = \<lparr>buf = demo_buffer, table = demo_table,
              fill_workers = WorkerPool_init ''fill'' 2,
              evict_manager = WorkerPool_init ''mgr'' 1,
              evict_workers = WorkerPool_init ''evict'' 1\<rparr>,
      mem = Map.empty, stores = (\<lambda>_ off. 3)\<rparr>"

lemma demo_covers: "covers demo_table 0 a \<longleftrightarrow> 65536 \<le> a \<and> a < 327680"
  by (simp add: covers_def demo_table_def in_region_def rd_defs RegionDescriptor_init_def)

end
