(* ===== verification/Fill_Workers.thy ===== *)
theory Fill_Workers
  imports Demo_World
begin

text \<open>
  The threads of \<^verbatim>\<open>FillWorkers.cpp\<close>: they take page descriptors from their queue, read
  the page from the store, install it, or make a page writable that is there already.
  A worker is a program counter; \<open>filler_step\<close> is one step of it between two points
  where another thread can interfere.
\<close>

datatype 'd fill_pc =
    F_get
  | F_item pd_ref
  | F_read pd_ref 'd
  | F_copied pd_ref
  | F_mark pd_ref
  | F_exit

definition FillWorkers_init ::
  "(nat \<Rightarrow> nat option) \<Rightarrow> (nat \<Rightarrow> bool) \<Rightarrow> u64 \<Rightarrow> WorkerPool result" where
  "FillWorkers_init create named num_fillers =
     start_thread_pool create named (WorkerPool_init ''Fill Workers'' num_fillers)"

text \<open>\<open>alloc_ok\<close>: \<^verbatim>\<open>posix_memalign\<close> has returned 0 and the pointer is not null.\<close>

definition filler_begin :: "bool \<Rightarrow> 'd fill_pc result" where
  "filler_begin alloc_ok =
     (if alloc_ok then Inr F_get
      else Inl (UMAP_ERROR ''posix_memalign failed to allocated bytes of memory''))"

definition filler_get :: "('k, 'd) world \<Rightarrow> (('k, 'd) world \<times> 'd fill_pc) result option" where
  "filler_get w =
     (case get_work (fill_workers (eng w)) of
        (p, Must_wait _) \<Rightarrow> None
      | (p, Got item) \<Rightarrow>
          let w' = w\<lparr>eng := (eng w)\<lparr>fill_workers := p\<rparr>\<rparr> in
          if work_type item = EXIT then Some (Inr (w', F_exit))
          else case page_desc item of
                 None \<Rightarrow> Some (Inl (UNDEFINED ''null page descriptor''))
               | Some pd \<Rightarrow> Some (Inr (w', F_item pd)))"

text \<open>\<open>io_ok\<close>: \<^verbatim>\<open>read_from_store\<close> does not return -1.\<close>

definition filler_load ::
  "('k, 'd) setting \<Rightarrow> bool \<Rightarrow> pd_ref \<Rightarrow> ('k, 'd) world \<Rightarrow> (('k, 'd) world \<times> 'd fill_pc) result" where
  "filler_load S io_ok pd w =
     (let d = desc w pd in
      if dirty d \<and> data_present d then
        bindR (disable_write_protect (ro_mode S) (page_sz S) (kern S) (page d) (mem w)) (\<lambda>k.
          Inr (w\<lparr>mem := k\<rparr>, F_mark pd))
      else case region d of
             None \<Rightarrow> Inl (UNDEFINED ''null region'')
           | Some r \<Rightarrow>
               let rd = rds (table (eng w)) r in
               bindR (store_offset rd (page d)) (\<lambda>offset.
                 if \<not> io_ok then Inl (UMAP_ERROR ''read_from_store failed'')
                 else Inr (w, F_read pd (stores w (m_store rd) offset))))"

definition filler_copy ::
  "('k, 'd) setting \<Rightarrow> pd_ref \<Rightarrow> 'd \<Rightarrow> ('k, 'd) world \<Rightarrow> (('k, 'd) world \<times> 'd fill_pc) result" where
  "filler_copy S pd copyin_buf w =
     (let d = desc w pd in
      bindR (if \<not> dirty d
             then copy_in_page_and_write_protect (abi_of S) (ro_mode S) (page_sz S) (kern S)
                    copyin_buf (page d) (mem w)
             else copy_in_page (page_sz S) (kern S) copyin_buf (page d) (mem w)) (\<lambda>k.
        Inr (w\<lparr>mem := k\<rparr>, F_copied pd)))"

definition filler_step ::
  "('k, 'd) setting \<Rightarrow> bool \<Rightarrow> bool \<Rightarrow> ('k, 'd) world \<times> 'd fill_pc
     \<Rightarrow> (('k, 'd) world \<times> 'd fill_pc) result option" where
  "filler_step S io_ok busy = (\<lambda>(w, pc).
     case pc of
       F_get \<Rightarrow> filler_get w
     | F_item pd \<Rightarrow> Some (filler_load S io_ok pd w)
     | F_read pd copyin_buf \<Rightarrow> Some (filler_copy S pd copyin_buf w)
     | F_copied pd \<Rightarrow>
         Some (Inr (with_buf w (set_pd pd ((desc w pd)\<lparr>data_present := True\<rparr>) (buf (eng w))),
                    F_mark pd))
     | F_mark pd \<Rightarrow>
         Some (bindR (mark_page_as_present busy pd (eng w)) (\<lambda>e. Inr (w\<lparr>eng := e\<rparr>, F_get)))
     | F_exit \<Rightarrow> None)"

end
