(* ===== verification/Evict_Workers.thy ===== *)
theory Evict_Workers
  imports Uffd
begin

text \<open>
  The threads of \<^verbatim>\<open>EvictWorkers.cpp\<close>: they write dirty pages back to the store, drop the
  page from memory and release its descriptor. A worker is a program counter;
  \<open>evictor_step\<close> is one step of it between two points where another thread can
  interfere.
\<close>

datatype evict_pc =
    E_get
  | E_item WorkType pd_ref
  | E_protected WorkType pd_ref store_ref u64
  | E_written WorkType pd_ref
  | E_clean WorkType pd_ref
  | E_mark pd_ref
  | E_exit

definition EvictWorkers_init ::
  "(nat \<Rightarrow> nat option) \<Rightarrow> (nat \<Rightarrow> bool) \<Rightarrow> u64 \<Rightarrow> WorkerPool result" where
  "EvictWorkers_init create named num_evictors =
     start_thread_pool create named (WorkerPool_init ''Evict Workers'' num_evictors)"

definition evictor_get :: "('k, 'd) world \<Rightarrow> (('k, 'd) world \<times> evict_pc) result option" where
  "evictor_get w =
     (case get_work (evict_workers (eng w)) of
        (p, Must_wait _) \<Rightarrow> None
      | (p, Got item) \<Rightarrow>
          let w' = w\<lparr>eng := (eng w)\<lparr>evict_workers := p\<rparr>\<rparr> in
          if work_type item = EXIT then Some (Inr (w', E_exit))
          else case page_desc item of
                 None \<Rightarrow> Some (Inl (UNDEFINED ''null page descriptor''))
               | Some pd \<Rightarrow> Some (Inr (w', E_item (work_type item) pd)))"

definition evictor_protect ::
  "('k, 'd) setting \<Rightarrow> WorkType \<Rightarrow> pd_ref \<Rightarrow> ('k, 'd) world \<Rightarrow> (('k, 'd) world \<times> evict_pc) result" where
  "evictor_protect S t pd w =
     (let d = desc w pd in
      if dirty d then
        case region d of
          None \<Rightarrow> Inl (UNDEFINED ''null region'')
        | Some r \<Rightarrow>
            let rd = rds (table (eng w)) r in
            bindR (store_offset rd (page d)) (\<lambda>offset.
            bindR (enable_write_protect (abi_of S) (ro_mode S) (page_sz S) (kern S) (page d) (mem w))
              (\<lambda>k. Inr (w\<lparr>mem := k\<rparr>, E_protected t pd (m_store rd) offset)))
      else Inr (w, E_clean t pd))"

text \<open>
  The store reads the page through its address; without a mapped page the read would
  fault. \<open>io_ok\<close>: \<^verbatim>\<open>write_to_store\<close> does not return -1.
\<close>

definition evictor_write ::
  "('k, 'd) setting \<Rightarrow> bool \<Rightarrow> WorkType \<Rightarrow> pd_ref \<Rightarrow> store_ref \<Rightarrow> u64 \<Rightarrow> ('k, 'd) world
     \<Rightarrow> (('k, 'd) world \<times> evict_pc) result" where
  "evictor_write S io_ok t pd st offset w =
     (case page_view (kern S) (mem w) (page (desc w pd)) of
        None \<Rightarrow> Inl (UNDEFINED ''read of an unmapped page'')
      | Some (data, _) \<Rightarrow>
          if \<not> io_ok then Inl (UMAP_ERROR ''write_to_store failed'')
          else Inr (w\<lparr>stores := (stores w)(st := (stores w st)(offset := data))\<rparr>, E_written t pd))"

definition evictor_drop ::
  "('k, 'd) setting \<Rightarrow> WorkType \<Rightarrow> pd_ref \<Rightarrow> ('k, 'd) world \<Rightarrow> (('k, 'd) world \<times> evict_pc) result" where
  "evictor_drop S t pd w =
     (if t = FLUSH then Inr (w, E_get)
      else if t \<noteq> FAST_EVICT then
        case madvise_dontneed (kern S) (page (desc w pd)) (page_sz S) (mem w) of
          None \<Rightarrow> Inl (UMAP_ERROR ''madvise failed'')
        | Some k \<Rightarrow> Inr (w\<lparr>mem := k\<rparr>, E_mark pd)
      else Inr (w, E_mark pd))"

definition evictor_step ::
  "('k, 'd) setting \<Rightarrow> bool \<Rightarrow> bool \<Rightarrow> ('k, 'd) world \<times> evict_pc
     \<Rightarrow> (('k, 'd) world \<times> evict_pc) result option" where
  "evictor_step S io_ok busy = (\<lambda>(w, pc).
     case pc of
       E_get \<Rightarrow> evictor_get w
     | E_item t pd \<Rightarrow> Some (evictor_protect S t pd w)
     | E_protected t pd st offset \<Rightarrow> Some (evictor_write S io_ok t pd st offset w)
     | E_written t pd \<Rightarrow>
         Some (Inr (with_buf w (set_pd pd ((desc w pd)\<lparr>dirty := False\<rparr>) (buf (eng w))),
                    E_clean t pd))
     | E_clean t pd \<Rightarrow> Some (evictor_drop S t pd w)
     | E_mark pd \<Rightarrow>
         Some (bindR (mark_page_as_free busy pd (eng w)) (\<lambda>e. Inr (w\<lparr>eng := e\<rparr>, E_get)))
     | E_exit \<Rightarrow> None)"

end
