(* ===== verification/Evict_Manager.thy ===== *)
theory Evict_Manager
  imports Evict_Workers
begin

text \<open>
  The eviction manager of \<^verbatim>\<open>EvictManager.cpp\<close>: the daemon that keeps the buffer below its
  low water mark, the scheduling of single pages, and \<open>EvictAll\<close>; and the operations of
  \<^verbatim>\<open>Buffer.cpp\<close> that use it, \<open>evict_region\<close> and \<open>flush_dirty_pages\<close>.
\<close>

section \<open>Scheduling\<close>

definition schedule_eviction :: "pd_ref \<Rightarrow> engine \<Rightarrow> engine" where
  "schedule_eviction pd e =
     e\<lparr>evict_workers := send_work \<lparr>page_desc = Some pd, work_type = EVICT\<rparr> (evict_workers e)\<rparr>"

definition schedule_flush :: "pd_ref \<Rightarrow> engine \<Rightarrow> engine" where
  "schedule_flush pd e =
     e\<lparr>evict_workers := send_work \<lparr>page_desc = Some pd, work_type = FLUSH\<rparr> (evict_workers e)\<rparr>"

definition schedule_fast_evict :: "pd_ref \<Rightarrow> engine \<Rightarrow> engine" where
  "schedule_fast_evict pd e =
     e\<lparr>evict_workers := send_work \<lparr>page_desc = Some pd, work_type = FAST_EVICT\<rparr> (evict_workers e)\<rparr>"

section \<open>The daemon\<close>

datatype mgr_pc = M_get | M_loop | M_send "pd_ref list" | M_exit

definition mgr_step :: "bool \<Rightarrow> engine \<times> mgr_pc \<Rightarrow> (engine \<times> mgr_pc) result option" where
  "mgr_step busy = (\<lambda>(e, pc).
     case pc of
       M_get \<Rightarrow>
         (case get_work (evict_manager e) of
            (p, Must_wait _) \<Rightarrow> None
          | (p, Got item) \<Rightarrow>
              Some (Inr (e\<lparr>evict_manager := p\<rparr>, if work_type item = EXIT then M_exit else M_loop)))
     | M_loop \<Rightarrow>
         if low_threshold_reached (buf e) then Some (Inr (e, M_get))
         else Some (bindR (evict_oldest_pages busy (buf e)) (\<lambda>(b, evicted_pages).
                Inr (e\<lparr>buf := b\<rparr>, M_send evicted_pages)))
     | M_send [] \<Rightarrow> Some (Inr (e, M_loop))
     | M_send (pd # pds) \<Rightarrow> Some (Inr (schedule_eviction pd e, M_send pds))
     | M_exit \<Rightarrow> None)"

section \<open>Waiting for the workers, evicting everything\<close>

text \<open>\<open>WaitAll\<close>: \<open>None\<close> while the eviction workers are not idle.\<close>

definition WaitAll :: "engine \<Rightarrow> engine option" where
  "WaitAll e =
     (case pool_wait_for_idle (evict_workers e) of
        None \<Rightarrow> None | Some p \<Rightarrow> Some (e\<lparr>evict_workers := p\<rparr>))"

datatype evict_all_pc = A_next | A_wait pd_ref State | A_got pd_ref | A_idle | A_done

definition evict_all_next ::
  "engine \<Rightarrow> (Buffer \<times> evict_out) result \<Rightarrow> (engine \<times> evict_all_pc) result" where
  "evict_all_next e res =
     bindR res (\<lambda>(b, out).
       Inr (e\<lparr>buf := b\<rparr>,
            case out of
              Evicted None \<Rightarrow> A_idle
            | Evicted (Some pd) \<Rightarrow> A_got pd
            | Wait_evict pd st \<Rightarrow> A_wait pd st))"

definition evict_all_step ::
  "bool \<Rightarrow> engine \<times> evict_all_pc \<Rightarrow> (engine \<times> evict_all_pc) result option" where
  "evict_all_step busy = (\<lambda>(e, pc).
     case pc of
       A_next \<Rightarrow> Some (evict_all_next e (evict_oldest_page busy (buf e)))
     | A_wait pd st \<Rightarrow> Some (evict_all_next e (evict_oldest_resume pd st (buf e)))
     | A_got pd \<Rightarrow>
         if dirty (m_array (buf e) pd) then Some (Inr (schedule_fast_evict pd e, A_next))
         else Some (bindR (mark_page_as_free busy pd e) (\<lambda>e'. Inr (e', A_next)))
     | A_idle \<Rightarrow> (case WaitAll e of None \<Rightarrow> None | Some e' \<Rightarrow> Some (Inr (e', A_done)))
     | A_done \<Rightarrow> None)"

section \<open>Evicting the pages of one region\<close>

text \<open>
  \<open>evict_region\<close> when other regions are active: the loop over the region's descriptors,
  with its two waits. The mutex is held but for the waits.
\<close>

datatype evict_region_pc = R_loop | R_wait_present pd_ref | R_wait_free pd_ref | R_done

definition region_wait_free :: "pd_ref \<Rightarrow> engine \<Rightarrow> engine \<times> evict_region_pc" where
  "region_wait_free pd e =
     (if state (m_array (buf e) pd) \<noteq> FREE
      then (e\<lparr>buf := begin_state_wait (buf e)\<rparr>, R_wait_free pd) else (e, R_loop))"

definition region_leave :: "pd_ref \<Rightarrow> engine \<Rightarrow> (engine \<times> evict_region_pc) result" where
  "region_leave pd e =
     bindR (set_state_leaving (m_array (buf e) pd)) (\<lambda>d.
       Inr (region_wait_free pd (schedule_eviction pd (e\<lparr>buf := set_pd pd d (buf e)\<rparr>))))"

definition evict_region_step ::
  "(pd_ref set \<Rightarrow> pd_ref) \<Rightarrow> rid \<Rightarrow> engine \<times> evict_region_pc
     \<Rightarrow> (engine \<times> evict_region_pc) result option" where
  "evict_region_step begin_of r = (\<lambda>(e, pc).
     case pc of
       R_loop \<Rightarrow>
         (case get_next_page_descriptor begin_of (m_array (buf e)) (rds (table e) r) of
            (None, _, _) \<Rightarrow> Some (Inr (e, R_done))
          | (Some pd, arr, rd) \<Rightarrow>
              let e1 = e\<lparr>buf := (buf e)\<lparr>m_array := arr\<rparr>,
                         table := (table e)\<lparr>rds := (rds (table e))(r := rd)\<rparr>\<rparr>
              in if state (arr pd) \<noteq> LEAVING then
                   let e2 = e1\<lparr>buf := set_pd pd ((arr pd)\<lparr>deferred := True\<rparr>) (buf e1)\<rparr>
                   in if state (arr pd) \<noteq> PRESENT
                      then Some (Inr (e2\<lparr>buf := begin_state_wait (buf e2)\<rparr>, R_wait_present pd))
                      else Some (region_leave pd e2)
                 else Some (Inr (region_wait_free pd e1)))
     | R_wait_present pd \<Rightarrow>
         let e1 = e\<lparr>buf := end_state_wait (buf e)\<rparr>
         in if state (m_array (buf e1) pd) \<noteq> PRESENT
            then Some (Inr (e1\<lparr>buf := begin_state_wait (buf e1)\<rparr>, R_wait_present pd))
            else Some (region_leave pd e1)
     | R_wait_free pd \<Rightarrow>
         Some (Inr (region_wait_free pd (e\<lparr>buf := end_state_wait (buf e)\<rparr>)))
     | R_done \<Rightarrow> None)"

text \<open>With one region left \<open>evict_region\<close> is \<open>EvictAll\<close>.\<close>

datatype unmap_pc = U_region evict_region_pc | U_all evict_all_pc

definition evict_region_begin :: "bool \<Rightarrow> engine \<Rightarrow> engine \<times> unmap_pc" where
  "evict_region_begin busy e =
     (if 1 < get_num_active_regions (table e)
      then (e\<lparr>buf := lock_buffer busy (buf e)\<rparr>, U_region R_loop) else (e, U_all A_next))"

section \<open>Flushing the dirty pages\<close>

text \<open>
  The loop of \<open>flush_dirty_pages\<close> over the rest of the busy list. A wait gives the mutex
  up in the middle of the iteration; the remaining pages are those of the list as it
  was when the iteration began.
\<close>

datatype flush_pc = FL_scan "pd_ref list" | FL_wait pd_ref "pd_ref list" | FL_idle | FL_done

definition flush_begin :: "bool \<Rightarrow> engine \<Rightarrow> engine \<times> flush_pc" where
  "flush_begin busy e = (e\<lparr>buf := lock_buffer busy (buf e)\<rparr>, FL_scan (m_busy_pages (buf e)))"

fun flush_scan :: "pd_ref list \<Rightarrow> engine \<Rightarrow> engine \<times> flush_pc" where
  "flush_scan [] e = (e, FL_idle)"
| "flush_scan (pd # pds) e =
     (if dirty (m_array (buf e) pd) then
        if state (m_array (buf e) pd) \<noteq> PRESENT
        then (e\<lparr>buf := begin_state_wait (buf e)\<rparr>, FL_wait pd pds)
        else flush_scan pds (schedule_flush pd e)
      else flush_scan pds e)"

definition flush_step :: "engine \<times> flush_pc \<Rightarrow> (engine \<times> flush_pc) option" where
  "flush_step = (\<lambda>(e, pc).
     case pc of
       FL_scan pds \<Rightarrow> Some (flush_scan pds e)
     | FL_wait pd pds \<Rightarrow>
         let e1 = e\<lparr>buf := end_state_wait (buf e)\<rparr>
         in if state (m_array (buf e1) pd) \<noteq> PRESENT
            then Some (e1\<lparr>buf := begin_state_wait (buf e1)\<rparr>, FL_wait pd pds)
            else Some (flush_scan pds (schedule_flush pd e1))
     | FL_idle \<Rightarrow> (case WaitAll e of None \<Rightarrow> None | Some e' \<Rightarrow> Some (e', FL_done))
     | FL_done \<Rightarrow> None)"

section \<open>Construction\<close>

definition EvictManager_init ::
  "(nat \<Rightarrow> nat option) \<Rightarrow> (nat \<Rightarrow> bool) \<Rightarrow> u64 \<Rightarrow> (WorkerPool \<times> WorkerPool) result" where
  "EvictManager_init create named num_evictors =
     bindR (EvictWorkers_init create named num_evictors) (\<lambda>ew.
     bindR (start_thread_pool create named (WorkerPool_init ''Evict Manager'' 1)) (\<lambda>em.
       Inr (em, ew)))"

text \<open>The destructor, after its call of \<open>EvictAll\<close> has ended.\<close>

definition EvictManager_destroy :: "engine \<Rightarrow> engine" where
  "EvictManager_destroy e =
     e\<lparr>evict_manager := stop_thread_pool (evict_manager e),
       evict_workers := stop_thread_pool (evict_workers e)\<rparr>"

end
