(* ===== verification/Paging_Core.thy ===== *)
theory Paging_Core
  imports Token_Pool Fill_Workers Evict_Manager
begin

text \<open>
  The invariant of the paging engine, over an abstraction of the whole state: the page
  descriptors with the page table and the two lists of the buffer, the queues and program
  counters of the fill and eviction workers, what the kernel has mapped, and the
  contents of the stores. It says who may work on a page in which state, and that a page
  that is not dirty is write protected and agrees with the store. The lemmas show that
  it is kept by each kind of step of the engine.
\<close>

section \<open>What is known of a page\<close>

text \<open>
  The face of a descriptor: its fields, what is mapped at its page, and what the store
  holds for that page. \<open>loc r a\<close> is the place in the stores of address \<open>a\<close> of region \<open>r\<close>.
\<close>

type_synonym 'd face = "PageDescriptor \<times> ('d \<times> bool) option \<times> 'd"
type_synonym place = "store_ref \<times> u64"

fun loaded_f :: "'d face \<Rightarrow> bool" where
  "loaded_f (d, v, x) = (case v of None \<Rightarrow> False | Some (y, p) \<Rightarrow> dirty d \<or> p \<and> y = x)"

fun present_f :: "'d face \<Rightarrow> bool" where
  "present_f (d, v, x) = (data_present d \<and> loaded_f (d, v, x))"

fun wait_f :: "'d face \<Rightarrow> bool" where
  "wait_f (d, v, x) =
     (state d = FILLING \<and> v = None \<and> \<not> data_present d
    \<or> state d = UPDATING \<and> dirty d \<and> data_present d \<and> v \<noteq> None)"

fun read_f :: "'d \<Rightarrow> 'd face \<Rightarrow> bool" where
  "read_f y (d, v, x) = (state d = FILLING \<and> v = None \<and> y = x)"

fun protected_f :: "(rid \<Rightarrow> addr \<Rightarrow> place) \<Rightarrow> place \<Rightarrow> 'd face \<Rightarrow> bool" where
  "protected_f loc l (d, v, x) =
     (dirty d \<and> (\<exists>y. v = Some (y, True)) \<and> l = loc (the (region d)) (page d))"

fun written_f :: "'d face \<Rightarrow> bool" where
  "written_f (d, v, x) = (v = Some (x, True))"

fun clean_f :: "'d face \<Rightarrow> bool" where
  "clean_f (d, v, x) = (\<not> dirty d \<and> v = Some (x, True))"

fun dropped_f :: "'d face \<Rightarrow> bool" where
  "dropped_f (d, v, x) = (v = None)"

text \<open>The page a worker has in hand, and what it knows of it.\<close>

fun fill_own :: "'d fill_pc \<Rightarrow> (pd_ref \<times> ('d face \<Rightarrow> bool)) option" where
  "fill_own F_get = None"
| "fill_own (F_item i) = Some (i, wait_f)"
| "fill_own (F_read i y) = Some (i, read_f y)"
| "fill_own (F_copied i) = Some (i, loaded_f)"
| "fill_own (F_mark i) = Some (i, present_f)"
| "fill_own F_exit = None"

fun evict_own ::
  "(rid \<Rightarrow> addr \<Rightarrow> place) \<Rightarrow> evict_pc \<Rightarrow> (pd_ref \<times> ('d face \<Rightarrow> bool)) option" where
  "evict_own loc E_get = None"
| "evict_own loc (E_item t i) = Some (i, \<lambda>f. t = EVICT \<and> loaded_f f)"
| "evict_own loc (E_protected t i st off) = Some (i, \<lambda>f. t = EVICT \<and> protected_f loc (st, off) f)"
| "evict_own loc (E_written t i) = Some (i, \<lambda>f. t = EVICT \<and> written_f f)"
| "evict_own loc (E_clean t i) = Some (i, \<lambda>f. t = EVICT \<and> clean_f f)"
| "evict_own loc (E_mark i) = Some (i, dropped_f)"
| "evict_own loc E_exit = None"

section \<open>The abstraction and its invariant\<close>

record 'd core =
  c_arr :: "pd_ref \<Rightarrow> PageDescriptor"
  c_pres :: "addr \<rightharpoonup> pd_ref"
  c_free :: "pd_ref list"
  c_busy :: "pd_ref list"
  c_fq :: "pd_ref list"
  c_eq :: "pd_ref list"
  c_fill :: "nat \<Rightarrow> 'd fill_pc"
  c_evict :: "nat \<Rightarrow> evict_pc"
  c_pv :: "addr \<Rightarrow> ('d \<times> bool) option"
  c_sto :: "place \<Rightarrow> 'd"

definition face :: "(rid \<Rightarrow> addr \<Rightarrow> place) \<Rightarrow> 'd core \<Rightarrow> pd_ref \<Rightarrow> 'd face" where
  "face loc c i =
     (c_arr c i, c_pv c (page (c_arr c i)),
      c_sto c (loc (the (region (c_arr c i))) (page (c_arr c i))))"

definition in_state :: "State set \<Rightarrow> 'd core \<Rightarrow> pd_ref set" where
  "in_state X c = {i. state (c_arr c i) \<in> X}"

text \<open>\<open>cov r a\<close>: region \<open>r\<close> covers address \<open>a\<close>; \<open>nf\<close> and \<open>ne\<close> are the numbers of workers.\<close>

definition core_inv ::
  "(rid \<Rightarrow> addr \<Rightarrow> bool) \<Rightarrow> (rid \<Rightarrow> addr \<Rightarrow> place) \<Rightarrow> nat \<Rightarrow> nat \<Rightarrow> 'd core \<Rightarrow> bool" where
  "core_inv cov loc nf ne c \<longleftrightarrow>
     pages_ok (c_arr c) (c_pres c) (c_free c) (c_busy c)
   \<and> (\<forall>i. state (c_arr c i) \<noteq> FREE \<longrightarrow>
        (\<exists>r. region (c_arr c i) = Some r \<and> cov r (page (c_arr c i))))
   \<and> (\<forall>r a. cov r a \<and> c_pres c a = None \<longrightarrow> c_pv c a = None)
   \<and> (\<forall>i \<in> in_state {PRESENT} c. present_f (face loc c i))
   \<and> pool_inv fill_own wait_f (face loc c) (in_state {FILLING, UPDATING} c) (c_fq c) nf (c_fill c)
   \<and> pool_inv (evict_own loc) loaded_f (face loc c) (in_state {LEAVING} c) (c_eq c) ne (c_evict c)"

text \<open>Different pages have different places in the stores.\<close>

definition apart :: "(rid \<Rightarrow> addr \<Rightarrow> bool) \<Rightarrow> (rid \<Rightarrow> addr \<Rightarrow> place) \<Rightarrow> bool" where
  "apart cov loc \<longleftrightarrow>
     (\<forall>r a r' a'. cov r a \<and> cov r' a' \<and> loc r a = loc r' a' \<longrightarrow> a = a')"

lemma core_invD:
  assumes "core_inv cov loc nf ne c"
  shows "pages_ok (c_arr c) (c_pres c) (c_free c) (c_busy c)"
    and "state (c_arr c i) \<noteq> FREE \<Longrightarrow>
      \<exists>r. region (c_arr c i) = Some r \<and> cov r (page (c_arr c i))"
    and "cov r a \<Longrightarrow> c_pres c a = None \<Longrightarrow> c_pv c a = None"
    and "state (c_arr c i) = PRESENT \<Longrightarrow> present_f (face loc c i)"
    and "pool_inv fill_own wait_f (face loc c) (in_state {FILLING, UPDATING} c)
      (c_fq c) nf (c_fill c)"
    and "pool_inv (evict_own loc) loaded_f (face loc c) (in_state {LEAVING} c)
      (c_eq c) ne (c_evict c)"
  using assms by (auto simp: core_inv_def in_state_def)

lemma core_invI:
  assumes "pages_ok (c_arr c) (c_pres c) (c_free c) (c_busy c)"
    and "\<And>i. state (c_arr c i) \<noteq> FREE \<Longrightarrow>
      \<exists>r. region (c_arr c i) = Some r \<and> cov r (page (c_arr c i))"
    and "\<And>r a. cov r a \<Longrightarrow> c_pres c a = None \<Longrightarrow> c_pv c a = None"
    and "\<And>i. state (c_arr c i) = PRESENT \<Longrightarrow> present_f (face loc c i)"
    and "pool_inv fill_own wait_f (face loc c) (in_state {FILLING, UPDATING} c)
      (c_fq c) nf (c_fill c)"
    and "pool_inv (evict_own loc) loaded_f (face loc c) (in_state {LEAVING} c)
      (c_eq c) ne (c_evict c)"
  shows "core_inv cov loc nf ne c"
  using assms unfolding core_inv_def by (auto simp: in_state_def)

section \<open>Steps that concern one page\<close>

text \<open>
  \<open>focus i c c'\<close>: between \<open>c\<close> and \<open>c'\<close> nothing has happened to the pages of other
  descriptors than \<open>i\<close>, and \<open>i\<close> still stands for the same page.
\<close>

definition focus :: "(rid \<Rightarrow> addr \<Rightarrow> place) \<Rightarrow> pd_ref \<Rightarrow> 'd core \<Rightarrow> 'd core \<Rightarrow> bool" where
  "focus loc i c c' \<longleftrightarrow>
     (\<forall>j. j \<noteq> i \<longrightarrow> c_arr c' j = c_arr c j)
   \<and> page (c_arr c' i) = page (c_arr c i) \<and> region (c_arr c' i) = region (c_arr c i)
   \<and> deferred (c_arr c' i) = deferred (c_arr c i)
   \<and> state (c_arr c i) \<noteq> FREE \<and> state (c_arr c' i) \<noteq> FREE
   \<and> (state (c_arr c' i) = LEAVING \<longrightarrow> state (c_arr c i) = LEAVING)
   \<and> c_pres c' = c_pres c \<and> c_free c' = c_free c \<and> c_busy c' = c_busy c
   \<and> (\<forall>a. a \<noteq> page (c_arr c i) \<longrightarrow> c_pv c' a = c_pv c a)
   \<and> (\<forall>l. l \<noteq> loc (the (region (c_arr c i))) (page (c_arr c i)) \<longrightarrow> c_sto c' l = c_sto c l)"

lemma focusD:
  assumes "focus loc i c c'"
  shows "j \<noteq> i \<Longrightarrow> c_arr c' j = c_arr c j"
    and "page (c_arr c' i) = page (c_arr c i)" and "region (c_arr c' i) = region (c_arr c i)"
    and "deferred (c_arr c' i) = deferred (c_arr c i)"
    and "state (c_arr c i) \<noteq> FREE" and "state (c_arr c' i) \<noteq> FREE"
    and "state (c_arr c' i) = LEAVING \<Longrightarrow> state (c_arr c i) = LEAVING"
    and "c_pres c' = c_pres c" and "c_free c' = c_free c" and "c_busy c' = c_busy c"
    and "a \<noteq> page (c_arr c i) \<Longrightarrow> c_pv c' a = c_pv c a"
    and "l \<noteq> loc (the (region (c_arr c i))) (page (c_arr c i)) \<Longrightarrow> c_sto c' l = c_sto c l"
  using assms unfolding focus_def by blast+

lemma page_inj:
  assumes "pages_ok arr pres fr bs" and "state (arr i) \<noteq> FREE" and "state (arr j) \<noteq> FREE"
    and "page (arr i) = page (arr j)"
  shows "i = j"
proof -
  have "Some i = pres (page (arr i))" using pages_okD(8) [OF assms(1,2)] by (rule sym)
  also have "\<dots> = Some j" using pages_okD(8) [OF assms(1,3)] by (simp only: assms(4))
  finally show ?thesis by (simp only: option.inject)
qed

lemma focus_face:
  assumes inv: "core_inv cov loc nf ne c" and ap: "apart cov loc" and f: "focus loc i c c'"
    and j: "j \<noteq> i" "state (c_arr c j) \<noteq> FREE"
  shows "face loc c' j = face loc c j"
proof -
  have same: "c_arr c' j = c_arr c j" using focusD(1) [OF f j(1)] .
  have page: "page (c_arr c j) \<noteq> page (c_arr c i)"
    using page_inj [OF core_invD(1) [OF inv] j(2) focusD(5) [OF f]] j(1) by blast
  obtain r where r: "region (c_arr c j) = Some r" "cov r (page (c_arr c j))"
    using core_invD(2) [OF inv j(2)] by blast
  obtain r' where r': "region (c_arr c i) = Some r'" "cov r' (page (c_arr c i))"
    using core_invD(2) [OF inv focusD(5) [OF f]] by blast
  have "loc r (page (c_arr c j)) \<noteq> loc r' (page (c_arr c i))"
    using ap r(2) r'(2) page unfolding apart_def by blast
  then have "c_sto c' (loc r (page (c_arr c j))) = c_sto c (loc r (page (c_arr c j)))"
    using focusD(12) [OF f] r' by simp
  with focusD(11) [OF f page] r same show ?thesis by (simp add: face_def)
qed

lemma focus_pages_ok:
  assumes ok: "pages_ok (c_arr c) (c_pres c) (c_free c) (c_busy c)" and f: "focus loc i c c'"
  shows "pages_ok (c_arr c') (c_pres c') (c_free c') (c_busy c')"
proof -
  have arr: "(c_arr c)(i := c_arr c' i) = c_arr c'"
    using focusD(1) [OF f] by (simp add: fun_eq_iff)
  have "pages_ok ((c_arr c)(i := c_arr c' i)) (c_pres c) (c_free c) (c_busy c)"
  proof (rule pages_ok_touch [OF ok focusD(5) [OF f] focusD(6) [OF f] focusD(2) [OF f]])
    show "state (c_arr c' i) \<in> in_use" if "i \<in> set (c_busy c)" "\<not> deferred (c_arr c' i)"
      using pages_okD(5) [OF ok that(1)] that(2) focusD(4,6,7) [OF f]
      by (cases "state (c_arr c' i)") (simp_all add: in_use_def)
  qed
  then show ?thesis by (simp only: arr focusD(8-10) [OF f])
qed

lemma focus_inv:
  assumes inv: "core_inv cov loc nf ne c" and ap: "apart cov loc" and f: "focus loc i c c'"
    and present: "state (c_arr c' i) = PRESENT \<Longrightarrow> present_f (face loc c' i)"
    and fill: "pool_inv fill_own wait_f (face loc c') (in_state {FILLING, UPDATING} c')
      (c_fq c') nf (c_fill c')"
    and evict: "pool_inv (evict_own loc) loaded_f (face loc c') (in_state {LEAVING} c')
      (c_eq c') ne (c_evict c')"
  shows "core_inv cov loc nf ne c'"
proof (rule core_invI [OF focus_pages_ok [OF core_invD(1) [OF inv] f] _ _ _ fill evict])
  show "\<exists>r. region (c_arr c' j) = Some r \<and> cov r (page (c_arr c' j))"
    if "state (c_arr c' j) \<noteq> FREE" for j
    using that core_invD(2) [OF inv, of j] focusD(1-3,5) [OF f]
    by (cases "j = i") simp_all
  show "c_pv c' a = None" if "cov r a" "c_pres c' a = None" for r a
  proof -
    have pres: "c_pres c a = None" using that focusD(8) [OF f] by simp
    moreover have "a \<noteq> page (c_arr c i)"
      using pages_okD(8) [OF core_invD(1) [OF inv] focusD(5) [OF f]] pres by auto
    ultimately show ?thesis using core_invD(3) [OF inv that(1)] focusD(11) [OF f] by simp
  qed
  show "present_f (face loc c' j)" if "state (c_arr c' j) = PRESENT" for j
  proof (cases "j = i")
    case True
    with that present show ?thesis by simp
  next
    case False
    then have "state (c_arr c j) = PRESENT" using that focusD(1) [OF f] by simp
    with core_invD(4) [OF inv] focus_face [OF inv ap f False] show ?thesis by simp
  qed
qed

lemma in_state_focus:
  assumes "focus loc i c c'"
  shows "in_state X c' - {i} = in_state X c - {i}"
    and "i \<in> in_state X c' \<longleftrightarrow> state (c_arr c' i) \<in> X"
    and "i \<in> in_state X c \<longleftrightarrow> state (c_arr c i) \<in> X"
proof -
  show "in_state X c' - {i} = in_state X c - {i}"
    using focusD(1) [OF assms] by (auto simp: in_state_def)
qed (simp_all add: in_state_def)

lemma in_state_same:
  assumes "focus loc i c c'" and "state (c_arr c' i) \<in> X \<longleftrightarrow> state (c_arr c i) \<in> X"
  shows "in_state X c' = in_state X c"
  using in_state_focus [OF assms(1), of X] assms(2) by (auto simp: set_eq_iff)

lemma focus_faces:
  assumes "core_inv cov loc nf ne c" and "apart cov loc" and "focus loc i c c'" and "FREE \<notin> X"
  shows "\<forall>j\<in>in_state X c - {i}. face loc c' j = face loc c j"
proof
  fix j
  assume "j \<in> in_state X c - {i}"
  then have "j \<noteq> i" "state (c_arr c j) \<noteq> FREE" using assms(4) by (auto simp: in_state_def)
  then show "face loc c' j = face loc c j" by (rule focus_face [OF assms(1-3)])
qed

section \<open>Steps of the workers\<close>

text \<open>A worker goes on with the page it has in hand.\<close>

lemma core_fill_move:
  assumes inv: "core_inv cov loc nf ne c" and ap: "apart cov loc"
    and j: "j < nf" "fill_own (c_fill c j) = Some (i, P)"
    and pc: "fill_own pc = Some (i, P')" "P' (face loc c' i)"
    and f: "focus loc i c c'" "state (c_arr c' i) = state (c_arr c i)"
    and c': "c_fq c' = c_fq c" "c_fill c' = (c_fill c)(j := pc)" "c_eq c' = c_eq c" "c_evict c' = c_evict c"
  shows "core_inv cov loc nf ne c'"
proof (rule focus_inv [OF inv ap f(1)])
  have st: "state (c_arr c i) \<in> {FILLING, UPDATING}"
    using pool_inv_pc(1) [OF core_invD(5) [OF inv] j] by (simp add: in_state_def)
  then show "state (c_arr c' i) = PRESENT \<Longrightarrow> present_f (face loc c' i)" using f(2) by auto
  have same: "in_state X c' = in_state X c" for X using in_state_same [OF f(1)] f(2) by simp
  show "pool_inv fill_own wait_f (face loc c') (in_state {FILLING, UPDATING} c')
      (c_fq c') nf (c_fill c')"
    unfolding same c'
    by (rule pool_inv_move [where F' = "face loc c'", OF core_invD(5) [OF inv] j pc])
      (rule focus_faces [OF inv ap f(1)], simp)
  have "i \<notin> in_state {LEAVING} c" using st by (auto simp: in_state_def)
  then show "pool_inv (evict_own loc) loaded_f (face loc c') (in_state {LEAVING} c')
      (c_eq c') ne (c_evict c')"
    unfolding same c' using focus_faces [OF inv ap f(1), of "{LEAVING}"]
    by (intro pool_inv_frame [OF core_invD(6) [OF inv]]) auto
qed

lemma core_fill_done:
  assumes inv: "core_inv cov loc nf ne c" and ap: "apart cov loc"
    and j: "j < nf" "fill_own (c_fill c j) = Some (i, P)"
    and pc: "fill_own pc = None" and pr: "present_f (face loc c' i)"
    and f: "focus loc i c c'" "state (c_arr c' i) = PRESENT"
    and c': "c_fq c' = c_fq c" "c_fill c' = (c_fill c)(j := pc)" "c_eq c' = c_eq c" "c_evict c' = c_evict c"
  shows "core_inv cov loc nf ne c'"
proof (rule focus_inv [OF inv ap f(1)])
  show "present_f (face loc c' i)" by (rule pr)
  have st: "state (c_arr c i) \<in> {FILLING, UPDATING}"
    using pool_inv_pc(1) [OF core_invD(5) [OF inv] j] by (simp add: in_state_def)
  have "in_state {FILLING, UPDATING} c' = in_state {FILLING, UPDATING} c - {i}"
    using in_state_focus [OF f(1), of "{FILLING, UPDATING}"] f(2) by auto
  then show "pool_inv fill_own wait_f (face loc c') (in_state {FILLING, UPDATING} c')
      (c_fq c') nf (c_fill c')"
    using pool_inv_done [where F' = "face loc c'", OF core_invD(5) [OF inv] j pc]
      focus_faces [OF inv ap f(1), of "{FILLING, UPDATING}"] c'
    by simp
  have "in_state {LEAVING} c' = in_state {LEAVING} c" "i \<notin> in_state {LEAVING} c"
    using in_state_same [OF f(1), of "{LEAVING}"] f(2) st by (auto simp: in_state_def)
  then show "pool_inv (evict_own loc) loaded_f (face loc c') (in_state {LEAVING} c')
      (c_eq c') ne (c_evict c')"
    using focus_faces [OF inv ap f(1), of "{LEAVING}"] c' core_invD(6) [OF inv]
    by (auto intro!: pool_inv_frame [OF core_invD(6) [OF inv]])
qed

lemma core_evict_move:
  fixes c :: "'d core" and P P' :: "'d face \<Rightarrow> bool"
  assumes inv: "core_inv cov loc nf ne c" and ap: "apart cov loc"
    and j: "j < ne" "evict_own loc (c_evict c j) = Some (i, P)"
    and pc: "evict_own loc pc = Some (i, P')" "P' (face loc c' i)"
    and f: "focus loc i c c'" "state (c_arr c' i) = state (c_arr c i)"
    and c': "c_fq c' = c_fq c" "c_fill c' = c_fill c" "c_eq c' = c_eq c"
      "c_evict c' = (c_evict c)(j := pc)"
  shows "core_inv cov loc nf ne c'"
proof (rule focus_inv [OF inv ap f(1)])
  have st: "state (c_arr c i) = LEAVING"
    using pool_inv_pc(1) [OF core_invD(6) [OF inv] j] by (simp add: in_state_def)
  then show "state (c_arr c' i) = PRESENT \<Longrightarrow> present_f (face loc c' i)" using f(2) by simp
  have same: "in_state X c' = in_state X c" for X using in_state_same [OF f(1)] f(2) by simp
  have "i \<notin> in_state {FILLING, UPDATING} c" using st by (simp add: in_state_def)
  then show "pool_inv fill_own wait_f (face loc c') (in_state {FILLING, UPDATING} c')
      (c_fq c') nf (c_fill c')"
    unfolding same c' using focus_faces [OF inv ap f(1), of "{FILLING, UPDATING}"]
    by (intro pool_inv_frame [OF core_invD(5) [OF inv]]) auto
  show "pool_inv (evict_own loc) loaded_f (face loc c') (in_state {LEAVING} c')
      (c_eq c') ne (c_evict c')"
    unfolding same c'
    by (rule pool_inv_move [where F' = "face loc c'", OF core_invD(6) [OF inv] j pc])
      (rule focus_faces [OF inv ap f(1)], simp)
qed

text \<open>A worker takes the next page from its queue.\<close>

lemma core_inv_pools:
  assumes inv: "core_inv cov loc nf ne c"
    and same: "c_arr c' = c_arr c" "c_pres c' = c_pres c" "c_free c' = c_free c"
      "c_busy c' = c_busy c" "c_pv c' = c_pv c" "c_sto c' = c_sto c"
    and fill: "pool_inv fill_own wait_f (face loc c) (in_state {FILLING, UPDATING} c)
      (c_fq c') nf (c_fill c')"
    and evict: "pool_inv (evict_own loc) loaded_f (face loc c) (in_state {LEAVING} c)
      (c_eq c') ne (c_evict c')"
  shows "core_inv cov loc nf ne c'"
proof -
  have F: "face loc c' = face loc c" and S: "in_state X c' = in_state X c" for X
    by (simp_all add: face_def in_state_def fun_eq_iff same)
  show ?thesis using inv fill evict unfolding core_inv_def F S same by blast
qed

lemma core_fill_get:
  assumes inv: "core_inv cov loc nf ne c" and q: "c_fq c = i # qs"
    and j: "j < nf" "c_fill c j = F_get"
  shows "core_inv cov loc nf ne (c\<lparr>c_fq := qs, c_fill := (c_fill c)(j := F_item i)\<rparr>)"
proof (rule core_inv_pools [OF inv])
  note pool = core_invD(5) [OF inv]
  have "wait_f (face loc c i)" using pool_inv_queue(2) [OF pool] q by simp
  then show "pool_inv fill_own wait_f (face loc c) (in_state {FILLING, UPDATING} c)
      (c_fq (c\<lparr>c_fq := qs, c_fill := (c_fill c)(j := F_item i)\<rparr>)) nf
      (c_fill (c\<lparr>c_fq := qs, c_fill := (c_fill c)(j := F_item i)\<rparr>))"
    using pool_inv_get [OF pool [unfolded q] j(1), of "F_item i" wait_f] j(2) by simp
qed (use core_invD(6) [OF inv] in simp_all)

lemma core_evict_get:
  assumes inv: "core_inv cov loc nf ne c" and q: "c_eq c = i # qs"
    and j: "j < ne" "c_evict c j = E_get"
  shows "core_inv cov loc nf ne (c\<lparr>c_eq := qs, c_evict := (c_evict c)(j := E_item EVICT i)\<rparr>)"
proof (rule core_inv_pools [OF inv])
  note pool = core_invD(6) [OF inv]
  have "loaded_f (face loc c i)" using pool_inv_queue(2) [OF pool] q by simp
  then show "pool_inv (evict_own loc) loaded_f (face loc c) (in_state {LEAVING} c)
      (c_eq (c\<lparr>c_eq := qs, c_evict := (c_evict c)(j := E_item EVICT i)\<rparr>)) ne
      (c_evict (c\<lparr>c_eq := qs, c_evict := (c_evict c)(j := E_item EVICT i)\<rparr>))"
    using pool_inv_get [OF pool [unfolded q] j(1), of "E_item EVICT i" "\<lambda>f. EVICT = EVICT \<and> loaded_f f"]
      j(2) by simp
qed (use core_invD(5) [OF inv] in simp_all)

text \<open>A page that has been dropped is freed.\<close>

lemma core_evict_done:
  assumes inv: "core_inv cov loc nf ne c" and j: "j < ne" "c_evict c j = E_mark i"
    and d: "state d = FREE" "deferred d = deferred (c_arr c i)"
    and c': "c_arr c' = (c_arr c)(i := d)" "c_pres c' = (c_pres c)(page (c_arr c i) := None)"
      "c_free c' = (if deferred d then c_free c else c_free c @ [i])" "c_busy c' = c_busy c"
      "c_fq c' = c_fq c" "c_fill c' = c_fill c" "c_eq c' = c_eq c"
      "c_evict c' = (c_evict c)(j := E_get)" "c_pv c' = c_pv c" "c_sto c' = c_sto c"
  shows "core_inv cov loc nf ne c'"
proof (rule core_invI)
  note pool = core_invD(6) [OF inv]
  have own: "evict_own loc (c_evict c j) = Some (i, dropped_f)" using j(2) by simp
  have st: "state (c_arr c i) = LEAVING"
    using pool_inv_pc(1) [OF pool j(1) own] by (simp add: in_state_def)
  have gone: "c_pv c (page (c_arr c i)) = None"
    using pool_inv_pc(2) [OF pool j(1) own] by (simp add: face_def)
  have face: "face loc c' k = face loc c k" if "k \<noteq> i" for k
    using that by (simp add: face_def c')
  show "pages_ok (c_arr c') (c_pres c') (c_free c') (c_busy c')"
    unfolding c' by (rule pages_ok_free [OF core_invD(1) [OF inv] st d])
  show "\<exists>r. region (c_arr c' k) = Some r \<and> cov r (page (c_arr c' k))"
    if "state (c_arr c' k) \<noteq> FREE" for k
    using that core_invD(2) [OF inv, of k] d(1) by (auto simp: c' split: if_splits)
  show "c_pv c' a = None" if "cov r a" "c_pres c' a = None" for r a
    using that core_invD(3) [OF inv, of r a] gone by (auto simp: c' split: if_splits)
  show "present_f (face loc c' k)" if "state (c_arr c' k) = PRESENT" for k
    using that core_invD(4) [OF inv, of k] face [of k] d(1) by (auto simp: c' split: if_splits)
  have "in_state {FILLING, UPDATING} c' = in_state {FILLING, UPDATING} c"
    and F: "i \<notin> in_state {FILLING, UPDATING} c"
    using d(1) st by (auto simp: in_state_def c' split: if_splits)
  then show "pool_inv fill_own wait_f (face loc c') (in_state {FILLING, UPDATING} c')
      (c_fq c') nf (c_fill c')"
    using pool_inv_frame [OF core_invD(5) [OF inv], of "face loc c'"] face by (simp add: c') metis
  have "in_state {LEAVING} c' = in_state {LEAVING} c - {i}"
    using d(1) by (auto simp: in_state_def c' split: if_splits)
  then show "pool_inv (evict_own loc) loaded_f (face loc c') (in_state {LEAVING} c')
      (c_eq c') ne (c_evict c')"
    using pool_inv_done [OF pool j(1) own, of E_get "face loc c'"] face by (simp add: c')
qed

section \<open>Steps of the fault handler, of the daemon and of the application\<close>

text \<open>A page that is present is touched: a spurious fault.\<close>

lemma core_touch:
  assumes inv: "core_inv cov loc nf ne c" and ap: "apart cov loc"
    and st: "state (c_arr c i) = PRESENT"
    and f: "focus loc i c c'" "state (c_arr c' i) = PRESENT" "present_f (face loc c' i)"
    and c': "c_fq c' = c_fq c" "c_fill c' = c_fill c" "c_eq c' = c_eq c" "c_evict c' = c_evict c"
  shows "core_inv cov loc nf ne c'"
proof (rule focus_inv [OF inv ap f(1)])
  have S: "in_state X c' = in_state X c" for X using in_state_same [OF f(1)] f(2) st by simp
  have out: "i \<notin> in_state {FILLING, UPDATING} c" "i \<notin> in_state {LEAVING} c"
    using st by (simp_all add: in_state_def)
  show "pool_inv fill_own wait_f (face loc c') (in_state {FILLING, UPDATING} c')
      (c_fq c') nf (c_fill c')"
    unfolding S c' using focus_faces [OF inv ap f(1), of "{FILLING, UPDATING}"] out
    by (intro pool_inv_frame [OF core_invD(5) [OF inv]]) auto
  show "pool_inv (evict_own loc) loaded_f (face loc c') (in_state {LEAVING} c')
      (c_eq c') ne (c_evict c')"
    unfolding S c' using focus_faces [OF inv ap f(1), of "{LEAVING}"] out
    by (intro pool_inv_frame [OF core_invD(6) [OF inv]]) auto
qed (rule f(3))

text \<open>The first write to a clean page.\<close>

lemma core_update:
  assumes inv: "core_inv cov loc nf ne c" and ap: "apart cov loc"
    and st: "state (c_arr c i) = PRESENT"
    and f: "focus loc i c c'" "state (c_arr c' i) = UPDATING" "wait_f (face loc c' i)"
    and c': "c_fq c' = c_fq c @ [i]" "c_fill c' = c_fill c" "c_eq c' = c_eq c" "c_evict c' = c_evict c"
  shows "core_inv cov loc nf ne c'"
proof (rule focus_inv [OF inv ap f(1)])
  show "state (c_arr c' i) = PRESENT \<Longrightarrow> present_f (face loc c' i)" using f(2) by simp
  have out: "i \<notin> in_state {FILLING, UPDATING} c" "i \<notin> in_state {LEAVING} c"
    using st by (simp_all add: in_state_def)
  have "in_state {FILLING, UPDATING} c' = in_state {FILLING, UPDATING} c \<union> set [i]"
    using in_state_focus [OF f(1), of "{FILLING, UPDATING}"] f(2) by auto
  then show "pool_inv fill_own wait_f (face loc c') (in_state {FILLING, UPDATING} c')
      (c_fq c') nf (c_fill c')"
    unfolding c'
    using pool_inv_send [OF core_invD(5) [OF inv], of "face loc c'" "[i]"] out f(3)
      focus_faces [OF inv ap f(1), of "{FILLING, UPDATING}"]
    by simp
  have "in_state {LEAVING} c' = in_state {LEAVING} c"
    using in_state_same [OF f(1)] f(2) st by simp
  then show "pool_inv (evict_own loc) loaded_f (face loc c') (in_state {LEAVING} c')
      (c_eq c') ne (c_evict c')"
    unfolding c' using focus_faces [OF inv ap f(1), of "{LEAVING}"] out
    by (auto intro!: pool_inv_frame [OF core_invD(6) [OF inv]])
qed

text \<open>The first access to a page that is not there.\<close>

lemma core_alloc:
  assumes inv: "core_inv cov loc nf ne c" and cov: "cov r a" and absent: "c_pres c a = None"
    and fr: "c_free c = fr @ [i]"
    and d: "state d = FILLING" "page d = a" "region d = Some r" "\<not> deferred d" "\<not> data_present d"
    and c': "c_arr c' = (c_arr c)(i := d)" "c_pres c' = (c_pres c)(a \<mapsto> i)" "c_free c' = fr"
      "c_busy c' = i # c_busy c" "c_fq c' = c_fq c @ [i]" "c_fill c' = c_fill c"
      "c_eq c' = c_eq c" "c_evict c' = c_evict c" "c_pv c' = c_pv c" "c_sto c' = c_sto c"
  shows "core_inv cov loc nf ne c'"
proof (rule core_invI)
  have free: "state (c_arr c i) = FREE"
    using pages_okD(4) [OF core_invD(1) [OF inv], of i] fr by simp
  have face: "face loc c' k = face loc c k" if "k \<noteq> i" for k
    using that by (simp add: face_def c')
  show "pages_ok (c_arr c') (c_pres c') (c_free c') (c_busy c')"
    unfolding c' using pages_ok_alloc [OF core_invD(1) [OF inv, unfolded fr] absent d(1,2,4)] .
  show "\<exists>r. region (c_arr c' k) = Some r \<and> cov r (page (c_arr c' k))"
    if "state (c_arr c' k) \<noteq> FREE" for k
    using that core_invD(2) [OF inv, of k] d cov by (auto simp: c' split: if_splits)
  show "c_pv c' x = None" if "cov q x" "c_pres c' x = None" for q x
    using that core_invD(3) [OF inv, of q x] by (auto simp: c' split: if_splits)
  show "present_f (face loc c' k)" if "state (c_arr c' k) = PRESENT" for k
    using that core_invD(4) [OF inv, of k] face [of k] d(1) by (auto simp: c' split: if_splits)
  have "in_state {FILLING, UPDATING} c' = in_state {FILLING, UPDATING} c \<union> set [i]"
    and out: "i \<notin> in_state {FILLING, UPDATING} c"
    using d(1) free by (auto simp: in_state_def c' split: if_splits)
  moreover have "wait_f (face loc c' i)"
    using d core_invD(3) [OF inv cov absent] by (simp add: face_def c')
  moreover have "\<forall>k\<in>in_state {FILLING, UPDATING} c. face loc c' k = face loc c k"
    using face out by metis
  ultimately show "pool_inv fill_own wait_f (face loc c') (in_state {FILLING, UPDATING} c')
      (c_fq c') nf (c_fill c')"
    using pool_inv_send [OF core_invD(5) [OF inv], of "face loc c'" "[i]"] by (simp add: c')
  have "in_state {LEAVING} c' = in_state {LEAVING} c" "i \<notin> in_state {LEAVING} c"
    using d(1) free by (auto simp: in_state_def c' split: if_splits)
  moreover from this(2) have "\<forall>k\<in>in_state {LEAVING} c. face loc c' k = face loc c k"
    using face by metis
  ultimately show "pool_inv (evict_own loc) loaded_f (face loc c') (in_state {LEAVING} c')
      (c_eq c') ne (c_evict c')"
    using pool_inv_frame [OF core_invD(6) [OF inv], of "face loc c'"] by (simp add: c')
qed

text \<open>The daemon chooses pages to evict.\<close>

lemma core_leave:
  assumes inv: "core_inv cov loc nf ne c"
    and new: "distinct new" "\<And>i. i \<in> set new \<Longrightarrow> state (c_arr c i) = PRESENT"
    and ok: "pages_ok (c_arr c') (c_pres c') (c_free c') (c_busy c')"
    and c': "c_arr c' = set_leaving (set new) (c_arr c)" "c_pres c' = c_pres c"
      "c_fq c' = c_fq c" "c_fill c' = c_fill c" "c_eq c' = c_eq c @ new" "c_evict c' = c_evict c"
      "c_pv c' = c_pv c" "c_sto c' = c_sto c"
  shows "core_inv cov loc nf ne c'"
proof (rule core_invI [OF ok])
  have face: "face loc c' k = face loc c k" if "k \<notin> set new" for k
    using that by (simp add: face_def c' set_leaving_def)
  show "\<exists>r. region (c_arr c' k) = Some r \<and> cov r (page (c_arr c' k))"
    if "state (c_arr c' k) \<noteq> FREE" for k
    using that core_invD(2) [OF inv, of k] new(2) [of k]
    by (auto simp: c' set_leaving_def split: if_splits)
  show "c_pv c' x = None" if "cov q x" "c_pres c' x = None" for q x
    using that core_invD(3) [OF inv, of q x] by (simp add: c')
  show "present_f (face loc c' k)" if "state (c_arr c' k) = PRESENT" for k
    using that core_invD(4) [OF inv, of k] face [of k]
    by (auto simp: c' set_leaving_def split: if_splits)
  have "in_state {FILLING, UPDATING} c' = in_state {FILLING, UPDATING} c"
    and "set new \<inter> in_state {FILLING, UPDATING} c = {}"
    using new(2) by (auto simp: in_state_def c' set_leaving_def split: if_splits)
  moreover from this(2) have "\<forall>k\<in>in_state {FILLING, UPDATING} c. face loc c' k = face loc c k"
    using face by blast
  ultimately show "pool_inv fill_own wait_f (face loc c') (in_state {FILLING, UPDATING} c')
      (c_fq c') nf (c_fill c')"
    using pool_inv_frame [OF core_invD(5) [OF inv], of "face loc c'"] by (simp add: c')
  have "in_state {LEAVING} c' = in_state {LEAVING} c \<union> set new"
    and out: "set new \<inter> in_state {LEAVING} c = {}"
    using new(2) by (auto simp: in_state_def c' set_leaving_def split: if_splits)
  moreover have "\<forall>k\<in>in_state {LEAVING} c. face loc c' k = face loc c k"
    using face out by blast
  moreover have "\<forall>k\<in>set new. loaded_f (face loc c' k)"
  proof
    fix k
    assume "k \<in> set new"
    with core_invD(4) [OF inv new(2) [OF this]] show "loaded_f (face loc c' k)"
      by (auto simp: face_def c' set_leaving_def split: option.splits)
  qed
  ultimately show "pool_inv (evict_own loc) loaded_f (face loc c') (in_state {LEAVING} c')
      (c_eq c') ne (c_evict c')"
    using pool_inv_send [OF core_invD(6) [OF inv], of "face loc c'" new] new(1) by (simp add: c')
qed

text \<open>
  The application writes to a page that is not protected. What the workers know of a page
  is not affected: they know the data only of protected pages.
\<close>

definition same_but_data :: "'d face \<Rightarrow> 'd face \<Rightarrow> bool" where
  "same_but_data f f' \<longleftrightarrow>
     f' = f \<or> (\<exists>d y z x. f = (d, Some (y, False), x) \<and> f' = (d, Some (z, False), x))"

lemma same_but_data_known:
  assumes "same_but_data f f'"
  shows "loaded_f f \<Longrightarrow> loaded_f f'" and "wait_f f \<Longrightarrow> wait_f f'"
    and "present_f f \<Longrightarrow> present_f f'" and "read_f v f \<Longrightarrow> read_f v f'"
    and "protected_f loc l f \<Longrightarrow> protected_f loc l f'" and "written_f f \<Longrightarrow> written_f f'"
    and "clean_f f \<Longrightarrow> clean_f f'" and "dropped_f f \<Longrightarrow> dropped_f f'"
  using assms by (auto simp: same_but_data_def)

lemma fill_own_known:
  "fill_own pc = Some (i, P) \<Longrightarrow> same_but_data f f' \<Longrightarrow> P f \<Longrightarrow> P f'"
  by (cases pc) (auto dest: same_but_data_known)

lemma evict_own_known:
  "evict_own loc pc = Some (i, P) \<Longrightarrow> same_but_data f f' \<Longrightarrow> P f \<Longrightarrow> P f'"
  by (cases pc) (auto dest: same_but_data_known)

lemma core_app_write:
  assumes inv: "core_inv cov loc nf ne c" and pv: "c_pv c a = Some (y, False)"
  shows "core_inv cov loc nf ne (c\<lparr>c_pv := (c_pv c)(a \<mapsto> (z, False))\<rparr>)" (is "core_inv _ _ _ _ ?c'")
proof (rule core_invI)
  have f: "same_but_data (face loc c i) (face loc ?c' i)" for i
    using pv by (auto simp: same_but_data_def face_def)
  have S: "in_state X ?c' = in_state X c" for X by (simp add: in_state_def)
  show "pages_ok (c_arr ?c') (c_pres ?c') (c_free ?c') (c_busy ?c')"
    using core_invD(1) [OF inv] by simp
  show "\<exists>r. region (c_arr ?c' i) = Some r \<and> cov r (page (c_arr ?c' i))"
    if "state (c_arr ?c' i) \<noteq> FREE" for i
    using that core_invD(2) [OF inv] by simp
  show "c_pv ?c' x = None" if "cov r x" "c_pres ?c' x = None" for r x
    using that core_invD(3) [OF inv, of r x] pv by (cases "x = a") simp_all
  show "present_f (face loc ?c' i)" if "state (c_arr ?c' i) = PRESENT" for i
    using that core_invD(4) [OF inv, of i] same_but_data_known(3) [OF f] by simp
  have "pool_inv fill_own wait_f (face loc ?c') (in_state {FILLING, UPDATING} c) (c_fq c) nf (c_fill c)"
    by (rule pool_inv_mono [OF core_invD(5) [OF inv]])
      (blast intro: same_but_data_known(2) [OF f], blast intro: fill_own_known [OF _ f])
  then show "pool_inv fill_own wait_f (face loc ?c') (in_state {FILLING, UPDATING} ?c')
      (c_fq ?c') nf (c_fill ?c')" by (simp add: S)
  have "pool_inv (evict_own loc) loaded_f (face loc ?c') (in_state {LEAVING} c) (c_eq c) ne (c_evict c)"
    by (rule pool_inv_mono [OF core_invD(6) [OF inv]])
      (blast intro: same_but_data_known(1) [OF f], blast intro: evict_own_known [OF _ f])
  then show "pool_inv (evict_own loc) loaded_f (face loc ?c') (in_state {LEAVING} ?c')
      (c_eq ?c') ne (c_evict ?c')" by (simp add: S)
qed

end
