(* ===== verification/Paging_Workers.thy ===== *)
theory Paging_Workers
  imports Paging
begin

text \<open>
  Every step of the fill workers, of the eviction workers and of the eviction daemon keeps
  the invariant of the paging engine.
\<close>

section \<open>The fill workers keep the invariant\<close>

lemma get_work_Got:
  assumes "get_work p = (p', Got item)"
  shows "pool_queue p = item # pool_queue p'"
  using assms by (auto simp: get_work_def wq_defs split: list.splits prod.splits)

lemma worker_sys_inv:
  assumes inv: "sys_inv S T n nf ne s"
    and core: "core_inv (covers T) (region_loc T) nf ne (core_of S s')" "in_range n (core_of S s')"
    and pres: "\<And>a. c_pres (core_of S s) a = None \<Longrightarrow> c_pres (core_of S s') a = None"
    and t: "table_ok (table (sys_eng s'))" "same_layout T (table (sys_eng s'))"
    and q: "queues_ok (sys_eng s')" and h: "handler s' = handler s"
  shows "sys_inv S T n nf ne s'"
proof -
  have "handler_ok T (core_of S s') (handler s')"
    using sys_invD(6) [OF inv] pres h by (auto simp: handler_ok_def split: handler_pc.splits)
  with core t q show ?thesis by (simp add: sys_inv_def)
qed

text \<open>A descriptor in use has a region, and its place in the store is found.\<close>

lemma desc_region:
  assumes inv: "sys_inv S T n nf ne s" and st: "state (desc (wld s) i) \<noteq> FREE"
  obtains r where "region (desc (wld s) i) = Some r"
    and "store_offset (rds (table (sys_eng s)) r) (page (desc (wld s) i))
      = Inr (snd (region_loc T r (page (desc (wld s) i))))"
    and "m_store (rds (table (sys_eng s)) r) = fst (region_loc T r (page (desc (wld s) i)))"
proof -
  obtain r where r: "region (desc (wld s) i) = Some r" "covers T r (page (desc (wld s) i))"
    using core_invD(2) [OF sys_invD(1) [OF inv], of i] st by (auto simp: core_of_simps)
  let ?t = "table (sys_eng s)"
  have "covers ?t r (page (desc (wld s) i))"
    using r(2) same_layout_covers(1) [OF sys_invD(4) [OF inv]] by simp
  then have "store_offset (rds ?t r) (page (desc (wld s) i))
      = Inr (page (desc (wld s) i) - rd_start (rds ?t r))"
    using sys_invD(3) [OF inv] by (auto simp: covers_def in_region_def store_offset_def)
  with r that show thesis
    using sys_invD(4) [OF inv] by (simp add: same_layout_def region_loc_def)
qed

lemma core_of_filler_fields:
  "c_arr (core_of S (s\<lparr>wld := w, fillers := f\<rparr>)) = m_array (buf (eng w))"
  "c_pres (core_of S (s\<lparr>wld := w, fillers := f\<rparr>)) = m_present_pages (buf (eng w))"
  "c_free (core_of S (s\<lparr>wld := w, fillers := f\<rparr>)) = m_free_pages (buf (eng w))"
  "c_busy (core_of S (s\<lparr>wld := w, fillers := f\<rparr>)) = m_busy_pages (buf (eng w))"
  "c_fq (core_of S (s\<lparr>wld := w, fillers := f\<rparr>)) = map item_pd (pool_queue (fill_workers (eng w)))"
  "c_eq (core_of S (s\<lparr>wld := w, fillers := f\<rparr>))
     = map item_pd (pool_queue (evict_workers (eng w))) @ mgr_list (mgr s)"
  "c_fill (core_of S (s\<lparr>wld := w, fillers := f\<rparr>)) = f"
  "c_evict (core_of S (s\<lparr>wld := w, fillers := f\<rparr>)) = evictors s"
  "c_pv (core_of S (s\<lparr>wld := w, fillers := f\<rparr>)) = page_view (kern S) (mem w)"
  "c_sto (core_of S (s\<lparr>wld := w, fillers := f\<rparr>)) = (\<lambda>(st, off). stores w st off)"
  by (simp_all add: core_of_simps)

lemma filler_get_inv:
  assumes inv: "sys_inv S T n nf ne s" and j: "j < nf" "fillers s j = F_get"
    and res: "filler_get (wld s) = Some (Inr (w, pc))"
  shows "sys_inv S T n nf ne (s\<lparr>wld := w, fillers := (fillers s)(j := pc)\<rparr>)"
proof -
  obtain p item where g: "get_work (fill_workers (sys_eng s)) = (p, Got item)"
    using res by (auto simp: filler_get_def split: prod.splits dequeue_out.splits)
  note q = get_work_Got [OF g]
  then have item: "item = fill_item (item_pd item)"
    using sys_invD(5) [OF inv] by (simp add: queues_ok_def)
  then have "work_type item = NONE" "page_desc item = Some (item_pd item)"
    by (metis WorkItem.select_convs fill_item_def)+
  then have w: "w = (wld s)\<lparr>eng := (sys_eng s)\<lparr>fill_workers := p\<rparr>\<rparr>" "pc = F_item (item_pd item)"
    using res g by (auto simp: filler_get_def Let_def)
  let ?s' = "s\<lparr>wld := w, fillers := (fillers s)(j := pc)\<rparr>"
  have core: "core_of S ?s' = (core_of S s)\<lparr>c_fq := map item_pd (pool_queue p),
      c_fill := (c_fill (core_of S s))(j := F_item (item_pd item))\<rparr>"
    using w by (simp add: core_of_simps)
  show ?thesis
  proof (rule worker_sys_inv [OF inv])
    show "core_inv (covers T) (region_loc T) nf ne (core_of S ?s')"
      unfolding core
      by (rule core_fill_get [OF sys_invD(1) [OF inv] _ j(1)]) (use q j in \<open>simp_all add: core_of_simps\<close>)
    show "in_range n (core_of S ?s')"
      using sys_invD(2) [OF inv] unfolding core by (simp add: in_range_def)
    show "queues_ok (sys_eng ?s')"
      using sys_invD(5) [OF inv] q w by (simp add: queues_ok_def)
  qed (use sys_invD(3,4) [OF inv] w core in simp_all)
qed

text \<open>
  A worker has done something to the page in its hand: to its descriptor, without changing
  its state, to what is mapped there, or to its place in the store.
\<close>

definition page_work :: "('k, 'd) setting \<Rightarrow> RegionTable \<Rightarrow> pd_ref \<Rightarrow> ('k, 'd) world \<Rightarrow> ('k, 'd) world \<Rightarrow> bool" where
  "page_work S T i w w' \<longleftrightarrow>
     (\<forall>k. k \<noteq> i \<longrightarrow> desc w' k = desc w k)
   \<and> page (desc w' i) = page (desc w i) \<and> region (desc w' i) = region (desc w i)
   \<and> deferred (desc w' i) = deferred (desc w i)
   \<and> m_present_pages (buf (eng w')) = m_present_pages (buf (eng w))
   \<and> m_free_pages (buf (eng w')) = m_free_pages (buf (eng w))
   \<and> m_busy_pages (buf (eng w')) = m_busy_pages (buf (eng w))
   \<and> table (eng w') = table (eng w) \<and> fill_workers (eng w') = fill_workers (eng w)
   \<and> evict_workers (eng w') = evict_workers (eng w)
   \<and> (\<forall>a. a \<noteq> page (desc w i) \<longrightarrow>
        page_view (kern S) (mem w') a = page_view (kern S) (mem w) a)
   \<and> (\<forall>st off. (st, off) \<noteq> region_loc T (the (region (desc w i))) (page (desc w i)) \<longrightarrow>
        stores w' st off = stores w st off)"

definition wface :: "('k, 'd) setting \<Rightarrow> RegionTable \<Rightarrow> ('k, 'd) world \<Rightarrow> pd_ref \<Rightarrow> 'd face" where
  "wface S T w i =
     (desc w i, page_view (kern S) (mem w) (page (desc w i)),
      case region_loc T (the (region (desc w i))) (page (desc w i)) of (st, off) \<Rightarrow> stores w st off)"

lemma face_core_of [simp]: "face (region_loc T) (core_of S s) i = wface S T (wld s) i"
  by (simp add: face_def wface_def core_of_simps)

lemma page_work_focus:
  assumes "page_work S T i (wld s) (wld s')" and "state (desc (wld s) i) \<noteq> FREE"
    and "state (desc (wld s') i) \<noteq> FREE"
    and "state (desc (wld s') i) = LEAVING \<Longrightarrow> state (desc (wld s) i) = LEAVING"
  shows "focus (region_loc T) i (core_of S s) (core_of S s')"
  using assms unfolding page_work_def focus_def by (simp add: core_of_simps split_paired_all)

lemma page_work_eng:
  assumes "page_work S T i w w'"
  shows "table (eng w') = table (eng w)" and "queues_ok (eng w') = queues_ok (eng w)"
    and "m_present_pages (buf (eng w')) = m_present_pages (buf (eng w))"
    and "fill_workers (eng w') = fill_workers (eng w)"
    and "evict_workers (eng w') = evict_workers (eng w)"
  using assms by (simp_all add: page_work_def queues_ok_def)

lemma filler_own:
  assumes inv: "sys_inv S T n nf ne s" and j: "j < nf" "fill_own (fillers s j) = Some (i, P)"
  shows "state (desc (wld s) i) \<in> {FILLING, UPDATING}" and "P (wface S T (wld s) i)"
proof -
  have "fill_own (c_fill (core_of S s) j) = Some (i, P)" using j by (simp add: core_of_simps)
  note own = pool_inv_pc(1,2) [OF core_invD(5) [OF sys_invD(1) [OF inv]] j(1) this]
  show "state (desc (wld s) i) \<in> {FILLING, UPDATING}"
    using own(1) by (simp add: in_state_def core_of_simps)
  show "P (wface S T (wld s) i)" using own(2) by simp
qed

lemma filler_move_inv:
  assumes inv: "sys_inv S T n nf ne s" and ap: "apart (covers T) (region_loc T)"
    and j: "j < nf" "fill_own (fillers s j) = Some (i, P)"
    and pc: "fill_own pc = Some (i, P')" "P' (wface S T w i)"
    and w: "page_work S T i (wld s) w" "state (desc w i) = state (desc (wld s) i)"
  shows "sys_inv S T n nf ne (s\<lparr>wld := w, fillers := (fillers s)(j := pc)\<rparr>)" (is "sys_inv _ _ _ _ _ ?s'")
proof (rule worker_sys_inv [OF inv])
  have f: "focus (region_loc T) i (core_of S s) (core_of S ?s')"
    using filler_own(1) [OF inv j] w by (intro page_work_focus) auto
  show "core_inv (covers T) (region_loc T) nf ne (core_of S ?s')"
    by (rule core_fill_move [OF sys_invD(1) [OF inv] ap j(1) _ pc(1) _ f])
      (use j(2) pc w page_work_eng [OF w(1)] in \<open>simp_all add: core_of_simps wface_def face_def\<close>)
  show "in_range n (core_of S ?s')" by (rule in_range_focus [OF sys_invD(2) [OF inv] f])
qed (use sys_invD(3-5) [OF inv] page_work_eng [OF w(1)] in \<open>simp_all add: core_of_simps\<close>)

lemma filler_load_inv:
  assumes inv: "sys_inv S T n nf ne s" and ap: "apart (covers T) (region_loc T)"
    and k: "kernel_ok (abi_of S) (page_sz S) (kern S)" "\<not> ro_mode S"
    and j: "j < nf" "fillers s j = F_item i"
    and res: "filler_load S io_ok i (wld s) = Inr (w, pc)"
  shows "sys_inv S T n nf ne (s\<lparr>wld := w, fillers := (fillers s)(j := pc)\<rparr>)"
proof -
  let ?d = "desc (wld s) i" and ?pv = "page_view (kern S) (mem (wld s))"
  have own: "fill_own (fillers s j) = Some (i, wait_f)" using j by simp
  note known = filler_own [OF inv j(1) own]
  show ?thesis
  proof (cases "dirty ?d \<and> data_present ?d")
    case True
    then obtain x b where v: "?pv (page ?d) = Some (x, b)"
      using known(2) by (auto simp: wface_def)
    obtain k' where k': "w = (wld s)\<lparr>mem := k'\<rparr>" "pc = F_mark i"
      "page_view (kern S) k' = ?pv(page ?d \<mapsto> (x, False))"
      using kernel_calls(4) [OF k(1) v] res True k(2)
      by (auto simp: filler_load_def Let_def)
    show ?thesis
      by (rule filler_move_inv [OF inv ap j(1) own, of _ present_f])
        (use k' True in \<open>simp_all add: page_work_def wface_def\<close>)
  next
    case False
    then have st: "state ?d = FILLING" "?pv (page ?d) = None"
      using known(2) by (auto simp: wface_def)
    obtain r where r: "region ?d = Some r"
      "store_offset (rds (table (sys_eng s)) r) (page ?d) = Inr (snd (region_loc T r (page ?d)))"
      "m_store (rds (table (sys_eng s)) r) = fst (region_loc T r (page ?d))"
      using desc_region [OF inv, of i] st(1) by auto
    let ?y = "stores (wld s) (fst (region_loc T r (page ?d))) (snd (region_loc T r (page ?d)))"
    have w: "w = wld s" "pc = F_read i ?y"
      using res r unfolding filler_load_def by (auto simp: Let_def False split: if_splits)
    show ?thesis
      by (rule filler_move_inv [OF inv ap j(1) own, of _ "read_f ?y"])
        (use w st r in \<open>simp_all add: page_work_def wface_def split_beta\<close>)
  qed
qed

lemma filler_copy_inv:
  assumes inv: "sys_inv S T n nf ne s" and ap: "apart (covers T) (region_loc T)"
    and k: "kernel_ok (abi_of S) (page_sz S) (kern S)" "\<not> ro_mode S"
    and j: "j < nf" "fillers s j = F_read i y"
    and res: "filler_copy S i y (wld s) = Inr (w, pc)"
  shows "sys_inv S T n nf ne (s\<lparr>wld := w, fillers := (fillers s)(j := pc)\<rparr>)"
proof -
  let ?d = "desc (wld s) i" and ?pv = "page_view (kern S) (mem (wld s))"
  have own: "fill_own (fillers s j) = Some (i, read_f y)" using j by simp
  note known = filler_own [OF inv j(1) own]
  have v: "?pv (page ?d) = None" and y: "snd (snd (wface S T (wld s) i)) = y"
    using known(2) by (auto simp: wface_def)
  obtain k' where k': "w = (wld s)\<lparr>mem := k'\<rparr>" "pc = F_copied i"
    "page_view (kern S) k' = ?pv(page ?d \<mapsto> (y, \<not> dirty ?d))"
    using kernel_calls(1,2) [OF k(1) v, of y] res k(2)
    by (cases "dirty ?d") (auto simp: filler_copy_def)
  show ?thesis
    by (rule filler_move_inv [OF inv ap j(1) own, of _ loaded_f])
      (use k' y in \<open>auto simp: page_work_def wface_def\<close>)
qed

lemma filler_mark_inv:
  assumes inv: "sys_inv S T n nf ne s" and ap: "apart (covers T) (region_loc T)"
    and j: "j < nf" "fillers s j = F_mark i"
    and res: "mark_page_as_present busy i (sys_eng s) = Inr e"
  shows "sys_inv S T n nf ne (s\<lparr>wld := (wld s)\<lparr>eng := e\<rparr>, fillers := (fillers s)(j := F_get)\<rparr>)"
    (is "sys_inv _ _ _ _ _ ?s'")
proof (rule worker_sys_inv [OF inv])
  let ?d = "desc (wld s) i"
  have own: "fill_own (fillers s j) = Some (i, present_f)" using j by simp
  note known = filler_own [OF inv j(1) own]
  have e: "e = (sys_eng s)\<lparr>buf := broadcast_state (set_pd i (?d\<lparr>state := PRESENT\<rparr>)
      (lock_buffer busy (buf (sys_eng s))))\<rparr>"
    using res by (auto simp: mark_page_as_present_def bindR_eq_Inr_iff set_state_iff)
  have w: "page_work S T i (wld s) (wld ?s')" "state (desc (wld ?s') i) = PRESENT"
    using e by (simp_all add: page_work_def set_pd_def)
  have f: "focus (region_loc T) i (core_of S s) (core_of S ?s')"
    using known(1) w by (intro page_work_focus) auto
  show "core_inv (covers T) (region_loc T) nf ne (core_of S ?s')"
  proof (rule core_fill_done [OF sys_invD(1) [OF inv] ap j(1) _ _ _ f])
    show "fill_own (c_fill (core_of S s) j) = Some (i, present_f)"
      using own by (simp add: core_of_simps)
    show "present_f (face (region_loc T) (core_of S ?s') i)"
      using known(2) e by (auto simp: wface_def set_pd_def split: option.splits)
  qed (use w(2) page_work_eng [OF w(1)] in \<open>simp_all add: core_of_simps\<close>)
  show "in_range n (core_of S ?s')" by (rule in_range_focus [OF sys_invD(2) [OF inv] f])
  show "c_pres (core_of S ?s') a = None" if "c_pres (core_of S s) a = None" for a
    using that page_work_eng(3) [OF w(1)] by (simp add: core_of_simps)
  show "table_ok (table (sys_eng ?s'))" "same_layout T (table (sys_eng ?s'))" "queues_ok (sys_eng ?s')"
    using sys_invD(3-5) [OF inv] e by (simp_all add: queues_ok_def)
qed simp

lemma filler_sys_inv:
  assumes inv: "sys_inv S T n nf ne s" and ap: "apart (covers T) (region_loc T)"
    and k: "kernel_ok (abi_of S) (page_sz S) (kern S)" "\<not> ro_mode S"
    and j: "j < nf" and res: "filler_step S io_ok busy (wld s, fillers s j) = Some (Inr (w, pc))"
  shows "sys_inv S T n nf ne (s\<lparr>wld := w, fillers := (fillers s)(j := pc)\<rparr>)"
proof (cases "fillers s j")
  case F_get
  with res filler_get_inv [OF inv j F_get] show ?thesis by (simp add: filler_step_def)
next
  case (F_item i)
  with res filler_load_inv [OF inv ap k j F_item] show ?thesis by (simp add: filler_step_def)
next
  case (F_read i y)
  with res filler_copy_inv [OF inv ap k j F_read] show ?thesis by (simp add: filler_step_def)
next
  case (F_copied i)
  then have own: "fill_own (fillers s j) = Some (i, loaded_f)" by simp
  have w: "w = with_buf (wld s) (set_pd i ((desc (wld s) i)\<lparr>data_present := True\<rparr>) (buf (sys_eng s)))"
    "pc = F_mark i"
    using res F_copied by (simp_all add: filler_step_def)
  show ?thesis
    by (rule filler_move_inv [OF inv ap j own, of _ present_f])
      (use w filler_own [OF inv j own] in
        \<open>auto simp: page_work_def wface_def set_pd_def split: option.splits\<close>)
next
  case (F_mark i)
  with res filler_mark_inv [OF inv ap j F_mark, of busy] show ?thesis
    by (auto simp: filler_step_def bindR_eq_Inr_iff)
next
  case F_exit
  with res show ?thesis by (simp add: filler_step_def)
qed

section \<open>The eviction workers keep the invariant\<close>

lemma evictor_own:
  fixes s :: "('k, 'd) sys"
  assumes inv: "sys_inv S T n nf ne s"
    and j: "j < ne" "evict_own (region_loc T) (evictors s j) = Some (i, P)"
  shows "state (desc (wld s) i) = LEAVING" and "P (wface S T (wld s) i)"
proof -
  have "evict_own (region_loc T) (c_evict (core_of S s) j) = Some (i, P)"
    using j by (simp add: core_of_simps)
  note own = pool_inv_pc(1,2) [OF core_invD(6) [OF sys_invD(1) [OF inv]] j(1) this]
  show "state (desc (wld s) i) = LEAVING"
    using own(1) by (simp add: in_state_def core_of_simps)
  show "P (wface S T (wld s) i)" using own(2) by simp
qed

lemma evictor_move_inv:
  fixes s :: "('k, 'd) sys" and P P' :: "'d face \<Rightarrow> bool"
  assumes inv: "sys_inv S T n nf ne s" and ap: "apart (covers T) (region_loc T)"
    and j: "j < ne" "evict_own (region_loc T) (evictors s j) = Some (i, P)"
    and pc: "evict_own (region_loc T) pc = Some (i, P')" "P' (wface S T w i)"
    and w: "page_work S T i (wld s) w" "state (desc w i) = state (desc (wld s) i)"
  shows "sys_inv S T n nf ne (s\<lparr>wld := w, evictors := (evictors s)(j := pc)\<rparr>)" (is "sys_inv _ _ _ _ _ ?s'")
proof (rule worker_sys_inv [OF inv])
  have f: "focus (region_loc T) i (core_of S s) (core_of S ?s')"
    using evictor_own(1) [OF inv j] w by (intro page_work_focus) auto
  show "core_inv (covers T) (region_loc T) nf ne (core_of S ?s')"
    by (rule core_evict_move [OF sys_invD(1) [OF inv] ap j(1) _ pc(1) _ f])
      (use j(2) pc w page_work_eng [OF w(1)] in \<open>simp_all add: core_of_simps wface_def face_def\<close>)
  show "in_range n (core_of S ?s')" by (rule in_range_focus [OF sys_invD(2) [OF inv] f])
qed (use sys_invD(3-5) [OF inv] page_work_eng [OF w(1)] in \<open>simp_all add: core_of_simps\<close>)

lemma evictor_get_inv:
  assumes inv: "sys_inv S T n nf ne s" and j: "j < ne" "evictors s j = E_get"
    and res: "evictor_get (wld s) = Some (Inr (w, pc))"
  shows "sys_inv S T n nf ne (s\<lparr>wld := w, evictors := (evictors s)(j := pc)\<rparr>)"
proof -
  obtain p item where g: "get_work (evict_workers (sys_eng s)) = (p, Got item)"
    using res by (auto simp: evictor_get_def split: prod.splits dequeue_out.splits)
  note q = get_work_Got [OF g]
  then have item: "item = \<lparr>page_desc = Some (item_pd item), work_type = EVICT\<rparr>"
    using sys_invD(5) [OF inv] by (simp add: queues_ok_def)
  then have "work_type item = EVICT" "page_desc item = Some (item_pd item)"
    by (metis WorkItem.select_convs)+
  then have w: "w = (wld s)\<lparr>eng := (sys_eng s)\<lparr>evict_workers := p\<rparr>\<rparr>" "pc = E_item EVICT (item_pd item)"
    using res g by (auto simp: evictor_get_def Let_def)
  let ?s' = "s\<lparr>wld := w, evictors := (evictors s)(j := pc)\<rparr>"
  let ?q = "map item_pd (pool_queue p) @ mgr_list (mgr s)"
  have core: "core_of S ?s' = (core_of S s)\<lparr>c_eq := ?q,
      c_evict := (c_evict (core_of S s))(j := E_item EVICT (item_pd item))\<rparr>"
    using w by (simp add: core_of_simps)
  show ?thesis
  proof (rule worker_sys_inv [OF inv])
    show "core_inv (covers T) (region_loc T) nf ne (core_of S ?s')"
      unfolding core
      by (rule core_evict_get [OF sys_invD(1) [OF inv] _ j(1)]) (use q j in \<open>simp_all add: core_of_simps\<close>)
    show "in_range n (core_of S ?s')"
      using sys_invD(2) [OF inv] unfolding core by (simp add: in_range_def)
    show "queues_ok (sys_eng ?s')"
      using sys_invD(5) [OF inv] q w by (simp add: queues_ok_def)
  qed (use sys_invD(3,4) [OF inv] w core in simp_all)
qed

lemma evictor_protect_inv:
  assumes inv: "sys_inv S T n nf ne s" and ap: "apart (covers T) (region_loc T)"
    and k: "kernel_ok (abi_of S) (page_sz S) (kern S)" "\<not> ro_mode S"
    and j: "j < ne" "evictors s j = E_item t i"
    and res: "evictor_protect S t i (wld s) = Inr (w, pc)"
  shows "sys_inv S T n nf ne (s\<lparr>wld := w, evictors := (evictors s)(j := pc)\<rparr>)"
proof -
  let ?d = "desc (wld s) i" and ?pv = "page_view (kern S) (mem (wld s))"
  have own: "evict_own (region_loc T) (evictors s j) = Some (i, \<lambda>f. t = EVICT \<and> loaded_f f)"
    using j by simp
  note known = evictor_own [OF inv j(1) own]
  then obtain x b where v: "?pv (page ?d) = Some (x, b)"
    by (auto simp: wface_def split: option.splits)
  show ?thesis
  proof (cases "dirty ?d")
    case True
    obtain r where r: "region ?d = Some r"
      "store_offset (rds (table (sys_eng s)) r) (page ?d) = Inr (snd (region_loc T r (page ?d)))"
      "m_store (rds (table (sys_eng s)) r) = fst (region_loc T r (page ?d))"
      using desc_region [OF inv, of i] known(1) by auto
    let ?l = "region_loc T r (page ?d)"
    obtain k' where k': "w = (wld s)\<lparr>mem := k'\<rparr>" "pc = E_protected t i (fst ?l) (snd ?l)"
      "page_view (kern S) k' = ?pv(page ?d \<mapsto> (x, True))"
      using kernel_calls(3) [OF k(1) v] res True k(2) r
      by (auto simp: evictor_protect_def Let_def)
    show ?thesis
      by (rule evictor_move_inv [OF inv ap j(1) own,
            of _ "\<lambda>f. t = EVICT \<and> protected_f (region_loc T) (fst ?l, snd ?l) f"])
        (use k' True known r in \<open>simp_all add: page_work_def wface_def\<close>)
  next
    case False
    then have w: "w = wld s" "pc = E_clean t i"
      using res by (simp_all add: evictor_protect_def Let_def)
    show ?thesis
      by (rule evictor_move_inv [OF inv ap j(1) own, of _ "\<lambda>f. t = EVICT \<and> clean_f f"])
        (use w False known v in \<open>auto simp: page_work_def wface_def\<close>)
  qed
qed

lemma evictor_write_inv:
  assumes inv: "sys_inv S T n nf ne s" and ap: "apart (covers T) (region_loc T)"
    and j: "j < ne" "evictors s j = E_protected t i st off"
    and res: "evictor_write S io_ok t i st off (wld s) = Inr (w, pc)"
  shows "sys_inv S T n nf ne (s\<lparr>wld := w, evictors := (evictors s)(j := pc)\<rparr>)"
proof -
  let ?d = "desc (wld s) i" and ?pv = "page_view (kern S) (mem (wld s))"
  have own: "evict_own (region_loc T) (evictors s j)
      = Some (i, \<lambda>f. t = EVICT \<and> protected_f (region_loc T) (st, off) f)"
    using j by simp
  note known = evictor_own [OF inv j(1) own]
  then obtain x where v: "?pv (page ?d) = Some (x, True)"
    and l: "region_loc T (the (region ?d)) (page ?d) = (st, off)"
    by (auto simp: wface_def)
  have w: "w = (wld s)\<lparr>stores := (stores (wld s))(st := (stores (wld s) st)(off := x))\<rparr>"
    "pc = E_written t i"
    using res v by (auto simp: evictor_write_def split: if_splits)
  show ?thesis
    by (rule evictor_move_inv [OF inv ap j(1) own, of _ "\<lambda>f. t = EVICT \<and> written_f f"])
      (use w v l known in \<open>auto simp: page_work_def wface_def\<close>)
qed

lemma evictor_drop_inv:
  assumes inv: "sys_inv S T n nf ne s" and ap: "apart (covers T) (region_loc T)"
    and k: "kernel_ok (abi_of S) (page_sz S) (kern S)"
    and j: "j < ne" "evictors s j = E_clean t i"
    and res: "evictor_drop S t i (wld s) = Inr (w, pc)"
  shows "sys_inv S T n nf ne (s\<lparr>wld := w, evictors := (evictors s)(j := pc)\<rparr>)"
proof -
  let ?d = "desc (wld s) i" and ?pv = "page_view (kern S) (mem (wld s))"
  have own: "evict_own (region_loc T) (evictors s j) = Some (i, \<lambda>f. t = EVICT \<and> clean_f f)"
    using j by simp
  note known = evictor_own [OF inv j(1) own]
  obtain k' where k': "w = (wld s)\<lparr>mem := k'\<rparr>" "pc = E_mark i"
    "page_view (kern S) k' = ?pv(page ?d := None)"
    using kernel_calls(5) [OF k, of "page ?d" "mem (wld s)"] res known
    by (auto simp: evictor_drop_def)
  show ?thesis
    by (rule evictor_move_inv [OF inv ap j(1) own, of _ dropped_f])
      (use k' in \<open>simp_all add: page_work_def wface_def\<close>)
qed

text \<open>What the release of a page does to the engine.\<close>

lemma mark_page_as_free_effect:
  assumes res: "mark_page_as_free busy i e = Inr e'"
  obtains r d where "region (m_array (buf e) i) = Some r" and "state d = FREE"
    and "deferred d = deferred (m_array (buf e) i)"
    and "m_array (buf e') = (m_array (buf e))(i := d)"
    and "m_present_pages (buf e') = (m_present_pages (buf e))(page (m_array (buf e) i) := None)"
    and "m_free_pages (buf e') = (if deferred d then m_free_pages (buf e) else m_free_pages (buf e) @ [i])"
    and "m_busy_pages (buf e') = m_busy_pages (buf e)"
    and "table e' = (table e)\<lparr>rds := (rds (table e))(r := erase_page_descriptor i (rds (table e) r))\<rparr>"
    and "fill_workers e' = fill_workers e" and "evict_workers e' = evict_workers e"
proof -
  let ?d = "(m_array (buf e) i)\<lparr>state := FREE, spurious_count := 0, page := 0\<rparr>"
  obtain r where r: "region (m_array (buf e) i) = Some r" and "state (m_array (buf e) i) = LEAVING"
    using res by (auto simp: mark_page_as_free_def bindR_eq_Inr_iff set_state_iff Let_def
        split: option.splits)
  then show thesis
    using res by (intro that [of r ?d])
      (auto simp: mark_page_as_free_def set_state_free_def set_pd_def Let_def)
qed

lemma evictor_mark_inv:
  assumes inv: "sys_inv S T n nf ne s"
    and j: "j < ne" "evictors s j = E_mark i"
    and res: "mark_page_as_free busy i (sys_eng s) = Inr e"
  shows "sys_inv S T n nf ne (s\<lparr>wld := (wld s)\<lparr>eng := e\<rparr>, evictors := (evictors s)(j := E_get)\<rparr>)"
    (is "sys_inv _ _ _ _ _ ?s'")
proof -
  have own: "evict_own (region_loc T) (evictors s j) = Some (i, dropped_f)" using j by simp
  note known = evictor_own [OF inv j(1) own]
  let ?c = "core_of S s" and ?c' = "core_of S ?s'"
  from res obtain r d where d: "state d = FREE" "deferred d = deferred (desc (wld s) i)"
    and b: "m_array (buf e) = (m_array (buf (sys_eng s)))(i := d)"
      "m_present_pages (buf e) = (m_present_pages (buf (sys_eng s)))(page (desc (wld s) i) := None)"
      "m_free_pages (buf e) = (if deferred d then m_free_pages (buf (sys_eng s))
         else m_free_pages (buf (sys_eng s)) @ [i])"
      "m_busy_pages (buf e) = m_busy_pages (buf (sys_eng s))"
    and t: "table e = (table (sys_eng s))\<lparr>rds := (rds (table (sys_eng s)))
         (r := erase_page_descriptor i (rds (table (sys_eng s)) r))\<rparr>"
    and q: "fill_workers e = fill_workers (sys_eng s)" "evict_workers e = evict_workers (sys_eng s)"
    by (rule mark_page_as_free_effect) blast
  show ?thesis
  proof (rule worker_sys_inv [OF inv])
    show "core_inv (covers T) (region_loc T) nf ne ?c'"
      by (rule core_evict_done [OF sys_invD(1) [OF inv] j(1), of i d])
        (use j d b q in \<open>simp_all add: core_of_simps\<close>)
    have "i < n" using sys_invD(2) [OF inv] known(1) by (simp add: in_range_def core_of_simps)
    then show "in_range n ?c'"
      using sys_invD(2) [OF inv] b d by (auto simp: in_range_def core_of_simps)
    show "c_pres ?c' a = None" if "c_pres ?c a = None" for a
      using that b by (simp add: core_of_simps)
    show "table_ok (table (sys_eng ?s'))" "same_layout T (table (sys_eng ?s'))"
      using sys_invD(3,4) [OF inv] t by (auto intro!: table_ok_upd simp: same_layout_def)
    show "queues_ok (sys_eng ?s')" using sys_invD(5) [OF inv] q by (simp add: queues_ok_def)
  qed simp
qed

lemma evictor_sys_inv:
  assumes inv: "sys_inv S T n nf ne s" and ap: "apart (covers T) (region_loc T)"
    and k: "kernel_ok (abi_of S) (page_sz S) (kern S)" "\<not> ro_mode S"
    and j: "j < ne" and res: "evictor_step S io_ok busy (wld s, evictors s j) = Some (Inr (w, pc))"
  shows "sys_inv S T n nf ne (s\<lparr>wld := w, evictors := (evictors s)(j := pc)\<rparr>)"
proof (cases "evictors s j")
  case E_get
  with res evictor_get_inv [OF inv j E_get] show ?thesis by (simp add: evictor_step_def)
next
  case (E_item t i)
  with res evictor_protect_inv [OF inv ap k j E_item] show ?thesis by (simp add: evictor_step_def)
next
  case (E_protected t i st off)
  with res evictor_write_inv [OF inv ap j E_protected] show ?thesis by (simp add: evictor_step_def)
next
  case (E_written t i)
  then have own: "evict_own (region_loc T) (evictors s j) = Some (i, \<lambda>f. t = EVICT \<and> written_f f)"
    by simp
  have w: "w = with_buf (wld s) (set_pd i ((desc (wld s) i)\<lparr>dirty := False\<rparr>) (buf (sys_eng s)))"
    "pc = E_clean t i"
    using res E_written by (simp_all add: evictor_step_def)
  show ?thesis
    by (rule evictor_move_inv [OF inv ap j own, of _ "\<lambda>f. t = EVICT \<and> clean_f f"])
      (use w evictor_own [OF inv j own] in \<open>simp_all add: page_work_def wface_def set_pd_def\<close>)
next
  case (E_clean t i)
  with res evictor_drop_inv [OF inv ap k(1) j E_clean] show ?thesis by (simp add: evictor_step_def)
next
  case (E_mark i)
  with res evictor_mark_inv [OF inv j E_mark, of busy] show ?thesis
    by (auto simp: evictor_step_def bindR_eq_Inr_iff)
next
  case E_exit
  with res show ?thesis by (simp add: evictor_step_def)
qed

section \<open>The eviction daemon keeps the invariant\<close>

lemma busy_length:
  assumes "core_inv cov loc nf ne c" and "in_range n c"
  shows "length (c_busy c) \<le> n"
proof -
  have "distinct (c_busy c)" using pages_okD(2) [OF core_invD(1) [OF assms(1)]] .
  then have "length (c_busy c) = card (set (c_busy c))" by (simp add: distinct_card)
  also have "\<dots> \<le> card {..<n}" using assms(2) by (intro card_mono) (auto simp: in_range_def)
  finally show ?thesis by simp
qed

lemma evict_oldest_pages_empty:
  assumes "m_busy_pages b = []"
  shows "evict_oldest_pages busy b = Inr (lock_buffer busy b, [])"
  using assms by (simp add: evict_oldest_pages_def Let_def)

text \<open>The pages the daemon takes: what \<open>evict_oldest_pages\<close> does when it returns.\<close>

lemma evict_oldest_pages_returns:
  assumes inv: "buf_inv b" and len: "length (m_busy_pages b) < 2 ^ 64"
    and res: "evict_oldest_pages busy b = Inr (b', new)"
  shows "distinct new \<and> (\<forall>i\<in>set new. state (m_array b i) = PRESENT \<and> \<not> deferred (m_array b i)) \<and> buf_inv b'
       \<and> m_array b' = set_leaving (set new) (m_array b)
       \<and> m_present_pages b' = m_present_pages b \<and> m_free_pages b' = m_free_pages b
       \<and> set (m_busy_pages b') \<union> set new = set (m_busy_pages b)"
proof (cases "m_busy_pages b = []")
  case True
  with inv res show ?thesis by (auto simp: evict_oldest_pages_empty set_leaving_def)
next
  case False
  then have enough: "max_num_evicted_pages \<le> length (filter (evictable b) (m_busy_pages b))"
    using evict_oldest_pages_out_of_range [OF inv len False, of busy] res by fastforce
  from evict_oldest_pages_full [OF inv len this refl, of busy] res
  have new: "new = take max_num_evicted_pages (filter (evictable b) (rev (m_busy_pages b)))"
    and b': "buf_inv b'" "m_array b' = set_leaving (set new) (m_array b)"
      "m_present_pages b' = m_present_pages b" "m_free_pages b' = m_free_pages b"
      "mset (m_busy_pages b' @ new) = mset (m_busy_pages b)"
    by auto
  have "distinct (m_busy_pages b)" using inv by (simp add: buf_inv_def pages_ok_def)
  then have "distinct new" by (simp add: new)
  moreover have "\<forall>i\<in>set new. state (m_array b i) = PRESENT \<and> \<not> deferred (m_array b i)"
    by (auto simp: new evictable_def dest: in_set_takeD)
  moreover have "set (m_busy_pages b') \<union> set new = set (m_busy_pages b)"
    using mset_eq_setD [OF b'(5)] by simp
  ultimately show ?thesis using b' by blast
qed

lemma manager_leave_inv:
  assumes inv: "sys_inv S T n nf ne s" and n: "n < 2 ^ 64" and m: "mgr s = M_loop"
    and res: "evict_oldest_pages busy (buf (sys_eng s)) = Inr (b, new)"
  shows "sys_inv S T n nf ne (s\<lparr>wld := (wld s)\<lparr>eng := (sys_eng s)\<lparr>buf := b\<rparr>\<rparr>, mgr := M_send new\<rparr>)"
    (is "sys_inv _ _ _ _ _ ?s'")
proof -
  let ?b = "buf (sys_eng s)"
  have binv: "buf_inv ?b"
    using core_invD(1) [OF sys_invD(1) [OF inv]] by (simp add: buf_inv_def core_of_simps)
  have len: "length (m_busy_pages ?b) < 2 ^ 64"
    using busy_length [OF sys_invD(1,2) [OF inv]] n by (simp add: core_of_simps)
  have eff: "distinct new" "\<forall>i\<in>set new. state (m_array ?b i) = PRESENT" "buf_inv b"
    "m_array b = set_leaving (set new) (m_array ?b)" "m_present_pages b = m_present_pages ?b"
    "m_free_pages b = m_free_pages ?b" "set (m_busy_pages b) \<subseteq> set (m_busy_pages ?b)"
    using evict_oldest_pages_returns [OF binv len res] by auto
  show ?thesis
  proof (rule worker_sys_inv [OF inv])
    show "core_inv (covers T) (region_loc T) nf ne (core_of S ?s')"
      by (rule core_leave [OF sys_invD(1) [OF inv], of new])
        (use eff m in \<open>simp_all add: core_of_simps buf_inv_def\<close>)
    show "in_range n (core_of S ?s')"
      using sys_invD(2) [OF inv] eff by (fastforce simp: in_range_def core_of_simps set_leaving_def)
    show "queues_ok (sys_eng ?s')"
      using sys_invD(5) [OF inv] by (simp add: queues_ok_def)
  qed (use sys_invD(3,4) [OF inv] eff in \<open>simp_all add: core_of_simps\<close>)
qed

lemma manager_sys_inv:
  assumes inv: "sys_inv S T n nf ne s" and n: "n < 2 ^ 64"
    and res: "mgr_step busy (sys_eng s, mgr s) = Some (Inr (e, pc))"
  shows "sys_inv S T n nf ne (s\<lparr>wld := (wld s)\<lparr>eng := e\<rparr>, mgr := pc\<rparr>)"
    (is "sys_inv _ _ _ _ _ ?s'")
proof -
  let ?b = "buf (sys_eng s)"
  have same: ?thesis if "core_of S ?s' = core_of S s" "table e = table (sys_eng s)" "queues_ok e"
    by (rule worker_sys_inv [OF inv]) (use that sys_invD [OF inv] in simp_all)
  show ?thesis
  proof (cases "mgr s")
    case M_get
    then obtain p where "e = (sys_eng s)\<lparr>evict_manager := p\<rparr>" "mgr_list pc = []"
      using res by (auto simp: mgr_step_def split: prod.splits dequeue_out.splits if_splits)
    then show ?thesis
      using sys_invD(5) [OF inv] M_get by (intro same) (simp_all add: core_of_simps queues_ok_def)
  next
    case (M_send pds)
    show ?thesis
    proof (cases pds)
      case Nil
      with M_send res have "e = sys_eng s" "pc = M_loop" by (simp_all add: mgr_step_def)
      then show ?thesis
        using sys_invD(5) [OF inv] M_send Nil by (intro same) (simp_all add: core_of_simps)
    next
      case (Cons i rest)
      with M_send res have "e = schedule_eviction i (sys_eng s)" "pc = M_send rest"
        by (simp_all add: mgr_step_def)
      then show ?thesis
        using sys_invD(5) [OF inv] M_send Cons
        by (intro same) (auto simp: core_of_simps schedule_eviction_def queues_ok_def item_pd_def)
    qed
  next
    case M_exit
    with res show ?thesis by (simp add: mgr_step_def)
  next
    case M_loop
    show ?thesis
    proof (cases "low_threshold_reached ?b")
      case True
      with M_loop res have "e = sys_eng s" "pc = M_get" by (simp_all add: mgr_step_def)
      then show ?thesis
        using sys_invD(5) [OF inv] M_loop by (intro same) (simp_all add: core_of_simps)
    next
      case False
      with M_loop res obtain b new where
        leave: "evict_oldest_pages busy ?b = Inr (b, new)" "e = (sys_eng s)\<lparr>buf := b\<rparr>" "pc = M_send new"
        by (auto simp: mgr_step_def bindR_eq_Inr_iff)
      from manager_leave_inv [OF inv n M_loop this(1)] leave show ?thesis by simp
    qed
  qed
qed

end
