(* ===== verification/Paging_Props.thy ===== *)
theory Paging_Props
  imports Paging_Workers
begin

text \<open>
  The paging engine refines a flat memory: whatever the interleaving of the monitor, the
  workers and the eviction daemon, the application reads from a page what it wrote there
  last, or what the store held when the region was mapped. Also: no worker ever meets a
  page in a state it does not expect, and no two workers have the same page in hand.
\<close>

section \<open>The invariant holds in every state of a run\<close>

lemma handler_to_twice [simp]: "handler_to (handler_to s e h) e' h' = handler_to s e' h'"
  by (simp add: handler_to_def)

lemma sys_eng_handler_to [simp]: "sys_eng (handler_to s e h) = e"
  by (simp add: handler_to_def)

lemma process_page_sys_inv:
  assumes inv: "sys_inv S T n nf ne s" and ap: "apart (covers T) (region_loc T)"
    and res: "process_page busy w a (sys_eng s) = Inr (e, r, out)"
  shows "r = None \<Longrightarrow> sys_inv S T n nf ne (handler_to s e H_idle)"
    and "r = Some r' \<Longrightarrow> sys_inv S T n nf ne (handler_to s e (handler_next a w r' out))"
proof -
  obtain ro rt where look: "containing_region a (table (sys_eng s)) = (ro, rt)"
    by (cases "containing_region a (table (sys_eng s))")
  have rt: "table_ok rt" "m_active_regions rt = m_active_regions (table (sys_eng s))"
    "rds rt = rds (table (sys_eng s))"
    using rm.lookup_invar [OF sys_invD(3) [OF inv], of a] containing_region_frame [of a "table (sys_eng s)"]
      look by simp_all
  show "sys_inv S T n nf ne (handler_to s e H_idle)" if "r = None"
  proof (rule quiet_inv [OF inv])
    have "e = (sys_eng s)\<lparr>table := rt\<rparr>"
      using res look that by (auto simp: process_page_def bindR_eq_Inr_iff split: option.splits)
    then show "quiet (sys_eng s) e" "table_ok (table e)" using rt by (simp_all add: quiet_def)
  qed (simp add: handler_ok_def)
  show "sys_inv S T n nf ne (handler_to s e (handler_next a w r' out))" if r: "r = Some r'"
  proof -
    let ?e = "(sys_eng s)\<lparr>table := rt, buf := lock_buffer busy (buf (sys_eng s))\<rparr>"
    have ro: "ro = Some r'" and ppe: "ppe_check a w r' ?e = Inr (e, out)"
      using res look r
      by (auto simp: process_page_def process_page_event_def bindR_eq_Inr_iff split: option.splits)
    have "covers T r' a"
      using rm.lookup_Some [OF sys_invD(3) [OF inv], of a r' rt] look ro
        same_layout_covers(1) [OF sys_invD(4) [OF inv]] by simp
    moreover have "sys_inv S T n nf ne (handler_to s ?e H_idle)"
      by (rule quiet_inv [OF inv]) (use rt in \<open>simp_all add: quiet_def handler_ok_def\<close>)
    ultimately show ?thesis using ppe_check_sys_inv [of S T n nf ne "handler_to s ?e H_idle"] ap ppe
      by simp
  qed
qed

lemma resume_sys_inv:
  assumes inv: "sys_inv S T n nf ne s" and ap: "apart (covers T) (region_loc T)"
  shows "handler s = H_state a w r \<Longrightarrow> ppe_resume_state a w r (sys_eng s) = Inr (e, out) \<Longrightarrow>
      sys_inv S T n nf ne (handler_to s e (handler_next a w r out))"
    and "handler s = H_avail a w r \<Longrightarrow> ppe_resume_avail a w r (sys_eng s) = Inr (e, out) \<Longrightarrow>
      sys_inv S T n nf ne (handler_to s e (handler_next a w r out))"
proof -
  let ?e1 = "(sys_eng s)\<lparr>buf := end_state_wait (buf (sys_eng s))\<rparr>"
  let ?e2 = "(sys_eng s)\<lparr>buf := end_avail_wait (buf (sys_eng s))\<rparr>"
  have q: "sys_inv S T n nf ne (handler_to s ?e1 H_idle)" "sys_inv S T n nf ne (handler_to s ?e2 H_idle)"
    by (rule quiet_inv [OF inv], simp_all add: quiet_def handler_ok_def sys_invD(3) [OF inv])+
  show "sys_inv S T n nf ne (handler_to s e (handler_next a w r out))"
    if "handler s = H_state a w r" "ppe_resume_state a w r (sys_eng s) = Inr (e, out)"
    using ppe_check_sys_inv [OF q(1) ap, of r a w e out] that sys_invD(6) [OF inv]
    by (simp add: handler_ok_def ppe_resume_state_def)
  show "sys_inv S T n nf ne (handler_to s e (handler_next a w r out))"
    if "handler s = H_avail a w r" "ppe_resume_avail a w r (sys_eng s) = Inr (e, out)"
    using ppe_alloc_sys_inv [OF q(2), of r a w e out] that sys_invD(6) [OF inv]
    by (simp add: handler_ok_def ppe_resume_avail_def core_of_simps)
qed

lemma app_sys_inv:
  assumes inv: "sys_inv S T n nf ne s"
    and pv: "page_view (kern S) (mem (wld s)) a = Some (y, False)"
    and k: "page_view (kern S) k = (page_view (kern S) (mem (wld s)))(a \<mapsto> (z, False))"
  shows "sys_inv S T n nf ne (s\<lparr>wld := (wld s)\<lparr>mem := k\<rparr>\<rparr>)" (is "sys_inv _ _ _ _ _ ?s'")
proof -
  have core: "core_of S ?s' = (core_of S s)\<lparr>c_pv := (c_pv (core_of S s))(a \<mapsto> (z, False))\<rparr>"
    using k by (simp add: core_of_simps)
  have "core_inv (covers T) (region_loc T) nf ne (core_of S ?s')"
    unfolding core by (rule core_app_write [OF sys_invD(1) [OF inv]]) (simp add: core_of_simps pv)
  moreover have "in_range n (core_of S ?s')"
    using sys_invD(2) [OF inv] unfolding core by (simp add: in_range_def)
  ultimately show ?thesis
    by (intro worker_sys_inv [OF inv]) (use sys_invD(3-5) [OF inv] core in simp_all)
qed

lemma step_sys_inv:
  assumes step: "sys_step S nf ne s ev s'" and inv: "sys_inv S T n nf ne s"
    and ap: "apart (covers T) (region_loc T)" and n: "n < 2 ^ 64"
    and k: "kernel_ok (abi_of S) (page_sz S) (kern S)" "\<not> ro_mode S"
  shows "sys_inv S T n nf ne s'"
  using step
proof cases
  case step_fault
  with process_page_sys_inv(1) [OF inv ap] show ?thesis by blast
next
  case step_fault_region
  with process_page_sys_inv(2) [OF inv ap] show ?thesis by blast
next
  case step_resume_state
  with resume_sys_inv(1) [OF inv ap] show ?thesis by blast
next
  case step_resume_avail
  with resume_sys_inv(2) [OF inv ap] show ?thesis by blast
next
  case step_filler
  with filler_sys_inv [OF inv ap k] show ?thesis by blast
next
  case step_manager
  with manager_sys_inv [OF inv n] show ?thesis by blast
next
  case step_evictor
  with evictor_sys_inv [OF inv ap k] show ?thesis by blast
next
  case step_app
  with app_sys_inv [OF inv] show ?thesis by blast
qed

text \<open>
  The state in which the engine starts: the buffer as its constructor leaves it, empty
  queues, all workers waiting for work, and no page of a region in memory. The regions do
  not share a store.
\<close>

definition booted :: "('k, 'd) setting \<Rightarrow> nat \<Rightarrow> nat \<Rightarrow> nat \<Rightarrow> ('k, 'd) sys \<Rightarrow> bool" where
  "booted S n nf ne s \<longleftrightarrow>
     n < 2 ^ 64
   \<and> (\<exists>mon_ok lo hi freq. Buffer_init True mon_ok n lo hi freq = Inr (buf (sys_eng s)))
   \<and> pool_queue (fill_workers (sys_eng s)) = [] \<and> pool_queue (evict_workers (sys_eng s)) = []
   \<and> handler s = H_idle \<and> (\<forall>j<nf. fillers s j = F_get) \<and> mgr s = M_get
   \<and> (\<forall>j<ne. evictors s j = E_get)
   \<and> table_ok (table (sys_eng s))
   \<and> (\<forall>(k, r) \<in> set (m_active_regions (table (sys_eng s))).
        \<forall>(k', r') \<in> set (m_active_regions (table (sys_eng s))).
          m_store (rds (table (sys_eng s)) r) = m_store (rds (table (sys_eng s)) r') \<longrightarrow> r = r')
   \<and> (\<forall>r a. covers (table (sys_eng s)) r a \<longrightarrow> page_view (kern S) (mem (wld s)) a = None)"

text \<open>The kernel keeps its promises, and pages can be write protected.\<close>

definition setting_ok :: "('k, 'd) setting \<Rightarrow> bool" where
  "setting_ok S \<longleftrightarrow> kernel_ok (abi_of S) (page_sz S) (kern S) \<and> \<not> ro_mode S"

lemma Buffer_init_fields:
  assumes "Buffer_init ok mon_ok n lo hi freq = Inr b"
  shows "m_array b = (\<lambda>_. zero_PageDescriptor)" and "m_present_pages b = Map.empty"
    and "m_free_pages b = [0..<n]" and "m_busy_pages b = []" and "m_size b = n"
  using assms by (auto simp: Buffer_init_def bindR_eq_Inr_iff split: if_splits)

lemma booted_apart:
  assumes "booted S n nf ne s"
  shows "apart (covers (table (sys_eng s))) (region_loc (table (sys_eng s)))"
  using assms by (intro region_loc_apart) (auto simp: booted_def)

lemma booted_inv:
  assumes b: "booted S n nf ne s"
  shows "sys_inv S (table (sys_eng s)) n nf ne s"
proof -
  let ?c = "core_of S s" and ?T = "table (sys_eng s)"
  obtain mon_ok lo hi freq where "Buffer_init True mon_ok n lo hi freq = Inr (buf (sys_eng s))"
    using b by (auto simp: booted_def)
  note f = Buffer_init_fields [OF this]
  have c: "c_arr ?c = (\<lambda>_. zero_PageDescriptor)" "c_pres ?c = Map.empty" "c_free ?c = [0..<n]"
    "c_busy ?c = []" "c_fq ?c = []" "c_eq ?c = []" "c_fill ?c = fillers s" "c_evict ?c = evictors s"
    "c_pv ?c = page_view (kern S) (mem (wld s))"
    using b f by (simp_all add: core_of_simps booted_def)
  have none: "in_state X ?c = {}" if "FREE \<notin> X" for X
    using that by (auto simp: in_state_def c zero_PageDescriptor_def)
  have "core_inv (covers ?T) (region_loc ?T) nf ne ?c"
  proof (rule core_invI)
    show "pages_ok (c_arr ?c) (c_pres ?c) (c_free ?c) (c_busy ?c)"
      by (simp add: c pages_ok_def zero_PageDescriptor_def)
    show "c_pv ?c a = None" if "covers ?T r a" for r a
      using that b by (auto simp: c booted_def)
    show "pool_inv fill_own wait_f (face (region_loc ?T) ?c) (in_state {FILLING, UPDATING} ?c)
        (c_fq ?c) nf (c_fill ?c)"
      using b none [of "{FILLING, UPDATING}"] by (simp add: c booted_def pool_inv_idle)
    show "pool_inv (evict_own (region_loc ?T)) loaded_f (face (region_loc ?T) ?c)
        (in_state {LEAVING} ?c) (c_eq ?c) ne (c_evict ?c)"
      using b none [of "{LEAVING}"] by (simp add: c booted_def pool_inv_idle)
  qed (simp_all add: c zero_PageDescriptor_def)
  moreover have "in_range n ?c" by (auto simp: in_range_def c zero_PageDescriptor_def)
  ultimately show ?thesis
    using b by (simp add: sys_inv_def booted_def same_layout_def queues_ok_def handler_ok_def)
qed

lemma run_inv:
  assumes run: "sys_run S nf ne s0 tr s" and b: "booted S n nf ne s0" and S: "setting_ok S"
  shows "sys_inv S (table (sys_eng s0)) n nf ne s"
  using run
proof induction
  case run_start
  show ?case by (rule booted_inv [OF b])
next
  case (run_step tr s ev s')
  show ?case
    using step_sys_inv [OF run_step.hyps(2) run_step.IH booted_apart [OF b]] b S
    by (simp add: booted_def setting_ok_def)
qed

section \<open>The memory the application sees\<close>

text \<open>
  The contents of a page of region \<open>r\<close>: what is mapped, or what a fault would bring in
  from the store.
\<close>

fun mapped_or :: "('d \<times> bool) option \<Rightarrow> 'd \<Rightarrow> 'd" where
  "mapped_or None x = x"
| "mapped_or (Some (y, _)) x = y"

definition page_contents ::
  "('k, 'd) setting \<Rightarrow> RegionTable \<Rightarrow> ('k, 'd) world \<Rightarrow> rid \<Rightarrow> addr \<Rightarrow> 'd" where
  "page_contents S T w r a =
     mapped_or (page_view (kern S) (mem w) a)
       (stores w (fst (region_loc T r a)) (snd (region_loc T r a)))"

text \<open>A flat memory: a write changes its own page and nothing else.\<close>

fun flat_step :: "addr \<Rightarrow> 'd event \<Rightarrow> 'd \<Rightarrow> 'd" where
  "flat_step a (App_write a' z) x = (if a' = a then z else x)"
| "flat_step a Internal x = x"

lemma contents_same:
  assumes "mem w' = mem w" and "stores w' = stores w"
  shows "page_contents S T w' r a = page_contents S T w r a"
  using assms by (simp add: page_contents_def)

lemma desc_covers:
  assumes inv: "sys_inv S T n nf ne s" and st: "state (desc (wld s) i) \<noteq> FREE"
    and cov: "covers T r (page (desc (wld s) i))"
  shows "region (desc (wld s) i) = Some r"
proof -
  obtain q where q: "region (desc (wld s) i) = Some q" "covers T q (page (desc (wld s) i))"
    using core_invD(2) [OF sys_invD(1) [OF inv], of i] st by (auto simp: core_of_simps)
  have "covers (table (sys_eng s)) = covers T" using same_layout_covers(1) [OF sys_invD(4) [OF inv]] .
  with covers_unique [OF sys_invD(3) [OF inv]] q(2) cov have "q = r" by metis
  with q show ?thesis by simp
qed

text \<open>What the steps of a filler do to the memory.\<close>

lemma filler_load_effect:
  assumes inv: "sys_inv S T n nf ne s" and S: "setting_ok S" and j: "j < nf" "fillers s j = F_item i"
    and res: "filler_step S io_ok busy (wld s, fillers s j) = Some (Inr (w, pc))"
  obtains (same) "w = wld s"
  | (unprotected) x b m where "page_view (kern S) (mem (wld s)) (page (desc (wld s) i)) = Some (x, b)"
      "w = (wld s)\<lparr>mem := m\<rparr>"
      "page_view (kern S) m = (page_view (kern S) (mem (wld s)))(page (desc (wld s) i) \<mapsto> (x, False))"
proof (cases "dirty (desc (wld s) i) \<and> data_present (desc (wld s) i)")
  case True
  have k: "kernel_ok (abi_of S) (page_sz S) (kern S)" "\<not> ro_mode S" using S by (simp_all add: setting_ok_def)
  have own: "fill_own (fillers s j) = Some (i, wait_f)" using j(2) by simp
  obtain x b where v: "page_view (kern S) (mem (wld s)) (page (desc (wld s) i)) = Some (x, b)"
    using filler_own(2) [OF inv j(1) own] True by (auto simp: wface_def)
  with kernel_calls(4) [OF k(1) v] res True k(2) j(2) show ?thesis
    by (auto simp: filler_step_def filler_load_def Let_def intro: unprotected)
next
  case False
  then show ?thesis using res j(2)
    by (auto simp: filler_step_def filler_load_def Let_def bindR_eq_Inr_iff intro: same
        split: option.splits if_splits)
qed

lemma filler_copy_effect:
  assumes inv: "sys_inv S T n nf ne s" and S: "setting_ok S" and j: "j < nf" "fillers s j = F_read i y"
    and res: "filler_step S io_ok busy (wld s, fillers s j) = Some (Inr (w, pc))"
  obtains m where "page_view (kern S) (mem (wld s)) (page (desc (wld s) i)) = None"
    "w = (wld s)\<lparr>mem := m\<rparr>"
    "page_view (kern S) m
       = (page_view (kern S) (mem (wld s)))(page (desc (wld s) i) \<mapsto> (y, \<not> dirty (desc (wld s) i)))"
proof -
  have k: "kernel_ok (abi_of S) (page_sz S) (kern S)" "\<not> ro_mode S" using S by (simp_all add: setting_ok_def)
  have own: "fill_own (fillers s j) = Some (i, read_f y)" using j(2) by simp
  have v: "page_view (kern S) (mem (wld s)) (page (desc (wld s) i)) = None"
    using filler_own(2) [OF inv j(1) own] by (auto simp: wface_def)
  with kernel_calls(1,2) [OF k(1) v, of y] res k(2) j(2) that show ?thesis
    by (cases "dirty (desc (wld s) i)") (auto simp: filler_step_def filler_copy_def)
qed

text \<open>A call of the kernel on the page of a descriptor, seen from the page \<open>a\<close>.\<close>

lemma contents_mem_upd:
  assumes inv: "sys_inv S T n nf ne s" and cov: "covers T r a"
    and busy: "state (desc (wld s) i) \<noteq> FREE"
    and m: "page_view (kern S) m = (page_view (kern S) (mem (wld s)))(page (desc (wld s) i) := v)"
    and same: "region (desc (wld s) i) = Some r
      \<Longrightarrow> page_contents S T ((wld s)\<lparr>mem := m\<rparr>) r (page (desc (wld s) i))
          = page_contents S T (wld s) r (page (desc (wld s) i))"
  shows "page_contents S T ((wld s)\<lparr>mem := m\<rparr>) r a = page_contents S T (wld s) r a"
proof (cases "a = page (desc (wld s) i)")
  case True
  then have "region (desc (wld s) i) = Some r" using desc_covers [OF inv, of i r] busy cov by auto
  with same True show ?thesis by simp
next
  case False
  with m show ?thesis by (simp add: page_contents_def)
qed

lemma filler_contents:
  assumes inv: "sys_inv S T n nf ne s" and S: "setting_ok S" and j: "j < nf" and cov: "covers T r a"
    and res: "filler_step S io_ok busy (wld s, fillers s j) = Some (Inr (w, pc))"
  shows "page_contents S T w r a = page_contents S T (wld s) r a"
proof (cases "fillers s j")
  case F_get
  then show ?thesis using res
    by (intro contents_same) (auto simp: filler_step_def filler_get_def Let_def
        split: prod.splits dequeue_out.splits if_splits option.splits)
next
  case (F_item i)
  from filler_load_effect [OF inv S j F_item res] show ?thesis
    by cases (auto simp: page_contents_def)
next
  case (F_read i y)
  then have own: "fill_own (fillers s j) = Some (i, read_f y)" by simp
  note known = filler_own [OF inv j own]
  obtain m where m: "page_view (kern S) (mem (wld s)) (page (desc (wld s) i)) = None"
    "w = (wld s)\<lparr>mem := m\<rparr>"
    "page_view (kern S) m
       = (page_view (kern S) (mem (wld s)))(page (desc (wld s) i) \<mapsto> (y, \<not> dirty (desc (wld s) i)))"
    by (rule filler_copy_effect [OF inv S j F_read res])
  show ?thesis unfolding m(2)
    using known m by (intro contents_mem_upd [OF inv cov _ m(3)])
      (auto simp: wface_def page_contents_def split_beta)
next
  case (F_copied i)
  then show ?thesis using res by (intro contents_same) (auto simp: filler_step_def)
next
  case (F_mark i)
  then show ?thesis using res
    by (intro contents_same) (auto simp: filler_step_def bindR_eq_Inr_iff)
next
  case F_exit
  then show ?thesis using res by (simp add: filler_step_def)
qed

text \<open>What the steps of an evictor do to the memory and to the stores.\<close>

lemma evictor_write_contents:
  assumes inv: "sys_inv S T n nf ne s" and ap: "apart (covers T) (region_loc T)"
    and j: "j < ne" "evictors s j = E_protected t i st off" and cov: "covers T r a"
    and res: "evictor_step S io_ok busy (wld s, evictors s j) = Some (Inr (w, pc))"
  shows "page_contents S T w r a = page_contents S T (wld s) r a"
proof -
  let ?pv = "page_view (kern S) (mem (wld s))" and ?p = "page (desc (wld s) i)"
  have own: "evict_own (region_loc T) (evictors s j)
      = Some (i, \<lambda>f. t = EVICT \<and> protected_f (region_loc T) (st, off) f)" using j(2) by simp
  note known = evictor_own [OF inv j(1) own]
  obtain x where v: "?pv ?p = Some (x, True)"
    and l: "region_loc T (the (region (desc (wld s) i))) ?p = (st, off)"
    using known(2) by (auto simp: wface_def)
  obtain q where q: "region (desc (wld s) i) = Some q" "covers T q ?p"
    using core_invD(2) [OF sys_invD(1) [OF inv], of i] known(1) by (auto simp: core_of_simps)
  have "region_loc T r a \<noteq> (st, off)" if "?pv a = None"
  proof
    assume "region_loc T r a = (st, off)"
    then have "a = ?p" using ap q cov l unfolding apart_def by (metis option.sel)
    with that v show False by simp
  qed
  with res j(2) v show ?thesis
    by (cases "?pv a") (auto simp: evictor_step_def evictor_write_def page_contents_def
        prod_eq_iff split: if_splits)
qed

lemma evictor_drop_contents:
  assumes inv: "sys_inv S T n nf ne s" and S: "setting_ok S"
    and j: "j < ne" "evictors s j = E_clean t i" and cov: "covers T r a"
    and res: "evictor_step S io_ok busy (wld s, evictors s j) = Some (Inr (w, pc))"
  shows "page_contents S T w r a = page_contents S T (wld s) r a"
proof -
  have k: "kernel_ok (abi_of S) (page_sz S) (kern S)" using S by (simp add: setting_ok_def)
  have own: "evict_own (region_loc T) (evictors s j) = Some (i, \<lambda>f. t = EVICT \<and> clean_f f)" using j(2) by simp
  note known = evictor_own [OF inv j(1) own]
  obtain m where w: "w = (wld s)\<lparr>mem := m\<rparr>"
    and m: "page_view (kern S) m = (page_view (kern S) (mem (wld s)))(page (desc (wld s) i) := None)"
    using kernel_calls(5) [OF k, of "page (desc (wld s) i)" "mem (wld s)"] res known j(2)
    by (auto simp: evictor_step_def evictor_drop_def)
  show ?thesis unfolding w
    using known m by (intro contents_mem_upd [OF inv cov _ m])
      (auto simp: wface_def page_contents_def split_beta)
qed

lemma evictor_contents:
  assumes inv: "sys_inv S T n nf ne s" and S: "setting_ok S" and ap: "apart (covers T) (region_loc T)"
    and j: "j < ne" and cov: "covers T r a"
    and res: "evictor_step S io_ok busy (wld s, evictors s j) = Some (Inr (w, pc))"
  shows "page_contents S T w r a = page_contents S T (wld s) r a"
proof (cases "evictors s j")
  case E_get
  then show ?thesis using res
    by (intro contents_same) (auto simp: evictor_step_def evictor_get_def Let_def
        split: prod.splits dequeue_out.splits if_splits option.splits)
next
  case (E_item t i)
  have k: "kernel_ok (abi_of S) (page_sz S) (kern S)" "\<not> ro_mode S" using S by (simp_all add: setting_ok_def)
  from E_item have own: "evict_own (region_loc T) (evictors s j) = Some (i, \<lambda>f. t = EVICT \<and> loaded_f f)" by simp
  obtain x b where v: "page_view (kern S) (mem (wld s)) (page (desc (wld s) i)) = Some (x, b)"
    using evictor_own [OF inv j own] by (auto simp: wface_def split: option.splits)
  with kernel_calls(3) [OF k(1) v] res k(2) E_item show ?thesis
    by (auto simp: evictor_step_def evictor_protect_def Let_def page_contents_def bindR_eq_Inr_iff
        split: option.splits if_splits)
next
  case (E_protected t i st off)
  from evictor_write_contents [OF inv ap j this cov res] show ?thesis .
next
  case (E_written t i)
  then show ?thesis using res by (intro contents_same) (auto simp: evictor_step_def)
next
  case (E_clean t i)
  from evictor_drop_contents [OF inv S j this cov res] show ?thesis .
next
  case (E_mark i)
  then show ?thesis using res
    by (intro contents_same) (auto simp: evictor_step_def bindR_eq_Inr_iff)
next
  case E_exit
  then show ?thesis using res by (simp add: evictor_step_def)
qed

lemma step_contents:
  assumes step: "sys_step S nf ne s ev s'" and inv: "sys_inv S T n nf ne s" and S: "setting_ok S"
    and ap: "apart (covers T) (region_loc T)" and cov: "covers T r a"
  shows "page_contents S T (wld s') r a = flat_step a ev (page_contents S T (wld s) r a)"
  using step
proof cases
  case step_filler
  with filler_contents [OF inv S _ cov] show ?thesis by simp
next
  case step_evictor
  with evictor_contents [OF inv S ap _ cov] show ?thesis by simp
next
  case step_app
  then show ?thesis by (simp add: page_contents_def)
qed (simp_all add: handler_to_def page_contents_def)

lemma run_contents:
  assumes run: "sys_run S nf ne s0 tr s" and b: "booted S n nf ne s0" and S: "setting_ok S"
    and cov: "covers (table (sys_eng s0)) r a"
  shows "page_contents S (table (sys_eng s0)) (wld s) r a
       = fold (flat_step a) tr (page_contents S (table (sys_eng s0)) (wld s0) r a)"
  using run
proof induction
  case run_start
  show ?case by simp
next
  case (run_step tr s ev s')
  show ?case
    using step_contents [OF run_step.hyps(2) run_inv [OF run_step.hyps(1) b S] S booted_apart [OF b] cov]
      run_step.IH by simp
qed

section \<open>No worker meets a page in a state it does not expect\<close>

text \<open>The items in the queues carry a descriptor.\<close>

lemma filler_get_no_error:
  assumes inv: "sys_inv S T n nf ne s"
  shows "filler_step S io_ok busy (wld s, F_get) \<noteq> Some (Inl err)"
proof
  assume "filler_step S io_ok busy (wld s, F_get) = Some (Inl err)"
  then obtain p item where g: "get_work (fill_workers (sys_eng s)) = (p, Got item)"
    and bad: "page_desc item = None"
    by (auto simp: filler_step_def filler_get_def Let_def
        split: prod.splits dequeue_out.splits if_splits option.splits)
  have "item = fill_item (item_pd item)"
    using sys_invD(5) [OF inv] get_work_Got [OF g] by (simp add: queues_ok_def)
  then have "page_desc item = Some (item_pd item)" by (metis WorkItem.select_convs(1) fill_item_def)
  with bad show False by simp
qed

lemma evictor_get_no_error:
  assumes inv: "sys_inv S T n nf ne s"
  shows "evictor_step S io_ok busy (wld s, E_get) \<noteq> Some (Inl err)"
proof
  assume "evictor_step S io_ok busy (wld s, E_get) = Some (Inl err)"
  then obtain p item where g: "get_work (evict_workers (sys_eng s)) = (p, Got item)"
    and bad: "page_desc item = None"
    by (auto simp: evictor_step_def evictor_get_def Let_def
        split: prod.splits dequeue_out.splits if_splits option.splits)
  have "item = \<lparr>page_desc = Some (item_pd item), work_type = EVICT\<rparr>"
    using sys_invD(5) [OF inv] get_work_Got [OF g] by (simp add: queues_ok_def)
  then have "page_desc item = Some (item_pd item)" by (metis WorkItem.select_convs(1))
  with bad show False by simp
qed

lemma filler_no_error:
  assumes inv: "sys_inv S T n nf ne s" and S: "setting_ok S" and j: "j < nf"
  shows "filler_step S True busy (wld s, fillers s j) \<noteq> Some (Inl err)"
proof -
  let ?pv = "page_view (kern S) (mem (wld s))"
  have k: "kernel_ok (abi_of S) (page_sz S) (kern S)" "\<not> ro_mode S" using S by (simp_all add: setting_ok_def)
  show ?thesis
  proof (cases "fillers s j")
    case F_get
    then show ?thesis using filler_get_no_error [OF inv] by simp
  next
    case (F_item i)
    then have own: "fill_own (fillers s j) = Some (i, wait_f)" by simp
    note known = filler_own [OF inv j own]
    show ?thesis
    proof (cases "dirty (desc (wld s) i) \<and> data_present (desc (wld s) i)")
      case True
      then obtain x b where v: "?pv (page (desc (wld s) i)) = Some (x, b)"
        using known(2) by (auto simp: wface_def)
      with kernel_calls(4) [OF k(1) v] True k(2) F_item show ?thesis
        by (auto simp: filler_step_def filler_load_def Let_def)
    next
      case False
      obtain r where "region (desc (wld s) i) = Some r"
        "store_offset (rds (table (sys_eng s)) r) (page (desc (wld s) i))
           = Inr (snd (region_loc T r (page (desc (wld s) i))))"
        using desc_region [OF inv, of i] known(1) by (metis State.distinct(1,5) insertE singletonD)
      then show ?thesis using F_item by (auto simp: filler_step_def filler_load_def Let_def False)
    qed
  next
    case (F_read i y)
    then have own: "fill_own (fillers s j) = Some (i, read_f y)" by simp
    have v: "?pv (page (desc (wld s) i)) = None"
      using filler_own(2) [OF inv j own] by (auto simp: wface_def)
    show ?thesis
      using kernel_calls(1,2) [OF k(1) v, of y] k(2) F_read
      by (cases "dirty (desc (wld s) i)") (auto simp: filler_step_def filler_copy_def)
  next
    case (F_mark i)
    then have own: "fill_own (fillers s j) = Some (i, present_f)" by simp
    have "state (desc (wld s) i) \<in> {FILLING, UPDATING}" by (rule filler_own(1) [OF inv j own])
    then show ?thesis
      using F_mark by (auto simp: filler_step_def mark_page_as_present_def set_state_present_def)
  qed (simp_all add: filler_step_def)
qed

lemma evictor_no_error:
  assumes inv: "sys_inv S T n nf ne s" and S: "setting_ok S" and j: "j < ne"
  shows "evictor_step S True busy (wld s, evictors s j) \<noteq> Some (Inl err)"
proof -
  let ?pv = "page_view (kern S) (mem (wld s))"
  have k: "kernel_ok (abi_of S) (page_sz S) (kern S)" "\<not> ro_mode S" using S by (simp_all add: setting_ok_def)
  show ?thesis
  proof (cases "evictors s j")
    case E_get
    then show ?thesis using evictor_get_no_error [OF inv] by simp
  next
    case (E_item t i)
    then have own: "evict_own (region_loc T) (evictors s j) = Some (i, \<lambda>f. t = EVICT \<and> loaded_f f)" by simp
    note known = evictor_own [OF inv j own]
    then obtain x b where v: "?pv (page (desc (wld s) i)) = Some (x, b)"
      by (auto simp: wface_def split: option.splits)
    obtain r where "region (desc (wld s) i) = Some r"
      "store_offset (rds (table (sys_eng s)) r) (page (desc (wld s) i))
         = Inr (snd (region_loc T r (page (desc (wld s) i))))"
      using desc_region [OF inv, of i] known(1) by (metis State.distinct(7))
    with kernel_calls(3) [OF k(1) v] k(2) E_item show ?thesis
      by (auto simp: evictor_step_def evictor_protect_def Let_def)
  next
    case (E_protected t i st off)
    then have own: "evict_own (region_loc T) (evictors s j)
        = Some (i, \<lambda>f. t = EVICT \<and> protected_f (region_loc T) (st, off) f)" by simp
    obtain x where "?pv (page (desc (wld s) i)) = Some (x, True)"
      using evictor_own(2) [OF inv j own] by (auto simp: wface_def)
    then show ?thesis using E_protected by (simp add: evictor_step_def evictor_write_def)
  next
    case (E_clean t i)
    then show ?thesis
      using kernel_calls(5) [OF k(1), of "page (desc (wld s) i)" "mem (wld s)"]
      by (auto simp: evictor_step_def evictor_drop_def)
  next
    case (E_mark i)
    then have own: "evict_own (region_loc T) (evictors s j) = Some (i, dropped_f)" by simp
    have st: "state (desc (wld s) i) = LEAVING" by (rule evictor_own(1) [OF inv j own])
    then obtain r where "region (desc (wld s) i) = Some r"
      using core_invD(2) [OF sys_invD(1) [OF inv], of i] by (auto simp: core_of_simps)
    with st E_mark show ?thesis
      by (auto simp: evictor_step_def mark_page_as_free_def set_state_free_def Let_def)
  qed (simp_all add: evictor_step_def)
qed

lemma ppe_check_no_error:
  assumes inv: "sys_inv S T n nf ne s" and e: "quiet (sys_eng s) e"
  shows "ppe_check a w r e \<noteq> Inl err" and "ppe_alloc a w r e \<noteq> Inl err"
proof -
  have alloc: "\<exists>e' out. ppe_alloc a w r e = Inr (e', out)"
  proof (cases "m_free_pages (buf e)" rule: rev_cases)
    case Nil
    then show ?thesis by (simp add: ppe_alloc_empty)
  next
    case (snoc fr i)
    then have "m_free_pages (buf (sys_eng s)) = fr @ [i]" using e by (simp add: quiet_def)
    then have "i \<in> set (c_free (core_of S s))" by (simp add: core_of_simps)
    then have "state (m_array (buf e) i) = FREE"
      using pages_okD(4) [OF core_invD(1) [OF sys_invD(1) [OF inv]], of i] e
      by (simp add: quiet_def core_of_simps)
    from ppe_alloc_effect [OF snoc this, of a w r] show ?thesis by blast
  qed
  then show "ppe_alloc a w r e \<noteq> Inl err" by auto
  show "ppe_check a w r e \<noteq> Inl err"
    using alloc by (auto simp: ppe_check_def page_already_present_def set_state_updating_def Let_def
        split: option.splits if_splits)
qed

section \<open>A run in which pages are filled, written and evicted\<close>

text \<open>
  An interpreter of the machine for a given schedule, and a kernel that keeps the mapped
  pages in a table. They show that the hypotheses of the properties can hold.
\<close>

datatype 'd move = Mv_fault bool addr | Mv_fill nat | Mv_mgr | Mv_evict nat | Mv_write addr 'd

fun exec ::
  "('k, 'd) setting \<Rightarrow> (addr \<Rightarrow> 'd \<Rightarrow> 'k \<Rightarrow> 'k) \<Rightarrow> nat \<Rightarrow> nat \<Rightarrow> 'd move \<Rightarrow> ('k, 'd) sys
     \<Rightarrow> ('d event \<times> ('k, 'd) sys) option" where
  "exec S wr nf ne (Mv_fault iswrite a) s =
     (if handler s = H_idle \<and> page_base (page_sz S) a = a then
        case process_page False iswrite a (sys_eng s) of
          Inr (e, Some r, out) \<Rightarrow> Some (Internal, handler_to s e (handler_next a iswrite r out))
        | _ \<Rightarrow> None
      else None)"
| "exec S wr nf ne (Mv_fill j) s =
     (if j < nf then
        case filler_step S True False (wld s, fillers s j) of
          Some (Inr (w, pc)) \<Rightarrow> Some (Internal, s\<lparr>wld := w, fillers := (fillers s)(j := pc)\<rparr>)
        | _ \<Rightarrow> None
      else None)"
| "exec S wr nf ne Mv_mgr s =
     (case mgr_step False (sys_eng s, mgr s) of
        Some (Inr (e, pc)) \<Rightarrow> Some (Internal, s\<lparr>wld := (wld s)\<lparr>eng := e\<rparr>, mgr := pc\<rparr>)
      | _ \<Rightarrow> None)"
| "exec S wr nf ne (Mv_evict j) s =
     (if j < ne then
        case evictor_step S True False (wld s, evictors s j) of
          Some (Inr (w, pc)) \<Rightarrow> Some (Internal, s\<lparr>wld := w, evictors := (evictors s)(j := pc)\<rparr>)
        | _ \<Rightarrow> None
      else None)"
| "exec S wr nf ne (Mv_write a z) s =
     (case page_view (kern S) (mem (wld s)) a of
        Some (_, False) \<Rightarrow> Some (App_write a z, s\<lparr>wld := (wld s)\<lparr>mem := wr a z (mem (wld s))\<rparr>\<rparr>)
      | _ \<Rightarrow> None)"

fun exec_all ::
  "('k, 'd) setting \<Rightarrow> (addr \<Rightarrow> 'd \<Rightarrow> 'k \<Rightarrow> 'k) \<Rightarrow> nat \<Rightarrow> nat \<Rightarrow> 'd move list \<Rightarrow> 'd event list \<times> ('k, 'd) sys
     \<Rightarrow> ('d event list \<times> ('k, 'd) sys) option" where
  "exec_all S wr nf ne [] (tr, s) = Some (tr, s)"
| "exec_all S wr nf ne (m # ms) (tr, s) =
     (case exec S wr nf ne m s of
        None \<Rightarrow> None
      | Some (ev, s') \<Rightarrow> exec_all S wr nf ne ms (tr @ [ev], s'))"

lemma exec_sound:
  assumes "exec S wr nf ne m s = Some (ev, s')"
    and "\<And>a z k. page_view (kern S) (wr a z k) = (page_view (kern S) k)(a \<mapsto> (z, False))"
  shows "sys_step S nf ne s ev s'"
proof (cases m)
  case (Mv_fault iswrite a)
  with assms(1) show ?thesis
    by (auto split: if_splits sum.splits prod.splits option.splits intro!: step_fault_region)
next
  case (Mv_fill j)
  with assms(1) show ?thesis
    by (auto split: if_splits sum.splits prod.splits option.splits intro!: step_filler)
next
  case Mv_mgr
  with assms(1) show ?thesis
    by (auto split: if_splits sum.splits prod.splits option.splits intro!: step_manager)
next
  case (Mv_evict j)
  with assms(1) show ?thesis
    by (auto split: if_splits sum.splits prod.splits option.splits intro!: step_evictor)
next
  case (Mv_write a z)
  with assms show ?thesis
    by (auto split: if_splits prod.splits option.splits bool.splits intro!: step_app)
qed

lemma exec_all_sound:
  assumes "exec_all S wr nf ne ms (tr, s) = Some (tr', s')" and "sys_run S nf ne s0 tr s"
    and wr: "\<And>a z k. page_view (kern S) (wr a z k) = (page_view (kern S) k)(a \<mapsto> (z, False))"
  shows "sys_run S nf ne s0 tr' s'"
  using assms(1,2)
proof (induction ms arbitrary: tr s)
  case Nil
  then show ?case by simp
next
  case (Cons m ms)
  then obtain ev s1 where e: "exec S wr nf ne m s = Some (ev, s1)"
    and rest: "exec_all S wr nf ne ms (tr @ [ev], s1) = Some (tr', s')"
    by (auto split: option.splits prod.splits)
  from Cons.IH [OF rest run_step [OF Cons.prems(2) exec_sound [OF e wr]]] show ?case .
qed

lemma demo_S_ok: "setting_ok demo_S"
  using demo_kernel_ok by (simp add: setting_ok_def demo_S_def)

definition demo_write :: "addr \<Rightarrow> nat \<Rightarrow> (addr \<Rightarrow> (nat \<times> bool) option) \<Rightarrow> addr \<Rightarrow> (nat \<times> bool) option" where
  "demo_write a z k = k(a \<mapsto> (z, False))"

lemma demo_write_ok:
  "page_view (kern demo_S) (demo_write a z k) = (page_view (kern demo_S) k)(a \<mapsto> (z, False))"
  by (simp add: demo_S_def demo_kernel_def demo_write_def)

definition demo_sys :: "(addr \<Rightarrow> (nat \<times> bool) option, nat) sys" where
  "demo_sys =
     \<lparr>wld = demo_world,
      handler = H_idle, fillers = (\<lambda>_. F_get), mgr = M_get, evictors = (\<lambda>_. E_get)\<rparr>"

lemma demo_booted: "booted demo_S 2 2 1 demo_sys"
proof -
  have "Buffer_init True True 2 100 100 0 = Inr demo_buffer"
    by (simp add: Buffer_init_def apply_int_percentage_def demo_buffer_def)
  moreover have "table_ok demo_table"
    by (simp add: table_ok_def demo_table_def rd_sound_def RegionDescriptor_init_def rd_defs)
  ultimately show ?thesis
    by (auto simp: booted_def demo_sys_def demo_world_def demo_S_def demo_kernel_def WorkerPool_init_def
        WorkQueue_init_def demo_table_def)
qed

text \<open>A write fault, the work of a fill worker, and a write of the application.\<close>

definition demo_moves :: "nat move list" where
  "demo_moves = [Mv_fault True 69632, Mv_fill 0, Mv_fill 0, Mv_fill 0, Mv_fill 0, Mv_fill 0, Mv_write 69632 5]"

definition demo_trace :: "nat event list" where
  "demo_trace = [Internal, Internal, Internal, Internal, Internal, Internal, App_write 69632 5]"

lemma demo_exec:
  "map_option (\<lambda>(tr, s). (tr, mem (wld s) 69632, m_present_pages (buf (sys_eng s)) 73728,
       fillers s 0, evictors s 0))
     (exec_all demo_S demo_write 2 1 demo_moves ([], demo_sys))
   = Some (demo_trace, Some (5, False), None, F_get, E_get)"
  by code_simp

lemma demo_run:
  obtains s where "sys_run demo_S 2 1 demo_sys demo_trace s"
    and "mem (wld s) 69632 = Some (5, False)" and "m_present_pages (buf (sys_eng s)) 73728 = None"
    and "fillers s 0 = F_get" and "evictors s 0 = E_get"
proof -
  obtain s where x: "exec_all demo_S demo_write 2 1 demo_moves ([], demo_sys) = Some (demo_trace, s)"
    and m: "mem (wld s) 69632 = Some (5, False)" "m_present_pages (buf (sys_eng s)) 73728 = None"
      "fillers s 0 = F_get" "evictors s 0 = E_get"
    using demo_exec by auto
  from exec_all_sound [OF x run_start demo_write_ok] m that show thesis by blast
qed

lemma demo_table_of: "table (sys_eng demo_sys) = demo_table"
  by (simp add: demo_sys_def demo_world_def)

lemma demo_loc: "region_loc demo_table 0 a = (7, a - 65536)"
  by (simp add: region_loc_def demo_table_def RegionDescriptor_init_def rd_defs)

section \<open>Pages in hand\<close>

text \<open>The page a worker has in hand; \<open>Inl j\<close> is the \<open>j\<close>-th fill worker, \<open>Inr j\<close> the \<open>j\<close>-th eviction worker.\<close>

fun fill_pd :: "'d fill_pc \<Rightarrow> pd_ref option" where
  "fill_pd (F_item i) = Some i"
| "fill_pd (F_read i _) = Some i"
| "fill_pd (F_copied i) = Some i"
| "fill_pd (F_mark i) = Some i"
| "fill_pd _ = None"

fun evict_pd :: "evict_pc \<Rightarrow> pd_ref option" where
  "evict_pd (E_item _ i) = Some i"
| "evict_pd (E_protected _ i _ _) = Some i"
| "evict_pd (E_written _ i) = Some i"
| "evict_pd (E_clean _ i) = Some i"
| "evict_pd (E_mark i) = Some i"
| "evict_pd _ = None"

fun in_hand :: "('k, 'd) sys \<Rightarrow> nat + nat \<Rightarrow> pd_ref option" where
  "in_hand s (Inl j) = fill_pd (fillers s j)"
| "in_hand s (Inr j) = evict_pd (evictors s j)"

fun is_worker :: "nat \<Rightarrow> nat \<Rightarrow> nat + nat \<Rightarrow> bool" where
  "is_worker nf ne (Inl j) = (j < nf)"
| "is_worker nf ne (Inr j) = (j < ne)"

lemma fill_pd_own: "fill_pd pc = Some i \<Longrightarrow> \<exists>P. fill_own pc = Some (i, P)"
  by (cases pc) simp_all

lemma evict_pd_own:
  "evict_pd pc = Some i \<Longrightarrow> \<exists>P :: 'd face \<Rightarrow> bool. evict_own loc pc = Some (i, P)"
  by (cases pc) simp_all

lemma pool_inv_disjoint:
  assumes "pool_inv own q F A qs n pcs" and "j < n" "own (pcs j) = Some (i, P)"
    and "k < n" "own (pcs k) = Some (i, P')"
  shows "j = k"
  using token_once(2) [OF assms(2,3) pool_inv_pc(3) [OF assms(1-3)] assms(4), of P'] assms(5) by auto

lemma hands_disjoint_inv:
  fixes s :: "('k, 'd) sys"
  assumes inv: "sys_inv S T n nf ne s" and w: "is_worker nf ne x" "is_worker nf ne y"
    and h: "in_hand s x = Some i" "in_hand s y = Some i"
  shows "x = y"
proof -
  note fill = core_invD(5) [OF sys_invD(1) [OF inv]] and evict = core_invD(6) [OF sys_invD(1) [OF inv]]
  have F: "state (desc (wld s) i) \<in> {FILLING, UPDATING}" if "j < nf" "fill_pd (fillers s j) = Some i" for j
    using fill_pd_own [OF that(2)] filler_own(1) [OF inv that(1)] by blast
  have E: "state (desc (wld s) i) = LEAVING" if "j < ne" "evict_pd (evictors s j) = Some i" for j
    using evict_pd_own [OF that(2), of "region_loc T"] evictor_own(1) [OF inv that(1)] by blast
  have FF: "j = k" if "j < nf" "fill_pd (fillers s j) = Some i" "k < nf" "fill_pd (fillers s k) = Some i" for j k
    using fill_pd_own [OF that(2)] fill_pd_own [OF that(4)] pool_inv_disjoint [OF fill that(1) _ that(3)]
    by (auto simp: core_of_simps)
  have EE: "j = k" if "j < ne" "evict_pd (evictors s j) = Some i" "k < ne" "evict_pd (evictors s k) = Some i" for j k
    using evict_pd_own [OF that(2), of "region_loc T", where ?'d = 'd]
      evict_pd_own [OF that(4), of "region_loc T", where ?'d = 'd]
      pool_inv_disjoint [OF evict that(1) _ that(3)]
    by (auto simp: core_of_simps)
  show ?thesis
  proof (cases x)
    case (Inl j)
    then show ?thesis using w h F E FF by (cases y) auto
  next
    case (Inr j)
    then show ?thesis using w h F E EE by (cases y) auto
  qed
qed

lemma demo_hand:
  obtains s where "sys_run demo_S 2 1 demo_sys [Internal, Internal] s" and "in_hand s (Inl 0) = Some 1"
proof -
  have "map_option (\<lambda>(tr, s). (tr, in_hand s (Inl 0)))
      (exec_all demo_S demo_write 2 1 [Mv_fault True 69632, Mv_fill 0] ([], demo_sys))
      = Some ([Internal, Internal], Some 1)"
    by code_simp
  then obtain s where x: "exec_all demo_S demo_write 2 1 [Mv_fault True 69632, Mv_fill 0] ([], demo_sys)
      = Some ([Internal, Internal], s)" and h: "in_hand s (Inl 0) = Some 1"
    by auto
  from exec_all_sound [OF x run_start demo_write_ok] h that show thesis by blast
qed

section \<open>Properties\<close>

text \<open>
  C1: The paging engine is transparent. In every run, with any number of fill and eviction
  workers and any interleaving, the contents of a page of a mapped region (what is in
  memory, or what a fault would bring in) are what the application wrote there last, or
  else what the store held when the engine started. No fill, write-back, eviction or
  refill in between changes them, and no write is lost.
\<close>

theorem paging_refines_flat_memory:
  assumes "booted S n nf ne s0" and "setting_ok S" and "sys_run S nf ne s0 tr s"
    and "covers (table (sys_eng s0)) r a"
  shows "page_contents S (table (sys_eng s0)) (wld s) r a
       = fold (flat_step a) tr (page_contents S (table (sys_eng s0)) (wld s0) r a)"
  by (rule run_contents [OF assms(3,1,2,4)])

theorem paging_refines_flat_memory_witness:
  "\<exists>s. sys_run demo_S 2 1 demo_sys demo_trace s
     \<and> page_contents demo_S demo_table (wld s) 0 69632 = 5
     \<and> page_contents demo_S demo_table (wld s) 0 73728 = 3"
proof -
  obtain s where s: "sys_run demo_S 2 1 demo_sys demo_trace s" by (rule demo_run)
  have init: "page_contents demo_S demo_table (wld demo_sys) 0 a = 3" for a
    by (simp add: page_contents_def demo_S_def demo_kernel_def demo_sys_def demo_world_def)
  have "page_contents demo_S demo_table (wld s) 0 a
      = fold (flat_step a) demo_trace (page_contents demo_S demo_table (wld demo_sys) 0 a)"
    if "65536 \<le> a" "a < 327680" for a
    using paging_refines_flat_memory [OF demo_booted demo_S_ok s, of 0 a, unfolded demo_table_of] that
    by (simp add: demo_covers)
  from this [of 69632] this [of 73728] s show ?thesis
    by (auto simp: demo_trace_def init)
qed

text \<open>
  C3: A page that has no descriptor, because it was never touched or because it has been
  evicted, is safe in its store: the store holds what the application wrote to the page
  last, or what it held at the start.
\<close>

theorem evicted_pages_are_stored:
  assumes "booted S n nf ne s0" and "setting_ok S" and "sys_run S nf ne s0 tr s"
    and "covers (table (sys_eng s0)) r a" and "m_present_pages (buf (sys_eng s)) a = None"
    and "region_loc (table (sys_eng s0)) r a = (st, off)"
  shows "stores (wld s) st off = fold (flat_step a) tr (stores (wld s0) st off)"
proof -
  note inv = run_inv [OF assms(3,1,2)]
  have "page_view (kern S) (mem (wld s)) a = None"
    using core_invD(3) [OF sys_invD(1) [OF inv] assms(4)] assms(5) by (simp add: core_of_simps)
  moreover have "page_view (kern S) (mem (wld s0)) a = None"
    using assms(1,4) by (auto simp: booted_def)
  ultimately show ?thesis
    using run_contents [OF assms(3,1,2,4)] assms(6) by (simp add: page_contents_def)
qed

theorem evicted_pages_are_stored_witness:
  "\<exists>s. sys_run demo_S 2 1 demo_sys demo_trace s
     \<and> m_present_pages (buf (sys_eng s)) 73728 = None \<and> stores (wld s) 7 8192 = 3"
proof -
  obtain s where s: "sys_run demo_S 2 1 demo_sys demo_trace s"
    "m_present_pages (buf (sys_eng s)) 73728 = None" by (rule demo_run)
  have "stores (wld s) 7 8192 = fold (flat_step 73728) demo_trace (stores (wld demo_sys) 7 8192)"
    by (rule evicted_pages_are_stored [OF demo_booted demo_S_ok s(1), of 0])
      (simp_all add: s demo_table_of demo_covers demo_loc)
  with s show ?thesis by (auto simp: demo_trace_def demo_sys_def demo_world_def)
qed

text \<open>
  C4: No thread of the engine ever meets a page in a state it does not expect. In every
  state of a run the fill workers and the eviction workers raise no exception and no
  assertion fails (in particular no invalid state transition, no copy into a page that is
  already there, no page without a region), as long as the store does not report an
  error; and neither does the handler of the fault monitor, whether it starts or resumes.
\<close>

theorem workers_never_fail:
  assumes "booted S n nf ne s0" and "setting_ok S" and "sys_run S nf ne s0 tr s"
  shows "(j < nf \<longrightarrow> filler_step S True busy (wld s, fillers s j) \<noteq> Some (Inl err))
       \<and> (j < ne \<longrightarrow> evictor_step S True busy (wld s, evictors s j) \<noteq> Some (Inl err))
       \<and> process_page busy iswrite a (sys_eng s) \<noteq> Inl err
       \<and> ppe_resume_state a iswrite r (sys_eng s) \<noteq> Inl err
       \<and> ppe_resume_avail a iswrite r (sys_eng s) \<noteq> Inl err"
proof -
  note inv = run_inv [OF assms(3,1,2)]
  have q: "quiet (sys_eng s) ((sys_eng s)\<lparr>buf := end_state_wait (buf (sys_eng s))\<rparr>)"
    "quiet (sys_eng s) ((sys_eng s)\<lparr>buf := end_avail_wait (buf (sys_eng s))\<rparr>)"
    by (simp_all add: quiet_def)
  have "quiet (sys_eng s) ((sys_eng s)\<lparr>table := snd (containing_region a (table (sys_eng s))),
      buf := lock_buffer busy (buf (sys_eng s))\<rparr>)"
    by (simp add: quiet_def containing_region_frame)
  from ppe_check_no_error(1) [OF inv this] have "process_page busy iswrite a (sys_eng s) \<noteq> Inl err"
    by (auto simp: process_page_def process_page_event_def bindR_eq_Inl_iff
        split: prod.splits option.splits)
  with filler_no_error [OF inv assms(2)] evictor_no_error [OF inv assms(2)]
    ppe_check_no_error(1) [OF inv q(1)] ppe_check_no_error(2) [OF inv q(2)]
  show ?thesis by (simp add: ppe_resume_state_def ppe_resume_avail_def)
qed

theorem workers_never_fail_witness:
  "\<exists>s. sys_run demo_S 2 1 demo_sys demo_trace s
     \<and> filler_step demo_S True False (wld s, fillers s 0) \<noteq> Some (Inl (UNDEFINED ''null region''))
     \<and> evictor_step demo_S True False (wld s, evictors s 0) \<noteq> Some (Inl (UNDEFINED ''null region''))
     \<and> process_page False True 73728 (sys_eng s) \<noteq> Inl (UNDEFINED ''null region'')"
proof -
  obtain s where s: "sys_run demo_S 2 1 demo_sys demo_trace s" by (rule demo_run)
  show ?thesis
    using workers_never_fail [OF demo_booted demo_S_ok s, of 0 False "UNDEFINED ''null region''" True 73728] s
    by auto
qed

text \<open>
  C5: Two workers never have the same page in hand: the page descriptors that the fill
  workers and the eviction workers are working on are pairwise different in every state
  of a run.
\<close>

theorem pages_in_hand_disjoint:
  assumes "booted S n nf ne s0" and "setting_ok S" and "sys_run S nf ne s0 tr s"
    and "is_worker nf ne x" and "is_worker nf ne y" and "x \<noteq> y" and "in_hand s x = Some i"
  shows "in_hand s y \<noteq> Some i"
  using hands_disjoint_inv [OF run_inv [OF assms(3,1,2)] assms(4,5,7)] assms(6) by blast

theorem pages_in_hand_disjoint_witness:
  "\<exists>s. sys_run demo_S 2 1 demo_sys [Internal, Internal] s \<and> in_hand s (Inl 0) = Some 1
     \<and> in_hand s (Inl 1) \<noteq> Some 1 \<and> in_hand s (Inr 0) \<noteq> Some 1"
proof -
  obtain s where s: "sys_run demo_S 2 1 demo_sys [Internal, Internal] s" "in_hand s (Inl 0) = Some 1"
    by (rule demo_hand)
  have "in_hand s y \<noteq> Some 1" if "is_worker 2 1 y" "Inl 0 \<noteq> y" for y
    by (rule pages_in_hand_disjoint [OF demo_booted demo_S_ok s(1) _ that s(2)]) simp
  from this [of "Inl 1"] this [of "Inr 0"] s show ?thesis by auto
qed

end
