(* ===== verification/Flushing.thy ===== *)
theory Flushing
  imports Paging_Props
begin

text \<open>
  \<open>flush_dirty_pages\<close> in a running engine. The flusher holds the mutex of the buffer from its pass
  over the busy list until the eviction workers are idle; in that time the other threads do
  what does not need the mutex. When no page was being evicted, the stores hold the
  contents of all pages afterwards; when one was, the flusher waits for a worker that waits
  for the mutex.
\<close>

section \<open>The busy list is complete\<close>

text \<open>Every descriptor in use, unless its page is leaving, is in the list that the flusher goes through.\<close>

definition listed :: "Buffer \<Rightarrow> bool" where
  "listed b \<longleftrightarrow> (\<forall>i. state (m_array b i) \<in> in_use \<longrightarrow> i \<in> set (m_busy_pages b))"

lemma listed_upd:
  assumes "listed b" and "m_array b' = (m_array b)(i := d)" and "set (m_busy_pages b) \<subseteq> set (m_busy_pages b')"
    and "state d \<in> in_use \<Longrightarrow> state (m_array b i) \<in> in_use \<or> i \<in> set (m_busy_pages b')"
  shows "listed b'"
  using assms by (auto simp: listed_def)

lemma listed_same:
  assumes "listed b" and "m_array b' = m_array b" and "m_busy_pages b' = m_busy_pages b"
  shows "listed b'"
  using assms by (simp add: listed_def)

lemma ppe_alloc_listed:
  assumes inv: "buf_inv (buf e)" and l: "listed (buf e)" and res: "ppe_alloc a w r e = Inr (e', out)"
  shows "listed (buf e')"
proof (cases "m_free_pages (buf e)" rule: rev_cases)
  case Nil
  then show ?thesis using res by (intro listed_same [OF l]) (auto simp: ppe_alloc_empty)
next
  case (snoc fr i)
  then have "state (m_array (buf e) i) = FREE"
    using inv pages_okD(4) [of _ _ "m_free_pages (buf e)"] by (simp add: buf_inv_def)
  from ppe_alloc_effect [OF snoc this, of a w r] res show ?thesis
    by (intro listed_upd [OF l, of _ i "m_array (buf e') i"]) (auto simp: Let_def)
qed

lemma ppe_check_listed:
  assumes inv: "buf_inv (buf e)" and l: "listed (buf e)" and res: "ppe_check a w r e = Inr (e', out)"
  shows "listed (buf e')"
proof (cases "page_already_present a (buf e)")
  case Absent
  then show ?thesis using ppe_alloc_listed [OF inv l] res by (simp add: ppe_check_def)
next
  case Wait_state
  then show ?thesis using res by (intro listed_same [OF l]) (auto simp: ppe_check_def)
next
  case (Present_pd i)
  then have "state (m_array (buf e) i) \<in> in_use"
    by (auto simp: page_already_present_def in_use_def split: option.splits if_splits)
  then show ?thesis
    using res Present_pd
    by (intro listed_upd [OF l, of _ i "m_array (buf e') i"])
      (auto simp: ppe_check_def Let_def bindR_eq_Inr_iff ppe_send_def set_pd_def split: if_splits)
qed

lemma filler_listed:
  assumes l: "listed (buf (eng w))" and res: "filler_step S io_ok busy (w, pc) = Some (Inr (w', pc'))"
  shows "listed (buf (eng w'))"
proof (cases pc)
  case (F_copied i)
  then show ?thesis
    using res by (intro listed_upd [OF l, of _ i "desc w' i"]) (auto simp: filler_step_def set_pd_def)
next
  case (F_mark i)
  then show ?thesis
    using res by (intro listed_upd [OF l, of _ i "desc w' i"])
      (auto simp: filler_step_def bindR_eq_Inr_iff mark_page_as_present_def set_state_iff set_pd_def in_use_def)
qed (use res in \<open>auto intro!: listed_same [OF l] simp: filler_step_def filler_get_def filler_load_def
    filler_copy_def Let_def bindR_eq_Inr_iff split: prod.splits dequeue_out.splits if_splits option.splits\<close>)

lemma evictor_listed:
  assumes l: "listed (buf (eng w))" and res: "evictor_step S io_ok busy (w, pc) = Some (Inr (w', pc'))"
  shows "listed (buf (eng w'))"
proof (cases pc)
  case (E_written t i)
  then show ?thesis
    using res by (intro listed_upd [OF l, of _ i "desc w' i"]) (auto simp: evictor_step_def set_pd_def)
next
  case (E_mark i)
  then obtain e where e: "mark_page_as_free busy i (eng w) = Inr e" "w' = w\<lparr>eng := e\<rparr>"
    using res by (auto simp: evictor_step_def bindR_eq_Inr_iff)
  then show ?thesis
    by (elim mark_page_as_free_effect, intro listed_upd [OF l]) (auto simp: in_use_def)
qed (use res in \<open>auto intro!: listed_same [OF l] simp: evictor_step_def evictor_get_def evictor_protect_def
    evictor_write_def evictor_drop_def Let_def bindR_eq_Inr_iff
    split: prod.splits dequeue_out.splits if_splits option.splits\<close>)

lemma sys_buf_inv:
  assumes "sys_inv S T n nf ne s"
  shows "buf_inv (buf (sys_eng s))"
  using core_invD(1) [OF sys_invD(1) [OF assms]] by (simp add: buf_inv_def core_of_simps)

lemma manager_listed:
  assumes inv: "sys_inv S T n nf ne s" and n: "n < 2 ^ 64" and l: "listed (buf (sys_eng s))"
    and res: "mgr_step busy (sys_eng s, mgr s) = Some (Inr (e, pc))"
  shows "listed (buf e)"
proof (cases "mgr s = M_loop \<and> \<not> low_threshold_reached (buf (sys_eng s))")
  case True
  then obtain new where e: "evict_oldest_pages busy (buf (sys_eng s)) = Inr (buf e, new)"
    using res by (auto simp: mgr_step_def bindR_eq_Inr_iff)
  have "length (m_busy_pages (buf (sys_eng s))) < 2 ^ 64"
    using busy_length [OF sys_invD(1,2) [OF inv]] n by (simp add: core_of_simps)
  from evict_oldest_pages_returns [OF sys_buf_inv [OF inv] this e] show ?thesis
    using l by (auto simp: listed_def set_leaving_def in_use_def split: if_splits)
next
  case False
  then show ?thesis
    using res by (auto intro!: listed_same [OF l] simp: mgr_step_def schedule_eviction_def
        split: mgr_pc.splits list.splits prod.splits dequeue_out.splits if_splits)
qed

lemma step_listed:
  assumes step: "sys_step S nf ne s ev s'" and inv: "sys_inv S T n nf ne s" and n: "n < 2 ^ 64"
    and l: "listed (buf (sys_eng s))"
  shows "listed (buf (sys_eng s'))"
proof -
  note b = sys_buf_inv [OF inv]
  have process: "listed (buf e)"
    if "process_page busy w a (sys_eng s) = Inr (e, ro, out)" for busy w a e ro out
  proof -
    obtain r t where c: "containing_region a (table (sys_eng s)) = (r, t)" by (cases "containing_region a (table (sys_eng s))")
    let ?e = "(sys_eng s)\<lparr>table := t, buf := lock_buffer busy (buf (sys_eng s))\<rparr>"
    have "buf_inv (buf ?e)" "listed (buf ?e)"
      using b l by (simp_all add: buf_inv_def listed_def)
    from ppe_check_listed [OF this] show ?thesis
      using that c l by (auto simp: process_page_def process_page_event_def bindR_eq_Inr_iff split: option.splits)
  qed
  have resume: "listed (buf e)"
    if "ppe_resume_state a w r (sys_eng s) = Inr (e, out) \<or> ppe_resume_avail a w r (sys_eng s) = Inr (e, out)"
    for a w r e out
    using that b l ppe_check_listed [of "(sys_eng s)\<lparr>buf := end_state_wait (buf (sys_eng s))\<rparr>"]
      ppe_alloc_listed [of "(sys_eng s)\<lparr>buf := end_avail_wait (buf (sys_eng s))\<rparr>"]
    by (auto simp: ppe_resume_state_def ppe_resume_avail_def buf_inv_def listed_def)
  from step show ?thesis
  proof cases
    case step_filler
    with filler_listed [OF l] show ?thesis by simp
  next
    case step_evictor
    with evictor_listed [OF l] show ?thesis by simp
  next
    case step_manager
    with manager_listed [OF inv n l] show ?thesis by simp
  next
    case step_app
    with l show ?thesis by simp
  next
    case (step_resume_state a w r e out)
    then have "listed (buf e)" using resume by blast
    with step_resume_state show ?thesis by (simp add: handler_to_def)
  next
    case (step_resume_avail a w r e out)
    then have "listed (buf e)" using resume by blast
    with step_resume_avail show ?thesis by (simp add: handler_to_def)
  qed (use process in \<open>simp_all add: handler_to_def\<close>)
qed

lemma run_listed:
  assumes run: "sys_run S nf ne s0 tr s" and b: "booted S n nf ne s0" and S: "setting_ok S"
  shows "listed (buf (sys_eng s))"
  using run
proof induction
  case run_start
  obtain mon_ok lo hi freq where "Buffer_init True mon_ok n lo hi freq = Inr (buf (sys_eng s0))"
    using b by (auto simp: booted_def)
  then show ?case by (simp add: listed_def Buffer_init_fields zero_PageDescriptor_def in_use_def)
next
  case (run_step tr s ev s')
  show ?case
    using step_listed [OF run_step.hyps(2) run_inv [OF run_step.hyps(1) b S] _ run_step.IH] b
    by (simp add: booted_def)
qed

section \<open>The engine while the mutex is held\<close>

text \<open>
  What the other threads do while the flusher holds the mutex of the buffer: the fill workers
  and the eviction workers all but the completion of a page, the daemon unless it has to
  look for pages, and the application, as long as it does not fault.
\<close>

inductive locked_step ::
  "('k, 'd) setting \<Rightarrow> nat \<Rightarrow> nat \<Rightarrow> ('k, 'd) sys \<Rightarrow> 'd event \<Rightarrow> ('k, 'd) sys \<Rightarrow> bool"
  for S nf ne where
  locked_filler:
    "j < nf \<Longrightarrow> \<forall>i. fillers s j \<noteq> F_mark i \<Longrightarrow>
     filler_step S io_ok busy (wld s, fillers s j) = Some (Inr (w, pc)) \<Longrightarrow>
     locked_step S nf ne s Internal (s\<lparr>wld := w, fillers := (fillers s)(j := pc)\<rparr>)"
| locked_evictor:
    "j < ne \<Longrightarrow> \<forall>i. evictors s j \<noteq> E_mark i \<Longrightarrow>
     evictor_step S io_ok busy (wld s, evictors s j) = Some (Inr (w, pc)) \<Longrightarrow>
     locked_step S nf ne s Internal (s\<lparr>wld := w, evictors := (evictors s)(j := pc)\<rparr>)"
| locked_manager:
    "mgr s = M_loop \<longrightarrow> low_threshold_reached (buf (sys_eng s)) \<Longrightarrow>
     mgr_step busy (sys_eng s, mgr s) = Some (Inr (e, pc)) \<Longrightarrow>
     locked_step S nf ne s Internal (s\<lparr>wld := (wld s)\<lparr>eng := e\<rparr>, mgr := pc\<rparr>)"
| locked_app:
    "page_view (kern S) (mem (wld s)) a = Some (y, False) \<Longrightarrow>
     page_view (kern S) k = (page_view (kern S) (mem (wld s)))(a \<mapsto> (z, False)) \<Longrightarrow>
     locked_step S nf ne s (App_write a z) (s\<lparr>wld := (wld s)\<lparr>mem := k\<rparr>\<rparr>)"

inductive locked_run ::
  "('k, 'd) setting \<Rightarrow> nat \<Rightarrow> nat \<Rightarrow> ('k, 'd) sys \<Rightarrow> 'd event list \<Rightarrow> ('k, 'd) sys \<Rightarrow> bool"
  for S nf ne s0 where
  locked_start: "locked_run S nf ne s0 [] s0"
| locked_next: "locked_run S nf ne s0 tr s \<Longrightarrow> locked_step S nf ne s ev s' \<Longrightarrow>
     locked_run S nf ne s0 (tr @ [ev]) s'"

text \<open>What \<open>WaitAll\<close> waits for: no work is queued and all eviction workers wait for some.\<close>

definition evictors_idle :: "nat \<Rightarrow> ('k, 'd) sys \<Rightarrow> bool" where
  "evictors_idle ne s \<longleftrightarrow>
     pool_queue (evict_workers (sys_eng s)) = [] \<and> (\<forall>j<ne. evictors s j = E_get)"

section \<open>A page that is being evicted blocks the flusher\<close>

fun evicting_pc :: "evict_pc \<Rightarrow> bool" where
  "evicting_pc (E_item t i) = (t \<noteq> FLUSH)"
| "evicting_pc (E_protected t i st off) = (t \<noteq> FLUSH)"
| "evicting_pc (E_written t i) = (t \<noteq> FLUSH)"
| "evicting_pc (E_clean t i) = (t \<noteq> FLUSH)"
| "evicting_pc (E_mark i) = True"
| "evicting_pc _ = False"

definition evicting :: "nat \<Rightarrow> ('k, 'd) sys \<Rightarrow> bool" where
  "evicting ne s \<longleftrightarrow>
     (\<exists>item\<in>set (pool_queue (evict_workers (sys_eng s))). work_type item \<in> {EVICT, FAST_EVICT})
   \<or> (\<exists>j<ne. evicting_pc (evictors s j))"

lemma evictor_evicting:
  assumes e: "evicting ne s" and j: "j < ne" "\<forall>i. evictors s j \<noteq> E_mark i"
    and res: "evictor_step S io_ok busy (wld s, evictors s j) = Some (Inr (w, pc))"
  shows "evicting ne (s\<lparr>wld := w, evictors := (evictors s)(j := pc)\<rparr>)"
proof (cases "evictors s j = E_get")
  case True
  then obtain p item where g: "get_work (evict_workers (sys_eng s)) = (p, Got item)"
    and w: "evict_workers (eng w) = p" and pc: "work_type item \<in> {EVICT, FAST_EVICT} \<longrightarrow> evicting_pc pc"
    using res by (auto simp: evictor_step_def evictor_get_def Let_def
        split: prod.splits dequeue_out.splits if_splits option.splits)
  note q = get_work_Got [OF g]
  show ?thesis
  proof (cases "work_type item \<in> {EVICT, FAST_EVICT}")
    case True
    with pc j show ?thesis by (auto simp: evicting_def)
  next
    case False
    then show ?thesis
      using e q w True by (auto simp: evicting_def)
  qed
next
  case False
  then have "evict_workers (eng w) = evict_workers (sys_eng s)" "evicting_pc (evictors s j) \<Longrightarrow> evicting_pc pc"
    using res j(2)
    by (cases "evictors s j"; auto simp: evictor_step_def evictor_protect_def evictor_write_def
        evictor_drop_def Let_def bindR_eq_Inr_iff split: if_splits option.splits)+
  then show ?thesis using e j(1) by (auto simp: evicting_def) (metis (full_types))
qed

lemma locked_evicting:
  assumes "locked_step S nf ne s ev s'" and "evicting ne s"
  shows "evicting ne s'"
  using assms
proof cases
  case (locked_filler j io_ok busy w pc)
  then have "evict_workers (eng w) = evict_workers (sys_eng s)"
    by (cases "fillers s j"; auto simp: filler_step_def filler_get_def filler_load_def filler_copy_def
        Let_def bindR_eq_Inr_iff split: prod.splits dequeue_out.splits if_splits option.splits)
  then show ?thesis using locked_filler assms(2) by (simp add: evicting_def)
next
  case locked_evictor
  with evictor_evicting [OF assms(2)] show ?thesis by blast
next
  case (locked_manager busy e pc)
  then have "set (pool_queue (evict_workers (sys_eng s))) \<subseteq> set (pool_queue (evict_workers e))"
    by (auto simp: mgr_step_def schedule_eviction_def
        split: mgr_pc.splits list.splits prod.splits dequeue_out.splits if_splits)
  then show ?thesis using locked_manager assms(2) by (auto simp: evicting_def)
next
  case locked_app
  then show ?thesis using assms(2) by (simp add: evicting_def)
qed

lemma evicting_not_idle: "evicting ne s \<Longrightarrow> \<not> evictors_idle ne s"
  by (auto simp: evicting_def evictors_idle_def)

lemma locked_run_evicting:
  assumes "locked_run S nf ne s tr s'" and "evicting ne s"
  shows "evicting ne s'"
  using assms(1) by induction (use assms(2) locked_evicting in blast)+

section \<open>Work of the flusher\<close>

text \<open>
  The eviction workers with the pages of the flusher: these pages are present. What a worker
  knows of its page is what it knows in an eviction.
\<close>

fun flush_f :: "'d face \<Rightarrow> bool" where
  "flush_f (d, v, x) = (state d = PRESENT \<and> present_f (d, v, x))"

fun flush_own ::
  "(rid \<Rightarrow> addr \<Rightarrow> place) \<Rightarrow> evict_pc \<Rightarrow> (pd_ref \<times> ('d face \<Rightarrow> bool)) option" where
  "flush_own loc E_get = None"
| "flush_own loc (E_item t i) = Some (i, \<lambda>f. t = FLUSH \<and> flush_f f)"
| "flush_own loc (E_protected t i st off) = Some (i, \<lambda>f. t = FLUSH \<and> flush_f f \<and> protected_f loc (st, off) f)"
| "flush_own loc (E_written t i) = Some (i, \<lambda>f. t = FLUSH \<and> flush_f f \<and> written_f f)"
| "flush_own loc (E_clean t i) = Some (i, \<lambda>f. t = FLUSH \<and> flush_f f \<and> clean_f f)"
| "flush_own loc (E_mark i) = Some (i, \<lambda>f. False)"
| "flush_own loc E_exit = Some (0, \<lambda>f. False)"

lemma flush_own_known:
  "flush_own loc pc = Some (i, P) \<Longrightarrow> same_but_data f f' \<Longrightarrow> P f \<Longrightarrow> P f'"
  by (cases pc) (auto simp: same_but_data_def split: option.splits)

text \<open>
  The rest of the engine does not notice the flusher: its state is a state of a run without
  one, once the pool of eviction workers is put back as it was. \<open>ghost p ev s\<close> is that state.
\<close>

definition with_ev :: "WorkerPool \<Rightarrow> ('k, 'd) world \<Rightarrow> ('k, 'd) world" where
  "with_ev p w = w\<lparr>eng := (eng w)\<lparr>evict_workers := p\<rparr>\<rparr>"

definition ghost :: "WorkerPool \<Rightarrow> (nat \<Rightarrow> evict_pc) \<Rightarrow> ('k, 'd) sys \<Rightarrow> ('k, 'd) sys" where
  "ghost p ev s = s\<lparr>wld := with_ev p (wld s), evictors := ev\<rparr>"

lemma with_ev_simps [simp]:
  "buf (eng (with_ev p w)) = buf (eng w)" "table (eng (with_ev p w)) = table (eng w)"
  "fill_workers (eng (with_ev p w)) = fill_workers (eng w)" "evict_workers (eng (with_ev p w)) = p"
  "evict_manager (eng (with_ev p w)) = evict_manager (eng w)"
  "mem (with_ev p w) = mem w" "stores (with_ev p w) = stores w"
  "wface S T (with_ev p w) = wface S T w" "with_ev p (with_ev q w) = with_ev p w"
  by (simp_all add: with_ev_def wface_def fun_eq_iff)

lemma with_ev_upd [simp]:
  "(with_ev p w)\<lparr>mem := k\<rparr> = with_ev p (w\<lparr>mem := k\<rparr>)"
  "(with_ev p w)\<lparr>eng := eng (with_ev p (w\<lparr>eng := e\<rparr>))\<rparr> = with_ev p (w\<lparr>eng := e\<rparr>)"
  by (cases w, simp add: with_ev_def)+

lemma ghost_simps [simp]:
  "wld (ghost p ev s) = with_ev p (wld s)" "evictors (ghost p ev s) = ev"
  "fillers (ghost p ev s) = fillers s" "mgr (ghost p ev s) = mgr s" "handler (ghost p ev s) = handler s"
  by (simp_all add: ghost_def)

lemma ghost_upd [simp]:
  "ghost p ev (s\<lparr>wld := w\<rparr>) = (ghost p ev s)\<lparr>wld := with_ev p w\<rparr>"
  "ghost p ev (s\<lparr>evictors := f\<rparr>) = ghost p ev s"
  "ghost p ev (s\<lparr>fillers := g\<rparr>) = (ghost p ev s)\<lparr>fillers := g\<rparr>"
  "ghost p ev (s\<lparr>mgr := m\<rparr>) = (ghost p ev s)\<lparr>mgr := m\<rparr>"
  "(ghost p ev s)\<lparr>wld := with_ev p (wld s)\<rparr> = ghost p ev s"
  by (simp_all add: ghost_def)

lemma page_contents_ev [simp]: "page_contents S T (with_ev p w) r a = page_contents S T w r a"
  by (simp add: page_contents_def)

lemma filler_ghost:
  assumes "filler_step S io_ok busy (w, pc) = Some (Inr (w', pc'))"
  shows "filler_step S io_ok busy (with_ev p w, pc) = Some (Inr (with_ev p w', pc'))"
    and "evict_workers (eng w') = evict_workers (eng w)"
  using assms
  by (cases pc; auto simp: filler_step_def filler_get_def filler_load_def filler_copy_def with_ev_def
      mark_page_as_present_def Let_def bindR_eq_Inr_iff
      split: prod.splits dequeue_out.splits if_splits option.splits)+

lemma filler_flags:
  assumes "filler_step S io_ok busy (w, pc) = Some (Inr (w', pc'))" and "\<forall>i. pc \<noteq> F_mark i"
  shows "dirty (desc w' i) = dirty (desc w i)" and "state (desc w' i) = state (desc w i)"
  using assms
  by (cases pc; auto simp: filler_step_def filler_get_def filler_load_def filler_copy_def set_pd_def
      Let_def bindR_eq_Inr_iff split: prod.splits dequeue_out.splits if_splits option.splits)+

lemma filler_faces:
  assumes inv: "sys_inv S T n nf ne s" and S: "setting_ok S" and j: "j < nf" "\<forall>i. fillers s j \<noteq> F_mark i"
    and res: "filler_step S io_ok busy (wld s, fillers s j) = Some (Inr (w, pc))"
    and i: "state (desc (wld s) i) = PRESENT"
  shows "wface S T w i = wface S T (wld s) i"
proof -
  let ?pv = "page_view (kern S) (mem (wld s))"
  have other: "i \<noteq> q \<and> page (desc (wld s) i) \<noteq> page (desc (wld s) q)"
    if "fill_own (fillers s j) = Some (q, P)" for q P
  proof -
    have q: "state (desc (wld s) q) \<in> {FILLING, UPDATING}" by (rule filler_own(1) [OF inv j(1) that])
    then have "i \<noteq> q" using i by auto
    then show ?thesis
      using page_inj [OF core_invD(1) [OF sys_invD(1) [OF inv]], of i q] i q by (auto simp: core_of_simps)
  qed
  have frame: ?thesis if "w = (wld s)\<lparr>mem := m\<rparr>" "page_view (kern S) m = ?pv(page (desc (wld s) q) := v)"
    "page (desc (wld s) i) \<noteq> page (desc (wld s) q)" for m q v
    using that by (simp add: wface_def)
  show ?thesis
  proof (cases "fillers s j")
    case F_get
    then show ?thesis
      using res by (auto simp: filler_step_def filler_get_def wface_def Let_def
          split: prod.splits dequeue_out.splits if_splits option.splits)
  next
    case (F_item q)
    from inv S j(1) F_item res show ?thesis
    proof (cases rule: filler_load_effect)
      case (unprotected x b m)
      with other [of q wait_f] F_item show ?thesis by (intro frame) auto
    qed simp
  next
    case (F_read q y)
    obtain m where "w = (wld s)\<lparr>mem := m\<rparr>"
      "page_view (kern S) m = ?pv(page (desc (wld s) q) \<mapsto> (y, \<not> dirty (desc (wld s) q)))"
      by (rule filler_copy_effect [OF inv S j(1) F_read res])
    with other [of q "read_f y"] F_read show ?thesis by (intro frame) auto
  next
    case (F_copied q)
    then have "i \<noteq> q" using other [of q loaded_f] by simp
    then show ?thesis using res F_copied by (auto simp: filler_step_def wface_def set_pd_def)
  next
    case (F_mark q)
    with j(2) show ?thesis by simp
  next
    case F_exit
    with res show ?thesis by (simp add: filler_step_def)
  qed
qed

text \<open>The flusher's work on a page that is present.\<close>

lemma touch_sys_inv:
  assumes inv: "sys_inv S T n nf ne s" and ap: "apart (covers T) (region_loc T)"
    and st: "state (desc (wld s) i) = PRESENT" "state (desc w i) = PRESENT"
    and w: "page_work S T i (wld s) w" and pr: "present_f (wface S T w i)"
  shows "sys_inv S T n nf ne (s\<lparr>wld := w\<rparr>)" (is "sys_inv _ _ _ _ _ ?s'")
    and "\<And>k. k \<noteq> i \<Longrightarrow> state (desc (wld s) k) \<noteq> FREE \<Longrightarrow> wface S T w k = wface S T (wld s) k"
proof -
  have f: "focus (region_loc T) i (core_of S s) (core_of S ?s')"
    using st w by (intro page_work_focus) auto
  show "sys_inv S T n nf ne ?s'"
  proof (rule worker_sys_inv [OF inv])
    show "core_inv (covers T) (region_loc T) nf ne (core_of S ?s')"
      by (rule core_touch [OF sys_invD(1) [OF inv] ap _ f])
        (use st pr page_work_eng [OF w] in \<open>simp_all add: core_of_simps wface_def face_def\<close>)
    show "in_range n (core_of S ?s')" by (rule in_range_focus [OF sys_invD(2) [OF inv] f])
  qed (use sys_invD(3-5) [OF inv] page_work_eng [OF w] in \<open>simp_all add: core_of_simps\<close>)
  show "wface S T w k = wface S T (wld s) k" if "k \<noteq> i" "state (desc (wld s) k) \<noteq> FREE" for k
  proof -
    have "state (c_arr (core_of S s) k) \<noteq> FREE" using that(2) by (simp add: core_of_simps)
    from focus_face [OF sys_invD(1) [OF inv] ap f that(1) this] show ?thesis by simp
  qed
qed

lemma page_work_ev:
  assumes "page_work S T i w w'"
  shows "page_work S T i (with_ev p w) (with_ev p w')"
  using assms by (simp add: page_work_def)

section \<open>The invariant of the flusher\<close>

text \<open>
  \<open>A\<close> are the pages the eviction workers still have to deal with: all dirty pages are among
  them.
\<close>

definition flush_inv ::
  "('k, 'd) setting \<Rightarrow> RegionTable \<Rightarrow> nat \<Rightarrow> nat \<Rightarrow> nat \<Rightarrow> WorkerPool \<Rightarrow> (nat \<Rightarrow> evict_pc) \<Rightarrow> pd_ref set
     \<Rightarrow> ('k, 'd) sys \<Rightarrow> bool" where
  "flush_inv S T n nf ne p ev A s \<longleftrightarrow>
     sys_inv S T n nf ne (ghost p ev s)
   \<and> pool_inv (flush_own (region_loc T)) flush_f (wface S T (wld s)) A
       (map item_pd (pool_queue (evict_workers (sys_eng s)))) ne (evictors s)
   \<and> (\<forall>item \<in> set (pool_queue (evict_workers (sys_eng s))).
        item = \<lparr>page_desc = Some (item_pd item), work_type = FLUSH\<rparr>)
   \<and> (\<forall>i. dirty (desc (wld s) i) \<and> state (desc (wld s) i) \<noteq> FREE \<longrightarrow> i \<in> A)
   \<and> mgr_list (mgr s) = []"

lemma flush_invD:
  assumes "flush_inv S T n nf ne p ev A s"
  shows "sys_inv S T n nf ne (ghost p ev s)"
    and "pool_inv (flush_own (region_loc T)) flush_f (wface S T (wld s)) A
       (map item_pd (pool_queue (evict_workers (sys_eng s)))) ne (evictors s)"
    and "item \<in> set (pool_queue (evict_workers (sys_eng s))) \<Longrightarrow>
        item = \<lparr>page_desc = Some (item_pd item), work_type = FLUSH\<rparr>"
    and "dirty (desc (wld s) i) \<Longrightarrow> state (desc (wld s) i) \<noteq> FREE \<Longrightarrow> i \<in> A"
    and "mgr_list (mgr s) = []"
  using assms by (simp_all add: flush_inv_def)

lemma flush_own_f: "flush_own loc pc = Some (i, P) \<Longrightarrow> P f \<Longrightarrow> flush_f f"
  by (cases pc) auto

lemma flush_token_present:
  assumes inv: "flush_inv S T n nf ne p ev A s" and i: "i \<in> A"
  shows "flush_f (wface S T (wld s) i)" and "state (desc (wld s) i) = PRESENT"
proof -
  note pool = flush_invD(2) [OF inv]
  have "i \<in># tokens (flush_own (region_loc T) :: evict_pc \<Rightarrow> (pd_ref \<times> ('b face \<Rightarrow> bool)) option)
      (map item_pd (pool_queue (evict_workers (sys_eng s)))) ne (evictors s)"
    using pool_inv_tokens [OF pool] i by simp
  then show "flush_f (wface S T (wld s) i)"
  proof (rule in_tokensE)
    assume "i \<in> set (map item_pd (pool_queue (evict_workers (sys_eng s))))"
    then show ?thesis by (rule pool_inv_queue(2) [OF pool])
  next
    fix j P
    assume j: "j < ne" "flush_own (region_loc T) (evictors s j) = Some (i, P :: 'b face \<Rightarrow> bool)"
    from flush_own_f [OF j(2) pool_inv_pc(2) [OF pool j]] show ?thesis .
  qed
  then show "state (desc (wld s) i) = PRESENT" by (simp add: wface_def)
qed

lemma flush_move:
  fixes s :: "('k, 'd) sys" and P P' :: "'d face \<Rightarrow> bool"
  assumes inv: "flush_inv S T n nf ne p ev A s" and ap: "apart (covers T) (region_loc T)"
    and j: "j < ne" "flush_own (region_loc T) (evictors s j) = Some (i, P)"
    and pc: "flush_own (region_loc T) pc = Some (i, P')" "P' (wface S T w i)"
    and w: "page_work S T i (wld s) w"
  shows "flush_inv S T n nf ne p ev A (s\<lparr>wld := w, evictors := (evictors s)(j := pc)\<rparr>)"
    (is "flush_inv _ _ _ _ _ _ _ _ ?s'")
proof -
  note pool = flush_invD(2) [OF inv]
  have i: "i \<in> A" by (rule pool_inv_pc(1) [OF pool j])
  note st = flush_token_present(2) [OF inv i]
  have f': "flush_f (wface S T w i)" by (rule flush_own_f [OF pc])
  then have st': "state (desc w i) = PRESENT" by (simp add: wface_def)
  have pr: "present_f (wface S T (with_ev p w) i)" using f' by (auto simp: wface_def)
  note t = touch_sys_inv [OF flush_invD(1) [OF inv] ap _ _ _ pr]
  have ghost: "sys_inv S T n nf ne ((ghost p ev s)\<lparr>wld := with_ev p w\<rparr>)"
    by (rule t(1)) (use st st' page_work_ev [OF w, of p] in simp_all)
  have "wface S T w k = wface S T (wld s) k" if "k \<in> A - {i}" for k
    using t(2) [of k] that st st' page_work_ev [OF w, of p] flush_token_present(2) [OF inv, of k] by simp
  then have "pool_inv (flush_own (region_loc T)) flush_f (wface S T w) A
      (map item_pd (pool_queue (evict_workers (sys_eng s)))) ne ((evictors s)(j := pc))"
    by (intro pool_inv_move [where F' = "wface S T w", OF pool j pc]) blast
  moreover have "k \<in> A" if "dirty (desc w k)" "state (desc w k) \<noteq> FREE" for k
  proof (cases "k = i")
    case False
    then have "desc w k = desc (wld s) k" using w by (simp add: page_work_def)
    with that flush_invD(4) [OF inv, of k] show ?thesis by simp
  qed (use i in simp)
  ultimately show ?thesis
    using ghost flush_invD(3,5) [OF inv] page_work_eng(5) [OF w] by (auto simp: flush_inv_def)
qed

text \<open>A step of an eviction worker: the pages in its hands stay, but for the one it has finished.\<close>

definition contents_kept ::
  "('k, 'd) setting \<Rightarrow> RegionTable \<Rightarrow> ('k, 'd) world \<Rightarrow> ('k, 'd) world \<Rightarrow> bool" where
  "contents_kept S T w w' \<longleftrightarrow>
     (\<forall>r a. covers T r a \<longrightarrow> page_contents S T w' r a = page_contents S T w r a)"

lemma flush_get:
  assumes inv: "flush_inv S T n nf ne p ev A s" and j: "j < ne" "evictors s j = E_get"
    and res: "evictor_get (wld s) = Some (Inr (w, pc))"
  shows "flush_inv S T n nf ne p ev A (s\<lparr>wld := w, evictors := (evictors s)(j := pc)\<rparr>)"
    and "contents_kept S T (wld s) w"
proof -
  obtain q item where g: "get_work (evict_workers (sys_eng s)) = (q, Got item)"
    using res by (auto simp: evictor_get_def split: prod.splits dequeue_out.splits)
  note queue = get_work_Got [OF g]
  have "item = \<lparr>page_desc = Some (item_pd item), work_type = FLUSH\<rparr>"
    using flush_invD(3) [OF inv, of item] queue by simp
  then have "work_type item = FLUSH" "page_desc item = Some (item_pd item)"
    by (metis WorkItem.select_convs)+
  then have w: "w = with_ev q (wld s)" "pc = E_item FLUSH (item_pd item)"
    using res g by (auto simp: evictor_get_def Let_def with_ev_def)
  note pool = flush_invD(2) [OF inv, unfolded queue list.map]
  have "flush_f (wface S T (wld s) (item_pd item))" by (rule pool_inv_queue(2) [OF pool]) simp
  then have "pool_inv (flush_own (region_loc T)) flush_f (wface S T (wld s)) A
      (map item_pd (pool_queue q)) ne ((evictors s)(j := pc))"
    using pool_inv_get [OF pool j(1), of pc "\<lambda>f. FLUSH = FLUSH \<and> flush_f f"] j(2) w(2) by simp
  then show "flush_inv S T n nf ne p ev A (s\<lparr>wld := w, evictors := (evictors s)(j := pc)\<rparr>)"
    using inv queue by (simp add: flush_inv_def w(1))
  show "contents_kept S T (wld s) w" by (simp add: contents_kept_def w)
qed

lemma flush_protect:
  assumes inv: "flush_inv S T n nf ne p ev A s" and ap: "apart (covers T) (region_loc T)"
    and S: "setting_ok S" and j: "j < ne" "evictors s j = E_item t i"
    and res: "evictor_protect S t i (wld s) = Inr (w, pc)"
  shows "flush_inv S T n nf ne p ev A (s\<lparr>wld := w, evictors := (evictors s)(j := pc)\<rparr>)"
    and "contents_kept S T (wld s) w"
proof -
  let ?d = "desc (wld s) i" and ?pv = "page_view (kern S) (mem (wld s))"
  have k: "kernel_ok (abi_of S) (page_sz S) (kern S)" "\<not> ro_mode S" using S by (simp_all add: setting_ok_def)
  have own: "flush_own (region_loc T) (evictors s j) = Some (i, \<lambda>f. t = FLUSH \<and> flush_f f)" using j by simp
  note known = pool_inv_pc(1,2) [OF flush_invD(2) [OF inv] j(1) own]
  then obtain x b where v: "?pv (page ?d) = Some (x, b)" and st: "state ?d = PRESENT"
    by (auto simp: wface_def split: option.splits)
  have "flush_inv S T n nf ne p ev A (s\<lparr>wld := w, evictors := (evictors s)(j := pc)\<rparr>)
      \<and> contents_kept S T (wld s) w"
  proof (cases "dirty ?d")
    case True
    obtain r where r: "region ?d = Some r"
      "store_offset (rds (table (sys_eng s)) r) (page ?d) = Inr (snd (region_loc T r (page ?d)))"
      "m_store (rds (table (sys_eng s)) r) = fst (region_loc T r (page ?d))"
      using desc_region [OF flush_invD(1) [OF inv], of i] st by auto
    let ?l = "region_loc T r (page ?d)"
    obtain k' where k': "w = (wld s)\<lparr>mem := k'\<rparr>" "pc = E_protected t i (fst ?l) (snd ?l)"
      "page_view (kern S) k' = ?pv(page ?d \<mapsto> (x, True))"
      using kernel_calls(3) [OF k(1) v] res True k(2) r
      by (auto simp: evictor_protect_def Let_def)
    have "flush_inv S T n nf ne p ev A (s\<lparr>wld := w, evictors := (evictors s)(j := pc)\<rparr>)"
      by (rule flush_move [OF inv ap j(1) own,
            of _ "\<lambda>f. t = FLUSH \<and> flush_f f \<and> protected_f (region_loc T) (fst ?l, snd ?l) f"])
        (use k' True known r st in \<open>simp_all add: page_work_def wface_def\<close>)
    moreover have "contents_kept S T (wld s) w"
      using v by (auto simp: contents_kept_def page_contents_def k')
    ultimately show ?thesis ..
  next
    case False
    then have w: "w = wld s" "pc = E_clean t i"
      using res by (simp_all add: evictor_protect_def Let_def)
    have "flush_inv S T n nf ne p ev A (s\<lparr>wld := w, evictors := (evictors s)(j := pc)\<rparr>)"
      by (rule flush_move [OF inv ap j(1) own, of _ "\<lambda>f. t = FLUSH \<and> flush_f f \<and> clean_f f"])
        (use w False known v in \<open>auto simp: page_work_def wface_def\<close>)
    then show ?thesis by (simp add: contents_kept_def w)
  qed
  then show "flush_inv S T n nf ne p ev A (s\<lparr>wld := w, evictors := (evictors s)(j := pc)\<rparr>)"
    and "contents_kept S T (wld s) w" by auto
qed

lemma flush_write:
  assumes inv: "flush_inv S T n nf ne p ev A s" and ap: "apart (covers T) (region_loc T)"
    and j: "j < ne" "evictors s j = E_protected t i st off"
    and res: "evictor_write S io_ok t i st off (wld s) = Inr (w, pc)"
  shows "flush_inv S T n nf ne p ev A (s\<lparr>wld := w, evictors := (evictors s)(j := pc)\<rparr>)"
    and "contents_kept S T (wld s) w"
proof -
  let ?d = "desc (wld s) i" and ?pv = "page_view (kern S) (mem (wld s))"
  have own: "flush_own (region_loc T) (evictors s j)
      = Some (i, \<lambda>f. t = FLUSH \<and> flush_f f \<and> protected_f (region_loc T) (st, off) f)" using j by simp
  note known = pool_inv_pc(1,2) [OF flush_invD(2) [OF inv] j(1) own]
  then obtain x where v: "?pv (page ?d) = Some (x, True)" and s: "state ?d = PRESENT"
    and l: "region_loc T (the (region ?d)) (page ?d) = (st, off)"
    by (auto simp: wface_def)
  have w: "w = (wld s)\<lparr>stores := (stores (wld s))(st := (stores (wld s) st)(off := x))\<rparr>"
    "pc = E_written t i"
    using res v by (auto simp: evictor_write_def split: if_splits)
  show "flush_inv S T n nf ne p ev A (s\<lparr>wld := w, evictors := (evictors s)(j := pc)\<rparr>)"
    by (rule flush_move [OF inv ap j(1) own, of _ "\<lambda>f. t = FLUSH \<and> flush_f f \<and> written_f f"])
      (use w v l known s in \<open>auto simp: page_work_def wface_def\<close>)
  obtain q where q: "region ?d = Some q" "covers T q (page ?d)"
    using core_invD(2) [OF sys_invD(1) [OF flush_invD(1) [OF inv]], of i] s by (auto simp: core_of_simps)
  have "region_loc T r a \<noteq> (st, off)" if "covers T r a" "?pv a = None" for r a
  proof
    assume "region_loc T r a = (st, off)"
    then have "a = page ?d" using ap q that(1) l unfolding apart_def by (metis option.sel)
    with that v show False by simp
  qed
  then have "page_contents S T w r a = page_contents S T (wld s) r a" if "covers T r a" for r a
    using that by (cases "?pv a") (auto simp: w page_contents_def prod_eq_iff)
  then show "contents_kept S T (wld s) w" by (simp add: contents_kept_def)
qed

lemma flush_done:
  assumes inv: "flush_inv S T n nf ne p ev A s" and j: "j < ne" "evictors s j = E_clean t i"
    and res: "evictor_drop S t i (wld s) = Inr (w, pc)"
  shows "flush_inv S T n nf ne p ev (A - {i}) (s\<lparr>wld := w, evictors := (evictors s)(j := pc)\<rparr>)"
    and "w = wld s"
proof -
  note pool = flush_invD(2) [OF inv]
  have own: "flush_own (region_loc T) (evictors s j) = Some (i, \<lambda>f. t = FLUSH \<and> flush_f f \<and> clean_f f)"
    using j by simp
  note known = pool_inv_pc(2) [OF pool j(1) own]
  then show w: "w = wld s" using res by (auto simp: evictor_drop_def)
  have pc: "pc = E_get" using res known by (auto simp: evictor_drop_def)
  have "\<not> dirty (desc (wld s) i)" using known by (auto simp: wface_def)
  then have "k \<in> A - {i}" if "dirty (desc (wld s) k)" "state (desc (wld s) k) \<noteq> FREE" for k
    using flush_invD(4) [OF inv that] that by auto
  moreover have "pool_inv (flush_own (region_loc T)) flush_f (wface S T (wld s)) (A - {i})
      (map item_pd (pool_queue (evict_workers (sys_eng s)))) ne ((evictors s)(j := pc))"
    by (rule pool_inv_done [OF pool j(1) own]) (simp_all add: pc)
  ultimately show "flush_inv S T n nf ne p ev (A - {i}) (s\<lparr>wld := w, evictors := (evictors s)(j := pc)\<rparr>)"
    using inv by (simp add: flush_inv_def w)
qed

lemma flush_evictor:
  assumes inv: "flush_inv S T n nf ne p ev A s" and ap: "apart (covers T) (region_loc T)"
    and S: "setting_ok S" and j: "j < ne"
    and res: "evictor_step S io_ok busy (wld s, evictors s j) = Some (Inr (w, pc))"
  shows "\<exists>A'. flush_inv S T n nf ne p ev A' (s\<lparr>wld := w, evictors := (evictors s)(j := pc)\<rparr>)"
    and "contents_kept S T (wld s) w"
proof -
  let ?s' = "s\<lparr>wld := w, evictors := (evictors s)(j := pc)\<rparr>"
  have "(\<exists>A'. flush_inv S T n nf ne p ev A' ?s') \<and> contents_kept S T (wld s) w"
  proof (cases "evictors s j")
    case E_get
    with res flush_get [OF inv j E_get, of w pc] show ?thesis by (auto simp: evictor_step_def)
  next
    case (E_item t i)
    with res flush_protect [OF inv ap S j E_item, of w pc] show ?thesis by (auto simp: evictor_step_def)
  next
    case (E_protected t i st off)
    with res flush_write [OF inv ap j E_protected, of io_ok w pc] show ?thesis by (auto simp: evictor_step_def)
  next
    case (E_written t i)
    then have own: "flush_own (region_loc T) (evictors s j) = Some (i, \<lambda>f. t = FLUSH \<and> flush_f f \<and> written_f f)"
      by simp
    note known = pool_inv_pc(2) [OF flush_invD(2) [OF inv] j own]
    have w: "w = with_buf (wld s) (set_pd i ((desc (wld s) i)\<lparr>dirty := False\<rparr>) (buf (sys_eng s)))"
      "pc = E_clean t i"
      using res E_written by (simp_all add: evictor_step_def)
    have "flush_inv S T n nf ne p ev A ?s'"
      by (rule flush_move [OF inv ap j own, of _ "\<lambda>f. t = FLUSH \<and> flush_f f \<and> clean_f f"])
        (use w known in \<open>simp_all add: page_work_def wface_def set_pd_def\<close>)
    moreover have "contents_kept S T (wld s) w" by (simp add: contents_kept_def page_contents_def w)
    ultimately show ?thesis by blast
  next
    case (E_clean t i)
    with res flush_done [OF inv j E_clean, of w pc] show ?thesis
      by (auto simp: evictor_step_def contents_kept_def)
  next
    case (E_mark i)
    then have "flush_own (region_loc T) (evictors s j) = Some (i, \<lambda>f. False)" by simp
    from pool_inv_pc(2) [OF flush_invD(2) [OF inv] j this] show ?thesis ..
  next
    case E_exit
    with res show ?thesis by (simp add: evictor_step_def)
  qed
  then show "\<exists>A'. flush_inv S T n nf ne p ev A' ?s'" and "contents_kept S T (wld s) w" by blast+
qed

lemma flush_filler:
  assumes inv: "flush_inv S T n nf ne p ev A s" and ap: "apart (covers T) (region_loc T)"
    and S: "setting_ok S" and j: "j < nf" "\<forall>i. fillers s j \<noteq> F_mark i"
    and res: "filler_step S io_ok busy (wld s, fillers s j) = Some (Inr (w, pc))"
  shows "flush_inv S T n nf ne p ev A (s\<lparr>wld := w, fillers := (fillers s)(j := pc)\<rparr>)"
    and "contents_kept S T (wld s) w"
proof -
  let ?g = "ghost p ev s"
  have k: "kernel_ok (abi_of S) (page_sz S) (kern S)" "\<not> ro_mode S" using S by (simp_all add: setting_ok_def)
  have g: "filler_step S io_ok busy (wld ?g, fillers ?g j) = Some (Inr (with_ev p w, pc))"
    using filler_ghost(1) [OF res] by simp
  have "sys_inv S T n nf ne (?g\<lparr>wld := with_ev p w, fillers := (fillers ?g)(j := pc)\<rparr>)"
    by (rule filler_sys_inv [OF flush_invD(1) [OF inv] ap k j(1) g])
  moreover have "wface S T w i = wface S T (wld s) i" if "i \<in> A" for i
    using filler_faces [OF flush_invD(1) [OF inv] S j(1) _ g, of i] j(2) flush_token_present(2) [OF inv that]
    by simp
  then have "pool_inv (flush_own (region_loc T)) flush_f (wface S T w) A
      (map item_pd (pool_queue (evict_workers (sys_eng s)))) ne (evictors s)"
    by (intro pool_inv_frame [OF flush_invD(2) [OF inv]]) blast
  ultimately show "flush_inv S T n nf ne p ev A (s\<lparr>wld := w, fillers := (fillers s)(j := pc)\<rparr>)"
    using inv filler_ghost(2) [OF res] filler_flags [OF res j(2)] by (simp add: flush_inv_def)
  show "contents_kept S T (wld s) w"
    using filler_contents [OF flush_invD(1) [OF inv] S j(1) _ g] by (simp add: contents_kept_def)
qed

lemma flush_manager:
  assumes inv: "flush_inv S T n nf ne p ev A s" and n: "n < 2 ^ 64"
    and low: "mgr s = M_loop \<longrightarrow> low_threshold_reached (buf (sys_eng s))"
    and res: "mgr_step busy (sys_eng s, mgr s) = Some (Inr (e, pc))"
  shows "flush_inv S T n nf ne p ev A (s\<lparr>wld := (wld s)\<lparr>eng := e\<rparr>, mgr := pc\<rparr>)"
proof -
  let ?g = "ghost p ev s" and ?w = "(wld s)\<lparr>eng := e\<rparr>"
  have l: "mgr_list (mgr s) = []" by (rule flush_invD(5) [OF inv])
  have e: "mgr_list pc = []" "buf e = buf (sys_eng s)" "evict_workers e = evict_workers (sys_eng s)"
    and g: "mgr_step busy (sys_eng ?g, mgr ?g) = Some (Inr (eng (with_ev p ?w), pc))"
    using res low l
    by (auto simp: mgr_step_def with_ev_def
        split: mgr_pc.splits list.splits prod.splits dequeue_out.splits if_splits)
  have "wface S T ?w = wface S T (wld s)" using e by (simp add: wface_def fun_eq_iff)
  then show ?thesis
    using inv e manager_sys_inv [OF flush_invD(1) [OF inv] n g] by (simp add: flush_inv_def)
qed

lemma flush_app:
  assumes inv: "flush_inv S T n nf ne p ev A s"
    and pv: "page_view (kern S) (mem (wld s)) a = Some (y, False)"
    and k: "page_view (kern S) k = (page_view (kern S) (mem (wld s)))(a \<mapsto> (z, False))"
  shows "flush_inv S T n nf ne p ev A (s\<lparr>wld := (wld s)\<lparr>mem := k\<rparr>\<rparr>)"
proof -
  let ?g = "ghost p ev s" and ?w = "(wld s)\<lparr>mem := k\<rparr>"
  have f: "same_but_data (wface S T (wld s) i) (wface S T ?w i)" for i
    using pv k by (auto simp: same_but_data_def wface_def)
  have "sys_inv S T n nf ne (?g\<lparr>wld := with_ev p ?w\<rparr>)"
    using app_sys_inv [OF flush_invD(1) [OF inv], of a y k z] pv k by simp
  moreover have "pool_inv (flush_own (region_loc T)) flush_f (wface S T ?w) A
      (map item_pd (pool_queue (evict_workers (sys_eng s)))) ne (evictors s)"
  proof (rule pool_inv_mono [OF flush_invD(2) [OF inv]])
    show "flush_f (wface S T ?w i)" if "flush_f (wface S T (wld s) i)" for i
      using that f [of i] by (auto simp: same_but_data_def)
    show "P (wface S T ?w i)" if "flush_own (region_loc T) pc = Some (i, P)" "P (wface S T (wld s) i)" for pc i P
      by (rule flush_own_known [OF that(1) f that(2)])
  qed
  ultimately show ?thesis using inv by (simp add: flush_inv_def)
qed

lemma locked_flush:
  assumes step: "locked_step S nf ne s e s'" and inv: "flush_inv S T n nf ne p ev A s" and n: "n < 2 ^ 64"
    and ap: "apart (covers T) (region_loc T)" and S: "setting_ok S"
  shows "\<exists>A'. flush_inv S T n nf ne p ev A' s'"
    and "covers T r a \<Longrightarrow> page_contents S T (wld s') r a = flat_step a e (page_contents S T (wld s) r a)"
proof -
  have "(\<exists>A'. flush_inv S T n nf ne p ev A' s')
      \<and> (covers T r a \<longrightarrow> page_contents S T (wld s') r a = flat_step a e (page_contents S T (wld s) r a))"
    using step
  proof cases
    case (locked_filler j io_ok busy w pc)
    from flush_filler [OF inv ap S this(3-5)] this(1,2) show ?thesis by (auto simp: contents_kept_def)
  next
    case (locked_evictor j io_ok busy w pc)
    from flush_evictor [OF inv ap S this(3,5)] this(1,2) show ?thesis by (auto simp: contents_kept_def)
  next
    case (locked_manager busy en pc)
    from flush_manager [OF inv n this(3,4)] this(1,2) show ?thesis by (auto simp: page_contents_def)
  next
    case (locked_app b y k z)
    from flush_app [OF inv this(3,4)] this show ?thesis by (auto simp: page_contents_def)
  qed
  then show "\<exists>A'. flush_inv S T n nf ne p ev A' s'"
    and "covers T r a \<Longrightarrow> page_contents S T (wld s') r a = flat_step a e (page_contents S T (wld s) r a)"
    by blast+
qed

section \<open>What a flush achieves\<close>

lemma idle_no_leaving:
  assumes inv: "sys_inv S T n nf ne s" and q: "pool_queue (evict_workers (sys_eng s)) = []"
    "mgr_list (mgr s) = []" "\<forall>j<ne. evictors s j = E_get"
  shows "state (desc (wld s) i) \<noteq> LEAVING"
proof -
  have "i \<notin> in_state {LEAVING} (core_of S s)"
    using pool_inv_tokens [OF core_invD(6) [OF sys_invD(1) [OF inv]], of i] q
    by (simp add: tokens_def core_of_simps)
  then show ?thesis by (simp add: in_state_def core_of_simps)
qed

lemma filling_clean:
  assumes inv: "sys_inv S T n nf ne s" and i: "state (desc (wld s) i) \<in> {FILLING, UPDATING}" "\<not> dirty (desc (wld s) i)"
  shows "case wface S T (wld s) i of (d, v, x) \<Rightarrow> v = None \<or> v = Some (x, True)"
proof -
  let ?f = "wface S T (wld s) i"
  note pool = core_invD(5) [OF sys_invD(1) [OF inv]]
  have d: "\<not> dirty (fst ?f)" using i(2) by (simp add: wface_def)
  have known: "case f of (d, v, x) \<Rightarrow> v = None \<or> v = Some (x, True)"
    if "wait_f f \<or> (\<exists>y. read_f y f) \<or> loaded_f f \<or> present_f f" "\<not> dirty (fst f)" for f :: "'b face"
    using that by (cases f) (auto split: option.splits)
  have "i \<in># tokens fill_own (c_fq (core_of S s)) nf (c_fill (core_of S s))"
    using pool_inv_tokens [OF pool] i(1) by (simp add: in_state_def core_of_simps)
  then show ?thesis
  proof (rule in_tokensE)
    assume "i \<in> set (c_fq (core_of S s))"
    from pool_inv_queue(2) [OF pool this] known [OF _ d] show ?thesis by simp
  next
    fix j P
    assume j: "j < nf" "fill_own (c_fill (core_of S s) j) = Some (i, P)"
    from pool_inv_pc(2) [OF pool j] have "P ?f" by simp
    with j(2) have "wait_f ?f \<or> (\<exists>y. read_f y ?f) \<or> loaded_f ?f \<or> present_f ?f"
      by (cases "c_fill (core_of S s) j") auto
    with known [OF _ d] show ?thesis by simp
  qed
qed

lemma clean_stored:
  assumes inv: "sys_inv S T n nf ne s" and cov: "covers T r a"
    and clean: "\<And>i. state (desc (wld s) i) \<noteq> FREE \<Longrightarrow> \<not> dirty (desc (wld s) i)"
    and stay: "\<And>i. state (desc (wld s) i) \<noteq> LEAVING"
  shows "page_contents S T (wld s) r a = stores (wld s) (fst (region_loc T r a)) (snd (region_loc T r a))"
proof (cases "m_present_pages (buf (sys_eng s)) a")
  case None
  then have "page_view (kern S) (mem (wld s)) a = None"
    using core_invD(3) [OF sys_invD(1) [OF inv] cov] by (simp add: core_of_simps)
  then show ?thesis by (simp add: page_contents_def)
next
  case (Some i)
  have ok: "pages_ok (m_array (buf (sys_eng s))) (m_present_pages (buf (sys_eng s)))
      (m_free_pages (buf (sys_eng s))) (m_busy_pages (buf (sys_eng s)))"
    using core_invD(1) [OF sys_invD(1) [OF inv]] by (simp add: core_of_simps)
  have i: "page (desc (wld s) i) = a" "state (desc (wld s) i) \<noteq> FREE"
    using pages_okD(6,7) [OF ok Some] by simp_all
  have r: "region (desc (wld s) i) = Some r" using desc_covers [OF inv i(2)] cov i(1) by simp
  have "case wface S T (wld s) i of (d, v, x) \<Rightarrow> v = None \<or> v = Some (x, True)"
  proof (cases "state (desc (wld s) i) = PRESENT")
    case True
    then have "present_f (face (region_loc T) (core_of S s) i)"
      by (intro core_invD(4) [OF sys_invD(1) [OF inv]]) (simp add: core_of_simps)
    with clean [OF i(2)] show ?thesis by (auto simp: wface_def split: option.splits)
  next
    case False
    with i(2) stay [of i] have "state (desc (wld s) i) \<in> {FILLING, UPDATING}"
      by (cases "state (desc (wld s) i)") simp_all
    from filling_clean [OF inv this clean [OF i(2)]] show ?thesis .
  qed
  with i r show ?thesis by (auto simp: wface_def page_contents_def split_beta)
qed

section \<open>A flush ends\<close>

fun flush_work :: "evict_pc \<Rightarrow> nat" where
  "flush_work (E_item t i) = 4"
| "flush_work (E_protected t i st off) = 3"
| "flush_work (E_written t i) = 2"
| "flush_work (E_clean t i) = 1"
| "flush_work _ = 0"

definition flush_left :: "nat \<Rightarrow> ('k, 'd) sys \<Rightarrow> nat" where
  "flush_left ne s = 5 * length (pool_queue (evict_workers (sys_eng s))) + (\<Sum>j<ne. flush_work (evictors s j))"

lemma flush_left_less:
  assumes "j < ne" and "5 * length (pool_queue (evict_workers (eng w))) + flush_work pc
      < 5 * length (pool_queue (evict_workers (sys_eng s))) + flush_work (evictors s j)"
  shows "flush_left ne (s\<lparr>wld := w, evictors := (evictors s)(j := pc)\<rparr>) < flush_left ne s"
  using sum_pcs_upd [OF assms(1), of flush_work "evictors s" pc] assms(2) by (simp add: flush_left_def)

text \<open>An evictor that has an item of the flush can make its step.\<close>

lemma flush_evictor_steps:
  fixes s :: "('k, 'd) sys"
  assumes inv: "flush_inv S T n nf ne p ev A s" and S: "setting_ok S" and j: "j < ne" "evictors s j \<noteq> E_get"
  shows "\<forall>i. evictors s j \<noteq> E_mark i"
    and "\<exists>w pc. evictor_step S True False (wld s, evictors s j) = Some (Inr (w, pc))
      \<and> evict_workers (eng w) = evict_workers (sys_eng s) \<and> flush_work pc < flush_work (evictors s j)"
proof -
  let ?pv = "page_view (kern S) (mem (wld s))"
  have k: "kernel_ok (abi_of S) (page_sz S) (kern S)" "\<not> ro_mode S" using S by (simp_all add: setting_ok_def)
  obtain i and P :: "'d face \<Rightarrow> bool" where own: "flush_own (region_loc T) (evictors s j) = Some (i, P)"
    using j(2) by (cases "evictors s j") auto
  note known = pool_inv_pc(1,2) [OF flush_invD(2) [OF inv] j(1) own]
  then obtain x b where v: "?pv (page (desc (wld s) i)) = Some (x, b)"
    using flush_token_present(1) [OF inv known(1)] by (auto simp: wface_def split: option.splits)
  show mark: "\<forall>i. evictors s j \<noteq> E_mark i" using own known(2) by (cases "evictors s j") auto
  show "\<exists>w pc. evictor_step S True False (wld s, evictors s j) = Some (Inr (w, pc))
      \<and> evict_workers (eng w) = evict_workers (sys_eng s) \<and> flush_work pc < flush_work (evictors s j)"
  proof (cases "evictors s j")
    case (E_item t q)
    then have q: "q = i" using own by simp
    obtain r where "region (desc (wld s) i) = Some r"
      "store_offset (rds (table (sys_eng s)) r) (page (desc (wld s) i))
         = Inr (snd (region_loc T r (page (desc (wld s) i))))"
      using desc_region [OF flush_invD(1) [OF inv], of i] flush_token_present(2) [OF inv known(1)] by auto
    then show ?thesis
      using kernel_calls(3) [OF k(1) v] k(2) E_item q
      by (cases "dirty (desc (wld s) i)") (auto simp: evictor_step_def evictor_protect_def Let_def)
  next
    case (E_protected t q st off)
    then show ?thesis using own v by (auto simp: evictor_step_def evictor_write_def)
  next
    case (E_clean t q)
    then show ?thesis using own known(2) by (auto simp: evictor_step_def evictor_drop_def)
  qed (use own known(2) j(2) mark in \<open>auto simp: evictor_step_def\<close>)
qed

lemma flush_progress:
  fixes s :: "('k, 'd) sys"
  assumes inv: "flush_inv S T n nf ne p ev A s" and S: "setting_ok S" and busy: "\<not> evictors_idle ne s"
    and ne: "0 < ne"
  obtains j w pc where "j < ne" and "\<forall>i. evictors s j \<noteq> E_mark i"
    and "evictor_step S True False (wld s, evictors s j) = Some (Inr (w, pc))"
    and "flush_left ne (s\<lparr>wld := w, evictors := (evictors s)(j := pc)\<rparr>) < flush_left ne s"
proof (cases "\<forall>j<ne. evictors s j = E_get")
  case True
  then have j: "evictors s 0 = E_get" and "pool_queue (evict_workers (sys_eng s)) \<noteq> []"
    using busy ne by (simp_all add: evictors_idle_def)
  then obtain item rest where q: "pool_queue (evict_workers (sys_eng s)) = item # rest"
    by (cases "pool_queue (evict_workers (sys_eng s))") auto
  then obtain p' where g: "get_work (evict_workers (sys_eng s)) = (p', Got item)" "pool_queue p' = rest"
    by (auto simp: get_work_def wq_defs)
  have "item = \<lparr>page_desc = Some (item_pd item), work_type = FLUSH\<rparr>" using flush_invD(3) [OF inv] q by simp
  then have "work_type item = FLUSH" "page_desc item = Some (item_pd item)"
    by (metis WorkItem.select_convs)+
  then have "evictor_step S True False (wld s, evictors s 0)
      = Some (Inr (with_ev p' (wld s), E_item FLUSH (item_pd item)))"
    using g(1) j by (simp add: evictor_step_def evictor_get_def with_ev_def)
  moreover have "flush_left ne (s\<lparr>wld := with_ev p' (wld s), evictors := (evictors s)(0 := E_item FLUSH (item_pd item))\<rparr>)
      < flush_left ne s"
    by (rule flush_left_less [OF ne]) (use j q g(2) in simp)
  ultimately show thesis using that [OF ne] j by simp
next
  case False
  then obtain j where j: "j < ne" "evictors s j \<noteq> E_get" by blast
  note step = flush_evictor_steps [OF inv S j]
  then show thesis by (auto intro!: that [OF j(1) step(1)] flush_left_less [OF j(1)])
qed

lemma locked_run_trans:
  assumes "locked_run S nf ne s0 tr s" and "locked_run S nf ne s tr' s'"
  shows "locked_run S nf ne s0 (tr @ tr') s'"
  using assms(2)
proof induction
  case locked_start
  then show ?case using assms(1) by simp
next
  case (locked_next tr' s1 ev s2)
  from locked_run.locked_next [OF locked_next.IH locked_next.hyps(2)] show ?case by simp
qed

lemma flush_completes:
  assumes "flush_inv S T n nf ne p ev A s" and n: "n < 2 ^ 64" and ap: "apart (covers T) (region_loc T)"
    and S: "setting_ok S" and ne: "0 < ne"
  shows "\<exists>tr s'. locked_run S nf ne s tr s' \<and> set tr \<subseteq> {Internal} \<and> evictors_idle ne s'"
  using assms(1)
proof (induction "flush_left ne s" arbitrary: s A rule: less_induct)
  case less
  show ?case
  proof (cases "evictors_idle ne s")
    case True
    then show ?thesis using locked_start by (metis empty_set empty_subsetI)
  next
    case False
    then obtain j w pc where j: "j < ne" "\<forall>i. evictors s j \<noteq> E_mark i"
      and st: "evictor_step S True False (wld s, evictors s j) = Some (Inr (w, pc))"
      and lt: "flush_left ne (s\<lparr>wld := w, evictors := (evictors s)(j := pc)\<rparr>) < flush_left ne s"
      by (rule flush_progress [OF less.prems S _ ne])
    note step = locked_evictor [OF j st]
    obtain A' where "flush_inv S T n nf ne p ev A' (s\<lparr>wld := w, evictors := (evictors s)(j := pc)\<rparr>)"
      using locked_flush(1) [OF step less.prems n ap S] by blast
    from less.hyps [OF lt this] obtain tr s' where
      "locked_run S nf ne (s\<lparr>wld := w, evictors := (evictors s)(j := pc)\<rparr>) tr s'" "set tr \<subseteq> {Internal}" "evictors_idle ne s'"
      by blast
    with locked_run_trans [OF locked_next [OF locked_start step]] show ?thesis
      by (intro exI [of _ "[Internal] @ tr"]) auto
  qed
qed

section \<open>The start of a flush\<close>

definition flush_item :: "pd_ref \<Rightarrow> WorkItem" where
  "flush_item i = \<lparr>page_desc = Some i, work_type = FLUSH\<rparr>"

lemma flush_scan_all:
  assumes "flush_scan pds e = (e', FL_idle)"
  shows "\<exists>q. e' = e\<lparr>evict_workers := q\<rparr>
       \<and> pool_queue q = pool_queue (evict_workers e)
           @ map flush_item (filter (\<lambda>i. dirty (m_array (buf e) i)) pds)"
    and "i \<in> set pds \<Longrightarrow> dirty (m_array (buf e) i) \<Longrightarrow> state (m_array (buf e) i) = PRESENT"
proof -
  have "(\<exists>q. e' = e\<lparr>evict_workers := q\<rparr>
       \<and> pool_queue q = pool_queue (evict_workers e)
           @ map flush_item (filter (\<lambda>i. dirty (m_array (buf e) i)) pds))
      \<and> (\<forall>i\<in>set pds. dirty (m_array (buf e) i) \<longrightarrow> state (m_array (buf e) i) = PRESENT)"
    using assms
  proof (induction pds arbitrary: e)
    case Nil
    then show ?case by (intro conjI exI [of _ "evict_workers e"]) simp_all
  next
    case (Cons i pds)
    show ?case
    proof (cases "dirty (m_array (buf e) i)")
      case True
      with Cons.prems have p: "state (m_array (buf e) i) = PRESENT"
        and "flush_scan pds (schedule_flush i e) = (e', FL_idle)"
        by (auto split: if_splits)
      from Cons.IH [OF this(2)] p True show ?thesis
        by (auto simp: schedule_flush_def flush_item_def)
    next
      case False
      with Cons.prems Cons.IH [of e] show ?thesis by simp
    qed
  qed
  then show "\<exists>q. e' = e\<lparr>evict_workers := q\<rparr>
       \<and> pool_queue q = pool_queue (evict_workers e)
           @ map flush_item (filter (\<lambda>i. dirty (m_array (buf e) i)) pds)"
    and "i \<in> set pds \<Longrightarrow> dirty (m_array (buf e) i) \<Longrightarrow> state (m_array (buf e) i) = PRESENT"
    by blast+
qed

lemma lock_sys_inv:
  assumes inv: "sys_inv S T n nf ne s"
  shows "sys_inv S T n nf ne (s\<lparr>wld := with_buf (wld s) (lock_buffer busy (buf (sys_eng s)))\<rparr>)"
proof -
  have "sys_inv S T n nf ne (handler_to s ((sys_eng s)\<lparr>buf := lock_buffer busy (buf (sys_eng s))\<rparr>) (handler s))"
    by (rule quiet_inv [OF inv]) (use sys_invD(3,6) [OF inv] in \<open>simp_all add: quiet_def\<close>)
  then show ?thesis by (simp add: handler_to_def)
qed

lemma evict_own_None:
  "evict_own loc pc = (None :: (pd_ref \<times> ('d face \<Rightarrow> bool)) option) \<Longrightarrow> pc = E_get \<or> pc = E_exit"
  by (cases pc) simp_all

text \<open>With no page on its way out the evictors have nothing to do.\<close>

lemma no_leaving_idle:
  assumes inv: "sys_inv S T n nf ne s"
    and quiet: "\<And>i. state (desc (wld s) i) \<noteq> LEAVING" and pcs: "\<forall>j<ne. evictors s j \<noteq> E_exit"
  shows "pool_queue (evict_workers (sys_eng s)) = []" and "mgr_list (mgr s) = []"
    and "\<forall>j<ne. evictors s j = E_get"
proof -
  have none: "in_state {LEAVING} (core_of S s) = {}" using quiet by (auto simp: in_state_def core_of_simps)
  note evict = core_invD(6) [OF sys_invD(1) [OF inv], unfolded none]
  have tok: "i \<notin># tokens (evict_own (region_loc T) :: evict_pc \<Rightarrow> (pd_ref \<times> ('b face \<Rightarrow> bool)) option)
      (c_eq (core_of S s)) ne (c_evict (core_of S s))" for i
    using pool_inv_tokens [OF evict] by simp
  have "i \<notin> set (c_eq (core_of S s))" for i using tok [of i] by (simp add: tokens_def)
  then have "c_eq (core_of S s) = []" by (metis list.set_intros(1) neq_Nil_conv)
  then show "pool_queue (evict_workers (sys_eng s)) = []" "mgr_list (mgr s) = []"
    by (simp_all add: core_of_simps)
  have "evict_own (region_loc T) (evictors s j) = (None :: (pd_ref \<times> ('b face \<Rightarrow> bool)) option)" if "j < ne" for j
    using in_tokens_pc [OF that, of "evict_own (region_loc T)" "evictors s"] tok
    by (cases "evict_own (region_loc T) (evictors s j) :: (pd_ref \<times> ('b face \<Rightarrow> bool)) option")
      (auto simp: core_of_simps)
  then show "\<forall>j<ne. evictors s j = E_get"
    using pcs evict_own_None by blast
qed

lemma flush_start:
  assumes inv: "sys_inv S T n nf ne s" and l: "listed (buf (sys_eng s))"
    and quiet: "\<And>i. state (desc (wld s) i) \<noteq> LEAVING" and pcs: "\<forall>j<ne. evictors s j \<noteq> E_exit"
    and fl: "flush_begin busy (sys_eng s) = (e0, pc0)" "flush_step (e0, pc0) = Some (e1, FL_idle)"
  shows "\<exists>A. flush_inv S T n nf ne (evict_workers (sys_eng s)) (evictors s) A (s\<lparr>wld := (wld s)\<lparr>eng := e1\<rparr>\<rparr>)"
    and "pool_queue (evict_workers (sys_eng s)) = []" and "\<forall>j<ne. evictors s j = E_get"
proof -
  let ?p = "evict_workers (sys_eng s)" and ?w = "(wld s)\<lparr>eng := e1\<rparr>"
  note q = no_leaving_idle(1,2) [OF inv quiet pcs] and idle = no_leaving_idle(3) [OF inv quiet pcs]
  show "pool_queue ?p = []" "\<forall>j<ne. evictors s j = E_get" using q idle by simp_all
  define e where "e = (sys_eng s)\<lparr>buf := lock_buffer busy (buf (sys_eng s))\<rparr>"
  have scan: "flush_scan (m_busy_pages (buf e)) e = (e1, FL_idle)"
    using fl by (auto simp: flush_begin_def flush_step_def e_def)
  obtain qn where e1: "e1 = e\<lparr>evict_workers := qn\<rparr>"
    and qn: "pool_queue qn = map flush_item (filter (\<lambda>i. dirty (m_array (buf e) i)) (m_busy_pages (buf e)))"
    using flush_scan_all(1) [OF scan] q(1) by (auto simp: e_def)
  define D where "D = filter (\<lambda>i. dirty (desc (wld s) i)) (m_busy_pages (buf (sys_eng s)))"
  have queue: "map item_pd (pool_queue (evict_workers e1)) = D" and buf: "m_array (buf e1) = m_array (buf (sys_eng s))"
    by (simp_all add: e1 qn D_def e_def item_pd_def flush_item_def o_def)
  have "sys_inv S T n nf ne (ghost ?p (evictors s) (s\<lparr>wld := ?w\<rparr>))"
    using lock_sys_inv [OF inv, of busy] by (simp add: ghost_def with_ev_def e1 e_def)
  moreover have "pool_inv (flush_own (region_loc T)) flush_f (wface S T ?w) (set D) D ne (evictors s)"
  proof -
    have "flush_f (wface S T (wld s) i)" if "i \<in> set D" for i
    proof -
      have st: "state (desc (wld s) i) = PRESENT"
        using flush_scan_all(2) [OF scan, of i] that by (simp add: D_def e_def)
      then have "present_f (face (region_loc T) (core_of S s) i)"
        by (intro core_invD(4) [OF sys_invD(1) [OF inv]]) (simp add: core_of_simps)
      then show ?thesis using st by (simp add: wface_def)
    qed
    moreover have "wface S T ?w = wface S T (wld s)" by (simp add: wface_def fun_eq_iff buf)
    moreover have "distinct D"
      using pages_okD(2) [OF core_invD(1) [OF sys_invD(1) [OF inv]]] by (simp add: D_def core_of_simps)
    moreover have "pool_inv (flush_own (region_loc T)) flush_f (wface S T ?w) {} [] ne (evictors s)"
      using idle by (intro pool_inv_idle) simp
    ultimately show ?thesis
      using pool_inv_send [of "flush_own (region_loc T)" flush_f "wface S T ?w" "{}" "[]" ne "evictors s" "wface S T ?w" D]
      by simp
  qed
  moreover have "i \<in> set D" if "dirty (desc ?w i)" "state (desc ?w i) \<noteq> FREE" for i
  proof -
    have "state (desc (wld s) i) \<in> in_use"
      using that(2) quiet [of i] by (cases "state (desc (wld s) i)") (simp_all add: buf in_use_def)
    then show ?thesis using l that(1) by (simp add: listed_def D_def buf)
  qed
  moreover have "item = \<lparr>page_desc = Some (item_pd item), work_type = FLUSH\<rparr>"
    if "item \<in> set (pool_queue (evict_workers e1))" for item
    using that by (auto simp: e1 qn flush_item_def item_pd_def)
  ultimately show "\<exists>A. flush_inv S T n nf ne ?p (evictors s) A (s\<lparr>wld := ?w\<rparr>)"
    using q(2) queue unfolding flush_inv_def by (intro exI [of _ "set D"]) simp
qed

section \<open>Properties\<close>

lemma locked_run_flush:
  assumes run: "locked_run S nf ne s1 tr s'" and inv: "flush_inv S T n nf ne p ev A s1"
    and n: "n < 2 ^ 64" and ap: "apart (covers T) (region_loc T)" and S: "setting_ok S"
  shows "(\<exists>A. flush_inv S T n nf ne p ev A s')
    \<and> (\<forall>r a. covers T r a \<longrightarrow>
          page_contents S T (wld s') r a = fold (flat_step a) tr (page_contents S T (wld s1) r a))"
  using run
proof induction
  case locked_start
  show ?case using inv by auto
next
  case (locked_next tr s e s')
  then obtain B where B: "flush_inv S T n nf ne p ev B s" by blast
  note step = locked_flush [OF locked_next.hyps(2) B n ap S]
  show ?case using step(1) step(2) locked_next.IH by simp
qed

lemma flush_idle_stored:
  assumes inv: "flush_inv S T n nf ne p ev A s" and idle: "evictors_idle ne s"
    and start: "pool_queue p = []" "\<forall>j<ne. ev j = E_get" and cov: "covers T r a"
  shows "page_contents S T (wld s) r a = stores (wld s) (fst (region_loc T r a)) (snd (region_loc T r a))"
proof -
  have "i \<notin> A" for i
    using pool_inv_tokens [OF flush_invD(2) [OF inv], of i] idle by (simp add: evictors_idle_def tokens_def)
  then have clean: "\<not> dirty (desc (wld s) i)" if "state (desc (wld s) i) \<noteq> FREE" for i
    using flush_invD(4) [OF inv, of i] that by blast
  have "state (desc (wld s) i) \<noteq> LEAVING" for i
    using idle_no_leaving [OF flush_invD(1) [OF inv]] start flush_invD(5) [OF inv] by simp
  then show ?thesis
    using clean_stored [OF flush_invD(1) [OF inv] cov] clean by simp
qed


text \<open>The run in which a page was written to, followed by a flush.\<close>

lemma demo_flush:
  obtains s e0 pc0 e1 where "sys_run demo_S 2 1 demo_sys demo_trace s"
    and "flush_begin False (sys_eng s) = (e0, pc0)" and "flush_step (e0, pc0) = Some (e1, FL_idle)"
    and "\<forall>i. state (desc (wld s) i) \<noteq> LEAVING" and "evictors s 0 = E_get"
proof -
  have "map_option (\<lambda>(tr, s). (tr, map_option snd (flush_step (flush_begin False (sys_eng s))),
         state (desc (wld s) 0), state (desc (wld s) 1), evictors s 0))
       (exec_all demo_S demo_write 2 1 demo_moves ([], demo_sys))
     = Some (demo_trace, Some FL_idle, FREE, PRESENT, E_get)"
    by code_simp
  then obtain s where x: "exec_all demo_S demo_write 2 1 demo_moves ([], demo_sys) = Some (demo_trace, s)"
    and f: "map_option snd (flush_step (flush_begin False (sys_eng s))) = Some FL_idle"
    and st: "state (desc (wld s) 0) = FREE" "state (desc (wld s) 1) = PRESENT" and ev: "evictors s 0 = E_get"
    by auto
  note run = exec_all_sound [OF x run_start demo_write_ok]
  have "in_range 2 (core_of demo_S s)" by (rule sys_invD(2) [OF run_inv [OF run demo_booted demo_S_ok]])
  then have "state (desc (wld s) i) \<noteq> FREE \<Longrightarrow> i < 2" for i by (simp add: in_range_def core_of_simps)
  then have far: "state (desc (wld s) i) = FREE" if "\<not> i < 2" for i using that by blast
  have "state (desc (wld s) i) \<noteq> LEAVING" for i
    using st less_2_cases [of i] far [of i] by (cases "i < 2") auto
  moreover obtain e0 pc0 where e0: "flush_begin False (sys_eng s) = (e0, pc0)" by (cases "flush_begin False (sys_eng s)")
  moreover obtain e1 where "flush_step (e0, pc0) = Some (e1, FL_idle)" using f e0 by auto
  ultimately show thesis using that run ev by blast
qed

lemma fold_internal: "set tr \<subseteq> {Internal} \<Longrightarrow> fold (flat_step a) tr x = x"
  by (induction tr) auto




end
