(* ===== verification/Unmapping.thy ===== *)
theory Unmapping
  imports Flushing
begin

text \<open>
  \<open>evict_region\<close> in a running engine: a region is unmapped while other regions are in use. The
  thread that unmaps takes one page descriptor after the other out of the region and waits
  until the page is free; all other threads go on. At the end no page of the region is in
  memory and its store holds what the application wrote last.
\<close>

section \<open>The active pages of a region\<close>

abbreviation active_of :: "engine \<Rightarrow> rid \<Rightarrow> pd_ref set" where
  "active_of e q \<equiv> m_active_pages (rds (table e) q)"

text \<open>
  The set of a region holds the descriptors in use for its pages, except those in \<open>X\<close>, which
  the unmapping thread has taken out.
\<close>

definition active_ok ::
  "pd_ref set \<Rightarrow> (pd_ref \<Rightarrow> PageDescriptor) \<Rightarrow> (rid \<Rightarrow> pd_ref set) \<Rightarrow> bool" where
  "active_ok X arr act \<longleftrightarrow>
     (\<forall>q i. i \<in> act q \<longrightarrow> state (arr i) \<noteq> FREE \<and> region (arr i) = Some q \<and> \<not> deferred (arr i))
   \<and> (\<forall>q i. state (arr i) \<noteq> FREE \<and> region (arr i) = Some q \<longrightarrow> i \<in> act q \<or> i \<in> X)"

lemma active_okD:
  assumes "active_ok X arr act"
  shows "i \<in> act q \<Longrightarrow> state (arr i) \<noteq> FREE" and "i \<in> act q \<Longrightarrow> region (arr i) = Some q"
    and "i \<in> act q \<Longrightarrow> \<not> deferred (arr i)"
    and "state (arr i) \<noteq> FREE \<Longrightarrow> region (arr i) = Some q \<Longrightarrow> i \<notin> X \<Longrightarrow> i \<in> act q"
  using assms unfolding active_ok_def by blast+

text \<open>
  What a step of the engine does to a descriptor: it stays with its page (and a deferred one in
  use stays in use), or a free one is taken for a page of a region, or a leaving one is freed.
\<close>

definition kept :: "(pd_ref \<Rightarrow> PageDescriptor) \<Rightarrow> (pd_ref \<Rightarrow> PageDescriptor) \<Rightarrow> bool" where
  "kept arr arr' \<longleftrightarrow>
     (\<forall>i. (state (arr' i) = FREE \<longleftrightarrow> state (arr i) = FREE)
        \<and> region (arr' i) = region (arr i) \<and> deferred (arr' i) = deferred (arr i)
        \<and> (state (arr i) = LEAVING \<longrightarrow> state (arr' i) = LEAVING)
        \<and> (state (arr i) \<in> in_use \<and> deferred (arr i) \<longrightarrow> state (arr' i) \<in> in_use))"

definition taken ::
  "(pd_ref \<Rightarrow> PageDescriptor) \<Rightarrow> (rid \<Rightarrow> pd_ref set) \<Rightarrow> (pd_ref \<Rightarrow> PageDescriptor) \<Rightarrow> (rid \<Rightarrow> pd_ref set) \<Rightarrow> bool" where
  "taken arr act arr' act' \<longleftrightarrow>
     (\<exists>i r d. state (arr i) = FREE \<and> arr' = arr(i := d) \<and> state d \<noteq> FREE \<and> region d = Some r
        \<and> \<not> deferred d \<and> act' = act(r := insert i (act r)))"

definition freed ::
  "(pd_ref \<Rightarrow> PageDescriptor) \<Rightarrow> (rid \<Rightarrow> pd_ref set) \<Rightarrow> (pd_ref \<Rightarrow> PageDescriptor) \<Rightarrow> (rid \<Rightarrow> pd_ref set) \<Rightarrow> bool" where
  "freed arr act arr' act' \<longleftrightarrow>
     (\<exists>i r d. state (arr i) = LEAVING \<and> region (arr i) = Some r \<and> arr' = arr(i := d)
        \<and> state d = FREE \<and> deferred d = deferred (arr i) \<and> act' = act(r := act r - {i}))"

definition pd_step ::
  "(pd_ref \<Rightarrow> PageDescriptor) \<Rightarrow> (rid \<Rightarrow> pd_ref set) \<Rightarrow> (pd_ref \<Rightarrow> PageDescriptor) \<Rightarrow> (rid \<Rightarrow> pd_ref set) \<Rightarrow> bool" where
  "pd_step arr act arr' act' \<longleftrightarrow>
     kept arr arr' \<and> act' = act \<or> taken arr act arr' act' \<or> freed arr act arr' act'"

lemma active_ok_same:
  assumes "active_ok X arr act"
    and "\<And>i. (state (arr' i) = FREE \<longleftrightarrow> state (arr i) = FREE) \<and> region (arr' i) = region (arr i)
      \<and> deferred (arr' i) = deferred (arr i)"
  shows "active_ok X arr' act"
  using assms by (simp add: active_ok_def)

lemma active_ok_kept:
  assumes "active_ok X arr act" and "kept arr arr'"
  shows "active_ok X arr' act"
  using assms(2) by (intro active_ok_same [OF assms(1)]) (simp add: kept_def)

lemma active_ok_taken:
  assumes ok: "active_ok X arr act" and "taken arr act arr' act'"
  shows "active_ok X arr' act'"
proof -
  obtain i r d where i: "state (arr i) = FREE" and arr': "arr' = arr(i := d)"
    and d: "state d \<noteq> FREE" "region d = Some r" "\<not> deferred d" and act': "act' = act(r := insert i (act r))"
    using assms(2) by (auto simp: taken_def)
  have "i \<notin> act q" for q using ok i by (auto simp: active_ok_def)
  then show ?thesis using ok d unfolding active_ok_def arr' act' by auto
qed

lemma active_ok_freed:
  assumes ok: "active_ok X arr act" and "freed arr act arr' act'"
  shows "active_ok X arr' act'"
proof -
  obtain i r d where i: "region (arr i) = Some r" and arr': "arr' = arr(i := d)"
    and d: "state d = FREE" and act': "act' = act(r := act r - {i})"
    using assms(2) by (auto simp: freed_def)
  have "i \<notin> act' q" for q using ok i by (auto simp: active_ok_def act')
  moreover have "act' q - {i} = act q - {i}" for q by (auto simp: act')
  ultimately have "j \<in> act' q \<longleftrightarrow> j \<in> act q \<and> j \<noteq> i" for j q by blast
  then show ?thesis using ok d unfolding active_ok_def arr' by auto
qed

lemma active_ok_step:
  assumes "active_ok X arr act" and "pd_step arr act arr' act'"
  shows "active_ok X arr' act'"
  using assms active_ok_kept active_ok_taken active_ok_freed unfolding pd_step_def by blast

lemma kept_refl: "kept arr arr"
  by (simp add: kept_def)

lemma kept_upd:
  assumes "state d = FREE \<longleftrightarrow> state (arr i) = FREE" and "region d = region (arr i)"
    and "deferred d = deferred (arr i)" and "state (arr i) = LEAVING \<Longrightarrow> state d = LEAVING"
    and "state (arr i) \<in> in_use \<Longrightarrow> deferred (arr i) \<Longrightarrow> state d \<in> in_use"
  shows "kept arr (arr(i := d))"
  using assms by (auto simp: kept_def)

abbreviation pds_step :: "engine \<Rightarrow> engine \<Rightarrow> bool" where
  "pds_step e e' \<equiv> pd_step (m_array (buf e)) (active_of e) (m_array (buf e')) (active_of e')"

lemma pds_step_same:
  assumes "m_array (buf e') = m_array (buf e)" and "rds (table e') = rds (table e)"
  shows "pds_step e e'"
  using assms by (simp add: pd_step_def kept_refl)

lemma ppe_alloc_pds:
  assumes inv: "buf_inv (buf e)" and res: "ppe_alloc a w r e = Inr (e', out)"
  shows "pds_step e e'"
proof (cases "m_free_pages (buf e)" rule: rev_cases)
  case Nil
  then show ?thesis using res by (intro pds_step_same) (auto simp: ppe_alloc_empty)
next
  case (snoc fr i)
  then have free: "state (m_array (buf e) i) = FREE"
    using inv pages_okD(4) [of _ _ "m_free_pages (buf e)"] by (simp add: buf_inv_def)
  from ppe_alloc_effect [OF snoc this, of a w r] res
  have "m_array (buf e') = (m_array (buf e))(i := m_array (buf e') i)"
    and "state (m_array (buf e') i) = FILLING" "region (m_array (buf e') i) = Some r" "\<not> deferred (m_array (buf e') i)"
    and t: "table e' = (table e)\<lparr>rds := (rds (table e))(r := insert_page_descriptor i (rds (table e) r))\<rparr>"
    by (auto simp: Let_def)
  moreover have "active_of e' = (active_of e)(r := insert i (active_of e r))"
    by (simp add: t fun_eq_iff insert_page_descriptor_def)
  ultimately have "taken (m_array (buf e)) (active_of e) (m_array (buf e')) (active_of e')"
    using free unfolding taken_def by (intro exI [of _ i] exI [of _ r] exI [of _ "m_array (buf e') i"]) simp
  then show ?thesis by (simp add: pd_step_def)
qed

lemma ppe_check_pds:
  assumes inv: "buf_inv (buf e)" and res: "ppe_check a w r e = Inr (e', out)"
  shows "pds_step e e'"
proof (cases "page_already_present a (buf e)")
  case Absent
  then show ?thesis using ppe_alloc_pds [OF inv] res by (simp add: ppe_check_def)
next
  case Wait_state
  then show ?thesis using res by (intro pds_step_same) (auto simp: ppe_check_def)
next
  case (Present_pd i)
  then have st: "state (m_array (buf e) i) = PRESENT"
    by (auto simp: page_already_present_def split: option.splits if_splits)
  have "kept (m_array (buf e)) ((m_array (buf e))(i := m_array (buf e') i))"
    using res Present_pd st
    by (intro kept_upd) (auto simp: ppe_check_def Let_def set_state_updating_def ppe_send_def set_pd_def
        in_use_def split: if_splits)
  moreover have "(m_array (buf e))(i := m_array (buf e') i) = m_array (buf e')" "table e' = table e"
    using res Present_pd st
    by (auto simp: ppe_check_def Let_def set_state_updating_def ppe_send_def set_pd_def split: if_splits)
  ultimately show ?thesis by (simp add: pd_step_def)
qed

lemma process_page_pds:
  assumes inv: "buf_inv (buf e)" and res: "process_page busy w a e = Inr (e', ro, out)"
  shows "pds_step e e'"
proof -
  obtain r t where c: "containing_region a (table e) = (r, t)" by (cases "containing_region a (table e)")
  have t: "rds t = rds (table e)" using containing_region_frame [of a "table e"] c by simp
  let ?e = "e\<lparr>table := t, buf := lock_buffer busy (buf e)\<rparr>"
  have "buf_inv (buf ?e)" using inv by (simp add: buf_inv_def)
  note check = ppe_check_pds [OF this]
  show ?thesis
  proof (cases r)
    case None
    then show ?thesis using res c t
      by (intro pds_step_same) (auto simp: process_page_def)
  next
    case (Some q)
    then have "ppe_check a w q ?e = Inr (e', out)"
      using res c by (auto simp: process_page_def process_page_event_def bindR_eq_Inr_iff)
    from check [OF this] show ?thesis by (simp add: t)
  qed
qed

text \<open>A fill worker leaves every descriptor with its page, an eviction worker frees leaving ones.\<close>

lemma filler_kept:
  assumes res: "filler_step S io_ok busy (w, pc) = Some (Inr (w', pc'))"
  shows "kept (desc w) (desc w')" and "rds (table (eng w')) = rds (table (eng w))"
proof -
  have "kept (desc w) (desc w') \<and> rds (table (eng w')) = rds (table (eng w))"
  proof (cases pc)
    case (F_copied i)
    then show ?thesis using res by (auto simp: kept_def filler_step_def set_pd_def split: if_splits)
  next
    case (F_mark i)
    then show ?thesis using res
      by (auto simp: kept_def filler_step_def bindR_eq_Inr_iff mark_page_as_present_def
          set_state_iff set_pd_def in_use_def split: if_splits)
  qed (use res in \<open>auto simp: kept_refl filler_step_def filler_get_def filler_load_def filler_copy_def
      Let_def bindR_eq_Inr_iff split: prod.splits dequeue_out.splits if_splits option.splits\<close>)
  then show "kept (desc w) (desc w')" "rds (table (eng w')) = rds (table (eng w))" by simp_all
qed

lemma mark_page_as_free_freed:
  assumes res: "mark_page_as_free busy i e = Inr e'"
  shows "freed (m_array (buf e)) (active_of e) (m_array (buf e')) (active_of e')"
proof -
  have st: "state (m_array (buf e) i) = LEAVING"
    using res by (auto simp: mark_page_as_free_def bindR_eq_Inr_iff set_state_iff Let_def split: option.splits)
  obtain r d where r: "region (m_array (buf e) i) = Some r" "state d = FREE"
    "deferred d = deferred (m_array (buf e) i)" "m_array (buf e') = (m_array (buf e))(i := d)"
    and t: "table e' = (table e)\<lparr>rds := (rds (table e))(r := erase_page_descriptor i (rds (table e) r))\<rparr>"
    using res by (rule mark_page_as_free_effect)
  have "active_of e' = (active_of e)(r := active_of e r - {i})"
    by (simp add: t fun_eq_iff erase_page_descriptor_def)
  with r st show ?thesis unfolding freed_def by blast
qed

lemma evictor_frees:
  assumes res: "evictor_step S io_ok busy (w, pc) = Some (Inr (w', pc'))"
  shows "kept (desc w) (desc w') \<and> rds (table (eng w')) = rds (table (eng w))
       \<or> freed (desc w) (active_of (eng w)) (desc w') (active_of (eng w'))"
proof (cases pc)
  case (E_written t i)
  then show ?thesis using res by (auto simp: kept_def evictor_step_def set_pd_def split: if_splits)
next
  case (E_mark i)
  then show ?thesis using res
    by (auto simp: evictor_step_def bindR_eq_Inr_iff dest: mark_page_as_free_freed)
qed (use res in \<open>auto simp: kept_refl evictor_step_def evictor_get_def evictor_protect_def evictor_write_def
    evictor_drop_def Let_def bindR_eq_Inr_iff split: prod.splits dequeue_out.splits if_splits option.splits\<close>)

lemma manager_kept:
  assumes inv: "sys_inv S T n nf ne s" and n: "n < 2 ^ 64"
    and res: "mgr_step busy (sys_eng s, mgr s) = Some (Inr (e, pc))"
  shows "kept (desc (wld s)) (m_array (buf e))" and "table e = table (sys_eng s)"
proof -
  show t: "table e = table (sys_eng s)"
    using res by (auto simp: mgr_step_def schedule_eviction_def bindR_eq_Inr_iff
        split: mgr_pc.splits list.splits prod.splits dequeue_out.splits if_splits)
  show "kept (desc (wld s)) (m_array (buf e))"
  proof (cases "mgr s = M_loop \<and> \<not> low_threshold_reached (buf (sys_eng s))")
    case True
    then obtain new where e: "evict_oldest_pages busy (buf (sys_eng s)) = Inr (buf e, new)"
      using res by (auto simp: mgr_step_def bindR_eq_Inr_iff)
    have "length (m_busy_pages (buf (sys_eng s))) < 2 ^ 64"
      using busy_length [OF sys_invD(1,2) [OF inv]] n by (simp add: core_of_simps)
    from evict_oldest_pages_returns [OF sys_buf_inv [OF inv] this e] show ?thesis
      by (auto simp: kept_def set_leaving_def)
  next
    case False
    then show ?thesis
      using res by (auto simp: kept_refl mgr_step_def schedule_eviction_def
          split: mgr_pc.splits list.splits prod.splits dequeue_out.splits if_splits)
  qed
qed

lemma step_pds:
  assumes step: "sys_step S nf ne s ev s'" and inv: "sys_inv S T n nf ne s" and n: "n < 2 ^ 64"
  shows "pds_step (sys_eng s) (sys_eng s')"
  using step
proof cases
  case step_filler
  with filler_kept show ?thesis by (fastforce simp: pd_step_def)
next
  case step_evictor
  with evictor_frees show ?thesis by (fastforce simp: pd_step_def)
next
  case step_manager
  with manager_kept [OF inv n] show ?thesis by (simp add: pd_step_def)
next
  case step_app
  then show ?thesis by (intro pds_step_same) simp_all
next
  case (step_resume_state a w r e out)
  have "buf_inv (buf ((sys_eng s)\<lparr>buf := end_state_wait (buf (sys_eng s))\<rparr>))"
    using sys_buf_inv [OF inv] by (simp add: buf_inv_def)
  from ppe_check_pds [OF this, of a w r e out] step_resume_state show ?thesis
    by (simp add: ppe_resume_state_def handler_to_def)
next
  case (step_resume_avail a w r e out)
  have "buf_inv (buf ((sys_eng s)\<lparr>buf := end_avail_wait (buf (sys_eng s))\<rparr>))"
    using sys_buf_inv [OF inv] by (simp add: buf_inv_def)
  from ppe_alloc_pds [OF this, of a w r e out] step_resume_avail show ?thesis
    by (simp add: ppe_resume_avail_def handler_to_def)
qed (use process_page_pds [OF sys_buf_inv [OF inv]] in \<open>simp_all add: handler_to_def\<close>)

section \<open>The unmapping thread keeps the invariant of the engine\<close>

text \<open>The flag \<open>deferred\<close> of a descriptor plays no role in what the workers know of its page.\<close>

definition same_but_flag :: "'d face \<Rightarrow> 'd face \<Rightarrow> bool" where
  "same_but_flag f f' \<longleftrightarrow> (\<exists>d v x b. f = (d, v, x) \<and> f' = (d\<lparr>deferred := b\<rparr>, v, x))"

lemma same_but_flag_known:
  assumes "same_but_flag f f'"
  shows "present_f f \<Longrightarrow> present_f f'" and "wait_f f \<Longrightarrow> wait_f f'" and "loaded_f f \<Longrightarrow> loaded_f f'"
    and "fill_own pc = Some (i, P) \<Longrightarrow> P f \<Longrightarrow> P f'"
    and "evict_own loc pc' = Some (i, P') \<Longrightarrow> P' f \<Longrightarrow> P' f'"
proof -
  show "fill_own pc = Some (i, P) \<Longrightarrow> P f \<Longrightarrow> P f'"
    using assms by (cases pc) (auto simp: same_but_flag_def split: option.splits)
  show "evict_own loc pc' = Some (i, P') \<Longrightarrow> P' f \<Longrightarrow> P' f'"
    using assms by (cases pc') (auto simp: same_but_flag_def split: option.splits)
qed (use assms in \<open>auto simp: same_but_flag_def split: option.splits\<close>)

lemma core_defer:
  assumes inv: "core_inv cov loc nf ne c" and st: "state (c_arr c i) \<noteq> FREE"
    and busy: "i \<in> set (c_busy c) \<Longrightarrow> \<not> b \<Longrightarrow> state (c_arr c i) \<in> in_use"
  shows "core_inv cov loc nf ne (c\<lparr>c_arr := (c_arr c)(i := (c_arr c i)\<lparr>deferred := b\<rparr>)\<rparr>)" (is "core_inv _ _ _ _ ?c'")
proof (rule core_invI)
  have f: "same_but_flag (face loc c k) (face loc ?c' k)" for k
    unfolding same_but_flag_def face_def
    by (cases "k = i") (auto intro: exI [of _ "deferred (c_arr c k)"])
  have S: "in_state X ?c' = in_state X c" for X by (auto simp: in_state_def)
  show "pages_ok (c_arr ?c') (c_pres ?c') (c_free ?c') (c_busy ?c')"
    using pages_ok_touch [OF core_invD(1) [OF inv] st, of "(c_arr c i)\<lparr>deferred := b\<rparr>"] st busy by simp
  show "\<exists>r. region (c_arr ?c' k) = Some r \<and> cov r (page (c_arr ?c' k))"
    if "state (c_arr ?c' k) \<noteq> FREE" for k
    using that core_invD(2) [OF inv, of k] by (auto split: if_splits)
  show "c_pv ?c' x = None" if "cov r x" "c_pres ?c' x = None" for r x
    using that core_invD(3) [OF inv, of r x] by simp
  show "present_f (face loc ?c' k)" if "state (c_arr ?c' k) = PRESENT" for k
    using that core_invD(4) [OF inv, of k] same_but_flag_known(1) [OF f] by (auto split: if_splits)
  have "pool_inv fill_own wait_f (face loc ?c') (in_state {FILLING, UPDATING} c) (c_fq c) nf (c_fill c)"
    by (rule pool_inv_mono [OF core_invD(5) [OF inv]])
      (blast intro: same_but_flag_known(2) [OF f], blast intro: same_but_flag_known(4) [OF f])
  then show "pool_inv fill_own wait_f (face loc ?c') (in_state {FILLING, UPDATING} ?c')
      (c_fq ?c') nf (c_fill ?c')" by (simp add: S)
  have "pool_inv (evict_own loc) loaded_f (face loc ?c') (in_state {LEAVING} c) (c_eq c) ne (c_evict c)"
    by (rule pool_inv_mono [OF core_invD(6) [OF inv]])
      (blast intro: same_but_flag_known(3) [OF f], blast intro: same_but_flag_known(5) [OF f])
  then show "pool_inv (evict_own loc) loaded_f (face loc ?c') (in_state {LEAVING} ?c')
      (c_eq ?c') ne (c_evict ?c')" by (simp add: S)
qed

text \<open>The order of the pages that wait for eviction does not matter.\<close>

lemma pool_inv_perm:
  assumes "pool_inv own q F A qs n pcs" and "mset qs' = mset qs"
  shows "pool_inv own q F A qs' n pcs"
proof -
  have "set qs' = set qs" using mset_eq_setD [OF assms(2)] .
  moreover have "tokens own qs' n pcs = tokens own qs n pcs" using assms(2) by (simp add: tokens_def)
  ultimately show ?thesis using assms(1) unfolding pool_inv_def by metis
qed

lemma core_inv_perm:
  assumes inv: "core_inv cov loc nf ne (c\<lparr>c_eq := qs\<rparr>)" and "mset (c_eq c) = mset qs"
  shows "core_inv cov loc nf ne c"
proof (rule core_inv_pools [OF inv])
  have F: "face loc (c\<lparr>c_eq := qs\<rparr>) = face loc c" "in_state X (c\<lparr>c_eq := qs\<rparr>) = in_state X c" for X
    by (simp_all add: face_def fun_eq_iff in_state_def)
  show "pool_inv fill_own wait_f (face loc (c\<lparr>c_eq := qs\<rparr>)) (in_state {FILLING, UPDATING} (c\<lparr>c_eq := qs\<rparr>))
      (c_fq c) nf (c_fill c)" using core_invD(5) [OF inv] by simp
  show "pool_inv (evict_own loc) loaded_f (face loc (c\<lparr>c_eq := qs\<rparr>)) (in_state {LEAVING} (c\<lparr>c_eq := qs\<rparr>))
      (c_eq c) ne (c_evict c)"
    using pool_inv_perm [OF core_invD(6) [OF inv]] assms(2) by simp
qed simp_all

text \<open>Changes of the engine that the invariant does not look at, and the flag.\<close>

abbreviation with_eng :: "engine \<Rightarrow> ('k, 'd) sys \<Rightarrow> ('k, 'd) sys" where
  "with_eng e s \<equiv> s\<lparr>wld := (wld s)\<lparr>eng := e\<rparr>\<rparr>"

lemma with_eng_inv:
  assumes inv: "sys_inv S T n nf ne s"
    and core: "core_inv (covers T) (region_loc T) nf ne (core_of S (with_eng e s))"
    and same: "m_present_pages (buf e) = m_present_pages (buf (sys_eng s))"
      "set (m_free_pages (buf e)) \<subseteq> set (m_free_pages (buf (sys_eng s)))"
      "set (m_busy_pages (buf e)) \<subseteq> set (m_busy_pages (buf (sys_eng s)))"
      "\<And>i. state (m_array (buf e) i) \<noteq> FREE \<Longrightarrow> state (desc (wld s) i) \<noteq> FREE"
    and t: "table_ok (table e)" "same_layout T (table e)" and q: "queues_ok e"
  shows "sys_inv S T n nf ne (with_eng e s)"
proof (rule worker_sys_inv [OF inv core])
  show "in_range n (core_of S (with_eng e s))"
    using sys_invD(2) [OF inv] same by (auto simp: in_range_def core_of_simps)
qed (use same t q in \<open>simp_all add: core_of_simps\<close>)

lemma defer_sys_inv:
  assumes inv: "sys_inv S T n nf ne s" and st: "state (desc (wld s) i) \<noteq> FREE"
    and busy: "\<not> b \<Longrightarrow> i \<in> set (m_busy_pages (buf (sys_eng s))) \<Longrightarrow> state (desc (wld s) i) \<in> in_use"
    and e: "m_array (buf e) = (m_array (buf (sys_eng s)))(i := (desc (wld s) i)\<lparr>deferred := b\<rparr>)"
      "m_present_pages (buf e) = m_present_pages (buf (sys_eng s))"
      "m_free_pages (buf e) = m_free_pages (buf (sys_eng s))"
      "m_busy_pages (buf e) = m_busy_pages (buf (sys_eng s))"
      "fill_workers e = fill_workers (sys_eng s)" "evict_workers e = evict_workers (sys_eng s)"
    and t: "table_ok (table e)" "same_layout T (table e)"
  shows "sys_inv S T n nf ne (with_eng e s)"
proof (rule with_eng_inv [OF inv])
  let ?c = "core_of S s"
  have "core_of S (with_eng e s) = ?c\<lparr>c_arr := (c_arr ?c)(i := (c_arr ?c i)\<lparr>deferred := b\<rparr>)\<rparr>"
    using e by (simp add: core_of_simps)
  moreover have "core_inv (covers T) (region_loc T) nf ne (?c\<lparr>c_arr := (c_arr ?c)(i := (c_arr ?c i)\<lparr>deferred := b\<rparr>)\<rparr>)"
    by (rule core_defer [OF sys_invD(1) [OF inv]]) (use st busy in \<open>simp_all add: core_of_simps\<close>)
  ultimately show "core_inv (covers T) (region_loc T) nf ne (core_of S (with_eng e s))" by simp
  show "queues_ok e" using sys_invD(5) [OF inv] e by (simp add: queues_ok_def)
qed (use e t st in \<open>auto split: if_splits\<close>)

lemma leave_sys_inv:
  assumes inv: "sys_inv S T n nf ne s" and st: "state (desc (wld s) i) = PRESENT" "deferred (desc (wld s) i)"
    and res: "region_leave i (sys_eng s) = Inr (e, pc)"
  shows "sys_inv S T n nf ne (with_eng e s)"
    and "m_array (buf e) = (m_array (buf (sys_eng s)))(i := (desc (wld s) i)\<lparr>state := LEAVING\<rparr>)"
    and "table e = table (sys_eng s)" and "pc = R_wait_free i"
    and "pool_queue (evict_workers e) = pool_queue (evict_workers (sys_eng s)) @ [\<lparr>page_desc = Some i, work_type = EVICT\<rparr>]"
    and "fill_workers e = fill_workers (sys_eng s)"
proof -
  let ?c = "core_of S s" and ?c' = "core_of S (with_eng e s)"
  show arr: "m_array (buf e) = (m_array (buf (sys_eng s)))(i := (desc (wld s) i)\<lparr>state := LEAVING\<rparr>)"
    and t: "table e = table (sys_eng s)" and "pc = R_wait_free i"
    and q: "pool_queue (evict_workers e) = pool_queue (evict_workers (sys_eng s)) @ [\<lparr>page_desc = Some i, work_type = EVICT\<rparr>]"
    and f: "fill_workers e = fill_workers (sys_eng s)"
    using res st by (auto simp: region_leave_def region_wait_free_def set_state_leaving_def set_pd_def
        schedule_eviction_def bindR_eq_Inr_iff)
  have b: "m_present_pages (buf e) = m_present_pages (buf (sys_eng s))"
    "m_free_pages (buf e) = m_free_pages (buf (sys_eng s))" "m_busy_pages (buf e) = m_busy_pages (buf (sys_eng s))"
    using res st by (auto simp: region_leave_def region_wait_free_def set_state_leaving_def set_pd_def
        schedule_eviction_def bindR_eq_Inr_iff)
  let ?c1 = "?c'\<lparr>c_eq := c_eq ?c @ [i]\<rparr>"
  have core: "core_inv (covers T) (region_loc T) nf ne ?c1"
  proof (rule core_leave [OF sys_invD(1) [OF inv], of "[i]"])
    have "pages_ok ((c_arr ?c)(i := (c_arr ?c i)\<lparr>state := LEAVING\<rparr>)) (c_pres ?c) (c_free ?c) (c_busy ?c)"
      using st by (intro pages_ok_touch [OF core_invD(1) [OF sys_invD(1) [OF inv]]]) (simp_all add: core_of_simps)
    then show "pages_ok (c_arr ?c1) (c_pres ?c1) (c_free ?c1) (c_busy ?c1)"
      by (simp add: core_of_simps arr b)
    show "c_arr ?c1 = set_leaving (set [i]) (c_arr ?c)"
      by (simp add: core_of_simps arr set_leaving_def fun_eq_iff)
  qed (use st f b in \<open>simp_all add: core_of_simps\<close>)
  have "mset (c_eq ?c') = mset (c_eq ?c @ [i])" by (simp add: core_of_simps q item_pd_def)
  note core' = core_inv_perm [OF core this]
  show "sys_inv S T n nf ne (with_eng e s)"
  proof (rule with_eng_inv [OF inv core'])
    show "queues_ok e" using sys_invD(5) [OF inv] q f by (auto simp: queues_ok_def item_pd_def)
  qed (use b t arr st sys_invD(3,4) [OF inv] in \<open>auto split: if_splits\<close>)
qed

section \<open>The invariant of the unmapping thread\<close>

text \<open>The descriptor the thread has taken out of the region, and what it knows of it.\<close>

fun region_hand :: "evict_region_pc \<Rightarrow> pd_ref set" where
  "region_hand (R_wait_present i) = {i}"
| "region_hand (R_wait_free i) = {i}"
| "region_hand _ = {}"

definition region_inv :: "rid \<Rightarrow> evict_region_pc \<Rightarrow> engine \<Rightarrow> bool" where
  "region_inv r pc e \<longleftrightarrow>
     active_ok (region_hand pc) (m_array (buf e)) (active_of e)
   \<and> (\<forall>i. pc = R_wait_present i \<longrightarrow>
        state (m_array (buf e) i) \<in> in_use \<and> region (m_array (buf e) i) = Some r \<and> deferred (m_array (buf e) i))"

lemma region_inv_step:
  assumes "region_inv r pc e" and "pds_step e e'"
  shows "region_inv r pc e'"
proof -
  have "state (m_array (buf e') i) \<in> in_use \<and> region (m_array (buf e') i) = Some r \<and> deferred (m_array (buf e') i)"
    if "pc = R_wait_present i" for i
  proof -
    have "state (m_array (buf e) i) \<in> in_use" "region (m_array (buf e) i) = Some r" "deferred (m_array (buf e) i)"
      using assms(1) that by (simp_all add: region_inv_def)
    then show ?thesis
      using assms(2) by (auto simp: pd_step_def kept_def taken_def freed_def in_use_def split: if_splits)
  qed
  then show ?thesis
    using active_ok_step [OF _ assms(2)] assms(1) by (simp add: region_inv_def)
qed

text \<open>\<^verbatim>\<open>begin()\<close> of a set that is not empty yields one of its elements.\<close>

definition begin_ok :: "(pd_ref set \<Rightarrow> pd_ref) \<Rightarrow> bool" where
  "begin_ok begin_of \<longleftrightarrow> (\<forall>A. finite A \<and> A \<noteq> {} \<longrightarrow> begin_of A \<in> A)"

lemma active_finite:
  assumes inv: "sys_inv S T n nf ne s" and ok: "active_ok X (desc (wld s)) (active_of (sys_eng s))"
  shows "finite (active_of (sys_eng s) r)"
proof (rule finite_subset)
  show "active_of (sys_eng s) r \<subseteq> {..<n}"
    using ok sys_invD(2) [OF inv] by (auto simp: active_ok_def in_range_def core_of_simps)
qed simp

lemma active_ok_take:
  assumes ok: "active_ok {} arr act" and i: "i \<in> act r"
    and d: "state d \<noteq> FREE" "region d = region (arr i)"
  shows "active_ok {i} (arr(i := d)) (act(r := act r - {i}))"
proof -
  have mem: "j \<in> (act(r := act r - {i})) q \<longleftrightarrow> j \<in> act q \<and> j \<noteq> i" for j q
    using active_okD(2) [OF ok i] active_okD(2) [OF ok, of i q] by auto
  show ?thesis
    unfolding active_ok_def mem using active_okD [OF ok] d by (simp add: active_okD(2) [OF ok i]) blast
qed

text \<open>The descriptor that is taken out of the region, and the engine without it.\<close>

lemma get_next_taken:
  assumes inv: "sys_inv S T n nf ne s" and ok: "active_ok {} (desc (wld s)) (active_of (sys_eng s))"
    and beg: "begin_ok begin_of"
    and res: "get_next_page_descriptor begin_of (m_array (buf (sys_eng s))) (rds (table (sys_eng s)) r) = (pd, arr, rd)"
  shows "pd = None \<Longrightarrow> active_of (sys_eng s) r = {}"
    and "pd = Some i \<Longrightarrow> i \<in> active_of (sys_eng s) r \<and> arr = m_array (buf (sys_eng s))
      \<and> rd = erase_page_descriptor i (rds (table (sys_eng s)) r)"
proof -
  note fin = active_finite [OF inv ok, of r]
  show "active_of (sys_eng s) r = {}" if "pd = None"
    using res that fin by (auto simp: get_next_page_descriptor_def Let_def split: if_splits)
  show "i \<in> active_of (sys_eng s) r \<and> arr = m_array (buf (sys_eng s))
      \<and> rd = erase_page_descriptor i (rds (table (sys_eng s)) r)" if "pd = Some i"
  proof -
    have i: "i = begin_of (active_of (sys_eng s) r)" "active_of (sys_eng s) r \<noteq> {}"
      and arr: "arr = (m_array (buf (sys_eng s)))(i := (desc (wld s) i)\<lparr>deferred := False\<rparr>)"
      and rd: "rd = erase_page_descriptor i (rds (table (sys_eng s)) r)"
      using res that by (auto simp: get_next_page_descriptor_def Let_def split: if_splits)
    then have mem: "i \<in> active_of (sys_eng s) r" using beg fin by (auto simp: begin_ok_def)
    then have "\<not> deferred (desc (wld s) i)" by (rule active_okD(3) [OF ok])
    then have "(desc (wld s) i)\<lparr>deferred := False\<rparr> = desc (wld s) i" by (cases "desc (wld s) i") simp
    with arr rd mem show ?thesis by simp
  qed
qed

definition erased :: "rid \<Rightarrow> pd_ref \<Rightarrow> RegionTable \<Rightarrow> RegionTable" where
  "erased r i t = t\<lparr>rds := (rds t)(r := erase_page_descriptor i (rds t r))\<rparr>"

lemma erased_ok:
  assumes "sys_inv S T n nf ne s"
  shows "table_ok (erased r i (table (sys_eng s)))" and "same_layout T (erased r i (table (sys_eng s)))"
  using sys_invD(3,4) [OF assms] by (auto simp: erased_def same_layout_def intro!: table_ok_upd)

lemma active_erased:
  "(\<lambda>q. m_active_pages (rds (erased r i t) q))
     = (\<lambda>q. m_active_pages (rds t q))(r := m_active_pages (rds t r) - {i})"
  by (simp add: erased_def fun_eq_iff erase_page_descriptor_def)

text \<open>The engine without the descriptor in the region, and with the descriptor marked.\<close>

definition taken_out :: "rid \<Rightarrow> pd_ref \<Rightarrow> engine \<Rightarrow> engine" where
  "taken_out r i e = e\<lparr>table := erased r i (table e)\<rparr>"

definition marked :: "rid \<Rightarrow> pd_ref \<Rightarrow> engine \<Rightarrow> engine" where
  "marked r i e = (taken_out r i e)\<lparr>buf := set_pd i ((m_array (buf e) i)\<lparr>deferred := True\<rparr>) (buf e)\<rparr>"

text \<open>
  A page that is not leaving is marked and made to leave, at once or when it is present; one
  that is leaving is waited for.
\<close>

lemma region_loop_cases:
  assumes inv: "sys_inv S T n nf ne s" and ok: "active_ok {} (desc (wld s)) (active_of (sys_eng s))"
    and beg: "begin_ok begin_of" and res: "evict_region_step begin_of r (sys_eng s, R_loop) = Some (Inr (e, pc'))"
  obtains (finish) "pc' = R_done" "e = sys_eng s" "active_of (sys_eng s) r = {}"
  | (leaving) i where "i \<in> active_of (sys_eng s) r" "state (desc (wld s) i) = LEAVING"
      "e = (taken_out r i (sys_eng s))\<lparr>buf := begin_state_wait (buf (sys_eng s))\<rparr>" "pc' = R_wait_free i"
  | (present) i where "i \<in> active_of (sys_eng s) r" "state (desc (wld s) i) = PRESENT"
      "region_leave i (marked r i (sys_eng s)) = Inr (e, pc')"
  | (filling) i where "i \<in> active_of (sys_eng s) r" "state (desc (wld s) i) \<in> in_use"
      "e = (marked r i (sys_eng s))\<lparr>buf := begin_state_wait (buf (marked r i (sys_eng s)))\<rparr>" "pc' = R_wait_present i"
proof -
  let ?e = "sys_eng s"
  obtain pd arr rd where g: "get_next_page_descriptor begin_of (m_array (buf ?e)) (rds (table ?e) r) = (pd, arr, rd)"
    by (cases "get_next_page_descriptor begin_of (m_array (buf ?e)) (rds (table ?e) r)")
  show thesis
  proof (cases pd)
    case None
    then show thesis using res g get_next_taken(1) [OF inv ok beg g] finish by (auto simp: evict_region_step_def)
  next
    case (Some i)
    from get_next_taken(2) [OF inv ok beg g this] have i: "i \<in> active_of ?e r"
      and eqs: "arr = m_array (buf ?e)" "rd = erase_page_descriptor i (rds (table ?e) r)" by simp_all
    have st: "state (desc (wld s) i) \<noteq> FREE" by (rule active_okD(1) [OF ok i])
    have "if state (desc (wld s) i) \<noteq> LEAVING then
        (if state (desc (wld s) i) \<noteq> PRESENT
         then (e, pc') = ((marked r i ?e)\<lparr>buf := begin_state_wait (buf (marked r i ?e))\<rparr>, R_wait_present i)
         else region_leave i (marked r i ?e) = Inr (e, pc'))
      else (e, pc') = region_wait_free i (taken_out r i ?e)"
      using res g Some unfolding evict_region_step_def marked_def taken_out_def erased_def
      by (auto simp: eqs Let_def set_pd_def split: if_splits)
    then show thesis using leaving [OF i] present [OF i] filling [OF i] st
      by (cases "state (desc (wld s) i)") (simp_all add: region_wait_free_def in_use_def taken_out_def)
  qed
qed

lemma marked_sys_inv:
  assumes inv: "sys_inv S T n nf ne s" and st: "state (desc (wld s) i) \<noteq> FREE"
  shows "sys_inv S T n nf ne (with_eng (marked r i (sys_eng s)) s)"
  by (rule defer_sys_inv [OF inv st, where b = True])
    (use erased_ok [OF inv] in \<open>simp_all add: marked_def taken_out_def set_pd_def\<close>)

lemma region_take_inv:
  assumes inv: "sys_inv S T n nf ne s" and ri: "region_inv r R_loop (sys_eng s)" and beg: "begin_ok begin_of"
    and res: "evict_region_step begin_of r (sys_eng s, R_loop) = Some (Inr (e, pc'))"
  obtains (finish) "pc' = R_done" "e = sys_eng s" "active_of (sys_eng s) r = {}"
  | (take) i where "i \<in> active_of (sys_eng s) r" "table e = erased r i (table (sys_eng s))"
      "pc' = R_wait_present i \<or> pc' = R_wait_free i" "sys_inv S T n nf ne (with_eng e s)" "region_inv r pc' e"
      "pc' = R_wait_free i \<Longrightarrow> state (m_array (buf e) i) = LEAVING"
      "fill_workers e = fill_workers (sys_eng s)"
      "length (pool_queue (evict_workers e))
         \<le> length (pool_queue (evict_workers (sys_eng s))) + of_bool (pc' = R_wait_free i)"
proof -
  let ?e = "sys_eng s"
  have ok: "active_ok {} (desc (wld s)) (active_of ?e)" using ri by (simp add: region_inv_def)
  have take_ok: "active_ok {i} ((desc (wld s))(i := d)) (active_of (taken_out r i ?e))"
    if "i \<in> active_of ?e r" "state d \<noteq> FREE" "region d = region (desc (wld s) i)" for i d
    using active_ok_take [OF ok that] by (simp add: active_erased taken_out_def)
  from inv ok beg res show thesis
  proof (cases rule: region_loop_cases)
    case (leaving i)
    have "sys_inv S T n nf ne (with_eng e s)"
      by (rule with_eng_inv [OF inv])
        (use leaving(3) sys_invD(1,5) [OF inv] erased_ok [OF inv] in \<open>simp_all add: core_of_simps queues_ok_def taken_out_def\<close>)
    moreover have "region_inv r pc' e"
      using take_ok [OF leaving(1), of "desc (wld s) i"] leaving by (simp add: region_inv_def taken_out_def)
    ultimately show thesis using leaving by (intro take [of i]) (simp_all add: taken_out_def)
  next
    case (present i)
    let ?s2 = "with_eng (marked r i ?e) s"
    have "state (desc (wld ?s2) i) = PRESENT" "deferred (desc (wld ?s2) i)"
      using present(2) by (simp_all add: marked_def taken_out_def set_pd_def)
    moreover have inv2: "sys_inv S T n nf ne ?s2" using marked_sys_inv [OF inv] present(2) by simp
    ultimately have leave: "sys_inv S T n nf ne (with_eng e ?s2)"
      "m_array (buf e) = (m_array (buf (marked r i ?e)))(i := (m_array (buf (marked r i ?e)) i)\<lparr>state := LEAVING\<rparr>)"
      "table e = table (marked r i ?e)" "pc' = R_wait_free i"
      "pool_queue (evict_workers e) = pool_queue (evict_workers (marked r i ?e)) @ [\<lparr>page_desc = Some i, work_type = EVICT\<rparr>]"
      "fill_workers e = fill_workers (marked r i ?e)"
      using leave_sys_inv [OF inv2, of i e pc'] present(3) by simp_all
    have "region_inv r pc' e"
      using leave(2-4) take_ok [OF present(1), of "(desc (wld s) i)\<lparr>deferred := True, state := LEAVING\<rparr>"]
      by (simp add: region_inv_def marked_def taken_out_def set_pd_def)
    then show thesis using present(1) leave
      by (intro take [of i]) (simp_all add: marked_def taken_out_def set_pd_def)
  next
    case (filling i)
    note st = active_okD(1,2) [OF ok filling(1)]
    note inv2 = marked_sys_inv [OF inv st(1), of r]
    have "sys_inv S T n nf ne (with_eng e s)"
      using with_eng_inv [OF inv2, of e] sys_invD(1,3-5) [OF inv2] filling(3)
      by (simp add: core_of_simps queues_ok_def)
    moreover have "region_inv r pc' e"
      using take_ok [OF filling(1), of "(desc (wld s) i)\<lparr>deferred := True\<rparr>"] st filling
      by (simp add: region_inv_def marked_def taken_out_def set_pd_def)
    ultimately show thesis using filling by (intro take [of i]) (simp_all add: marked_def taken_out_def)
  qed (use finish in blast)
qed

lemma region_wait_inv:
  assumes inv: "sys_inv S T n nf ne s" and ri: "region_inv r pc (sys_eng s)"
    and pc: "pc = R_wait_present i \<or> pc = R_wait_free i"
    and res: "evict_region_step begin_of r (sys_eng s, pc) = Some (Inr (e, pc'))"
  shows "sys_inv S T n nf ne (with_eng e s)" and "region_inv r pc' e" and "pc' \<noteq> R_done"
    and "table e = table (sys_eng s)"
proof -
  let ?e = "sys_eng s" and ?e1 = "(sys_eng s)\<lparr>buf := end_state_wait (buf (sys_eng s))\<rparr>"
  have quiet: "sys_inv S T n nf ne (with_eng ((sys_eng s)\<lparr>buf := b\<rparr>) s)"
    if "m_array b = m_array (buf ?e)" "m_present_pages b = m_present_pages (buf ?e)"
      "m_free_pages b = m_free_pages (buf ?e)" "m_busy_pages b = m_busy_pages (buf ?e)" for b
    by (rule with_eng_inv [OF inv]) (use that sys_invD(1,3-5) [OF inv] in \<open>simp_all add: core_of_simps queues_ok_def\<close>)
  have "sys_inv S T n nf ne (with_eng e s) \<and> region_inv r pc' e \<and> pc' \<noteq> R_done \<and> table e = table ?e"
  proof (cases "pc = R_wait_present i \<and> state (desc (wld s) i) = PRESENT")
    case True
    then have lv: "region_leave i ?e1 = Inr (e, pc')" using res by (simp add: evict_region_step_def)
    have d: "deferred (desc (wld s) i)" "region (desc (wld s) i) = Some r" and ok: "active_ok {i} (desc (wld s)) (active_of ?e)"
      using ri True by (simp_all add: region_inv_def)
    have "sys_inv S T n nf ne (with_eng ?e1 s)" by (rule quiet) simp_all
    note leave = leave_sys_inv [OF this, of i e pc', simplified, OF conjunct2 [OF True] d(1) lv]
    have "active_ok {i} ((desc (wld s))(i := (desc (wld s) i)\<lparr>state := LEAVING\<rparr>)) (active_of ?e)"
      using True by (intro active_ok_same [OF ok]) simp
    then show ?thesis using leave by (simp add: region_inv_def)
  next
    case False
    then have e: "e = (if pc' = R_loop then ?e1 else ?e1\<lparr>buf := begin_state_wait (buf ?e1)\<rparr>)"
      "pc' = pc \<or> pc = R_wait_free i \<and> pc' = R_loop \<and> state (desc (wld s) i) = FREE"
      using res pc by (auto simp: evict_region_step_def region_wait_free_def split: if_splits)
    then have same: "m_array (buf e) = desc (wld s)" "table e = table ?e" by simp_all
    have "active_ok {} (desc (wld s)) (active_of ?e)" if "pc = R_wait_free i" "state (desc (wld s) i) = FREE"
      using ri that by (auto simp: region_inv_def active_ok_def)
    then have "region_inv r pc' e" using ri e(2) same pc by (auto simp: region_inv_def)
    moreover have "sys_inv S T n nf ne (with_eng e s)" using e(1) quiet by simp
    ultimately show ?thesis using e(2) pc same by auto
  qed
  then show "sys_inv S T n nf ne (with_eng e s)" "region_inv r pc' e" "pc' \<noteq> R_done" "table e = table ?e" by simp_all
qed

lemma region_step_inv:
  assumes inv: "sys_inv S T n nf ne s" and ri: "region_inv r pc (sys_eng s)" and beg: "begin_ok begin_of"
    and res: "evict_region_step begin_of r (sys_eng s, pc) = Some (Inr (e, pc'))"
  shows "sys_inv S T n nf ne (with_eng e s)" and "region_inv r pc' e"
    and "pc' = R_done \<Longrightarrow> active_of e r = {}"
proof -
  have "sys_inv S T n nf ne (with_eng e s) \<and> region_inv r pc' e \<and> (pc' = R_done \<longrightarrow> active_of e r = {})"
  proof (cases pc)
    case R_loop
    from inv ri [unfolded R_loop] beg res [unfolded R_loop] show ?thesis
    proof (cases rule: region_take_inv)
      case finish
      then show ?thesis using inv ri R_loop by (simp add: region_inv_def)
    qed auto
  next
    case (R_wait_present i)
    with region_wait_inv [OF inv ri _ res] show ?thesis by blast
  next
    case (R_wait_free i)
    with region_wait_inv [OF inv ri _ res] show ?thesis by blast
  next
    case R_done
    with res show ?thesis by (simp add: evict_region_step_def)
  qed
  then show "sys_inv S T n nf ne (with_eng e s)" "region_inv r pc' e" "pc' = R_done \<Longrightarrow> active_of e r = {}"
    by simp_all
qed

lemma region_step_no_error: "evict_region_step begin_of r (e, pc) \<noteq> Some (Inl err)"
  by (auto simp: evict_region_step_def region_leave_def set_state_leaving_def bindR_def set_pd_def Let_def
      split: evict_region_pc.splits option.splits prod.splits if_splits)

section \<open>Runs with an unmapping thread\<close>

text \<open>
  The steps of the thread that unmaps region \<open>r\<close> among those of all others. Between two steps of
  the thread without a wait in between the mutex is held, so that the source has fewer
  interleavings than these. The run ends when the thread is done.
\<close>

inductive unmap_run ::
  "('k, 'd) setting \<Rightarrow> nat \<Rightarrow> nat \<Rightarrow> (pd_ref set \<Rightarrow> pd_ref) \<Rightarrow> rid \<Rightarrow> ('k, 'd) sys \<Rightarrow> evict_region_pc
     \<Rightarrow> 'd event list \<Rightarrow> ('k, 'd) sys \<Rightarrow> evict_region_pc \<Rightarrow> bool"
  for S nf ne begin_of r s0 pc0 where
  unmap_start: "unmap_run S nf ne begin_of r s0 pc0 [] s0 pc0"
| unmap_other:
    "unmap_run S nf ne begin_of r s0 pc0 tr s pc \<Longrightarrow> pc \<noteq> R_done \<Longrightarrow> sys_step S nf ne s ev s' \<Longrightarrow>
     unmap_run S nf ne begin_of r s0 pc0 (tr @ [ev]) s' pc"
| unmap_region:
    "unmap_run S nf ne begin_of r s0 pc0 tr s pc \<Longrightarrow>
     evict_region_step begin_of r (sys_eng s, pc) = Some (Inr (e, pc')) \<Longrightarrow>
     unmap_run S nf ne begin_of r s0 pc0 tr (with_eng e s) pc'"

section \<open>The workers bring an unmapping to its end\<close>

definition no_exit :: "nat \<Rightarrow> nat \<Rightarrow> ('k, 'd) sys \<Rightarrow> bool" where
  "no_exit nf ne s \<longleftrightarrow> (\<forall>j<nf. fillers s j \<noteq> F_exit) \<and> (\<forall>j<ne. evictors s j \<noteq> E_exit)"

lemma filler_no_exit:
  assumes q: "queues_ok (eng w)" and res: "filler_step S io_ok busy (w, pc) = Some (Inr (w', pc'))"
  shows "pc' \<noteq> F_exit"
proof (cases pc)
  case F_get
  then obtain p item where g: "get_work (fill_workers (eng w)) = (p, Got item)"
    and "pc' = F_exit \<longrightarrow> work_type item = EXIT"
    using res by (auto simp: filler_step_def filler_get_def Let_def
        split: prod.splits dequeue_out.splits if_splits option.splits)
  moreover have "item = fill_item (item_pd item)" using q get_work_Got [OF g] by (simp add: queues_ok_def)
  then have "work_type item = NONE" by (metis WorkItem.select_convs(2) fill_item_def)
  ultimately show ?thesis by auto
qed (use res in \<open>auto simp: filler_step_def filler_load_def filler_copy_def Let_def bindR_eq_Inr_iff
    split: if_splits option.splits\<close>)

lemma evictor_no_exit:
  assumes q: "queues_ok (eng w)" and res: "evictor_step S io_ok busy (w, pc) = Some (Inr (w', pc'))"
  shows "pc' \<noteq> E_exit"
proof (cases pc)
  case E_get
  then obtain p item where g: "get_work (evict_workers (eng w)) = (p, Got item)"
    and "pc' = E_exit \<longrightarrow> work_type item = EXIT"
    using res by (auto simp: evictor_step_def evictor_get_def Let_def
        split: prod.splits dequeue_out.splits if_splits option.splits)
  moreover have "item = \<lparr>page_desc = Some (item_pd item), work_type = EVICT\<rparr>"
    using q get_work_Got [OF g] by (simp add: queues_ok_def)
  then have "work_type item = EVICT" by (metis WorkItem.select_convs(2))
  ultimately show ?thesis by auto
qed (use res in \<open>auto simp: evictor_step_def evictor_protect_def evictor_write_def evictor_drop_def
    Let_def bindR_eq_Inr_iff split: if_splits option.splits\<close>)

lemma step_no_exit:
  assumes step: "sys_step S nf ne s ev s'" and inv: "sys_inv S T n nf ne s" and x: "no_exit nf ne s"
  shows "no_exit nf ne s'"
  using step x filler_no_exit [OF sys_invD(5) [OF inv]] evictor_no_exit [OF sys_invD(5) [OF inv]]
  by cases (fastforce simp: no_exit_def handler_to_def)+

lemma unmap_run_inv:
  assumes run: "unmap_run S nf ne begin_of r s0 pc0 tr s pc" and beg: "begin_ok begin_of" and S: "setting_ok S"
    and start: "sys_inv S T n nf ne s0" "region_inv r pc0 (sys_eng s0)" "no_exit nf ne s0"
      "pc0 = R_done \<Longrightarrow> active_of (sys_eng s0) r = {}"
    and ap: "apart (covers T) (region_loc T)" and n: "n < 2 ^ 64"
  shows "sys_inv S T n nf ne s \<and> region_inv r pc (sys_eng s) \<and> no_exit nf ne s \<and> (pc = R_done \<longrightarrow> active_of (sys_eng s) r = {})
    \<and> (\<forall>q a. covers T q a \<longrightarrow>
         page_contents S T (wld s) q a = fold (flat_step a) tr (page_contents S T (wld s0) q a))"
  using run
proof induction
  case unmap_start
  then show ?case using start by simp
next
  case (unmap_other tr s pc ev s')
  then have inv: "sys_inv S T n nf ne s" and ri: "region_inv r pc (sys_eng s)" by simp_all
  have "sys_inv S T n nf ne s'"
    using step_sys_inv [OF unmap_other.hyps(3) inv ap n] S by (simp add: setting_ok_def)
  moreover have "region_inv r pc (sys_eng s')"
    by (rule region_inv_step [OF ri step_pds [OF unmap_other.hyps(3) inv n]])
  moreover have "no_exit nf ne s'" using step_no_exit [OF unmap_other.hyps(3) inv] unmap_other.IH by simp
  moreover have "page_contents S T (wld s') q a = fold (flat_step a) (tr @ [ev]) (page_contents S T (wld s0) q a)"
    if "covers T q a" for q a
    using step_contents [OF unmap_other.hyps(3) inv S ap that] unmap_other.IH that by simp
  ultimately show ?case using unmap_other.hyps(2) by simp
next
  case (unmap_region tr s pc e pc')
  then have inv: "sys_inv S T n nf ne s" and ri: "region_inv r pc (sys_eng s)" by simp_all
  note step = region_step_inv [OF inv ri beg unmap_region.hyps(2)]
  then show ?case using unmap_region.IH by (simp add: page_contents_def no_exit_def)
qed

text \<open>What a worker still has to do with the page in its hand.\<close>

fun fill_work :: "'d fill_pc \<Rightarrow> nat" where
  "fill_work (F_item i) = 4"
| "fill_work (F_read i y) = 3"
| "fill_work (F_copied i) = 2"
| "fill_work (F_mark i) = 1"
| "fill_work _ = 0"

fun evict_work :: "evict_pc \<Rightarrow> nat" where
  "evict_work (E_item t i) = 5"
| "evict_work (E_protected t i st off) = 4"
| "evict_work (E_written t i) = 3"
| "evict_work (E_clean t i) = 2"
| "evict_work (E_mark i) = 1"
| "evict_work _ = 0"

fun region_work :: "evict_region_pc \<Rightarrow> nat" where
  "region_work R_loop = 1"
| "region_work (R_wait_present i) = 9"
| "region_work (R_wait_free i) = 2"
| "region_work R_done = 0"

definition unmap_left :: "nat \<Rightarrow> nat \<Rightarrow> rid \<Rightarrow> ('k, 'd) sys \<Rightarrow> evict_region_pc \<Rightarrow> nat" where
  "unmap_left nf ne r s pc =
     5 * length (pool_queue (fill_workers (sys_eng s))) + (\<Sum>j<nf. fill_work (fillers s j))
   + 6 * length (pool_queue (evict_workers (sys_eng s))) + (\<Sum>j<ne. evict_work (evictors s j))
   + 20 * card (active_of (sys_eng s) r) + region_work pc"

lemma filler_work_less:
  assumes "filler_step S io_ok busy (w, pc) = Some (Inr (w', pc'))"
  shows "5 * length (pool_queue (fill_workers (eng w'))) + fill_work pc'
       < 5 * length (pool_queue (fill_workers (eng w))) + fill_work pc"
proof (cases pc)
  case F_get
  then obtain p item where "get_work (fill_workers (eng w)) = (p, Got item)" "fill_workers (eng w') = p"
    "fill_work pc' < 5"
    using assms by (auto simp: filler_step_def filler_get_def Let_def
        split: prod.splits dequeue_out.splits if_splits option.splits)
  with F_get get_work_Got show ?thesis by fastforce
qed (use assms in \<open>auto simp: filler_step_def filler_load_def filler_copy_def mark_page_as_present_def
    Let_def bindR_eq_Inr_iff split: if_splits option.splits\<close>)

lemma evictor_work_less:
  assumes "evictor_step S io_ok busy (w, pc) = Some (Inr (w', pc'))"
  shows "6 * length (pool_queue (evict_workers (eng w'))) + evict_work pc'
       < 6 * length (pool_queue (evict_workers (eng w))) + evict_work pc"
    and "fill_workers (eng w') = fill_workers (eng w)"
proof -
  have "6 * length (pool_queue (evict_workers (eng w'))) + evict_work pc'
       < 6 * length (pool_queue (evict_workers (eng w))) + evict_work pc
     \<and> fill_workers (eng w') = fill_workers (eng w)"
  proof (cases pc)
    case E_get
    then obtain p item where "get_work (evict_workers (eng w)) = (p, Got item)" "evict_workers (eng w') = p"
      "evict_work pc' < 6" "fill_workers (eng w') = fill_workers (eng w)"
      using assms by (auto simp: evictor_step_def evictor_get_def Let_def
          split: prod.splits dequeue_out.splits if_splits option.splits)
    with E_get get_work_Got show ?thesis by fastforce
  next
    case (E_mark i)
    then obtain e where "mark_page_as_free busy i (eng w) = Inr e" "w' = w\<lparr>eng := e\<rparr>" "pc' = E_get"
      using assms by (auto simp: evictor_step_def bindR_eq_Inr_iff)
    with E_mark show ?thesis by (auto elim!: mark_page_as_free_effect)
  qed (use assms in \<open>auto simp: evictor_step_def evictor_protect_def evictor_write_def evictor_drop_def
      Let_def bindR_eq_Inr_iff split: if_splits option.splits\<close>)
  then show "6 * length (pool_queue (evict_workers (eng w'))) + evict_work pc'
       < 6 * length (pool_queue (evict_workers (eng w))) + evict_work pc"
    and "fill_workers (eng w') = fill_workers (eng w)" by simp_all
qed

text \<open>A page on its way in or out is with a worker or in a queue, and some worker can go on.\<close>

lemma get_work_some: "pool_queue p \<noteq> [] \<Longrightarrow> \<exists>p' item. get_work p = (p', Got item)"
  by (cases "pool_queue p") (auto simp: get_work_def wq_defs)

lemma filler_can_step:
  assumes inv: "sys_inv S T n nf ne s" and S: "setting_ok S" and x: "no_exit nf ne s" and nf: "0 < nf"
    and st: "state (desc (wld s) i) \<in> {FILLING, UPDATING}"
  obtains j w pc where "j < nf" and "filler_step S True False (wld s, fillers s j) = Some (Inr (w, pc))"
proof -
  have "i \<in># tokens fill_own (c_fq (core_of S s)) nf (c_fill (core_of S s))"
    using pool_inv_tokens [OF core_invD(5) [OF sys_invD(1) [OF inv]]] st by (simp add: in_state_def core_of_simps)
  then have "pool_queue (fill_workers (sys_eng s)) \<noteq> [] \<or> (\<exists>j<nf. fillers s j \<noteq> F_get)"
    by (rule in_tokensE) (auto simp: core_of_simps)
  then obtain j where j: "j < nf" "fillers s j \<noteq> F_get \<or> pool_queue (fill_workers (sys_eng s)) \<noteq> []"
    using nf by blast
  then have "fillers s j \<noteq> F_exit" using x by (simp add: no_exit_def)
  then have "filler_step S True False (wld s, fillers s j) \<noteq> None"
    using j(2) get_work_some [of "fill_workers (sys_eng s)"]
    by (cases "fillers s j") (auto simp: filler_step_def filler_get_def Let_def split: option.splits)
  moreover have "filler_step S True False (wld s, fillers s j) \<noteq> Some (Inl err)" for err
    by (rule filler_no_error [OF inv S j(1)])
  ultimately obtain w pc where "filler_step S True False (wld s, fillers s j) = Some (Inr (w, pc))"
    by (metis not_None_eq obj_sumE surj_pair)
  with j(1) show thesis by (rule that)
qed

lemma evictor_can_step:
  fixes s :: "('k, 'd) sys"
  assumes inv: "sys_inv S T n nf ne s" and S: "setting_ok S" and x: "no_exit nf ne s" and ne: "0 < ne"
    and m: "mgr_list (mgr s) = []" and st: "state (desc (wld s) i) = LEAVING"
  obtains j w pc where "j < ne" and "evictor_step S True False (wld s, evictors s j) = Some (Inr (w, pc))"
proof -
  have "i \<in># tokens (evict_own (region_loc T) :: evict_pc \<Rightarrow> (pd_ref \<times> ('d face \<Rightarrow> bool)) option)
      (c_eq (core_of S s)) ne (c_evict (core_of S s))"
    using pool_inv_tokens [OF core_invD(6) [OF sys_invD(1) [OF inv]]] st by (simp add: in_state_def core_of_simps)
  then have "pool_queue (evict_workers (sys_eng s)) \<noteq> [] \<or> (\<exists>j<ne. evictors s j \<noteq> E_get)"
    by (rule in_tokensE) (auto simp: core_of_simps m)
  then obtain j where j: "j < ne" "evictors s j \<noteq> E_get \<or> pool_queue (evict_workers (sys_eng s)) \<noteq> []"
    using ne by blast
  then have "evictors s j \<noteq> E_exit" using x by (simp add: no_exit_def)
  then have "evictor_step S True False (wld s, evictors s j) \<noteq> None"
    using j(2) get_work_some [of "evict_workers (sys_eng s)"]
    by (cases "evictors s j") (auto simp: evictor_step_def evictor_get_def Let_def split: option.splits)
  moreover have "evictor_step S True False (wld s, evictors s j) \<noteq> Some (Inl err)" for err
    by (rule evictor_no_error [OF inv S j(1)])
  ultimately obtain w pc where "evictor_step S True False (wld s, evictors s j) = Some (Inr (w, pc))"
    by (metis not_None_eq obj_sumE surj_pair)
  with j(1) show thesis by (rule that)
qed

text \<open>The thread waits for the release of a page that is leaving and not for one that is in use again.\<close>

definition unmap_ready :: "('k, 'd) setting \<Rightarrow> RegionTable \<Rightarrow> nat \<Rightarrow> nat \<Rightarrow> nat \<Rightarrow> rid \<Rightarrow> ('k, 'd) sys \<Rightarrow> evict_region_pc \<Rightarrow> bool" where
  "unmap_ready S T n nf ne r s pc \<longleftrightarrow>
     sys_inv S T n nf ne s \<and> region_inv r pc (sys_eng s) \<and> no_exit nf ne s \<and> mgr_list (mgr s) = []
   \<and> (\<forall>i. pc = R_wait_free i \<longrightarrow> state (desc (wld s) i) \<in> {LEAVING, FREE})"

lemma unmap_readyD:
  assumes "unmap_ready S T n nf ne r s pc"
  shows "sys_inv S T n nf ne s" and "region_inv r pc (sys_eng s)" and "no_exit nf ne s"
    and "mgr_list (mgr s) = []" and "pc = R_wait_free i \<Longrightarrow> state (desc (wld s) i) \<in> {LEAVING, FREE}"
  using assms by (simp_all add: unmap_ready_def)

lemma filler_unmap:
  assumes u: "unmap_ready S T n nf ne r s pc" and S: "setting_ok S" and ap: "apart (covers T) (region_loc T)"
    and n: "n < 2 ^ 64" and j: "j < nf" and res: "filler_step S True False (wld s, fillers s j) = Some (Inr (w, fpc))"
  shows "unmap_ready S T n nf ne r (s\<lparr>wld := w, fillers := (fillers s)(j := fpc)\<rparr>) pc" (is "unmap_ready _ _ _ _ _ _ ?s' _")
    and "unmap_left nf ne r (s\<lparr>wld := w, fillers := (fillers s)(j := fpc)\<rparr>) pc < unmap_left nf ne r s pc"
proof -
  note inv = unmap_readyD(1) [OF u]
  note step = step_filler [OF j res, where ne = ne]
  have "sys_inv S T n nf ne ?s'" using step_sys_inv [OF step inv ap n] S by (simp add: setting_ok_def)
  moreover have "region_inv r pc (sys_eng ?s')"
    by (rule region_inv_step [OF unmap_readyD(2) [OF u] step_pds [OF step inv n]])
  moreover have "state (desc (wld ?s') i) \<in> {LEAVING, FREE}" if "pc = R_wait_free i" for i
    using unmap_readyD(5) [OF u that] filler_kept(1) [OF res] by (auto simp: kept_def)
  ultimately show "unmap_ready S T n nf ne r ?s' pc"
    using step_no_exit [OF step inv unmap_readyD(3) [OF u]] unmap_readyD(4) [OF u] by (simp add: unmap_ready_def)
  show "unmap_left nf ne r ?s' pc < unmap_left nf ne r s pc"
    using filler_work_less [OF res] sum_pcs_upd [OF j, of fill_work "fillers s" fpc]
      filler_kept(2) [OF res] filler_ghost(2) [OF res] by (simp add: unmap_left_def)
qed

lemma evictor_unmap:
  assumes u: "unmap_ready S T n nf ne r s pc" and S: "setting_ok S" and ap: "apart (covers T) (region_loc T)"
    and n: "n < 2 ^ 64" and j: "j < ne" and res: "evictor_step S True False (wld s, evictors s j) = Some (Inr (w, epc))"
  shows "unmap_ready S T n nf ne r (s\<lparr>wld := w, evictors := (evictors s)(j := epc)\<rparr>) pc" (is "unmap_ready _ _ _ _ _ _ ?s' _")
    and "unmap_left nf ne r (s\<lparr>wld := w, evictors := (evictors s)(j := epc)\<rparr>) pc < unmap_left nf ne r s pc"
proof -
  note inv = unmap_readyD(1) [OF u]
  note step = step_evictor [OF j res, where nf = nf]
  have "sys_inv S T n nf ne ?s'" using step_sys_inv [OF step inv ap n] S by (simp add: setting_ok_def)
  moreover have "region_inv r pc (sys_eng ?s')"
    by (rule region_inv_step [OF unmap_readyD(2) [OF u] step_pds [OF step inv n]])
  moreover have "state (desc (wld ?s') i) \<in> {LEAVING, FREE}" if "pc = R_wait_free i" for i
    using unmap_readyD(5) [OF u that] evictor_frees [OF res] by (auto simp: kept_def freed_def split: if_splits)
  ultimately show "unmap_ready S T n nf ne r ?s' pc"
    using step_no_exit [OF step inv unmap_readyD(3) [OF u]] unmap_readyD(4) [OF u] by (simp add: unmap_ready_def)
  have "finite (active_of (sys_eng s) r)"
    using active_finite [OF inv, of "region_hand pc"] unmap_readyD(2) [OF u] by (simp add: region_inv_def)
  moreover have "active_of (eng w) r \<subseteq> active_of (sys_eng s) r"
    using evictor_frees [OF res] by (auto simp: freed_def fun_eq_iff split: if_splits)
  ultimately have "card (active_of (eng w) r) \<le> card (active_of (sys_eng s) r)" by (rule card_mono)
  then show "unmap_left nf ne r ?s' pc < unmap_left nf ne r s pc"
    using evictor_work_less [OF res] sum_pcs_upd [OF j, of evict_work "evictors s" epc]
    by (simp add: unmap_left_def)
qed

lemma region_unmap_loop:
  assumes u: "unmap_ready S T n nf ne r s R_loop" and beg: "begin_ok begin_of"
  shows "\<exists>e pc'. evict_region_step begin_of r (sys_eng s, R_loop) = Some (Inr (e, pc'))
     \<and> unmap_ready S T n nf ne r (with_eng e s) pc' \<and> unmap_left nf ne r (with_eng e s) pc' < unmap_left nf ne r s R_loop"
proof -
  note inv = unmap_readyD(1) [OF u] and ri = unmap_readyD(2) [OF u]
  have "evict_region_step begin_of r (sys_eng s, R_loop) \<noteq> None"
    by (auto simp: evict_region_step_def Let_def split: option.splits prod.splits)
  then obtain e pc' where res: "evict_region_step begin_of r (sys_eng s, R_loop) = Some (Inr (e, pc'))"
    using region_step_no_error by (metis not_None_eq obj_sumE surj_pair)
  have fin: "finite (active_of (sys_eng s) r)"
    using active_finite [OF inv, of "{}"] ri by (simp add: region_inv_def)
  from inv ri beg res
  have "unmap_ready S T n nf ne r (with_eng e s) pc' \<and> unmap_left nf ne r (with_eng e s) pc' < unmap_left nf ne r s R_loop"
  proof (cases rule: region_take_inv)
    case finish
    then show ?thesis using u by (simp add: unmap_ready_def unmap_left_def region_inv_def)
  next
    case (take i)
    have "active_of e r = active_of (sys_eng s) r - {i}"
      using fun_cong [OF active_erased, of r i "table (sys_eng s)" r] take(2) by simp
    then have "card (active_of e r) < card (active_of (sys_eng s) r)"
      using card_Diff1_less [OF fin take(1)] by simp
    then have "unmap_left nf ne r (with_eng e s) pc' < unmap_left nf ne r s R_loop"
      using take(3,7,8) by (auto simp: unmap_left_def)
    moreover have "unmap_ready S T n nf ne r (with_eng e s) pc'"
      using take u by (auto simp: unmap_ready_def no_exit_def)
    ultimately show ?thesis by simp
  qed
  with res show ?thesis by blast
qed

lemma region_unmap_wait:
  assumes u: "unmap_ready S T n nf ne r s pc"
    and pc: "pc = R_wait_present i \<and> state (desc (wld s) i) = PRESENT \<or> pc = R_wait_free i \<and> state (desc (wld s) i) = FREE"
  shows "\<exists>e pc'. evict_region_step begin_of r (sys_eng s, pc) = Some (Inr (e, pc'))
     \<and> unmap_ready S T n nf ne r (with_eng e s) pc' \<and> unmap_left nf ne r (with_eng e s) pc' < unmap_left nf ne r s pc"
proof -
  note inv = unmap_readyD(1) [OF u] and ri = unmap_readyD(2) [OF u]
  have "evict_region_step begin_of r (sys_eng s, pc) \<noteq> None"
    using pc by (auto simp: evict_region_step_def Let_def)
  then obtain e pc' where res: "evict_region_step begin_of r (sys_eng s, pc) = Some (Inr (e, pc'))"
    using region_step_no_error by (metis not_None_eq obj_sumE surj_pair)
  have w: "sys_inv S T n nf ne (with_eng e s)" "region_inv r pc' e" "table e = table (sys_eng s)"
    using region_wait_inv [OF inv ri _ res] pc by blast+
  have "fill_workers e = fill_workers (sys_eng s)
    \<and> (pc' = R_wait_free i \<and> state (m_array (buf e) i) = LEAVING \<and> pc = R_wait_present i
         \<and> length (pool_queue (evict_workers e)) = Suc (length (pool_queue (evict_workers (sys_eng s))))
       \<or> pc' = R_loop \<and> pc = R_wait_free i \<and> evict_workers e = evict_workers (sys_eng s))"
    using res pc by (auto simp: evict_region_step_def region_leave_def region_wait_free_def set_state_leaving_def
        set_pd_def schedule_eviction_def bindR_eq_Inr_iff Let_def split: if_splits)
  with w have "unmap_ready S T n nf ne r (with_eng e s) pc'" "unmap_left nf ne r (with_eng e s) pc' < unmap_left nf ne r s pc"
    using u by (auto simp: unmap_ready_def no_exit_def unmap_left_def)
  with res show ?thesis by blast
qed

lemma unmap_run_trans:
  assumes "unmap_run S nf ne begin_of r s0 pc0 tr s pc" and "unmap_run S nf ne begin_of r s pc tr' s' pc'"
  shows "unmap_run S nf ne begin_of r s0 pc0 (tr @ tr') s' pc'"
  using assms(2)
proof induction
  case unmap_start
  then show ?case using assms(1) by simp
next
  case (unmap_other tr' s1 pc1 ev s2)
  from unmap_run.unmap_other [OF unmap_other.IH unmap_other.hyps(2,3)] show ?case by simp
next
  case (unmap_region tr' s1 pc1 e pc2)
  from unmap_run.unmap_region [OF unmap_region.IH unmap_region.hyps(2)] show ?case .
qed

lemma unmap_progress:
  assumes u: "unmap_ready S T n nf ne r s pc" and pc: "pc \<noteq> R_done" and beg: "begin_ok begin_of"
    and S: "setting_ok S" and ap: "apart (covers T) (region_loc T)" and n: "n < 2 ^ 64" and workers: "0 < nf" "0 < ne"
  obtains tr s' pc' where "unmap_run S nf ne begin_of r s pc tr s' pc'" and "set tr \<subseteq> {Internal}"
    and "handler s' = handler s" and "unmap_ready S T n nf ne r s' pc'" and "unmap_left nf ne r s' pc' < unmap_left nf ne r s pc"
proof -
  note inv = unmap_readyD(1) [OF u] and x = unmap_readyD(3) [OF u] and result = that
  have region: thesis if ex: "\<exists>e pc'. evict_region_step begin_of r (sys_eng s, pc) = Some (Inr (e, pc'))
     \<and> unmap_ready S T n nf ne r (with_eng e s) pc' \<and> unmap_left nf ne r (with_eng e s) pc' < unmap_left nf ne r s pc"
  proof -
    obtain e pc' where "evict_region_step begin_of r (sys_eng s, pc) = Some (Inr (e, pc'))"
      and "unmap_ready S T n nf ne r (with_eng e s) pc'" "unmap_left nf ne r (with_eng e s) pc' < unmap_left nf ne r s pc"
      using ex by blast
    then show thesis by (intro result [OF unmap_region [OF unmap_start]]) simp_all
  qed
  have other: thesis if "sys_step S nf ne s Internal s'" "unmap_ready S T n nf ne r s' pc"
    "unmap_left nf ne r s' pc < unmap_left nf ne r s pc" "handler s' = handler s" for s'
    using that(2-) result [OF unmap_other [OF unmap_start pc that(1)]] by simp
  show thesis
  proof (cases pc)
    case R_loop
    with region_unmap_loop u beg show thesis by (intro region) blast
  next
    case (R_wait_present i)
    then have st: "state (desc (wld s) i) \<in> in_use" using unmap_readyD(2) [OF u] by (simp add: region_inv_def)
    show thesis
    proof (cases "state (desc (wld s) i) = PRESENT")
      case True
      with region_unmap_wait [OF u] R_wait_present show thesis by (intro region) blast
    next
      case False
      then have "state (desc (wld s) i) \<in> {FILLING, UPDATING}" using st by (auto simp: in_use_def)
      with inv S x workers(1) obtain j w fpc where j: "j < nf" "filler_step S True False (wld s, fillers s j) = Some (Inr (w, fpc))"
        by (rule filler_can_step)
      from filler_unmap [OF u S ap n this] show thesis by (rule other [OF step_filler [OF j]]) simp
    qed
  next
    case (R_wait_free i)
    then have st: "state (desc (wld s) i) \<in> {LEAVING, FREE}" by (rule unmap_readyD(5) [OF u])
    show thesis
    proof (cases "state (desc (wld s) i) = FREE")
      case True
      with region_unmap_wait [OF u] R_wait_free show thesis by (intro region) blast
    next
      case False
      then have "state (desc (wld s) i) = LEAVING" using st by simp
      with inv S x workers(2) unmap_readyD(4) [OF u]
      obtain j w epc where j: "j < ne" "evictor_step S True False (wld s, evictors s j) = Some (Inr (w, epc))"
        by (rule evictor_can_step)
      from evictor_unmap [OF u S ap n this] show thesis by (rule other [OF step_evictor [OF j]]) simp
    qed
  qed (use pc in simp)
qed

lemma unmap_completes:
  assumes "unmap_ready S T n nf ne r s pc" and beg: "begin_ok begin_of"
    and S: "setting_ok S" and ap: "apart (covers T) (region_loc T)" and n: "n < 2 ^ 64" and workers: "0 < nf" "0 < ne"
  shows "\<exists>tr s'. unmap_run S nf ne begin_of r s pc tr s' R_done \<and> set tr \<subseteq> {Internal} \<and> handler s' = handler s"
  using assms(1)
proof (induction "unmap_left nf ne r s pc" arbitrary: s pc rule: less_induct)
  case less
  show ?case
  proof (cases "pc = R_done")
    case True
    then show ?thesis using unmap_start by (metis empty_set empty_subsetI)
  next
    case False
    obtain tr s' pc' where run: "unmap_run S nf ne begin_of r s pc tr s' pc'" "set tr \<subseteq> {Internal}" "handler s' = handler s"
      and rest: "unmap_ready S T n nf ne r s' pc'" "unmap_left nf ne r s' pc' < unmap_left nf ne r s pc"
      by (rule unmap_progress [OF less.prems False beg S ap n workers])
    from less.hyps [OF rest(2,1)] obtain tr' s'' where
      "unmap_run S nf ne begin_of r s' pc' tr' s'' R_done" "set tr' \<subseteq> {Internal}" "handler s'' = handler s'" by blast
    with run unmap_run_trans show ?thesis by (intro exI [of _ "tr @ tr'"] exI [of _ s'']) fastforce
  qed
qed

section \<open>Properties\<close>

text \<open>No page of a region is in use when the engine starts.\<close>

definition fresh_regions :: "engine \<Rightarrow> bool" where
  "fresh_regions e \<longleftrightarrow> (\<forall>r. active_of e r = {})"

lemma run_active:
  assumes run: "sys_run S nf ne s0 tr s" and b: "booted S n nf ne s0" and S: "setting_ok S"
    and f: "fresh_regions (sys_eng s0)"
  shows "active_ok {} (desc (wld s)) (active_of (sys_eng s))" and "no_exit nf ne s"
proof -
  have n: "n < 2 ^ 64" using b by (simp add: booted_def)
  from run have "active_ok {} (desc (wld s)) (active_of (sys_eng s)) \<and> no_exit nf ne s"
  proof induction
    case run_start
    obtain mon_ok lo hi freq where "Buffer_init True mon_ok n lo hi freq = Inr (buf (sys_eng s0))"
      using b by (auto simp: booted_def)
    then have "state (desc (wld s0) i) = FREE" for i
      by (simp add: Buffer_init_fields zero_PageDescriptor_def)
    then show ?case using b f by (simp add: active_ok_def fresh_regions_def no_exit_def booted_def)
  next
    case (run_step tr s ev s')
    note inv = run_inv [OF run_step.hyps(1) b S]
    show ?case
      using active_ok_step [OF _ step_pds [OF run_step.hyps(2) inv n]] step_no_exit [OF run_step.hyps(2) inv]
        run_step.IH by blast
  qed
  then show "active_ok {} (desc (wld s)) (active_of (sys_eng s))" "no_exit nf ne s" by simp_all
qed

lemma unmap_begins:
  assumes run: "sys_run S nf ne s0 tr s" and b: "booted S n nf ne s0" and S: "setting_ok S"
    and f: "fresh_regions (sys_eng s0)" and u: "evict_region_begin busy (sys_eng s) = (e0, U_region R_loop)"
  shows "sys_inv S (table (sys_eng s0)) n nf ne (with_eng e0 s)" and "region_inv r R_loop e0"
proof -
  have e0: "e0 = (sys_eng s)\<lparr>buf := lock_buffer busy (buf (sys_eng s))\<rparr>"
    using u by (auto simp: evict_region_begin_def split: if_splits)
  then show "sys_inv S (table (sys_eng s0)) n nf ne (with_eng e0 s)"
    using lock_sys_inv [OF run_inv [OF run b S], of busy] by simp
  show "region_inv r R_loop e0" using run_active(1) [OF run b S f] e0 by (simp add: region_inv_def)
qed

lemma unmapping_inv:
  assumes run: "sys_run S nf ne s0 tr s" and b: "booted S n nf ne s0" and S: "setting_ok S"
    and f: "fresh_regions (sys_eng s0)" and u: "evict_region_begin busy (sys_eng s) = (e0, U_region R_loop)"
    and beg: "begin_ok begin_of" and unmap: "unmap_run S nf ne begin_of r (with_eng e0 s) R_loop tr' s' pc"
  shows "sys_inv S (table (sys_eng s0)) n nf ne s'" and "region_inv r pc (sys_eng s')" and "no_exit nf ne s'"
    and "pc = R_done \<Longrightarrow> active_of (sys_eng s') r = {}"
    and "covers (table (sys_eng s0)) q a \<Longrightarrow> page_contents S (table (sys_eng s0)) (wld s') q a
      = fold (flat_step a) (tr @ tr') (page_contents S (table (sys_eng s0)) (wld s0) q a)"
proof -
  let ?T = "table (sys_eng s0)"
  have n: "n < 2 ^ 64" using b by (simp add: booted_def)
  note start = unmap_begins [OF run b S f u]
  have r1: "region_inv r R_loop (sys_eng (with_eng e0 s))" using start(2) by simp
  have x1: "no_exit nf ne (with_eng e0 s)" using run_active(2) [OF run b S f] by (simp add: no_exit_def)
  note all = unmap_run_inv [OF unmap beg S start(1) r1 x1 _ booted_apart [OF b] n]
  then show "sys_inv S ?T n nf ne s'" "region_inv r pc (sys_eng s')" "no_exit nf ne s'"
    "pc = R_done \<Longrightarrow> active_of (sys_eng s') r = {}" by simp_all
  show "page_contents S ?T (wld s') q a = fold (flat_step a) (tr @ tr') (page_contents S ?T (wld s0) q a)"
    if "covers ?T q a"
    using all that run_contents [OF run b S that] by (simp add: page_contents_def)
qed

text \<open>
  C8: Unmapping one region among several. While \<open>evict_region\<close> takes the pages of region \<open>r\<close> out,
  all threads and the application go on, and the contents of every page of every region stay
  what the application wrote last. When \<open>evict_region\<close> is done no page of the region has a
  descriptor or is in memory, and the store of the region holds for every page what was
  written last or what was there at the start: nothing is lost when the region is unmapped.
\<close>

theorem unmapped_region_stored:
  assumes b: "booted S n nf ne s0" and f: "fresh_regions (sys_eng s0)" and S: "setting_ok S"
    and beg: "begin_ok begin_of" and run: "sys_run S nf ne s0 tr s"
    and u: "evict_region_begin busy (sys_eng s) = (e0, U_region R_loop)"
    and unmap: "unmap_run S nf ne begin_of r (with_eng e0 s) R_loop tr' s' pc"
  shows "(\<forall>q a. covers (table (sys_eng s0)) q a \<longrightarrow>
        page_contents S (table (sys_eng s0)) (wld s') q a
          = fold (flat_step a) (tr @ tr') (page_contents S (table (sys_eng s0)) (wld s0) q a))
    \<and> (pc = R_done \<longrightarrow>
        (\<forall>a st off. covers (table (sys_eng s0)) r a \<and> region_loc (table (sys_eng s0)) r a = (st, off) \<longrightarrow>
           m_present_pages (buf (sys_eng s')) a = None \<and> page_view (kern S) (mem (wld s')) a = None
         \<and> stores (wld s') st off = fold (flat_step a) (tr @ tr') (stores (wld s0) st off)))"
proof -
  let ?T = "table (sys_eng s0)"
  note inv = unmapping_inv(1) [OF run b S f u beg unmap] and ri = unmapping_inv(2) [OF run b S f u beg unmap]
    and gone = unmapping_inv(4) [OF run b S f u beg unmap] and contents = unmapping_inv(5) [OF run b S f u beg unmap]
  have "m_present_pages (buf (sys_eng s')) a = None" if "pc = R_done" "covers ?T r a" for a
  proof (rule ccontr)
    assume "m_present_pages (buf (sys_eng s')) a \<noteq> None"
    then obtain i where i: "state (desc (wld s') i) \<noteq> FREE" "page (desc (wld s') i) = a"
      using pages_okD(6,7) [OF core_invD(1) [OF sys_invD(1) [OF inv]], of a] by (auto simp: core_of_simps)
    then have "region (desc (wld s') i) = Some r" using desc_covers [OF inv] that(2) by simp
    then show False
      using active_okD(4) [of _ _ _ i r] i(1) ri gone [OF that(1)] that(1) by (force simp: region_inv_def)
  qed
  moreover from this have "page_view (kern S) (mem (wld s')) a = None" if "pc = R_done" "covers ?T r a" for a
    using core_invD(3) [OF sys_invD(1) [OF inv] that(2)] that by (simp add: core_of_simps)
  moreover from this have "stores (wld s') st off = fold (flat_step a) (tr @ tr') (stores (wld s0) st off)"
    if "pc = R_done" "covers ?T r a" "region_loc ?T r a = (st, off)" for a st off
    using contents [OF that(2)] that b by (auto simp: page_contents_def booted_def)
  ultimately show ?thesis using contents by simp
qed


section \<open>An example\<close>

text \<open>The world of the other examples with a second region, whose store is number 8.\<close>

definition two_regions :: RegionTable where
  "two_regions =
     \<lparr>m_active_regions = [(65536, 0), (524288, 1)], m_last_iter = None,
      rds = (\<lambda>r. if r = 0 then RegionDescriptor_init 65536 262144 65536 262144 7
                 else RegionDescriptor_init 524288 262144 524288 262144 8)\<rparr>"

definition two_sys :: "(addr \<Rightarrow> (nat \<times> bool) option, nat) sys" where
  "two_sys = demo_sys\<lparr>wld := demo_world\<lparr>eng := (eng demo_world)\<lparr>table := two_regions\<rparr>\<rparr>\<rparr>"

lemma two_booted: "booted demo_S 2 2 1 two_sys"
proof -
  have "Buffer_init True True 2 100 100 0 = Inr demo_buffer"
    by (simp add: Buffer_init_def apply_int_percentage_def demo_buffer_def)
  moreover have "table_ok two_regions"
    by (auto simp: table_ok_def two_regions_def rd_sound_def RegionDescriptor_init_def rd_defs in_region_def
        word_le_nat_alt word_less_nat_alt)
  ultimately show ?thesis
    by (auto simp: booted_def two_sys_def demo_sys_def demo_world_def demo_S_def demo_kernel_def WorkerPool_init_def
        WorkQueue_init_def two_regions_def RegionDescriptor_init_def)
qed

lemma two_fresh: "fresh_regions (sys_eng two_sys)"
  by (simp add: fresh_regions_def two_sys_def two_regions_def RegionDescriptor_init_def)

lemma min_begin: "begin_ok Min"
  by (simp add: begin_ok_def Min_in)

lemma two_table: "table (sys_eng two_sys) = two_regions"
  by (simp add: two_sys_def)

lemma two_covers: "65536 \<le> a \<Longrightarrow> a < 327680 \<Longrightarrow> covers two_regions 0 a" "region_loc two_regions 0 a = (7, a - 65536)"
  by (simp_all add: covers_def two_regions_def in_region_def rd_defs RegionDescriptor_init_def region_loc_def)

text \<open>A page of the first region is written to, and the region is unmapped.\<close>

lemma two_unmap:
  obtains s e0 where "sys_run demo_S 2 1 two_sys demo_trace s" and "mgr_list (mgr s) = []"
    and "evict_region_begin False (sys_eng s) = (e0, U_region R_loop)" and "handler s = H_idle"
proof -
  have "map_option (\<lambda>(tr, s). (tr, mgr s, handler s, get_num_active_regions (table (sys_eng s))))
     (exec_all demo_S demo_write 2 1 demo_moves ([], two_sys)) = Some (demo_trace, M_get, H_idle, 2)"
    by code_simp
  then obtain s where x: "exec_all demo_S demo_write 2 1 demo_moves ([], two_sys) = Some (demo_trace, s)"
    and m: "mgr s = M_get" "handler s = H_idle" "get_num_active_regions (table (sys_eng s)) = 2" by auto
  from exec_all_sound [OF x run_start demo_write_ok] m that show thesis
    by (auto simp: evict_region_begin_def)
qed

lemma two_unmap_ends:
  obtains s e0 tr' s' where "sys_run demo_S 2 1 two_sys demo_trace s"
    and "evict_region_begin False (sys_eng s) = (e0, U_region R_loop)"
    and "unmap_run demo_S 2 1 Min 0 (with_eng e0 s) R_loop tr' s' R_done" and "set tr' \<subseteq> {Internal}"
    and "handler s' = H_idle"
proof -
  obtain s e0 where s: "sys_run demo_S 2 1 two_sys demo_trace s" "mgr_list (mgr s) = []"
    "evict_region_begin False (sys_eng s) = (e0, U_region R_loop)" "handler s = H_idle" by (rule two_unmap)
  note inv = unmapping_inv(1-3) [OF s(1) two_booted demo_S_ok two_fresh s(3) min_begin unmap_start]
  then have "unmap_ready demo_S (table (sys_eng two_sys)) 2 2 1 0 (with_eng e0 s) R_loop"
    using s(2) by (simp add: unmap_ready_def)
  from unmap_completes [OF this min_begin demo_S_ok booted_apart [OF two_booted]] that s show thesis by auto
qed

theorem unmapped_region_stored_witness:
  "\<exists>s e0 tr' s'. sys_run demo_S 2 1 two_sys demo_trace s
     \<and> unmap_run demo_S 2 1 Min 0 (with_eng e0 s) R_loop tr' s' R_done
     \<and> mem (wld s') 69632 = None \<and> stores (wld s') 7 4096 = 5"
proof -
  obtain s e0 tr' s' where s: "sys_run demo_S 2 1 two_sys demo_trace s"
    "evict_region_begin False (sys_eng s) = (e0, U_region R_loop)"
    "unmap_run demo_S 2 1 Min 0 (with_eng e0 s) R_loop tr' s' R_done" "set tr' \<subseteq> {Internal}"
    by (rule two_unmap_ends)
  have "page_view (kern demo_S) (mem (wld s')) 69632 = None
      \<and> stores (wld s') 7 4096 = fold (flat_step 69632) (demo_trace @ tr') (stores (wld two_sys) 7 4096)"
    using unmapped_region_stored [OF two_booted two_fresh demo_S_ok min_begin s(1-3), unfolded two_table]
      two_covers [of 69632] by simp
  then show ?thesis
    using s by (auto simp: demo_trace_def fold_internal demo_S_def demo_kernel_def)
qed


end
