(* ===== verification/Evict_All.thy ===== *)
theory Evict_All
  imports Unmapping
begin

text \<open>
  \<open>EvictAll\<close> in a running engine: the last region is unmapped, or the engine is taken down. The
  thread takes all pages from the busy list, frees the clean ones itself and has the workers
  write the dirty ones. Pages that are given up this way stay mapped (the memory is unmapped
  afterwards), so that the invariant of the engine does not hold as it is: it holds for a
  shadow of the state, in which these pages are gone and every work item is an eviction.
  The shadow makes the same steps. When \<open>EvictAll\<close> returns no page is present and the stores hold
  what the application wrote last.
\<close>

section \<open>The shadow of a state\<close>

fun as_type :: "WorkType \<Rightarrow> WorkType" where
  "as_type FAST_EVICT = EVICT"
| "as_type t = t"

definition as_item :: "WorkItem \<Rightarrow> WorkItem" where
  "as_item item = item\<lparr>work_type := as_type (work_type item)\<rparr>"

fun as_evict :: "evict_pc \<Rightarrow> evict_pc" where
  "as_evict (E_item t i) = E_item (as_type t) i"
| "as_evict (E_protected t i st off) = E_protected (as_type t) i st off"
| "as_evict (E_written t i) = E_written (as_type t) i"
| "as_evict (E_clean t i) = E_clean (as_type t) i"
| "as_evict pc = pc"

text \<open>The page \<open>EvictAll\<close> has in hand is one the daemon of the shadow is about to send.\<close>

fun all_hand :: "evict_all_pc \<Rightarrow> mgr_pc" where
  "all_hand (A_got i) = M_send [i]"
| "all_hand _ = M_get"

text \<open>\<open>p\<close> is the pool of eviction workers of the shadow, \<open>m\<close> its memory.\<close>

abbreviation shade_w :: "WorkerPool \<Rightarrow> 'k \<Rightarrow> ('k, 'd) world \<Rightarrow> ('k, 'd) world" where
  "shade_w p m w \<equiv> (with_ev p w)\<lparr>mem := m\<rparr>"

definition shade :: "WorkerPool \<Rightarrow> 'k \<Rightarrow> evict_all_pc \<Rightarrow> ('k, 'd) sys \<Rightarrow> ('k, 'd) sys" where
  "shade p m pc s =
     \<lparr>wld = shade_w p m (wld s), handler = handler s, fillers = fillers s, mgr = all_hand pc,
      evictors = (\<lambda>j. as_evict (evictors s j))\<rparr>"

lemma shade_simps [simp]:
  "wld (shade p m pc s) = shade_w p m (wld s)" "handler (shade p m pc s) = handler s"
  "fillers (shade p m pc s) = fillers s" "mgr (shade p m pc s) = all_hand pc"
  "evictors (shade p m pc s) = (\<lambda>j. as_evict (evictors s j))"
  by (simp_all add: shade_def)

text \<open>
  The pages in \<open>H\<close> are mapped, protected and as in the store, but given up: the shadow does not
  have them.
\<close>

definition hides ::
  "('k, 'd) setting \<Rightarrow> RegionTable \<Rightarrow> addr set \<Rightarrow> 'k \<Rightarrow> ('k, 'd) world \<Rightarrow> bool" where
  "hides S T H m w \<longleftrightarrow>
     page_view (kern S) m = (\<lambda>a. if a \<in> H then None else page_view (kern S) (mem w) a)
   \<and> (\<forall>a\<in>H. (\<exists>x. page_view (kern S) (mem w) a = Some (x, True)
             \<and> (\<forall>q. covers T q a \<longrightarrow> stores w (fst (region_loc T q a)) (snd (region_loc T q a)) = x))
        \<and> (\<forall>i. m_present_pages (buf (eng w)) a = Some i \<longrightarrow> state (desc w i) = LEAVING))"

lemma hidesD:
  assumes "hides S T H m w"
  shows "a \<notin> H \<Longrightarrow> page_view (kern S) m a = page_view (kern S) (mem w) a"
    and "a \<in> H \<Longrightarrow> page_view (kern S) m a = None"
    and "a \<in> H \<Longrightarrow> \<exists>x. page_view (kern S) (mem w) a = Some (x, True)"
    and "a \<in> H \<Longrightarrow> covers T q a \<Longrightarrow> page_view (kern S) (mem w) a = Some (y, b) \<Longrightarrow>
      stores w (fst (region_loc T q a)) (snd (region_loc T q a)) = y"
    and "a \<in> H \<Longrightarrow> m_present_pages (buf (eng w)) a = Some i \<Longrightarrow> state (desc w i) = LEAVING"
  using assms by (auto simp: hides_def)

text \<open>The application sees the same contents in the shadow.\<close>

lemma hides_contents:
  assumes h: "hides S T H m w" and cov: "covers T r a"
  shows "page_contents S T (shade_w p m w) r a = page_contents S T w r a"
proof (cases "a \<in> H")
  case True
  then obtain x where x: "page_view (kern S) (mem w) a = Some (x, True)" using hidesD(3) [OF h] by blast
  with hidesD(2,4) [OF h True] cov show ?thesis by (simp add: page_contents_def)
next
  case False
  then show ?thesis using hidesD(1) [OF h False] by (simp add: page_contents_def)
qed

definition queue_shade :: "WorkerPool \<Rightarrow> engine \<Rightarrow> bool" where
  "queue_shade p e \<longleftrightarrow> pool_queue p = map as_item (pool_queue (evict_workers e))"

text \<open>A page that is in use has not been given up.\<close>

lemma in_use_not_hidden:
  assumes inv: "sys_inv S T n nf ne (shade p m pc s)" and h: "hides S T H m (wld s)"
    and st: "state (desc (wld s) i) \<notin> {FREE, LEAVING}"
  shows "page (desc (wld s) i) \<notin> H"
proof
  assume "page (desc (wld s) i) \<in> H"
  moreover have "m_present_pages (buf (sys_eng s)) (page (desc (wld s) i)) = Some i"
    using pages_okD(8) [OF core_invD(1) [OF sys_invD(1) [OF inv]], of i] st by (simp add: core_of_simps)
  ultimately show False using hidesD(5) [OF h] st by auto
qed

text \<open>A step that leaves the given up pages alone.\<close>

lemma hides_step:
  assumes h: "hides S T H m w"
    and v: "\<And>a. a \<notin> H \<Longrightarrow> page_view (kern S) m' a = page_view (kern S) (mem w') a"
    and same: "\<And>a. a \<in> H \<Longrightarrow> page_view (kern S) m' a = None \<and> page_view (kern S) (mem w') a = page_view (kern S) (mem w) a"
    and sto: "\<And>a q. a \<in> H \<Longrightarrow> covers T q a \<Longrightarrow>
      stores w' (fst (region_loc T q a)) (snd (region_loc T q a)) = stores w (fst (region_loc T q a)) (snd (region_loc T q a))"
    and pres: "\<And>a i. a \<in> H \<Longrightarrow> m_present_pages (buf (eng w')) a = Some i \<Longrightarrow>
      m_present_pages (buf (eng w)) a = Some i \<and> (state (desc w i) = LEAVING \<longrightarrow> state (desc w' i) = LEAVING)"
  shows "hides S T H m' w'"
proof -
  have "page_view (kern S) m' = (\<lambda>a. if a \<in> H then None else page_view (kern S) (mem w') a)"
    using v same by auto
  moreover have "\<exists>x. page_view (kern S) (mem w') a = Some (x, True)
      \<and> (\<forall>q. covers T q a \<longrightarrow> stores w' (fst (region_loc T q a)) (snd (region_loc T q a)) = x)" if a: "a \<in> H" for a
    using hidesD(3,4) [OF h a] same [OF a] sto [OF a] by fastforce
  moreover have "state (desc w' i) = LEAVING" if "a \<in> H" "m_present_pages (buf (eng w')) a = Some i" for a i
    using pres [OF that] hidesD(5) [OF h that(1)] by blast
  ultimately show ?thesis by (simp add: hides_def)
qed

section \<open>The workers in the shadow\<close>

text \<open>Two steps match if both wait, both fail, or both go on in matching states.\<close>

abbreviation outcomes :: "('a \<Rightarrow> 'b \<Rightarrow> bool) \<Rightarrow> 'a result option \<Rightarrow> 'b result option \<Rightarrow> bool" where
  "outcomes R \<equiv> rel_option (rel_sum (\<lambda>_ _. True) R)"

lemma outcomesD:
  assumes "outcomes R x y"
  shows "x = Some (Inr u) \<Longrightarrow> \<exists>v. y = Some (Inr v) \<and> R u v" and "y = Some (Inr v) \<Longrightarrow> \<exists>u. x = Some (Inr u)"
  using assms by (auto elim!: option.rel_cases rel_sum.cases simp: rel_sum_simps option_rel_Some1 option_rel_Some2)

definition fill_match ::
  "('k, 'd) setting \<Rightarrow> RegionTable \<Rightarrow> addr set \<Rightarrow> WorkerPool
     \<Rightarrow> ('k, 'd) world \<times> 'd fill_pc \<Rightarrow> ('k, 'd) world \<times> 'd fill_pc \<Rightarrow> bool" where
  "fill_match S T H p = (\<lambda>(w, pc) (g, pc'). pc' = pc \<and> (\<exists>m. g = shade_w p m w \<and> hides S T H m w))"

lemma fill_match_same:
  assumes "hides S T H m w" and "mem w' = mem w" and "stores w' = stores w" and "g = shade_w p m w'"
    and "m_present_pages (buf (eng w')) = m_present_pages (buf (eng w))"
    and "\<And>i. state (desc w i) = LEAVING \<Longrightarrow> state (desc w' i) = LEAVING"
  shows "fill_match S T H p (w', pc) (g, pc)"
proof -
  have "hides S T H m w'"
    by (rule hides_step [OF assms(1)]) (use assms hidesD(1,2) [OF assms(1)] in simp_all)
  then show ?thesis using assms(4) by (auto simp: fill_match_def)
qed

lemma hides_mem_upd:
  assumes h: "hides S T H m w" and a: "a \<notin> H"
    and k: "page_view (kern S) k = (page_view (kern S) (mem w))(a := v)"
    and m: "page_view (kern S) m' = (page_view (kern S) m)(a := v)"
  shows "hides S T H m' (w\<lparr>mem := k\<rparr>)"
  by (rule hides_step [OF h]) (use a k m hidesD(1,2) [OF h] in auto)

lemma filler_load_shade:
  assumes inv: "sys_inv S T n nf ne (shade p m pc s)" and h: "hides S T H m (wld s)" and S: "setting_ok S"
    and j: "j < nf" "fillers s j = F_item i"
  shows "rel_sum (\<lambda>_ _. True) (fill_match S T H p) (filler_load S io_ok i (wld s)) (filler_load S io_ok i (shade_w p m (wld s)))"
proof (cases "dirty (desc (wld s) i) \<and> data_present (desc (wld s) i)")
  case True
  let ?a = "page (desc (wld s) i)"
  have k: "kernel_ok (abi_of S) (page_sz S) (kern S)" "\<not> ro_mode S" using S by (simp_all add: setting_ok_def)
  have own: "fill_own (fillers (shade p m pc s) j) = Some (i, wait_f)" using j(2) by simp
  note known = filler_own [OF inv j(1) own]
  then have a: "?a \<notin> H" using in_use_not_hidden [OF inv h, of i] by auto
  obtain x b where v: "page_view (kern S) m ?a = Some (x, b)" "page_view (kern S) (mem (wld s)) ?a = Some (x, b)"
    using known(2) True hidesD(1) [OF h a] by (auto simp: wface_def)
  obtain k1 k2 where "disable_write_protect False (page_sz S) (kern S) ?a (mem (wld s)) = Inr k1"
    "page_view (kern S) k1 = (page_view (kern S) (mem (wld s)))(?a \<mapsto> (x, False))"
    "disable_write_protect False (page_sz S) (kern S) ?a m = Inr k2"
    "page_view (kern S) k2 = (page_view (kern S) m)(?a \<mapsto> (x, False))"
    using kernel_calls(4) [OF k(1) v(1)] kernel_calls(4) [OF k(1) v(2)] by blast
  then show ?thesis using True k(2) hides_mem_upd [OF h a]
    by (auto simp: filler_load_def fill_match_def Let_def)
next
  case False
  have "fill_match S T H p (wld s, fpc) (shade_w p m (wld s), fpc)" for fpc
    by (rule fill_match_same [OF h]) simp_all
  then show ?thesis using False unfolding filler_load_def
    by (auto simp: Let_def bindR_def split: option.splits sum.splits)
qed

lemma filler_copy_shade:
  assumes inv: "sys_inv S T n nf ne (shade p m pc s)" and h: "hides S T H m (wld s)" and S: "setting_ok S"
    and j: "j < nf" "fillers s j = F_read i y"
  shows "rel_sum (\<lambda>_ _. True) (fill_match S T H p) (filler_copy S i y (wld s)) (filler_copy S i y (shade_w p m (wld s)))"
proof -
  let ?d = "desc (wld s) i"
  have k: "kernel_ok (abi_of S) (page_sz S) (kern S)" "\<not> ro_mode S" using S by (simp_all add: setting_ok_def)
  have own: "fill_own (fillers (shade p m pc s) j) = Some (i, read_f y)" using j(2) by simp
  note known = filler_own [OF inv j(1) own]
  then have a: "page ?d \<notin> H" using in_use_not_hidden [OF inv h, of i] by auto
  have v: "page_view (kern S) m (page ?d) = None" "page_view (kern S) (mem (wld s)) (page ?d) = None"
    using known(2) hidesD(1) [OF h a] by (auto simp: wface_def)
  obtain k1 k2 where "page_view (kern S) k1 = (page_view (kern S) (mem (wld s)))(page ?d \<mapsto> (y, \<not> dirty ?d))"
    "page_view (kern S) k2 = (page_view (kern S) m)(page ?d \<mapsto> (y, \<not> dirty ?d))"
    "filler_copy S i y (wld s) = Inr ((wld s)\<lparr>mem := k1\<rparr>, F_copied i)"
    "filler_copy S i y (shade_w p m (wld s)) = Inr (shade_w p k2 ((wld s)\<lparr>mem := k1\<rparr>), F_copied i)"
    using kernel_calls(1,2) [OF k(1) v(1), of y] kernel_calls(1,2) [OF k(1) v(2), of y] k(2)
    by (cases "dirty ?d") (auto simp: filler_copy_def)
  with hides_mem_upd [OF h a] show ?thesis by (auto simp: fill_match_def)
qed

lemma filler_shade:
  assumes inv: "sys_inv S T n nf ne (shade p m pc s)" and h: "hides S T H m (wld s)" and S: "setting_ok S" and j: "j < nf"
  shows "outcomes (fill_match S T H p) (filler_step S io_ok busy (wld s, fillers s j))
     (filler_step S io_ok busy (shade_w p m (wld s), fillers s j))"
proof (cases "fillers s j")
  case F_get
  then show ?thesis
    by (auto simp: filler_step_def filler_get_def with_ev_def Let_def intro!: fill_match_same [OF h]
        split: prod.splits dequeue_out.splits option.splits)
next
  case (F_item i)
  with filler_load_shade [OF inv h S j] show ?thesis by (simp add: filler_step_def)
next
  case (F_read i y)
  with filler_copy_shade [OF inv h S j] show ?thesis by (simp add: filler_step_def)
next
  case (F_copied i)
  then show ?thesis by (auto simp: filler_step_def with_ev_def set_pd_def intro!: fill_match_same [OF h])
next
  case (F_mark i)
  then show ?thesis
    by (auto simp: filler_step_def mark_page_as_present_def bindR_def with_ev_def set_pd_def set_state_present_def
        Let_def intro!: fill_match_same [OF h] split: sum.splits if_splits)
next
  case F_exit
  then show ?thesis by (simp add: filler_step_def)
qed


text \<open>An eviction worker: the shadow has dropped a page of \<open>EvictAll\<close> where the worker keeps it.\<close>

definition evict_match ::
  "('k, 'd) setting \<Rightarrow> RegionTable \<Rightarrow> ('k, 'd) world \<times> evict_pc \<Rightarrow> ('k, 'd) world \<times> evict_pc \<Rightarrow> bool" where
  "evict_match S T = (\<lambda>(w, pc) (g, pc'). pc' = as_evict pc
     \<and> (\<exists>H p m. g = shade_w p m w \<and> hides S T H m w \<and> queue_shade p (eng w)))"

lemma evict_match_same:
  assumes "hides S T H m w" and "queue_shade p (eng w')" and "mem w' = mem w" and "stores w' = stores w"
    and "g = shade_w p m w'" and "pc' = as_evict pc"
    and "\<And>a i. m_present_pages (buf (eng w')) a = Some i \<Longrightarrow>
      m_present_pages (buf (eng w)) a = Some i \<and> (state (desc w i) = LEAVING \<longrightarrow> state (desc w' i) = LEAVING)"
  shows "evict_match S T (w', pc) (g, pc')"
proof -
  have "hides S T H m w'"
    by (rule hides_step [OF assms(1)]) (use assms(3,4,7) hidesD(1,2) [OF assms(1)] in simp_all)
  then show ?thesis using assms(2,5,6) by (auto simp: evict_match_def)
qed

lemma get_work_Cons:
  assumes "pool_queue p = item # rest"
  shows "\<exists>p'. get_work p = (p', Got item) \<and> pool_queue p' = rest"
  using assms by (auto simp: get_work_def wq_defs split: prod.splits)

lemma evictor_get_shade:
  assumes h: "hides S T H m w" and q: "queue_shade p (eng w)"
  shows "outcomes (evict_match S T) (evictor_get w) (evictor_get (shade_w p m w))"
proof (cases "pool_queue (evict_workers (eng w))")
  case Nil
  then have "pool_queue p = []" using q by (simp add: queue_shade_def)
  with Nil show ?thesis by (auto simp: evictor_get_def get_work_def wq_defs split: prod.splits)
next
  case (Cons item rest)
  then have p: "pool_queue p = as_item item # map as_item rest" using q by (simp add: queue_shade_def)
  obtain p1 where p1: "get_work (evict_workers (eng w)) = (p1, Got item)" "pool_queue p1 = rest"
    using get_work_Cons [OF Cons] by blast
  obtain p2 where p2: "get_work p = (p2, Got (as_item item))" "pool_queue p2 = map as_item rest"
    using get_work_Cons [OF p] by blast
  have exit: "as_type t = EXIT \<longleftrightarrow> t = EXIT" for t by (cases t) simp_all
  let ?w = "w\<lparr>eng := (eng w)\<lparr>evict_workers := p1\<rparr>\<rparr>"
  have m: "evict_match S T (?w, pc) (shade_w p2 m ?w, as_evict pc)" for pc
    by (rule evict_match_same [OF h]) (use p1 p2 in \<open>simp_all add: queue_shade_def\<close>)
  have g: "(with_ev p (w\<lparr>mem := m\<rparr>))\<lparr>eng := (eng (with_ev p (w\<lparr>mem := m\<rparr>)))\<lparr>evict_workers := p2\<rparr>\<rparr>
      = with_ev p2 (?w\<lparr>mem := m\<rparr>)"
    by (simp add: with_ev_def)
  have "get_work (evict_workers (eng (shade_w p m w))) = (p2, Got (as_item item))" using p2 by simp
  with m [of E_exit] m [of "E_item (work_type item) _"] show ?thesis
    unfolding evictor_get_def by (simp add: p1 g exit as_item_def Let_def split: option.splits)
qed

lemma evict_match_mem:
  assumes h: "hides S T H m w" and q: "queue_shade p (eng w)" and a: "a \<notin> H"
    and k: "page_view (kern S) k = (page_view (kern S) (mem w))(a := v)" "page_view (kern S) m' = (page_view (kern S) m)(a := v)"
  shows "evict_match S T (w\<lparr>mem := k\<rparr>, pc) (shade_w p m' w, as_evict pc)"
  using hides_mem_upd [OF h a k] q unfolding evict_match_def queue_shade_def by (auto simp: with_ev_def)

lemma evictor_protect_shade:
  assumes inv: "sys_inv S T n nf ne (shade p m pc s)" and h: "hides S T H m (wld s)" and q: "queue_shade p (sys_eng s)"
    and S: "setting_ok S" and j: "j < ne" "evictors s j = E_item t i"
  shows "rel_sum (\<lambda>_ _. True) (evict_match S T) (evictor_protect S t i (wld s)) (evictor_protect S (as_type t) i (shade_w p m (wld s)))"
proof (cases "dirty (desc (wld s) i)")
  case True
  let ?d = "desc (wld s) i"
  have k: "kernel_ok (abi_of S) (page_sz S) (kern S)" "\<not> ro_mode S" using S by (simp_all add: setting_ok_def)
  have own: "evict_own (region_loc T) (evictors (shade p m pc s) j) = Some (i, \<lambda>f. as_type t = EVICT \<and> loaded_f f)"
    using j(2) by simp
  obtain x b where v: "page_view (kern S) m (page ?d) = Some (x, b)"
    using evictor_own(2) [OF inv j(1) own] by (auto simp: wface_def split: option.splits)
  then have a: "page ?d \<notin> H" using hidesD(2) [OF h] by auto
  with v have v': "page_view (kern S) (mem (wld s)) (page ?d) = Some (x, b)" using hidesD(1) [OF h a] by simp
  obtain k1 k2 where "enable_write_protect (abi_of S) False (page_sz S) (kern S) (page ?d) (mem (wld s)) = Inr k1"
    "page_view (kern S) k1 = (page_view (kern S) (mem (wld s)))(page ?d \<mapsto> (x, True))"
    "enable_write_protect (abi_of S) False (page_sz S) (kern S) (page ?d) m = Inr k2"
    "page_view (kern S) k2 = (page_view (kern S) m)(page ?d \<mapsto> (x, True))"
    using kernel_calls(3) [OF k(1) v] kernel_calls(3) [OF k(1) v'] by blast
  then show ?thesis using True k(2) evict_match_mem [OF h q a, of k1 _ k2 "E_protected t i _ _"]
    by (auto simp: evictor_protect_def bindR_def Let_def split: option.splits sum.splits)
next
  case False
  have "evict_match S T (wld s, E_clean t i) (shade_w p m (wld s), E_clean (as_type t) i)"
    by (rule evict_match_same [OF h q]) simp_all
  then show ?thesis using False by (simp add: evictor_protect_def Let_def)
qed

lemma evictor_write_shade:
  assumes inv: "sys_inv S T n nf ne (shade p m pc s)" and h: "hides S T H m (wld s)" and q: "queue_shade p (sys_eng s)"
    and ap: "apart (covers T) (region_loc T)" and j: "j < ne" "evictors s j = E_protected t i st off"
  shows "rel_sum (\<lambda>_ _. True) (evict_match S T) (evictor_write S io_ok t i st off (wld s))
     (evictor_write S io_ok (as_type t) i st off (shade_w p m (wld s)))"
proof -
  let ?d = "desc (wld s) i"
  have own: "evict_own (region_loc T) (evictors (shade p m pc s) j)
      = Some (i, \<lambda>f. as_type t = EVICT \<and> protected_f (region_loc T) (st, off) f)" using j(2) by simp
  note known = evictor_own [OF inv j(1) own]
  then obtain x where v: "page_view (kern S) m (page ?d) = Some (x, True)"
    and l: "region_loc T (the (region ?d)) (page ?d) = (st, off)" by (auto simp: wface_def)
  then have a: "page ?d \<notin> H" using hidesD(2) [OF h] by auto
  obtain r where r: "region ?d = Some r" "covers T r (page ?d)"
    using core_invD(2) [OF sys_invD(1) [OF inv], of i] known(1) by (auto simp: core_of_simps)
  let ?w = "(wld s)\<lparr>stores := (stores (wld s))(st := (stores (wld s) st)(off := x))\<rparr>"
  have "hides S T H m ?w"
  proof (rule hides_step [OF h])
    fix b q assume b: "b \<in> H" "covers T q b"
    then have "region_loc T q b \<noteq> (st, off)" using ap r l a unfolding apart_def by fastforce
    then show "stores ?w (fst (region_loc T q b)) (snd (region_loc T q b))
        = stores (wld s) (fst (region_loc T q b)) (snd (region_loc T q b))" by (auto simp: prod_eq_iff)
  qed (use hidesD(1,2) [OF h] in simp_all)
  then have "evict_match S T (?w, E_written t i) (shade_w p m ?w, E_written (as_type t) i)"
    using q by (auto simp: evict_match_def queue_shade_def)
  moreover have g: "(with_ev p ((wld s)\<lparr>mem := m\<rparr>))\<lparr>stores := f\<rparr> = with_ev p ((wld s)\<lparr>stores := f, mem := m\<rparr>)" for f
    by (simp add: with_ev_def)
  ultimately show ?thesis using v hidesD(1) [OF h a] by (simp add: evictor_write_def g)
qed

lemma hides_insert:
  assumes h: "hides S T H m w" and a: "page_view (kern S) m a = Some (x, True)"
    and m': "page_view (kern S) m' = (page_view (kern S) m)(a := None)"
    and sto: "\<And>q. covers T q a \<Longrightarrow> stores w (fst (region_loc T q a)) (snd (region_loc T q a)) = x"
    and pres: "\<And>i. m_present_pages (buf (eng w)) a = Some i \<Longrightarrow> state (desc w i) = LEAVING"
  shows "hides S T (insert a H) m' w"
proof -
  have "a \<notin> H" using hidesD(2) [OF h, of a] a by auto
  then have "page_view (kern S) (mem w) a = Some (x, True)" using hidesD(1) [OF h] a by simp
  moreover have "page_view (kern S) m' = (\<lambda>b. if b \<in> insert a H then None else page_view (kern S) (mem w) b)"
    using h unfolding m' by (auto simp: hides_def)
  ultimately show ?thesis using h sto pres by (auto simp: hides_def)
qed

text \<open>A clean page that is leaving can be given up.\<close>

lemma clean_hides:
  assumes inv: "sys_inv S T n nf ne (shade p m pc s)" and h: "hides S T H m (wld s)"
    and st: "state (desc (wld s) i) = LEAVING" and c: "clean_f (wface S T (shade_w p m (wld s)) i)"
    and m': "page_view (kern S) m' = (page_view (kern S) m)(page (desc (wld s) i) := None)"
  shows "hides S T (insert (page (desc (wld s) i)) H) m' (wld s)"
proof -
  let ?d = "desc (wld s) i"
  obtain x where x: "page_view (kern S) m (page ?d) = Some (x, True)"
    "case region_loc T (the (region ?d)) (page ?d) of (st, off) \<Rightarrow> stores (wld s) st off = x"
    using c by (auto simp: wface_def split: prod.splits)
  show ?thesis
  proof (rule hides_insert [OF h x(1) m'])
    show "stores (wld s) (fst (region_loc T q (page ?d))) (snd (region_loc T q (page ?d))) = x"
      if "covers T q (page ?d)" for q
      using desc_covers [OF inv, of i q] that st x(2) by (simp add: split_beta)
    have "pages_ok (desc (wld s)) (m_present_pages (buf (sys_eng s))) (m_free_pages (buf (sys_eng s)))
        (m_busy_pages (buf (sys_eng s)))"
      using core_invD(1) [OF sys_invD(1) [OF inv]] by (simp add: core_of_simps)
    from pages_okD(8) [OF this, of i] st
    show "state (desc (wld s) k) = LEAVING" if "m_present_pages (buf (sys_eng s)) (page ?d) = Some k" for k
      using that by simp
  qed
qed

lemma evictor_drop_shade:
  assumes inv: "sys_inv S T n nf ne (shade p m pc s)" and h: "hides S T H m (wld s)" and q: "queue_shade p (sys_eng s)"
    and S: "setting_ok S" and j: "j < ne" "evictors s j = E_clean t i"
  shows "rel_sum (\<lambda>_ _. True) (evict_match S T) (evictor_drop S t i (wld s)) (evictor_drop S (as_type t) i (shade_w p m (wld s)))"
proof -
  let ?d = "desc (wld s) i"
  have k: "kernel_ok (abi_of S) (page_sz S) (kern S)" using S by (simp add: setting_ok_def)
  have own: "evict_own (region_loc T) (evictors (shade p m pc s) j) = Some (i, \<lambda>f. as_type t = EVICT \<and> clean_f f)"
    using j(2) by simp
  note known = evictor_own [OF inv j(1) own]
  have c: "clean_f (wface S T (shade_w p m (wld s)) i)" and t: "t = EVICT \<or> t = FAST_EVICT"
    using known(2) by (simp, cases t) simp_all
  obtain k2 where k2: "madvise_dontneed (kern S) (page ?d) (page_sz S) m = Some k2"
    "page_view (kern S) k2 = (page_view (kern S) m)(page ?d := None)" using kernel_calls(5) [OF k] by blast
  show ?thesis
  proof (cases "t = EVICT")
    case True
    have a: "page ?d \<notin> H" using c hidesD(2) [OF h] by (auto simp: wface_def)
    obtain k1 where k1: "madvise_dontneed (kern S) (page ?d) (page_sz S) (mem (wld s)) = Some k1"
      "page_view (kern S) k1 = (page_view (kern S) (mem (wld s)))(page ?d := None)" using kernel_calls(5) [OF k] by blast
    show ?thesis using True k1 k2 evict_match_mem [OF h q a k1(2) k2(2), of "E_mark i"] by (simp add: evictor_drop_def)
  next
    case False
    have "evict_match S T (wld s, E_mark i) (shade_w p k2 (wld s), E_mark i)"
      using clean_hides [OF inv h _ c k2(2)] known(1) q by (auto simp: evict_match_def)
    then show ?thesis using False t k2 by (simp add: evictor_drop_def)
  qed
qed

lemma mark_page_as_free_ev:
  "mark_page_as_free busy i (e\<lparr>evict_workers := p\<rparr>) = map_sum id (\<lambda>e. e\<lparr>evict_workers := p\<rparr>) (mark_page_as_free busy i e)"
  by (auto simp: mark_page_as_free_def bindR_def Let_def split: option.splits sum.splits)

lemma mark_page_as_free_keeps:
  assumes ok: "buf_inv (buf e)" and res: "mark_page_as_free busy i e = Inr e'"
    and k: "m_present_pages (buf e') a = Some k"
  shows "m_present_pages (buf e) a = Some k \<and> m_array (buf e') k = m_array (buf e) k"
proof -
  obtain d where "m_array (buf e') = (m_array (buf e))(i := d)"
    and "m_present_pages (buf e') = (m_present_pages (buf e))(page (m_array (buf e) i) := None)"
    using res by (rule mark_page_as_free_effect)
  with k ok pages_okD(6) [of "m_array (buf e)" "m_present_pages (buf e)"]
  show ?thesis by (auto simp: buf_inv_def split: if_splits)
qed

lemma shade_buf_inv:
  assumes "sys_inv S T n nf ne (shade p m pc s)"
  shows "buf_inv (buf (sys_eng s))"
  using sys_buf_inv [OF assms] by simp

lemma evictor_mark_shade:
  assumes inv: "sys_inv S T n nf ne (shade p m pc s)" and h: "hides S T H m (wld s)" and q: "queue_shade p (sys_eng s)"
  shows "rel_sum (\<lambda>_ _. True) (evict_match S T)
     (bindR (mark_page_as_free busy i (sys_eng s)) (\<lambda>e. Inr ((wld s)\<lparr>eng := e\<rparr>, E_get)))
     (bindR (mark_page_as_free busy i (eng (shade_w p m (wld s)))) (\<lambda>e. Inr ((shade_w p m (wld s))\<lparr>eng := e\<rparr>, E_get)))"
proof (cases "mark_page_as_free busy i (sys_eng s)")
  case (Inl err)
  then show ?thesis by (simp add: with_ev_def mark_page_as_free_ev)
next
  case (Inr e)
  have ev: "evict_workers e = evict_workers (sys_eng s)" using Inr by (rule mark_page_as_free_effect)
  have "evict_match S T ((wld s)\<lparr>eng := e\<rparr>, E_get) (shade_w p m ((wld s)\<lparr>eng := e\<rparr>), E_get)"
  proof (rule evict_match_same [OF h])
    show "queue_shade p (eng ((wld s)\<lparr>eng := e\<rparr>))"
      using q ev by (simp add: queue_shade_def)
  qed (use mark_page_as_free_keeps [OF shade_buf_inv [OF inv] Inr] in auto)
  moreover have g: "(with_ev p ((wld s)\<lparr>mem := m\<rparr>))\<lparr>eng := e\<lparr>evict_workers := p\<rparr>\<rparr> = with_ev p ((wld s)\<lparr>eng := e, mem := m\<rparr>)"
    "eng (with_ev p ((wld s)\<lparr>mem := m\<rparr>)) = (sys_eng s)\<lparr>evict_workers := p\<rparr>"
    by (simp_all add: with_ev_def)
  ultimately show ?thesis using Inr by (simp add: mark_page_as_free_ev g)
qed

lemma evictor_shade:
  assumes inv: "sys_inv S T n nf ne (shade p m pc s)" and h: "hides S T H m (wld s)" and q: "queue_shade p (sys_eng s)"
    and S: "setting_ok S" and ap: "apart (covers T) (region_loc T)" and j: "j < ne"
  shows "outcomes (evict_match S T) (evictor_step S io_ok busy (wld s, evictors s j))
     (evictor_step S io_ok busy (shade_w p m (wld s), as_evict (evictors s j)))"
proof (cases "evictors s j")
  case E_get
  then show ?thesis using evictor_get_shade [OF h q] by (simp add: evictor_step_def)
next
  case (E_item t i)
  with evictor_protect_shade [OF inv h q S j] show ?thesis by (simp add: evictor_step_def)
next
  case (E_protected t i st off)
  with evictor_write_shade [OF inv h q ap j] show ?thesis by (simp add: evictor_step_def)
next
  case (E_written t i)
  let ?w = "with_buf (wld s) (set_pd i ((desc (wld s) i)\<lparr>dirty := False\<rparr>) (buf (sys_eng s)))"
  have "evict_match S T (?w, E_clean t i) (shade_w p m ?w, E_clean (as_type t) i)"
    by (rule evict_match_same [OF h]) (use q in \<open>auto simp: queue_shade_def set_pd_def\<close>)
  moreover have g: "with_buf (with_ev p ((wld s)\<lparr>mem := m\<rparr>)) b = with_ev p ((with_buf (wld s) b)\<lparr>mem := m\<rparr>)" for b
    by (simp add: with_ev_def)
  ultimately show ?thesis by (simp add: E_written evictor_step_def g)
next
  case (E_clean t i)
  with evictor_drop_shade [OF inv h q S j] show ?thesis by (simp add: evictor_step_def)
next
  case (E_mark i)
  with evictor_mark_shade [OF inv h q, of busy i] show ?thesis by (simp add: evictor_step_def)
next
  case E_exit
  then show ?thesis by (simp add: evictor_step_def)
qed

section \<open>Runs with a thread in \<open>EvictAll\<close>\<close>

text \<open>
  The workers and the application go on. No fault arrives (what is unmapped is not touched any
  more) and the daemon, which is woken by faults only, has nothing to do.
\<close>

inductive work_step ::
  "('k, 'd) setting \<Rightarrow> nat \<Rightarrow> nat \<Rightarrow> ('k, 'd) sys \<Rightarrow> 'd event \<Rightarrow> ('k, 'd) sys \<Rightarrow> bool"
  for S nf ne where
  work_filler:
    "j < nf \<Longrightarrow> filler_step S io_ok busy (wld s, fillers s j) = Some (Inr (w, pc)) \<Longrightarrow>
     work_step S nf ne s Internal (s\<lparr>wld := w, fillers := (fillers s)(j := pc)\<rparr>)"
| work_evictor:
    "j < ne \<Longrightarrow> evictor_step S io_ok busy (wld s, evictors s j) = Some (Inr (w, pc)) \<Longrightarrow>
     work_step S nf ne s Internal (s\<lparr>wld := w, evictors := (evictors s)(j := pc)\<rparr>)"
| work_app:
    "page_view (kern S) (mem (wld s)) a = Some (y, False) \<Longrightarrow>
     page_view (kern S) k = (page_view (kern S) (mem (wld s)))(a \<mapsto> (z, False)) \<Longrightarrow>
     work_step S nf ne s (App_write a z) (s\<lparr>wld := (wld s)\<lparr>mem := k\<rparr>\<rparr>)"

text \<open>The last wait ends when the eviction workers are idle.\<close>

inductive all_run ::
  "('k, 'd) setting \<Rightarrow> nat \<Rightarrow> nat \<Rightarrow> ('k, 'd) sys \<Rightarrow> evict_all_pc \<Rightarrow> 'd event list \<Rightarrow> ('k, 'd) sys \<Rightarrow> evict_all_pc \<Rightarrow> bool"
  for S nf ne s0 pc0 where
  all_start: "all_run S nf ne s0 pc0 [] s0 pc0"
| all_work:
    "all_run S nf ne s0 pc0 tr s pc \<Longrightarrow> pc \<noteq> A_done \<Longrightarrow> work_step S nf ne s ev s' \<Longrightarrow>
     all_run S nf ne s0 pc0 (tr @ [ev]) s' pc"
| all_thread:
    "all_run S nf ne s0 pc0 tr s pc \<Longrightarrow> pc \<noteq> A_idle \<Longrightarrow>
     evict_all_step busy (sys_eng s, pc) = Some (Inr (e, pc')) \<Longrightarrow>
     all_run S nf ne s0 pc0 tr (with_eng e s) pc'"
| all_waited:
    "all_run S nf ne s0 pc0 tr s A_idle \<Longrightarrow> evictors_idle ne s \<Longrightarrow> all_run S nf ne s0 pc0 tr s A_done"

section \<open>The invariant\<close>

fun all_pc_ok :: "evict_all_pc \<Rightarrow> (pd_ref \<Rightarrow> PageDescriptor) \<Rightarrow> pd_ref list \<Rightarrow> bool" where
  "all_pc_ok (A_wait i st) arr bs = (st = PRESENT \<and> bs \<noteq> [] \<and> last bs = i \<and> \<not> deferred (arr i))"
| "all_pc_ok A_idle arr bs = (bs = [])"
| "all_pc_ok A_done arr bs = (bs = [])"
| "all_pc_ok _ arr bs = True"

text \<open>A deferred descriptor has been freed: its region was unmapped before.\<close>

definition all_inv ::
  "('k, 'd) setting \<Rightarrow> RegionTable \<Rightarrow> nat \<Rightarrow> nat \<Rightarrow> nat \<Rightarrow> evict_all_pc \<Rightarrow> ('k, 'd) sys \<Rightarrow> bool" where
  "all_inv S T n nf ne pc s \<longleftrightarrow>
     (\<exists>H p m. sys_inv S T n nf ne (shade p m pc s) \<and> hides S T H m (wld s) \<and> queue_shade p (sys_eng s))
   \<and> listed (buf (sys_eng s)) \<and> (\<forall>i. deferred (desc (wld s) i) \<longrightarrow> state (desc (wld s) i) = FREE) \<and> no_exit nf ne s
   \<and> all_pc_ok pc (desc (wld s)) (m_busy_pages (buf (sys_eng s)))"

lemma all_invE:
  assumes "all_inv S T n nf ne pc s"
  obtains H p m where "sys_inv S T n nf ne (shade p m pc s)" and "hides S T H m (wld s)" and "queue_shade p (sys_eng s)"
  using assms by (auto simp: all_inv_def)

lemma all_invD:
  assumes "all_inv S T n nf ne pc s"
  shows "listed (buf (sys_eng s))" and "deferred (desc (wld s) i) \<Longrightarrow> state (desc (wld s) i) = FREE" and "no_exit nf ne s"
    and "all_pc_ok pc (desc (wld s)) (m_busy_pages (buf (sys_eng s)))"
  using assms by (simp_all add: all_inv_def)

lemma filler_busy:
  assumes "filler_step S io_ok busy (w, pc) = Some (Inr (w', pc'))"
  shows "m_busy_pages (buf (eng w')) = m_busy_pages (buf (eng w))"
  using assms by (cases pc; auto simp: filler_step_def filler_get_def filler_load_def filler_copy_def
      mark_page_as_present_def set_pd_def Let_def bindR_eq_Inr_iff split: prod.splits dequeue_out.splits if_splits option.splits)

lemma evictor_busy:
  assumes "evictor_step S io_ok busy (w, pc) = Some (Inr (w', pc'))"
  shows "m_busy_pages (buf (eng w')) = m_busy_pages (buf (eng w))"
proof (cases pc)
  case (E_mark i)
  then obtain e where "mark_page_as_free busy i (eng w) = Inr e" "w' = w\<lparr>eng := e\<rparr>"
    using assms by (auto simp: evictor_step_def bindR_eq_Inr_iff)
  then show ?thesis by (auto elim: mark_page_as_free_effect)
qed (use assms in \<open>auto simp: evictor_step_def evictor_get_def evictor_protect_def evictor_write_def evictor_drop_def
    set_pd_def Let_def bindR_eq_Inr_iff split: prod.splits dequeue_out.splits if_splits option.splits\<close>)

lemma as_evict_exit: "as_evict pc = E_exit \<longleftrightarrow> pc = E_exit" and as_evict_get: "as_evict pc = E_get \<longleftrightarrow> pc = E_get"
  by (cases pc, simp_all)+

text \<open>A step of the shadow, with what is left to be said of the state itself.\<close>

lemma shade_step_inv:
  assumes S: "setting_ok S" and ap: "apart (covers T) (region_loc T)" and n: "n < 2 ^ 64"
    and a: "all_inv S T n nf ne pc s" and inv: "sys_inv S T n nf ne (shade p m pc s)" and h: "hides S T H m (wld s)"
    and step: "sys_step S nf ne (shade p m pc s) ev (shade p' m' pc s')" and h': "hides S T H' m' (wld s')"
    and q: "queue_shade p' (sys_eng s')"
    and b: "listed (buf (sys_eng s'))" "m_busy_pages (buf (sys_eng s')) = m_busy_pages (buf (sys_eng s))"
    and d: "\<And>i. deferred (desc (wld s') i) = deferred (desc (wld s) i)"
      "\<And>i. state (desc (wld s) i) = FREE \<Longrightarrow> state (desc (wld s') i) = FREE"
    and x: "no_exit nf ne s'"
  shows "all_inv S T n nf ne pc s'"
    and "covers T r c \<Longrightarrow> page_contents S T (wld s') r c = flat_step c ev (page_contents S T (wld s) r c)"
proof -
  have "sys_inv S T n nf ne (shade p' m' pc s')"
    using step_sys_inv [OF step inv ap n] S by (simp add: setting_ok_def)
  moreover have "all_pc_ok pc (desc (wld s')) (m_busy_pages (buf (sys_eng s')))"
    using all_invD(4) [OF a] b(2) d(1) by (cases pc) simp_all
  ultimately show "all_inv S T n nf ne pc s'" using h' q b(1) x all_invD(2) [OF a] d unfolding all_inv_def by auto
  show "page_contents S T (wld s') r c = flat_step c ev (page_contents S T (wld s) r c)" if "covers T r c"
    using step_contents [OF step inv S ap that] hides_contents [OF h that] hides_contents [OF h' that] by simp
qed

lemma filler_all_inv:
  assumes a: "all_inv S T n nf ne pc s" and S: "setting_ok S" and ap: "apart (covers T) (region_loc T)" and n: "n < 2 ^ 64"
    and j: "j < nf" and res: "filler_step S io_ok busy (wld s, fillers s j) = Some (Inr (w, fpc))"
  shows "all_inv S T n nf ne pc (s\<lparr>wld := w, fillers := (fillers s)(j := fpc)\<rparr>)" (is "all_inv _ _ _ _ _ _ ?s'")
    and "covers T r c \<Longrightarrow> page_contents S T w r c = page_contents S T (wld s) r c"
proof -
  obtain H p m where inv: "sys_inv S T n nf ne (shade p m pc s)" and h: "hides S T H m (wld s)"
    and q: "queue_shade p (sys_eng s)" using a by (rule all_invE)
  obtain m' where g: "filler_step S io_ok busy (shade_w p m (wld s), fillers s j) = Some (Inr (shade_w p m' w, fpc))"
    and h': "hides S T H m' w"
    using outcomesD(1) [OF filler_shade [OF inv h S j] res] by (auto simp: fill_match_def)
  have eq: "shade p m' pc ?s' = (shade p m pc s)\<lparr>wld := shade_w p m' w, fillers := (fillers (shade p m pc s))(j := fpc)\<rparr>"
    by (simp add: shade_def)
  have step: "sys_step S nf ne (shade p m pc s) Internal (shade p m' pc ?s')"
    unfolding eq by (rule step_filler [OF j]) (use g in simp)
  have "fpc \<noteq> F_exit" using filler_no_exit [OF _ g] sys_invD(5) [OF inv] by simp
  then have x: "no_exit nf ne ?s'" using all_invD(3) [OF a] by (simp add: no_exit_def)
  have d: "deferred (desc w i) = deferred (desc (wld s) i)" "state (desc (wld s) i) = FREE \<Longrightarrow> state (desc w i) = FREE" for i
    using filler_kept(1) [OF res] by (simp_all add: kept_def)
  note sh = shade_step_inv [OF S ap n a inv h step, of H, simplified, OF h' _ filler_listed [OF all_invD(1) [OF a] res]
      filler_busy [OF res] d x]
  have "queue_shade p (eng w)" using q filler_ghost(2) [OF res] by (simp add: queue_shade_def)
  from sh [OF this] show "all_inv S T n nf ne pc ?s'"
    and "covers T r c \<Longrightarrow> page_contents S T w r c = page_contents S T (wld s) r c" by simp_all
qed

lemma evictor_all_inv:
  assumes a: "all_inv S T n nf ne pc s" and S: "setting_ok S" and ap: "apart (covers T) (region_loc T)" and n: "n < 2 ^ 64"
    and j: "j < ne" and res: "evictor_step S io_ok busy (wld s, evictors s j) = Some (Inr (w, epc))"
  shows "all_inv S T n nf ne pc (s\<lparr>wld := w, evictors := (evictors s)(j := epc)\<rparr>)" (is "all_inv _ _ _ _ _ _ ?s'")
    and "covers T r c \<Longrightarrow> page_contents S T w r c = page_contents S T (wld s) r c"
proof -
  obtain H p m where inv: "sys_inv S T n nf ne (shade p m pc s)" and h: "hides S T H m (wld s)"
    and q: "queue_shade p (sys_eng s)" using a by (rule all_invE)
  obtain H' p' m' where g: "evictor_step S io_ok busy (shade_w p m (wld s), as_evict (evictors s j))
      = Some (Inr (shade_w p' m' w, as_evict epc))" and h': "hides S T H' m' w" and q': "queue_shade p' (eng w)"
    using outcomesD(1) [OF evictor_shade [OF inv h q S ap j] res] by (auto simp: evict_match_def)
  have eq: "shade p' m' pc ?s' = (shade p m pc s)\<lparr>wld := shade_w p' m' w,
      evictors := (evictors (shade p m pc s))(j := as_evict epc)\<rparr>"
    by (simp add: shade_def fun_eq_iff)
  have step: "sys_step S nf ne (shade p m pc s) Internal (shade p' m' pc ?s')"
    unfolding eq by (rule step_evictor [OF j]) (use g in simp)
  have "as_evict epc \<noteq> E_exit" using evictor_no_exit [OF _ g] sys_invD(5) [OF inv] by simp
  then have x: "no_exit nf ne ?s'" using all_invD(3) [OF a] by (simp add: no_exit_def as_evict_exit)
  have d: "deferred (desc w i) = deferred (desc (wld s) i)" "state (desc (wld s) i) = FREE \<Longrightarrow> state (desc w i) = FREE" for i
    using evictor_frees [OF res] by (auto simp: kept_def freed_def split: if_splits)
  note sh = shade_step_inv [OF S ap n a inv h step, of H', simplified, OF h' q' evictor_listed [OF all_invD(1) [OF a] res]
      evictor_busy [OF res] d x]
  from sh show "all_inv S T n nf ne pc ?s'"
    and "covers T r c \<Longrightarrow> page_contents S T w r c = page_contents S T (wld s) r c" by simp_all
qed

text \<open>The application writes: the page is not protected, so it is not one that has been given up.\<close>

lemma kernel_put:
  assumes "kernel_ok A z K"
  shows "\<exists>m'. page_view K m' = (page_view K m)(a \<mapsto> (x, False))"
proof -
  obtain m1 where "page_view K m1 = (page_view K m)(a := None)" using kernel_calls(5) [OF assms] by blast
  then show ?thesis using kernel_calls(1) [OF assms, of m1 a x] by auto
qed

lemma app_all_inv:
  assumes a: "all_inv S T n nf ne pc s" and S: "setting_ok S" and ap: "apart (covers T) (region_loc T)" and n: "n < 2 ^ 64"
    and v: "page_view (kern S) (mem (wld s)) b = Some (y, False)"
    and k: "page_view (kern S) k = (page_view (kern S) (mem (wld s)))(b \<mapsto> (z, False))"
  shows "all_inv S T n nf ne pc (s\<lparr>wld := (wld s)\<lparr>mem := k\<rparr>\<rparr>)" (is "all_inv _ _ _ _ _ _ ?s'")
    and "covers T r c \<Longrightarrow> page_contents S T ((wld s)\<lparr>mem := k\<rparr>) r c
      = flat_step c (App_write b z) (page_contents S T (wld s) r c)"
proof -
  obtain H p m where inv: "sys_inv S T n nf ne (shade p m pc s)" and h: "hides S T H m (wld s)"
    and q: "queue_shade p (sys_eng s)" using a by (rule all_invE)
  have b: "b \<notin> H" using hidesD(3) [OF h, of b] v by auto
  have "kernel_ok (abi_of S) (page_sz S) (kern S)" using S by (simp add: setting_ok_def)
  then obtain m' where m': "page_view (kern S) m' = (page_view (kern S) m)(b \<mapsto> (z, False))" by (metis kernel_put)
  have "sys_step S nf ne (shade p m pc s) (App_write b z) ((shade p m pc s)\<lparr>wld := (shade_w p m (wld s))\<lparr>mem := m'\<rparr>\<rparr>)"
    using step_app [where s = "shade p m pc s" and a = b and k = m'] v m' hidesD(1) [OF h b] by simp
  then have step: "sys_step S nf ne (shade p m pc s) (App_write b z) (shade p m' pc ?s')" by (simp add: shade_def)
  note sh = shade_step_inv [OF S ap n a inv h step, of H, simplified, OF hides_mem_upd [OF h b k m']]
  show "all_inv S T n nf ne pc ?s'"
    and "covers T r c \<Longrightarrow> page_contents S T ((wld s)\<lparr>mem := k\<rparr>) r c
      = flat_step c (App_write b z) (page_contents S T (wld s) r c)"
    using sh all_invD [OF a] q by (simp_all add: no_exit_def)
qed

section \<open>The thread keeps the invariant\<close>

lemma pool_inv_drop:
  assumes inv: "pool_inv own q F A (qs @ [i]) n pcs" and same: "\<forall>k\<in>A - {i}. F' k = F k"
  shows "pool_inv own q F' (A - {i}) qs n pcs"
proof -
  have i: "i \<in> A" using pool_inv_queue(1) [OF inv, of i] by simp
  have tok: "of_bool (k \<in> A) = count (tokens own qs n pcs) k + of_bool (k = i)" for k
    using pool_inv_count [OF inv, of k] i by (auto simp: tokens_append split: if_splits)
  have count: "count (tokens own qs n pcs) k = of_bool (k \<in> A - {i})" for k
    using tok [of k] i by (cases "k = i") simp_all
  have "pool_inv own q F (A - {i}) qs n pcs"
    by (rule pool_invI [OF count]) (use pool_inv_queue(2) [OF inv] pool_inv_pc(2) [OF inv] in auto)
  then show ?thesis using same by (rule pool_inv_frame)
qed

text \<open>A page in the hand of the thread is given up: it is freed and dropped at once.\<close>

lemma core_give_up:
  assumes inv: "core_inv cov loc nf ne c" and q: "c_eq c = qs @ [i]"
    and d: "state d = FREE" "deferred d = deferred (c_arr c i)"
    and c': "c_arr c' = (c_arr c)(i := d)" "c_pres c' = (c_pres c)(page (c_arr c i) := None)"
      "c_free c' = (if deferred d then c_free c else c_free c @ [i])" "c_busy c' = c_busy c"
      "c_fq c' = c_fq c" "c_fill c' = c_fill c" "c_eq c' = qs" "c_evict c' = c_evict c"
      "c_pv c' = (c_pv c)(page (c_arr c i) := None)" "c_sto c' = c_sto c"
  shows "core_inv cov loc nf ne c'"
proof (rule core_invI)
  note pool = core_invD(6) [OF inv]
  have st: "state (c_arr c i) = LEAVING" using pool_inv_queue(1) [OF pool, of i] q by (simp add: in_state_def)
  have face: "face loc c' k = face loc c k" if "k \<noteq> i" "state (c_arr c k) \<noteq> FREE" for k
    using page_inj [OF core_invD(1) [OF inv], of k i] that st by (auto simp: face_def c')
  show "pages_ok (c_arr c') (c_pres c') (c_free c') (c_busy c')"
    unfolding c' by (rule pages_ok_free [OF core_invD(1) [OF inv] st d])
  show "\<exists>r. region (c_arr c' k) = Some r \<and> cov r (page (c_arr c' k))" if "state (c_arr c' k) \<noteq> FREE" for k
    using that core_invD(2) [OF inv, of k] d(1) by (auto simp: c' split: if_splits)
  show "c_pv c' a = None" if "cov r a" "c_pres c' a = None" for r a
    using that core_invD(3) [OF inv, of r a] by (auto simp: c' split: if_splits)
  show "present_f (face loc c' k)" if "state (c_arr c' k) = PRESENT" for k
    using that core_invD(4) [OF inv, of k] face [of k] d(1) by (auto simp: c' split: if_splits)
  have "in_state {FILLING, UPDATING} c' = in_state {FILLING, UPDATING} c"
    and F: "i \<notin> in_state {FILLING, UPDATING} c"
    using d(1) st by (auto simp: in_state_def c' split: if_splits)
  moreover from F have "\<forall>k\<in>in_state {FILLING, UPDATING} c. face loc c' k = face loc c k"
    using face by (fastforce simp: in_state_def)
  ultimately show "pool_inv fill_own wait_f (face loc c') (in_state {FILLING, UPDATING} c') (c_fq c') nf (c_fill c')"
    using pool_inv_frame [OF core_invD(5) [OF inv], of "face loc c'"] by (simp add: c')
  have "in_state {LEAVING} c' = in_state {LEAVING} c - {i}"
    using d(1) by (auto simp: in_state_def c' split: if_splits)
  moreover have "\<forall>k\<in>in_state {LEAVING} c - {i}. face loc c' k = face loc c k"
    using face by (simp add: in_state_def)
  ultimately show "pool_inv (evict_own loc) loaded_f (face loc c') (in_state {LEAVING} c') (c_eq c') ne (c_evict c')"
    using pool_inv_drop [OF pool [unfolded q], of "face loc c'"] by (simp add: c')
qed

text \<open>
  What the thread does when it looks for the next page. It passes over the deferred
  descriptors at the end of the list, which become available.
\<close>

lemma evict_oldest_loop_skip:
  assumes "\<And>i. deferred (m_array b i) \<Longrightarrow> state (m_array b i) = FREE"
  shows "\<exists>b' ds. evict_oldest_loop b = evict_oldest_loop b' \<and> m_busy_pages b = m_busy_pages b' @ ds
     \<and> (\<forall>i\<in>set ds. deferred (m_array b i)) \<and> m_array b' = m_array b \<and> m_present_pages b' = m_present_pages b
     \<and> m_free_pages b' = m_free_pages b @ rev ds
     \<and> (m_busy_pages b' \<noteq> [] \<longrightarrow> \<not> deferred (m_array b (last (m_busy_pages b'))))"
  using assms
proof (induction "m_busy_pages b" arbitrary: b rule: rev_induct)
  case Nil
  then show ?case by (intro exI [of _ b] exI [of _ "[]"]) simp
next
  case (snoc i bs)
  then have bs: "m_busy_pages b = bs @ [i]" by simp
  show ?case
  proof (cases "deferred (m_array b i)")
    case True
    let ?b = "evict_take_deferred i b"
    have b: "m_array ?b = m_array b" "m_present_pages ?b = m_present_pages b" "m_busy_pages ?b = bs"
      "m_free_pages ?b = m_free_pages b @ [i]"
      by (simp_all add: evict_take_deferred_def release_page_descriptor_def bs Let_def)
    have loop: "evict_oldest_loop b = evict_oldest_loop ?b"
      using True snoc.prems [OF True] by (simp add: evict_oldest_loop.simps [of b] bs)
    obtain b' ds where "evict_oldest_loop ?b = evict_oldest_loop b'" "bs = m_busy_pages b' @ ds"
      "\<forall>k\<in>set ds. deferred (m_array b k)" "m_array b' = m_array b" "m_present_pages b' = m_present_pages b"
      "m_free_pages b' = m_free_pages b @ [i] @ rev ds"
      "m_busy_pages b' \<noteq> [] \<longrightarrow> \<not> deferred (m_array b (last (m_busy_pages b')))"
      using snoc.hyps(1) [of ?b] snoc.prems b by auto
    then show ?thesis using loop bs True by (intro exI [of _ b'] exI [of _ "ds @ [i]"]) auto
  next
    case False
    then show ?thesis using bs by (intro exI [of _ b] exI [of _ "[]"]) simp
  qed
qed

text \<open>Then it finds no page, has to wait for the oldest, or takes it.\<close>

definition looked :: "engine \<Rightarrow> engine \<Rightarrow> evict_all_pc \<Rightarrow> bool" where
  "looked e e' pc \<longleftrightarrow>
     quiet e e' \<and> table e' = table e
       \<and> (m_busy_pages (buf e) = [] \<and> pc = A_idle
          \<or> (\<exists>i. m_busy_pages (buf e) \<noteq> [] \<and> last (m_busy_pages (buf e)) = i \<and> pc = A_wait i PRESENT
              \<and> \<not> deferred (m_array (buf e) i) \<and> state (m_array (buf e) i) \<noteq> PRESENT))
   \<or> (\<exists>bs i. m_busy_pages (buf e) = bs @ [i] \<and> state (m_array (buf e) i) = PRESENT \<and> pc = A_got i
       \<and> m_array (buf e') = (m_array (buf e))(i := (m_array (buf e) i)\<lparr>state := LEAVING\<rparr>)
       \<and> m_present_pages (buf e') = m_present_pages (buf e) \<and> m_free_pages (buf e') = m_free_pages (buf e)
       \<and> m_busy_pages (buf e') = bs \<and> table e' = table e
       \<and> fill_workers e' = fill_workers e \<and> evict_workers e' = evict_workers e)"

definition skipped :: "pd_ref list \<Rightarrow> Buffer \<Rightarrow> Buffer \<Rightarrow> bool" where
  "skipped ds b b' \<longleftrightarrow>
     m_busy_pages b = m_busy_pages b' @ ds \<and> (\<forall>i\<in>set ds. state (m_array b i) = FREE) \<and> m_array b' = m_array b
   \<and> m_present_pages b' = m_present_pages b \<and> m_free_pages b' = m_free_pages b @ rev ds"

lemma loop_looked:
  assumes d: "m_busy_pages b \<noteq> [] \<Longrightarrow> \<not> deferred (m_array b (last (m_busy_pages b)))"
    and res: "evict_all_next e (evict_oldest_loop b) = Inr (e', pc')"
  shows "looked (e\<lparr>buf := b\<rparr>) e' pc'"
proof (cases "m_busy_pages b" rule: rev_cases)
  case Nil
  with res show ?thesis by (simp add: evict_oldest_loop.simps [of b] evict_all_next_def looked_def quiet_def) auto
next
  case (snoc bs i)
  show ?thesis
  proof (cases "state (m_array b i) = PRESENT")
    case True
    with res d snoc have "pc' = A_got i \<and> e' = e\<lparr>buf := set_pd i ((m_array b i)\<lparr>state := LEAVING\<rparr>)
        (count_deleted (b\<lparr>m_busy_pages := bs\<rparr>))\<rparr>"
      by (auto simp: evict_oldest_loop.simps [of b] evict_all_next_def evict_take_normal_def set_state_leaving_def Let_def)
    with True snoc show ?thesis by (simp add: looked_def set_pd_def)
  next
    case False
    with res d snoc have "pc' = A_wait i PRESENT \<and> e' = e\<lparr>buf := begin_state_wait b\<rparr>"
      by (auto simp: evict_oldest_loop.simps [of b] evict_all_next_def Let_def)
    with False d snoc show ?thesis by (simp add: looked_def quiet_def)
  qed
qed

lemma evict_all_look:
  assumes d: "\<And>i. deferred (m_array (buf e) i) \<Longrightarrow> state (m_array (buf e) i) = FREE"
    and pc: "pc = A_next \<or> pc = A_wait k st" and ok: "all_pc_ok pc (m_array (buf e)) (m_busy_pages (buf e))"
    and res: "evict_all_step busy (e, pc) = Some (Inr (e', pc'))"
  obtains b ds where "skipped ds (buf e) b" and "looked (e\<lparr>buf := b\<rparr>) e' pc'"
proof -
  obtain b where b: "m_array b = m_array (buf e)" "m_present_pages b = m_present_pages (buf e)"
      "m_free_pages b = m_free_pages (buf e)" "m_busy_pages b = m_busy_pages (buf e)"
    and look: "evict_all_next e (evict_oldest_loop b) = Inr (e', pc')"
  proof (cases "pc = A_next")
    case True
    with that [of "lock_buffer busy (buf e)"] res show thesis
      by (simp add: evict_all_step_def evict_oldest_page_def)
  next
    case False
    then have k: "pc = A_wait k PRESENT" "m_busy_pages (buf e) \<noteq> []" "last (m_busy_pages (buf e)) = k"
      "\<not> deferred (m_array (buf e) k)" using pc ok by auto
    then have "evict_oldest_resume k PRESENT (buf e) = evict_oldest_loop (end_state_wait (buf e))"
      by (simp add: evict_oldest_resume_def evict_oldest_loop.simps [of "end_state_wait (buf e)"] Let_def)
    with that [of "end_state_wait (buf e)"] res k show thesis by (simp add: evict_all_step_def)
  qed
  obtain b' ds where skip: "evict_oldest_loop b = evict_oldest_loop b'" "skipped ds (buf e) b'"
    "m_busy_pages b' \<noteq> [] \<Longrightarrow> \<not> deferred (m_array b' (last (m_busy_pages b')))"
    using evict_oldest_loop_skip [of b] d b by (auto simp: skipped_def)
  from loop_looked [OF skip(3), of e e' pc'] look skip show thesis by (intro that) simp_all
qed

lemma shade_thread_inv:
  assumes inv: "sys_inv S T n nf ne (shade p m pc s)"
    and core: "core_inv (covers T) (region_loc T) nf ne (core_of S (shade p' m' pc' (with_eng e s)))"
    and same: "\<And>a. m_present_pages (buf (sys_eng s)) a = None \<Longrightarrow> m_present_pages (buf e) a = None"
      "set (m_free_pages (buf e)) \<subseteq> {..<n}" "set (m_busy_pages (buf e)) \<subseteq> {..<n}"
      "\<And>i. state (m_array (buf e) i) \<noteq> FREE \<Longrightarrow> i < n"
    and t: "table_ok (table e)" "same_layout T (table e)" and q: "queues_ok (e\<lparr>evict_workers := p'\<rparr>)"
  shows "sys_inv S T n nf ne (shade p' m' pc' (with_eng e s))"
proof (rule worker_sys_inv [OF inv core])
  show "in_range n (core_of S (shade p' m' pc' (with_eng e s)))"
    using same by (auto simp: in_range_def core_of_simps)
qed (use same t q in \<open>simp_all add: core_of_simps queues_ok_def\<close>)

lemma rest_all_inv:
  assumes a: "all_inv S T n nf ne pc s" and pc: "all_hand pc = M_get" and e: "quiet (sys_eng s) e" "table e = table (sys_eng s)"
    and pc': "all_hand pc' = M_get" "all_pc_ok pc' (m_array (buf e)) (m_busy_pages (buf e))"
  shows "all_inv S T n nf ne pc' (with_eng e s)"
proof -
  obtain H p m where inv: "sys_inv S T n nf ne (shade p m pc s)" and h: "hides S T H m (wld s)"
    and q: "queue_shade p (sys_eng s)" using a by (rule all_invE)
  have core: "core_of S (shade p m pc' (with_eng e s)) = core_of S (shade p m pc s)"
    using e pc pc'(1) by (simp add: core_of_simps quiet_def)
  have "sys_inv S T n nf ne (shade p m pc' (with_eng e s))"
    by (rule worker_sys_inv [OF inv])
      (use sys_invD [OF inv] e in \<open>simp_all add: core quiet_def queues_ok_def\<close>)
  moreover have "hides S T H m ((wld s)\<lparr>eng := e\<rparr>)"
    by (rule hides_step [OF h]) (use e hidesD(1,2) [OF h] in \<open>simp_all add: quiet_def\<close>)
  ultimately show ?thesis
    using all_invD [OF a] q e(1) pc'(2) listed_same [of "buf (sys_eng s)" "buf e"]
    by (auto simp: all_inv_def queue_shade_def quiet_def no_exit_def)
qed

lemma core_lists:
  assumes inv: "core_inv cov loc nf ne c" and ok: "pages_ok (c_arr c) (c_pres c) fr bs"
  shows "core_inv cov loc nf ne (c\<lparr>c_free := fr, c_busy := bs\<rparr>)" (is "core_inv _ _ _ _ ?c")
proof (rule core_invI)
  have F: "face loc ?c = face loc c" and X: "in_state X ?c = in_state X c" for X
    by (simp_all add: face_def fun_eq_iff in_state_def)
  show "pool_inv fill_own wait_f (face loc ?c) (in_state {FILLING, UPDATING} ?c) (c_fq ?c) nf (c_fill ?c)"
    "pool_inv (evict_own loc) loaded_f (face loc ?c) (in_state {LEAVING} ?c) (c_eq ?c) ne (c_evict ?c)"
    using core_invD(5,6) [OF inv] unfolding F X by simp_all
  show "present_f (face loc ?c i)" if "state (c_arr ?c i) = PRESENT" for i
    using core_invD(4) [OF inv, of i] that unfolding F by simp
qed (use ok core_invD(2,3) [OF inv] in simp_all)

lemma skip_all_inv:
  assumes a: "all_inv S T n nf ne pc s" and pc: "all_hand pc = M_get" and b: "skipped ds (buf (sys_eng s)) b"
  shows "all_inv S T n nf ne A_next (with_eng ((sys_eng s)\<lparr>buf := b\<rparr>) s)" (is "all_inv _ _ _ _ _ _ (with_eng ?e s)")
proof -
  obtain H p m where inv: "sys_inv S T n nf ne (shade p m pc s)" and h: "hides S T H m (wld s)"
    and q: "queue_shade p (sys_eng s)" using a by (rule all_invE)
  let ?c = "core_of S (shade p m pc s)" and ?c' = "core_of S (shade p m A_next (with_eng ?e s))"
  have c': "?c' = ?c\<lparr>c_free := m_free_pages b, c_busy := m_busy_pages b\<rparr>"
    using b pc by (simp add: core_of_simps skipped_def)
  have "pages_ok (c_arr ?c) (c_pres ?c) (m_free_pages b) (m_busy_pages b)"
    using core_invD(1) [OF sys_invD(1) [OF inv]] b by (auto simp: core_of_simps pages_ok_def skipped_def)
  from core_lists [OF sys_invD(1) [OF inv] this]
  have "core_inv (covers T) (region_loc T) nf ne ?c'" by (simp only: c')
  then have "sys_inv S T n nf ne (shade p m A_next (with_eng ?e s))"
    by (rule shade_thread_inv [OF inv])
      (use sys_invD(2-5) [OF inv] b in \<open>auto simp: in_range_def core_of_simps queues_ok_def skipped_def\<close>)
  moreover have "hides S T H m ((wld s)\<lparr>eng := ?e\<rparr>)"
    by (rule hides_step [OF h]) (use b hidesD(1,2) [OF h] in \<open>simp_all add: skipped_def\<close>)
  moreover have "listed b" using all_invD(1) [OF a] b by (auto simp: listed_def skipped_def in_use_def)
  ultimately show ?thesis
    using all_invD(2,3) [OF a] q b by (auto simp: all_inv_def queue_shade_def no_exit_def skipped_def)
qed

lemma pages_ok_take:
  assumes ok: "pages_ok arr pres fr (bs @ [i])" and st: "state (arr i) = PRESENT"
  shows "pages_ok (arr(i := (arr i)\<lparr>state := LEAVING\<rparr>)) pres fr bs"
proof -
  have "pages_ok arr pres fr bs" "i \<notin> set bs"
    using ok pages_ok_shrink [of arr pres fr "bs @ [i]" bs] by (auto simp: pages_ok_def)
  then show ?thesis using st by (intro pages_ok_touch) simp_all
qed

lemma take_all_inv:
  assumes a: "all_inv S T n nf ne pc s" and pc: "all_hand pc = M_get"
    and i: "m_busy_pages (buf (sys_eng s)) = bs @ [i]" "state (desc (wld s) i) = PRESENT"
    and b: "m_array (buf e) = (m_array (buf (sys_eng s)))(i := (desc (wld s) i)\<lparr>state := LEAVING\<rparr>)"
      "m_present_pages (buf e) = m_present_pages (buf (sys_eng s))" "m_free_pages (buf e) = m_free_pages (buf (sys_eng s))"
      "m_busy_pages (buf e) = bs"
    and e: "table e = table (sys_eng s)" "fill_workers e = fill_workers (sys_eng s)" "evict_workers e = evict_workers (sys_eng s)"
  shows "all_inv S T n nf ne (A_got i) (with_eng e s)"
proof -
  obtain H p m where inv: "sys_inv S T n nf ne (shade p m pc s)" and h: "hides S T H m (wld s)"
    and q: "queue_shade p (sys_eng s)" using a by (rule all_invE)
  let ?c = "core_of S (shade p m pc s)" and ?c' = "core_of S (shade p m (A_got i) (with_eng e s))"
  have arr: "m_array (buf e) = set_leaving {i} (m_array (buf (sys_eng s)))"
    by (simp add: b set_leaving_def fun_eq_iff)
  have "sys_inv S T n nf ne (shade p m (A_got i) (with_eng e s))"
  proof (rule shade_thread_inv [OF inv])
    have "pages_ok (desc (wld s)) (m_present_pages (buf (sys_eng s))) (m_free_pages (buf (sys_eng s))) (bs @ [i])"
      using shade_buf_inv [OF inv] i(1) by (simp add: buf_inv_def)
    from pages_ok_take [OF this i(2)] show "core_inv (covers T) (region_loc T) nf ne ?c'"
      by (intro core_leave [OF sys_invD(1) [OF inv], of "[i]"])
        (use i(2) e pc arr in \<open>simp_all add: core_of_simps b\<close>)
    show "k < n" if "state (m_array (buf e) k) \<noteq> FREE" for k
      using that sys_invD(2) [OF inv] i(2) by (auto simp: in_range_def core_of_simps b split: if_splits)
    show "set (m_free_pages (buf e)) \<subseteq> {..<n}" "set (m_busy_pages (buf e)) \<subseteq> {..<n}"
      using sys_invD(2) [OF inv] i(1) by (auto simp: in_range_def core_of_simps b)
  qed (use sys_invD(3-5) [OF inv] e b in \<open>simp_all add: queues_ok_def\<close>)
  moreover have "hides S T H m ((wld s)\<lparr>eng := e\<rparr>)"
    by (rule hides_step [OF h]) (use b hidesD(1,2) [OF h] in auto)
  moreover have "listed (buf e)"
    using all_invD(1) [OF a] i(1) by (auto simp: listed_def b in_use_def split: if_splits)
  ultimately show ?thesis
    using all_invD(2) [OF a] all_invD(2) [OF a, of i] i(2) all_invD(3) [OF a] q e(3)
    by (auto simp: all_inv_def queue_shade_def no_exit_def b)
qed

lemma send_all_inv:
  assumes a: "all_inv S T n nf ne (A_got i) s"
  shows "all_inv S T n nf ne A_next (with_eng (schedule_fast_evict i (sys_eng s)) s)"
proof -
  obtain H p m where inv: "sys_inv S T n nf ne (shade p m (A_got i) s)" and h: "hides S T H m (wld s)"
    and q: "queue_shade p (sys_eng s)" using a by (rule all_invE)
  let ?e = "schedule_fast_evict i (sys_eng s)" and ?p = "send_work \<lparr>page_desc = Some i, work_type = EVICT\<rparr> p"
  have core: "core_of S (shade ?p m A_next (with_eng ?e s)) = core_of S (shade p m (A_got i) s)"
    and t: "table ?e = table (sys_eng s)"
    by (simp_all add: core_of_simps schedule_fast_evict_def item_pd_def)
  have "sys_inv S T n nf ne (shade ?p m A_next (with_eng ?e s))"
  proof (rule worker_sys_inv [OF inv])
    show "queues_ok (sys_eng (shade ?p m A_next (with_eng ?e s)))"
      using sys_invD(5) [OF inv] by (auto simp: queues_ok_def schedule_fast_evict_def item_pd_def)
  qed (use sys_invD(1-4) [OF inv] in \<open>simp_all add: core t\<close>)
  moreover have "hides S T H m ((wld s)\<lparr>eng := ?e\<rparr>)"
    by (rule hides_step [OF h]) (use hidesD(1,2) [OF h] in \<open>simp_all add: schedule_fast_evict_def\<close>)
  moreover have "queue_shade ?p ?e" using q by (simp add: queue_shade_def schedule_fast_evict_def as_item_def)
  ultimately show ?thesis
    using all_invD [OF a] by (auto simp: all_inv_def schedule_fast_evict_def no_exit_def)
qed

lemma hand_loaded:
  assumes inv: "sys_inv S T n nf ne (shade p m (A_got i) s)"
  shows "state (desc (wld s) i) = LEAVING" and "loaded_f (wface S T (shade_w p m (wld s)) i)"
proof -
  have "i \<in> set (c_eq (core_of S (shade p m (A_got i) s)))" by (simp add: core_of_simps)
  note own = pool_inv_queue [OF core_invD(6) [OF sys_invD(1) [OF inv]] this]
  show "state (desc (wld s) i) = LEAVING" using own(1) by (simp add: in_state_def core_of_simps)
  show "loaded_f (wface S T (shade_w p m (wld s)) i)" using own(2) by simp
qed

lemma give_up_all_inv:
  assumes a: "all_inv S T n nf ne (A_got i) s" and S: "setting_ok S" and c: "\<not> dirty (desc (wld s) i)"
    and res: "mark_page_as_free busy i (sys_eng s) = Inr e"
  shows "all_inv S T n nf ne A_next (with_eng e s)"
proof -
  obtain H p m where inv: "sys_inv S T n nf ne (shade p m (A_got i) s)" and h: "hides S T H m (wld s)"
    and q: "queue_shade p (sys_eng s)" using a by (rule all_invE)
  let ?a = "page (desc (wld s) i)"
  have "kernel_ok (abi_of S) (page_sz S) (kern S)" using S by (simp add: setting_ok_def)
  then obtain m' where m': "page_view (kern S) m' = (page_view (kern S) m)(?a := None)"
    by (metis kernel_calls(5))
  have cl: "clean_f (wface S T (shade_w p m (wld s)) i)"
    using hand_loaded(2) [OF inv] c by (auto simp: wface_def split: option.splits)
  have "hides S T (insert ?a H) m' ((wld s)\<lparr>eng := e\<rparr>)"
    by (rule hides_step [OF clean_hides [OF inv h hand_loaded(1) [OF inv] cl m']])
      (use m' hidesD(1,2) [OF h] mark_page_as_free_keeps [OF shade_buf_inv [OF inv] res] in auto)
  moreover from res obtain r d where d: "state d = FREE" "deferred d = deferred (desc (wld s) i)"
    and b: "m_array (buf e) = (m_array (buf (sys_eng s)))(i := d)"
      "m_present_pages (buf e) = (m_present_pages (buf (sys_eng s)))(?a := None)"
      "m_free_pages (buf e) = (if deferred d then m_free_pages (buf (sys_eng s)) else m_free_pages (buf (sys_eng s)) @ [i])"
      "m_busy_pages (buf e) = m_busy_pages (buf (sys_eng s))"
    and t: "table e = (table (sys_eng s))\<lparr>rds := (rds (table (sys_eng s)))(r := erase_page_descriptor i (rds (table (sys_eng s)) r))\<rparr>"
    and w: "fill_workers e = fill_workers (sys_eng s)" "evict_workers e = evict_workers (sys_eng s)"
    by (rule mark_page_as_free_effect) blast
  have "sys_inv S T n nf ne (shade p m' A_next (with_eng e s))"
  proof (rule shade_thread_inv [OF inv])
    show "core_inv (covers T) (region_loc T) nf ne (core_of S (shade p m' A_next (with_eng e s)))"
      by (rule core_give_up [OF sys_invD(1) [OF inv], of "map item_pd (pool_queue p)" i d])
        (use d b w m' in \<open>simp_all add: core_of_simps\<close>)
    have "i < n" using sys_invD(2) [OF inv] hand_loaded(1) [OF inv] by (simp add: in_range_def core_of_simps)
    then show "set (m_free_pages (buf e)) \<subseteq> {..<n}" "set (m_busy_pages (buf e)) \<subseteq> {..<n}"
      "\<And>k. state (m_array (buf e) k) \<noteq> FREE \<Longrightarrow> k < n"
      using sys_invD(2) [OF inv] d by (auto simp: in_range_def core_of_simps b split: if_splits)
    show "table_ok (table e)" "same_layout T (table e)"
      using sys_invD(3,4) [OF inv] t by (auto intro!: table_ok_upd simp: same_layout_def)
  qed (use sys_invD(5) [OF inv] w b in \<open>simp_all add: queues_ok_def\<close>)
  moreover have "listed (buf e)"
    by (rule listed_upd [OF all_invD(1) [OF a] b(1)]) (use b d in \<open>simp_all add: in_use_def\<close>)
  ultimately show ?thesis
    using all_invD(2,3) [OF a] q w d by (auto simp: all_inv_def queue_shade_def no_exit_def b)
qed

lemma thread_all_inv:
  assumes a: "all_inv S T n nf ne pc s" and S: "setting_ok S" and pc: "pc \<noteq> A_idle"
    and res: "evict_all_step busy (sys_eng s, pc) = Some (Inr (e, pc'))"
  shows "all_inv S T n nf ne pc' (with_eng e s)"
proof -
  have look: ?thesis if k: "pc = A_next \<or> pc = A_wait k st" for k st
  proof -
    obtain b ds where b: "skipped ds (buf (sys_eng s)) b" "looked ((sys_eng s)\<lparr>buf := b\<rparr>) e pc'"
      by (rule evict_all_look [OF all_invD(2) [OF a] k all_invD(4) [OF a] res])
    let ?s = "with_eng ((sys_eng s)\<lparr>buf := b\<rparr>) s"
    have a1: "all_inv S T n nf ne A_next ?s" using skip_all_inv [OF a _ b(1)] k by auto
    have "all_inv S T n nf ne pc' (with_eng e ?s)" using b(2) [unfolded looked_def]
    proof (elim disjE exE conjE)
      fix bs i assume "m_busy_pages (buf ((sys_eng s)\<lparr>buf := b\<rparr>)) = bs @ [i]" and "pc' = A_got i"
        and "state (m_array (buf ((sys_eng s)\<lparr>buf := b\<rparr>)) i) = PRESENT"
        and "m_array (buf e) = (m_array (buf ((sys_eng s)\<lparr>buf := b\<rparr>)))(i := (m_array (buf ((sys_eng s)\<lparr>buf := b\<rparr>)) i)\<lparr>state := LEAVING\<rparr>)"
        and "m_present_pages (buf e) = m_present_pages (buf ((sys_eng s)\<lparr>buf := b\<rparr>))"
        and "m_free_pages (buf e) = m_free_pages (buf ((sys_eng s)\<lparr>buf := b\<rparr>))"
        and "m_busy_pages (buf e) = bs" and "table e = table ((sys_eng s)\<lparr>buf := b\<rparr>)"
        and "fill_workers e = fill_workers ((sys_eng s)\<lparr>buf := b\<rparr>)" and "evict_workers e = evict_workers ((sys_eng s)\<lparr>buf := b\<rparr>)"
      then show ?thesis using take_all_inv [OF a1, of bs i e] by simp
    qed (use rest_all_inv [OF a1, of e pc'] in \<open>auto simp: quiet_def\<close>)
    then show ?thesis by simp
  qed
  show ?thesis
  proof (cases pc)
    case (A_got i)
    show ?thesis
    proof (cases "dirty (desc (wld s) i)")
      case True
      with A_got res send_all_inv [OF a [unfolded A_got]] show ?thesis by (simp add: evict_all_step_def)
    next
      case False
      with A_got res give_up_all_inv [OF a [unfolded A_got] S False, of busy] show ?thesis
        by (auto simp: evict_all_step_def bindR_eq_Inr_iff)
    qed
  qed (use look pc res in \<open>auto simp: evict_all_step_def\<close>)
qed

lemma work_all_inv:
  assumes "work_step S nf ne s ev s'" and "all_inv S T n nf ne pc s" and "setting_ok S"
    and "apart (covers T) (region_loc T)" and "n < 2 ^ 64"
  shows "all_inv S T n nf ne pc s'"
    and "covers T r a \<Longrightarrow> page_contents S T (wld s') r a = flat_step a ev (page_contents S T (wld s) r a)"
  using assms by (cases; auto simp: filler_all_inv evictor_all_inv app_all_inv)+

lemma evict_all_next_pc:
  assumes "evict_all_next e res = Inr (e', pc)"
  shows "pc \<noteq> A_done"
proof -
  obtain out where "pc = (case out of Evicted None \<Rightarrow> A_idle | Evicted (Some pd) \<Rightarrow> A_got pd | Wait_evict pd st \<Rightarrow> A_wait pd st)"
    using assms by (auto simp: evict_all_next_def bindR_eq_Inr_iff)
  then show ?thesis by (cases out) (simp_all split: option.splits)
qed

lemma all_run_inv:
  assumes run: "all_run S nf ne s0 pc0 tr s pc" and start: "all_inv S T n nf ne pc0 s0" "pc0 \<noteq> A_done" and S: "setting_ok S"
    and ap: "apart (covers T) (region_loc T)" and n: "n < 2 ^ 64"
  shows "all_inv S T n nf ne pc s \<and> (pc = A_done \<longrightarrow> evictors_idle ne s)
    \<and> (\<forall>q a. covers T q a \<longrightarrow>
         page_contents S T (wld s) q a = fold (flat_step a) tr (page_contents S T (wld s0) q a))"
  using run
proof induction
  case all_start
  then show ?case using start by simp
next
  case (all_work tr s pc ev s')
  then have a: "all_inv S T n nf ne pc s" by simp
  from work_all_inv [OF all_work.hyps(3) a S ap n] all_work.hyps(2) all_work.IH show ?case by simp
next
  case (all_thread tr s pc busy e pc')
  have "pc' \<noteq> A_done"
    using all_thread.hyps(2,3) by (auto simp: evict_all_step_def bindR_eq_Inr_iff dest: evict_all_next_pc
        split: evict_all_pc.splits if_splits)
  then show ?case using all_thread.IH thread_all_inv [OF _ S all_thread.hyps(2,3)] by (simp add: page_contents_def)
next
  case (all_waited tr s)
  then show ?case by (simp add: all_inv_def shade_def)
qed

text \<open>When the thread is done no page is in use.\<close>

lemma all_done:
  assumes a: "all_inv S T n nf ne A_done s" and idle: "evictors_idle ne s"
  shows "m_present_pages (buf (sys_eng s)) = Map.empty"
    and "covers T r a \<Longrightarrow> page_contents S T (wld s) r a = stores (wld s) (fst (region_loc T r a)) (snd (region_loc T r a))"
proof -
  obtain H p m where inv: "sys_inv S T n nf ne (shade p m A_done s)" and h: "hides S T H m (wld s)"
    and q: "queue_shade p (sys_eng s)" using a by (rule all_invE)
  have "state (desc (wld s) i) = FREE" for i
  proof -
    have "state (desc (wld s) i) \<noteq> LEAVING"
      using idle_no_leaving [OF inv] idle q by (simp add: evictors_idle_def queue_shade_def)
    moreover have "state (desc (wld s) i) \<notin> in_use" using all_invD(1,4) [OF a] by (auto simp: listed_def)
    ultimately show ?thesis by (cases "state (desc (wld s) i)") (simp_all add: in_use_def)
  qed
  then show none: "m_present_pages (buf (sys_eng s)) = Map.empty"
    using pages_okD(7) [OF core_invD(1) [OF sys_invD(1) [OF inv]]] by (auto simp: core_of_simps fun_eq_iff intro: option.exhaust)
  show "page_contents S T (wld s) r a = stores (wld s) (fst (region_loc T r a)) (snd (region_loc T r a))" if "covers T r a"
  proof -
    have "page_view (kern S) m a = None"
      using core_invD(3) [OF sys_invD(1) [OF inv] that] none by (simp add: core_of_simps)
    then show ?thesis using hides_contents [OF h that, of p] by (simp add: page_contents_def)
  qed
qed

section \<open>The start of \<open>EvictAll\<close>\<close>

lemma pool_inv_pcs:
  assumes "pool_inv own q F A qs n pcs" and "\<forall>j<n. pcs' j = pcs j"
  shows "pool_inv own q F A qs n pcs'"
proof -
  have "tokens own qs n pcs' = tokens own qs n pcs" using assms(2) by (simp add: tokens_def)
  with assms show ?thesis unfolding pool_inv_def by metis
qed

lemma all_begins:
  assumes inv: "sys_inv S T n nf ne s" and m: "mgr_list (mgr s) = []" and l: "listed (buf (sys_eng s))"
    and d: "\<And>i. deferred (desc (wld s) i) \<Longrightarrow> state (desc (wld s) i) = FREE" and x: "no_exit nf ne s"
  shows "all_inv S T n nf ne A_next s"
proof -
  let ?p = "evict_workers (sys_eng s)" and ?m = "mem (wld s)"
  let ?c = "core_of S s" and ?c' = "core_of S (shade ?p ?m A_next s)"
  have "as_item item = item" if "item \<in> set (pool_queue ?p)" for item
  proof -
    have "item = \<lparr>page_desc = Some (item_pd item), work_type = EVICT\<rparr>"
      using sys_invD(5) [OF inv] that by (simp add: queues_ok_def)
    then show ?thesis by (cases item) (simp add: as_item_def)
  qed
  then have "map as_item (pool_queue ?p) = pool_queue ?p" by (simp add: map_idI)
  then have q: "queue_shade ?p (sys_eng s)" by (simp add: queue_shade_def)
  have pcs: "as_evict (evictors s j) = evictors s j" if "j < ne" for j
    by (cases "evictors s j") (use evictor_own(2) [OF inv that] in auto)
  have "core_inv (covers T) (region_loc T) nf ne ?c'"
  proof (rule core_inv_pools [OF sys_invD(1) [OF inv]])
    show "pool_inv (evict_own (region_loc T)) loaded_f (face (region_loc T) ?c) (in_state {LEAVING} ?c) (c_eq ?c') ne (c_evict ?c')"
      using pool_inv_pcs [OF core_invD(6) [OF sys_invD(1) [OF inv]]] pcs m by (simp add: core_of_simps)
    show "pool_inv fill_own wait_f (face (region_loc T) ?c) (in_state {FILLING, UPDATING} ?c) (c_fq ?c') nf (c_fill ?c')"
      using core_invD(5) [OF sys_invD(1) [OF inv]] by (simp add: core_of_simps)
  qed (simp_all add: core_of_simps)
  then have "sys_inv S T n nf ne (shade ?p ?m A_next s)"
    by (rule worker_sys_inv [OF inv])
      (use sys_invD(2-5) [OF inv] in \<open>simp_all add: core_of_simps in_range_def queues_ok_def\<close>)
  moreover have "hides S T {} ?m (wld s)" by (simp add: hides_def)
  ultimately show ?thesis using q l d x by (auto simp: all_inv_def)
qed

section \<open>\<open>EvictAll\<close> ends\<close>

fun all_thread_work :: "evict_all_pc \<Rightarrow> nat" where
  "all_thread_work (A_got i) = 10"
| "all_thread_work A_next = 3"
| "all_thread_work (A_wait i st) = 2"
| "all_thread_work A_idle = 1"
| "all_thread_work A_done = 0"

definition all_left :: "nat \<Rightarrow> nat \<Rightarrow> ('k, 'd) sys \<Rightarrow> evict_all_pc \<Rightarrow> nat" where
  "all_left nf ne s pc =
     5 * length (pool_queue (fill_workers (sys_eng s))) + (\<Sum>j<nf. fill_work (fillers s j))
   + 6 * length (pool_queue (evict_workers (sys_eng s))) + (\<Sum>j<ne. evict_work (evictors s j))
   + 20 * length (m_busy_pages (buf (sys_eng s))) + all_thread_work pc"

lemma filler_all_left:
  assumes j: "j < nf" and res: "filler_step S io_ok busy (wld s, fillers s j) = Some (Inr (w, fpc))"
  shows "all_left nf ne (s\<lparr>wld := w, fillers := (fillers s)(j := fpc)\<rparr>) pc < all_left nf ne s pc"
  using filler_work_less [OF res] sum_pcs_upd [OF j, of fill_work "fillers s" fpc] filler_ghost(2) [OF res] filler_busy [OF res]
  by (simp add: all_left_def)

lemma evictor_all_left:
  assumes j: "j < ne" and res: "evictor_step S io_ok busy (wld s, evictors s j) = Some (Inr (w, epc))"
  shows "all_left nf ne (s\<lparr>wld := w, evictors := (evictors s)(j := epc)\<rparr>) pc < all_left nf ne s pc"
  using evictor_work_less [OF res] sum_pcs_upd [OF j, of evict_work "evictors s" epc] evictor_busy [OF res]
  by (simp add: all_left_def)

lemma look_returns:
  assumes "m_busy_pages b \<noteq> [] \<Longrightarrow> \<not> deferred (m_array b (last (m_busy_pages b)))"
  shows "\<exists>e' pc'. evict_all_next e (evict_oldest_loop b) = Inr (e', pc')"
  using assms by (auto simp: evict_oldest_loop.simps [of b] evict_all_next_def evict_take_normal_def set_state_leaving_def
      count_deleted_def Let_def)

lemma look_steps:
  assumes a: "all_inv S T n nf ne pc s" and pc: "pc = A_next \<or> pc = A_wait k PRESENT \<and> state (desc (wld s) k) = PRESENT"
  shows "\<exists>e pc'. evict_all_step False (sys_eng s, pc) = Some (Inr (e, pc')) \<and> all_left nf ne (with_eng e s) pc' < all_left nf ne s pc"
proof -
  let ?b = "buf (sys_eng s)"
  have k: "pc = A_next \<or> pc = A_wait k PRESENT" using pc by blast
  have "\<exists>e pc'. evict_all_step False (sys_eng s, pc) = Some (Inr (e, pc'))"
  proof (cases "pc = A_next")
    case True
    obtain b where "evict_oldest_loop (lock_buffer False ?b) = evict_oldest_loop b"
      "m_busy_pages b \<noteq> [] \<Longrightarrow> \<not> deferred (m_array b (last (m_busy_pages b)))"
      using evict_oldest_loop_skip [of "lock_buffer False ?b"] all_invD(2) [OF a] by auto
    with look_returns [of b] True show ?thesis by (simp add: evict_all_step_def evict_oldest_page_def)
  next
    case False
    then show ?thesis using pc all_invD(4) [OF a]
      by (auto simp: evict_all_step_def evict_oldest_resume_def evict_all_next_def evict_take_normal_def
          set_state_leaving_def count_deleted_def Let_def)
  qed
  then obtain e pc' where res: "evict_all_step False (sys_eng s, pc) = Some (Inr (e, pc'))" by blast
  obtain b ds where b: "skipped ds ?b b" "looked ((sys_eng s)\<lparr>buf := b\<rparr>) e pc'"
    by (rule evict_all_look [OF all_invD(2) [OF a] k all_invD(4) [OF a] res])
  have "ds = [] \<and> state (desc (wld s) k) = PRESENT \<and> last (m_busy_pages ?b) = k" if "pc \<noteq> A_next"
  proof (cases ds rule: rev_cases)
    case (snoc ds' i)
    then have "state (desc (wld s) k) = FREE" using b(1) k that all_invD(4) [OF a] by (auto simp: skipped_def)
    then show ?thesis using pc that by simp
  qed (use pc that all_invD(4) [OF a] in simp)
  then have "all_left nf ne (with_eng e s) pc' < all_left nf ne s pc"
    using b k by (cases "pc = A_next") (auto simp: all_left_def looked_def skipped_def quiet_def)
  with res show ?thesis by blast
qed

lemma got_steps:
  assumes a: "all_inv S T n nf ne (A_got i) s"
  shows "\<exists>e pc'. evict_all_step False (sys_eng s, A_got i) = Some (Inr (e, pc'))
     \<and> all_left nf ne (with_eng e s) pc' < all_left nf ne s (A_got i)"
proof (cases "dirty (desc (wld s) i)")
  case True
  then show ?thesis by (simp add: evict_all_step_def schedule_fast_evict_def all_left_def)
next
  case False
  obtain H p m where inv: "sys_inv S T n nf ne (shade p m (A_got i) s)" using a by (rule all_invE)
  note st = hand_loaded(1) [OF inv]
  obtain r where "region (desc (wld s) i) = Some r"
    using core_invD(2) [OF sys_invD(1) [OF inv], of i] st by (auto simp: core_of_simps)
  with st obtain e where e: "mark_page_as_free False i (sys_eng s) = Inr e"
    by (auto simp: mark_page_as_free_def set_state_free_def Let_def)
  have "m_busy_pages (buf e) = m_busy_pages (buf (sys_eng s))" using e by (rule mark_page_as_free_effect)
  moreover have "fill_workers e = fill_workers (sys_eng s)" using e by (rule mark_page_as_free_effect)
  moreover have "evict_workers e = evict_workers (sys_eng s)" using e by (rule mark_page_as_free_effect)
  ultimately have "all_left nf ne (with_eng e s) A_next < all_left nf ne s (A_got i)" by (simp add: all_left_def)
  then show ?thesis using False e by (simp add: evict_all_step_def)
qed

lemma all_run_trans:
  assumes "all_run S nf ne s0 pc0 tr s pc" and "all_run S nf ne s pc tr' s' pc'"
  shows "all_run S nf ne s0 pc0 (tr @ tr') s' pc'"
  using assms(2)
proof induction
  case all_start
  then show ?case using assms(1) by simp
next
  case (all_work tr' s1 pc1 ev s2)
  from all_run.all_work [OF all_work.IH all_work.hyps(2,3)] show ?case by simp
next
  case (all_thread tr' s1 pc1 busy e pc2)
  from all_run.all_thread [OF all_thread.IH all_thread.hyps(2,3)] show ?case .
next
  case (all_waited tr' s1)
  from all_run.all_waited [OF all_waited.IH all_waited.hyps(2)] show ?case .
qed

text \<open>A worker that has something to do can do it, and less is left.\<close>

lemma all_filler_progress:
  assumes a: "all_inv S T n nf ne (A_wait i st) s" and S: "setting_ok S" and nf: "0 < nf"
    and st: "state (desc (wld s) i) \<noteq> PRESENT"
  obtains s' where "work_step S nf ne s Internal s'" and "\<And>pc. all_left nf ne s' pc < all_left nf ne s pc"
proof -
  let ?pc = "A_wait i st"
  obtain H p m where inv: "sys_inv S T n nf ne (shade p m ?pc s)" and h: "hides S T H m (wld s)"
    using a by (rule all_invE)
  have x: "no_exit nf ne (shade p m ?pc s)" using all_invD(3) [OF a] by (simp add: no_exit_def as_evict_exit)
  have "i \<in> set (m_busy_pages (buf (sys_eng s)))" using all_invD(4) [OF a] by auto
  then have "state (desc (wld (shade p m ?pc s)) i) \<in> {FILLING, UPDATING}"
    using pages_okD(5) [OF core_invD(1) [OF sys_invD(1) [OF inv]], of i] st all_invD(4) [OF a]
    by (auto simp: core_of_simps in_use_def)
  from filler_can_step [OF inv S x nf this]
  obtain j w fpc where j: "j < nf" "filler_step S True False (wld s, fillers s j) = Some (Inr (w, fpc))"
    using outcomesD(2) [OF filler_shade [OF inv h S]] by (metis shade_simps(1,3) surj_pair)
  show thesis by (rule that [OF work_filler [OF j] filler_all_left [OF j]])
qed

lemma all_evictor_progress:
  assumes a: "all_inv S T n nf ne A_idle s" and S: "setting_ok S" and ap: "apart (covers T) (region_loc T)"
    and ne: "0 < ne" and busy: "\<not> evictors_idle ne s"
  obtains s' where "work_step S nf ne s Internal s'" and "\<And>pc. all_left nf ne s' pc < all_left nf ne s pc"
proof -
  obtain H p m where inv: "sys_inv S T n nf ne (shade p m A_idle s)" and h: "hides S T H m (wld s)"
    and q: "queue_shade p (sys_eng s)" using a by (rule all_invE)
  have x: "no_exit nf ne (shade p m A_idle s)" using all_invD(3) [OF a] by (simp add: no_exit_def as_evict_exit)
  obtain i where i: "state (desc (wld (shade p m A_idle s)) i) = LEAVING"
    using no_leaving_idle [OF inv] busy x q
    by (fastforce simp: evictors_idle_def queue_shade_def no_exit_def as_evict_get)
  from evictor_can_step [OF inv S x ne _ this]
  obtain j w epc where j: "j < ne" "evictor_step S True False (wld s, evictors s j) = Some (Inr (w, epc))"
    using outcomesD(2) [OF evictor_shade [OF inv h q S ap]]
    by (metis all_hand.simps(4) mgr_list.simps(2) shade_simps(1,4,5) surj_pair)
  show thesis by (rule that [OF work_evictor [OF j] evictor_all_left [OF j]])
qed

lemma all_progress:
  assumes a: "all_inv S T n nf ne pc s" and pc: "pc \<noteq> A_done" and S: "setting_ok S"
    and ap: "apart (covers T) (region_loc T)" and workers: "0 < nf" "0 < ne"
  obtains tr s' pc' where "all_run S nf ne s pc tr s' pc'" and "set tr \<subseteq> {Internal}"
    and "all_left nf ne s' pc' < all_left nf ne s pc"
proof -
  note result = that
  have work: thesis if "work_step S nf ne s Internal s'" "all_left nf ne s' pc < all_left nf ne s pc" for s'
    using that(2) result [OF all_work [OF all_start pc that(1)]] by simp
  have thread: thesis if "\<exists>e pc'. evict_all_step False (sys_eng s, pc) = Some (Inr (e, pc'))
      \<and> all_left nf ne (with_eng e s) pc' < all_left nf ne s pc" "pc \<noteq> A_idle"
    using that(1) result [OF all_thread [OF all_start that(2)]] by (metis empty_set empty_subsetI)
  show thesis
  proof (cases pc)
    case A_next
    with look_steps [OF a] thread show thesis by blast
  next
    case (A_wait i st)
    then have i: "st = PRESENT" using all_invD(4) [OF a] by auto
    show thesis
    proof (cases "state (desc (wld s) i) = PRESENT")
      case True
      with look_steps [OF a] A_wait i thread show thesis by blast
    next
      case False
      with all_filler_progress [OF a [unfolded A_wait] S workers(1)] work show thesis by blast
    qed
  next
    case (A_got i)
    with got_steps [of S T n nf ne i s] a thread show thesis by simp
  next
    case A_idle
    show thesis
    proof (cases "evictors_idle ne s")
      case True
      with all_waited [OF all_start [of S nf ne s A_idle]] A_idle have "all_run S nf ne s pc [] s A_done" by simp
      with result [OF this] A_idle show thesis by (simp add: all_left_def)
    next
      case False
      with all_evictor_progress [OF a [unfolded A_idle] S ap workers(2)] work show thesis by blast
    qed
  qed (use pc in simp)
qed

lemma all_completes:
  assumes "all_inv S T n nf ne pc s" and S: "setting_ok S" and ap: "apart (covers T) (region_loc T)" and n: "n < 2 ^ 64"
    and workers: "0 < nf" "0 < ne"
  shows "\<exists>tr s'. all_run S nf ne s pc tr s' A_done \<and> set tr \<subseteq> {Internal}"
  using assms(1)
proof (induction "all_left nf ne s pc" arbitrary: s pc rule: less_induct)
  case less
  show ?case
  proof (cases "pc = A_done")
    case True
    then show ?thesis using all_start by (metis empty_set empty_subsetI)
  next
    case False
    obtain tr s' pc' where run: "all_run S nf ne s pc tr s' pc'" "set tr \<subseteq> {Internal}"
      and left: "all_left nf ne s' pc' < all_left nf ne s pc"
      by (rule all_progress [OF less.prems False S ap workers])
    have "all_inv S T n nf ne pc' s'" using all_run_inv [OF run(1) less.prems False S ap n] by simp
    from less.hyps [OF left this] obtain tr' s'' where
      "all_run S nf ne s' pc' tr' s'' A_done" "set tr' \<subseteq> {Internal}" by blast
    with run all_run_trans show ?thesis by (intro exI [of _ "tr @ tr'"] exI [of _ s'']) fastforce
  qed
qed

section \<open>Properties\<close>

text \<open>Without an unmapping no descriptor is deferred, and no worker has been told to exit.\<close>

lemma pd_step_deferred:
  assumes "pd_step arr act arr' act'" and "\<And>i. \<not> deferred (arr i)"
  shows "\<not> deferred (arr' i)"
  using assms by (auto simp: pd_step_def kept_def taken_def freed_def split: if_splits)

lemma run_plain:
  assumes run: "sys_run S nf ne s0 tr s" and b: "booted S n nf ne s0" and S: "setting_ok S"
  shows "(\<forall>i. \<not> deferred (desc (wld s) i)) \<and> no_exit nf ne s"
  using run
proof induction
  case run_start
  obtain mon_ok lo hi freq where "Buffer_init True mon_ok n lo hi freq = Inr (buf (sys_eng s0))"
    using b by (auto simp: booted_def)
  then have "\<not> deferred (desc (wld s0) i)" for i by (simp add: Buffer_init_fields zero_PageDescriptor_def)
  then show ?case using b by (simp add: no_exit_def booted_def)
next
  case (run_step tr s ev s')
  have n: "n < 2 ^ 64" using b by (simp add: booted_def)
  note inv = run_inv [OF run_step.hyps(1) b S]
  show ?case
    using pd_step_deferred [OF step_pds [OF run_step.hyps(2) inv n]] step_no_exit [OF run_step.hyps(2) inv] run_step.IH
    by blast
qed

lemma evict_all_inv:
  assumes b: "booted S n nf ne s0" and S: "setting_ok S" and run: "sys_run S nf ne s0 tr s"
    and u: "evict_region_begin busy (sys_eng s) = (e0, U_all A_next)" and m: "mgr_list (mgr s) = []"
    and all: "all_run S nf ne (with_eng e0 s) A_next tr' s' pc"
  shows "all_inv S (table (sys_eng s0)) n nf ne pc s'" and "pc = A_done \<Longrightarrow> evictors_idle ne s'"
    and "covers (table (sys_eng s0)) q a \<Longrightarrow> page_contents S (table (sys_eng s0)) (wld s') q a
      = fold (flat_step a) (tr @ tr') (page_contents S (table (sys_eng s0)) (wld s0) q a)"
proof -
  let ?T = "table (sys_eng s0)"
  have n: "n < 2 ^ 64" using b by (simp add: booted_def)
  have e0: "e0 = sys_eng s" using u by (auto simp: evict_region_begin_def split: if_splits)
  have "all_inv S ?T n nf ne A_next s"
    by (rule all_begins [OF run_inv [OF run b S] m run_listed [OF run b S]]) (use run_plain [OF run b S] in simp_all)
  then have "all_inv S ?T n nf ne A_next (with_eng e0 s)" by (simp add: e0)
  note all_inv = all_run_inv [OF all this _ S booted_apart [OF b] n]
  then show "all_inv S ?T n nf ne pc s'" "pc = A_done \<Longrightarrow> evictors_idle ne s'" by simp_all
  show "page_contents S ?T (wld s') q a = fold (flat_step a) (tr @ tr') (page_contents S ?T (wld s0) q a)"
    if "covers ?T q a"
    using all_inv that run_contents [OF run b S that] by (simp add: e0)
qed


text \<open>
  C11: \<open>EvictAll\<close> comes to an end: from every state of such a run the fill and eviction workers alone
  bring it there.
\<close>

theorem evict_all_ends:
  assumes b: "booted S n nf ne s0" and S: "setting_ok S" and run: "sys_run S nf ne s0 tr s"
    and u: "evict_region_begin busy (sys_eng s) = (e0, U_all A_next)" and m: "mgr_list (mgr s) = []"
    and all: "all_run S nf ne (with_eng e0 s) A_next tr' s' pc" and workers: "0 < nf" "0 < ne"
  shows "\<exists>tr'' s''. all_run S nf ne s' pc tr'' s'' A_done \<and> set tr'' \<subseteq> {Internal}"
proof -
  have n: "n < 2 ^ 64" using b by (simp add: booted_def)
  from all_completes [OF evict_all_inv(1) [OF b S run u m all] S booted_apart [OF b] n workers] show ?thesis .
qed

section \<open>An example\<close>

text \<open>A page of the only region is written to, and the region is unmapped.\<close>

lemma demo_last_region:
  obtains s where "sys_run demo_S 2 1 demo_sys demo_trace s" and "mgr_list (mgr s) = []"
    and "evict_region_begin False (sys_eng s) = (sys_eng s, U_all A_next)"
proof -
  have "map_option (\<lambda>(tr, s). (tr, mgr s, get_num_active_regions (table (sys_eng s))))
     (exec_all demo_S demo_write 2 1 demo_moves ([], demo_sys)) = Some (demo_trace, M_get, 1)"
    by code_simp
  then obtain s where x: "exec_all demo_S demo_write 2 1 demo_moves ([], demo_sys) = Some (demo_trace, s)"
    and m: "mgr s = M_get" "get_num_active_regions (table (sys_eng s)) = 1" by auto
  from exec_all_sound [OF x run_start demo_write_ok] m that show thesis
    by (auto simp: evict_region_begin_def)
qed

lemma demo_all_ends:
  obtains s tr' s' where "sys_run demo_S 2 1 demo_sys demo_trace s" and "mgr_list (mgr s) = []"
    and "evict_region_begin False (sys_eng s) = (sys_eng s, U_all A_next)"
    and "all_run demo_S 2 1 (with_eng (sys_eng s) s) A_next tr' s' A_done" and "set tr' \<subseteq> {Internal}"
proof -
  obtain s where s: "sys_run demo_S 2 1 demo_sys demo_trace s" "mgr_list (mgr s) = []"
    "evict_region_begin False (sys_eng s) = (sys_eng s, U_all A_next)" by (rule demo_last_region)
  from all_completes [OF evict_all_inv(1) [OF demo_booted demo_S_ok s(1,3,2) all_start] demo_S_ok booted_apart [OF demo_booted]]
    that s show thesis by auto
qed


theorem evict_all_ends_witness:
  "\<exists>s tr'' s''. sys_run demo_S 2 1 demo_sys demo_trace s
     \<and> all_run demo_S 2 1 (with_eng (sys_eng s) s) A_next tr'' s'' A_done"
proof -
  obtain s where s: "sys_run demo_S 2 1 demo_sys demo_trace s" "mgr_list (mgr s) = []"
    "evict_region_begin False (sys_eng s) = (sys_eng s, U_all A_next)" by (rule demo_last_region)
  from evict_all_ends [OF demo_booted demo_S_ok s(1,3,2) all_start] s(1) show ?thesis by fastforce
qed

end
