(* ===== verification/Decimal.thy ===== *)
theory Decimal
  imports Umap_Prelude
begin

text \<open>
  Formatted input and output of unsigned integers, as \<^verbatim>\<open>operator<<\<close> and \<^verbatim>\<open>operator>>\<close> of
  the standard streams do them in the default decimal format, and the splitting of a text
  into tokens and lines. The configuration and the metadata of the sparse store use them.
\<close>

section \<open>Reading\<close>

definition is_space :: "char \<Rightarrow> bool" where
  "is_space c \<longleftrightarrow> c \<in> {CHR '' '', CHR 0x09, CHR 0x0A, CHR 0x0B, CHR 0x0C, CHR 0x0D}"

definition is_digit :: "char \<Rightarrow> bool" where
  "is_digit c \<longleftrightarrow> 48 \<le> (of_char c :: nat) \<and> (of_char c :: nat) \<le> 57"

definition digits_value :: "string \<Rightarrow> nat" where
  "digits_value ds = foldl (\<lambda>n c. 10 * n + (of_char c - 48)) 0 ds"

text \<open>
  \<^verbatim>\<open>stream >> v\<close> for an unsigned 64-bit \<open>v\<close>: leading white space is skipped; at the end of
  the text the variable is left as it was (\<open>None\<close>). Otherwise the longest number is taken;
  no digits store 0 and fail, a number out of range stores the greatest value and fails, a
  minus sign negates modulo 2 to the power of 64. The flag says that the stream is still
  good; the last component is the rest of the text.
\<close>

fun split_sign :: "string \<Rightarrow> bool \<times> string" where
  "split_sign (c # s) =
     (if c = CHR ''-'' then (True, s) else if c = CHR ''+'' then (False, s) else (False, c # s))"
| "split_sign [] = (False, [])"

definition get_u64 :: "string \<Rightarrow> u64 option \<times> bool \<times> string" where
  "get_u64 s =
     (let s1 = dropWhile is_space s in
      if s1 = [] then (None, False, [])
      else
        let (neg, s2) = split_sign s1;
            ds = takeWhile is_digit s2; rest = dropWhile is_digit s2; n = digits_value ds
        in if ds = [] then (Some 0, False, rest)
           else if 2 ^ 64 \<le> n then (Some (- 1), False, rest)
           else (Some (if neg then - of_nat n else of_nat n), True, rest))"

text \<open>The same for an unsigned 16-bit variable.\<close>

definition get_u16 :: "string \<Rightarrow> u16 option \<times> bool \<times> string" where
  "get_u16 s =
     (let s1 = dropWhile is_space s in
      if s1 = [] then (None, False, [])
      else
        let (neg, s2) = split_sign s1;
            ds = takeWhile is_digit s2; rest = dropWhile is_digit s2; n = digits_value ds
        in if ds = [] then (Some 0, False, rest)
           else if 2 ^ 16 \<le> n then (Some (- 1), False, rest)
           else (Some (if neg then - of_nat n else of_nat n), True, rest))"

text \<open>\<^verbatim>\<open>std::stoull\<close> and \<^verbatim>\<open>std::stoi\<close>; the exceptions are errors.\<close>

definition stoull :: "string \<Rightarrow> u64 result" where
  "stoull s =
     (let (neg, s2) = split_sign (dropWhile is_space s); ds = takeWhile is_digit s2;
          n = digits_value ds
      in if ds = [] then Inl (UMAP_ERROR ''invalid_argument'')
         else if 2 ^ 64 \<le> n then Inl (UMAP_ERROR ''out_of_range'')
         else Inr (if neg then - of_nat n else of_nat n))"

definition stoi :: "string \<Rightarrow> int result" where
  "stoi s =
     (let (neg, s2) = split_sign (dropWhile is_space s); ds = takeWhile is_digit s2;
          n = (if neg then - int (digits_value ds) else int (digits_value ds))
      in if ds = [] then Inl (UMAP_ERROR ''invalid_argument'')
         else if n < - (2 ^ 31) \<or> 2 ^ 31 \<le> n then Inl (UMAP_ERROR ''out_of_range'')
         else Inr n)"

text \<open>\<^verbatim>\<open>stream >> token\<close> for a string, and \<^verbatim>\<open>ignore\<close> up to the end of the line.\<close>

definition get_token :: "string \<Rightarrow> (string \<times> string) option" where
  "get_token s =
     (let s1 = dropWhile is_space s in
      if s1 = [] then None
      else Some (takeWhile (\<lambda>c. \<not> is_space c) s1, dropWhile (\<lambda>c. \<not> is_space c) s1))"

definition skip_line :: "string \<Rightarrow> string" where
  "skip_line s = drop 1 (dropWhile (\<lambda>c. c \<noteq> CHR 0x0A) s)"

lemma length_skip_line: "length (skip_line s) \<le> length s"
  using length_dropWhile_le [of "\<lambda>c. c \<noteq> CHR 0x0A" s] by (simp add: skip_line_def)

lemma length_get_token:
  assumes "get_token s = Some (t, s')"
  shows "length s' < length s"
proof -
  let ?s1 = "dropWhile is_space s"
  have "?s1 \<noteq> []" and s': "s' = dropWhile (\<lambda>c. \<not> is_space c) ?s1"
    using assms by (auto simp: get_token_def Let_def split: if_splits)
  then obtain c r where c: "?s1 = c # r" by (cases ?s1) auto
  then have "\<not> is_space c" by (metis dropWhile_eq_Cons_conv)
  then have "length s' < length ?s1" using c s' length_dropWhile_le [of _ r]
    by (simp add: le_imp_less_Suc)
  also have "\<dots> \<le> length s" by (rule length_dropWhile_le)
  finally show ?thesis .
qed

lemma length_get_u64: "length (snd (snd (get_u64 s))) \<le> length s"
proof -
  have "length (snd (split_sign t)) \<le> length t" for t
    by (cases t) auto
  moreover have "length (dropWhile is_space s) \<le> length s" by (rule length_dropWhile_le)
  moreover have "length (dropWhile is_digit t) \<le> length t" for t by (rule length_dropWhile_le)
  ultimately show ?thesis
    by (auto simp: get_u64_def Let_def split: prod.splits) (metis le_trans snd_conv)+
qed

lemma digits_consumed:
  assumes s2: "split_sign (dropWhile is_space s) = (neg, s2)" and ds: "takeWhile is_digit s2 \<noteq> []"
  shows "length (dropWhile is_digit s2) < length s"
proof -
  let ?s1 = "dropWhile is_space s"
  have "length (snd (split_sign t)) \<le> length t" for t by (cases t) auto
  from this [of ?s1] have "length s2 \<le> length ?s1" by (simp add: s2)
  also have "\<dots> \<le> length s" by (rule length_dropWhile_le)
  finally have "length s2 \<le> length s" .
  moreover have "length (takeWhile is_digit s2) + length (dropWhile is_digit s2) = length s2"
    using takeWhile_dropWhile_id [of is_digit s2] by (metis length_append)
  ultimately show ?thesis using ds by (cases "takeWhile is_digit s2") auto
qed

lemma get_u64_consumes: "get_u64 s = (Some v, True, r) \<Longrightarrow> length r < length s"
  using digits_consumed
  by (auto simp: get_u64_def Let_def split: if_splits prod.splits)

lemma get_u16_consumes: "get_u16 s = (Some v, True, r) \<Longrightarrow> length r < length s"
  using digits_consumed
  by (auto simp: get_u16_def Let_def split: if_splits prod.splits)

section \<open>Writing\<close>

definition digit_char :: "nat \<Rightarrow> char" where
  "digit_char d = char_of (48 + d)"

fun show_nat :: "nat \<Rightarrow> string" where
  "show_nat n = (if n < 10 then [digit_char n] else show_nat (n div 10) @ [digit_char (n mod 10)])"

declare show_nat.simps [simp del]

section \<open>Reading what was written\<close>

lemma digit_char_value:
  assumes "d < 10"
  shows "is_digit (digit_char d)" and "of_char (digit_char d) - 48 = d"
    and "\<not> is_space (digit_char d)" and "digit_char d \<noteq> CHR ''-''" and "digit_char d \<noteq> CHR ''+''"
proof -
  have v: "of_char (digit_char d) = 48 + d"
    using assms by (simp add: digit_char_def)
  then show "is_digit (digit_char d)" "of_char (digit_char d) - 48 = d"
    using assms by (simp_all add: is_digit_def)
  have ne: "digit_char d \<noteq> c" if "of_char c < (48 :: nat)" for c
  proof
    assume "digit_char d = c"
    with v that show False by simp
  qed
  show "\<not> is_space (digit_char d)" unfolding is_space_def using ne by simp
  show "digit_char d \<noteq> CHR ''-''" "digit_char d \<noteq> CHR ''+''" using ne by simp_all
qed

lemma digits_value_append: "digits_value (xs @ [c]) = 10 * digits_value xs + (of_char c - 48)"
  by (simp add: digits_value_def)

lemma show_nat_digits:
  "(\<forall>c\<in>set (show_nat n). is_digit c) \<and> show_nat n \<noteq> [] \<and> digits_value (show_nat n) = n"
proof (induction n rule: show_nat.induct)
  case (1 n)
  show ?case
  proof (cases "n < 10")
    case True
    then show ?thesis
      using digit_char_value [of n] by (simp add: show_nat.simps [of n] digits_value_def)
  next
    case False
    with 1 have IH: "\<forall>c\<in>set (show_nat (n div 10)). is_digit c"
      "digits_value (show_nat (n div 10)) = n div 10" by simp_all
    have s: "show_nat n = show_nat (n div 10) @ [digit_char (n mod 10)]"
      using False by (simp add: show_nat.simps [of n])
    show ?thesis
      using IH digit_char_value(1,2) [of "n mod 10"] by (simp add: s digits_value_append)
  qed
qed

lemma show_nat_hd:
  "\<exists>d s. show_nat n = digit_char d # s \<and> d < 10"
proof (induction n rule: show_nat.induct)
  case (1 n)
  show ?case
  proof (cases "n < 10")
    case True
    then show ?thesis by (auto simp: show_nat.simps [of n])
  next
    case False
    with 1 obtain d s where "show_nat (n div 10) = digit_char d # s" "d < 10" by auto
    with False show ?thesis by (auto simp: show_nat.simps [of n])
  qed
qed

lemma get_u64_show_nat:
  assumes n: "n < 2 ^ 64" and rest: "rest = [] \<or> \<not> is_digit (hd rest)"
    and sp: "\<forall>c\<in>set sp. is_space c"
  shows "get_u64 (sp @ show_nat n @ rest) = (Some (of_nat n), True, rest)"
proof -
  obtain d s where hd: "show_nat n = digit_char d # s" "d < 10" using show_nat_hd by blast
  have skip: "dropWhile is_space (sp @ show_nat n @ rest) = show_nat n @ rest"
    using sp hd digit_char_value(3) [of d] by (simp add: dropWhile_append2)
  have sign: "split_sign (show_nat n @ rest) = (False, show_nat n @ rest)"
    using hd digit_char_value(4,5) [of d] by simp
  have "takeWhile is_digit (show_nat n @ rest) = show_nat n"
    and "dropWhile is_digit (show_nat n @ rest) = rest"
    using show_nat_digits [of n] rest
    by (simp_all add: takeWhile_append2 dropWhile_append2) (cases rest; simp)+
  with skip sign show ?thesis
    using show_nat_digits [of n] n by (simp add: get_u64_def Let_def)
qed

end
