(* ===== verification/Config.thy ===== *)
theory Config
  imports Decimal
begin

text \<open>
  The configuration of \<^verbatim>\<open>RegionManager.hpp\<close> and \<^verbatim>\<open>RegionManager.cpp\<close>: the settings, the
  reading of environment variables and of \<^verbatim>\<open>/proc/meminfo\<close>, the setters with their checks
  and the constructor that puts them together.
\<close>

section \<open>Settings\<close>

record Version =
  major :: int
  minor :: int
  patch :: int

record Settings =
  m_version :: Version
  m_max_pages_in_buffer :: u64
  m_monitor_freq :: int
  m_umap_page_size :: u64
  m_system_page_size :: u64
  m_num_fillers :: u64
  m_num_evictors :: u64
  m_evict_low_water_threshold :: int
  m_evict_high_water_threshold :: int
  m_max_fault_events :: u64
  total_mem_kb :: u64

text \<open>The conversion of a \<^verbatim>\<open>uint64_t\<close> to an \<^verbatim>\<open>int\<close> keeps the low 32 bits.\<close>

definition to_int :: "u64 \<Rightarrow> int" where
  "to_int v = sint (ucast v :: u32)"

section \<open>Reading the environment\<close>

text \<open>
  \<open>uninit\<close> is the value the local variable happens to have: it is left alone when the text
  holds nothing but white space.
\<close>

definition read_env_var :: "u64 \<Rightarrow> string option \<Rightarrow> u64 option" where
  "read_env_var uninit env =
     (case env of
        None \<Rightarrow> None
      | Some s \<Rightarrow>
          let env_val = (case fst (get_u64 s) of None \<Rightarrow> uninit | Some v \<Rightarrow> v)
          in if env_val \<noteq> 0 then Some env_val else None)"

text \<open>The loop over \<^verbatim>\<open>/proc/meminfo\<close>: the value of the last line with the given key.\<close>

lemma scan_decreases:
  assumes "get_token s = Some (t, s1)"
  shows "length (skip_line s1) < length s"
    and "(v, b, s2) = get_u64 s1 \<Longrightarrow> length (skip_line s2) < length s"
proof -
  have s1: "length s1 < length s" by (rule length_get_token [OF assms])
  show "length (skip_line s1) < length s" using length_skip_line [of s1] s1 by linarith
  show "length (skip_line s2) < length s" if "(v, b, s2) = get_u64 s1"
  proof -
    have "length s2 \<le> length s1" using length_get_u64 [of s1] by (simp flip: that)
    with length_skip_line [of s2] s1 show ?thesis by linarith
  qed
qed

function scan_meminfo :: "string \<Rightarrow> u64 \<Rightarrow> string \<Rightarrow> u64 result" where
  "scan_meminfo key mem_kb s =
     (case get_token s of
        None \<Rightarrow> Inr mem_kb
      | Some (token, s1) \<Rightarrow>
          if token = key then
            case get_u64 s1 of
              (Some mem, True, s2) \<Rightarrow> scan_meminfo key mem (skip_line s2)
            | _ \<Rightarrow> Inl (UMAP_ERROR ''UMAP unable to determine system memory size'')
          else scan_meminfo key mem_kb (skip_line s1))"
  by pat_completeness auto
termination
  by (relation "measure (\<lambda>(key, mem_kb, s). length s)") (auto intro: scan_decreases)

declare scan_meminfo.simps [simp del]

text \<open>
  \<open>get_max_pages_in_memory\<close>: the static variable \<open>total_mem_kb\<close> is filled on the first
  call; the memory is divided by the page size in units of 1024 bytes.
\<close>

definition get_max_pages_in_memory :: "string \<Rightarrow> Settings \<Rightarrow> (u64 \<times> Settings) result" where
  "get_max_pages_in_memory meminfo c =
     bindR (if total_mem_kb c = 0 then scan_meminfo ''MemFree:'' (total_mem_kb c) meminfo
            else Inr (total_mem_kb c)) (\<lambda>kb.
       if m_umap_page_size c div 1024 = 0 then Inl (UNDEFINED ''division by zero'')
       else Inr (((kb div (m_umap_page_size c div 1024)) * 90) div 100,
                 c\<lparr>total_mem_kb := kb\<rparr>))"

section \<open>Setters\<close>

definition set_max_pages_in_buffer :: "string \<Rightarrow> u64 \<Rightarrow> Settings \<Rightarrow> Settings result" where
  "set_max_pages_in_buffer meminfo max_pages c =
     bindR (get_max_pages_in_memory meminfo c) (\<lambda>(max_pages_in_mem, c1).
       if max_pages > max_pages_in_mem
       then Inl (UMAP_ERROR ''Cannot set maximum pages'')
       else Inr (c1\<lparr>m_max_pages_in_buffer := max_pages\<rparr>))"

definition set_umap_page_size :: "u64 \<Rightarrow> Settings \<Rightarrow> Settings result" where
  "set_umap_page_size page_size c =
     (if m_system_page_size c = 0 then Inl (UNDEFINED ''division by zero'')
      else if page_size mod m_system_page_size c \<noteq> 0
      then Inl (UMAP_ERROR ''Specified page size must be a multiple of the system page size'')
      else Inr (c\<lparr>m_umap_page_size := page_size\<rparr>))"

definition set_num_fillers :: "u64 \<Rightarrow> Settings \<Rightarrow> Settings" where
  "set_num_fillers num_fillers c = c\<lparr>m_num_fillers := num_fillers\<rparr>"

definition set_num_evictors :: "u64 \<Rightarrow> Settings \<Rightarrow> Settings" where
  "set_num_evictors num_evictors c = c\<lparr>m_num_evictors := num_evictors\<rparr>"

definition set_evict_high_water_threshold :: "int \<Rightarrow> Settings \<Rightarrow> Settings" where
  "set_evict_high_water_threshold percent c = c\<lparr>m_evict_high_water_threshold := percent\<rparr>"

definition set_evict_low_water_threshold :: "int \<Rightarrow> Settings \<Rightarrow> Settings" where
  "set_evict_low_water_threshold percent c = c\<lparr>m_evict_low_water_threshold := percent\<rparr>"

definition set_max_fault_events :: "u64 \<Rightarrow> Settings \<Rightarrow> Settings" where
  "set_max_fault_events max_events c = c\<lparr>m_max_fault_events := max_events\<rparr>"

section \<open>Construction\<close>

text \<open>
  What the constructor reads of the machine: the environment, the system page size, the
  number of hardware threads, the text of \<^verbatim>\<open>/proc/meminfo\<close>, the version, and the
  uninitialised values.
\<close>

record machine =
  getenv :: "string \<Rightarrow> string option"
  sysconf_pagesize :: u64
  hardware_concurrency :: u32
  proc_meminfo :: string
  version :: Version
  uninit :: "string \<Rightarrow> u64"

definition env_or :: "machine \<Rightarrow> string \<Rightarrow> u64 \<Rightarrow> u64" where
  "env_or M name dflt =
     (case read_env_var (uninit M name) (getenv M name) of Some v \<Rightarrow> v | None \<Rightarrow> dflt)"

definition nthreads :: "machine \<Rightarrow> u32" where
  "nthreads M = (if hardware_concurrency M = 0 then 16 else hardware_concurrency M)"

definition zero_Settings :: "machine \<Rightarrow> Settings" where
  "zero_Settings M =
     \<lparr>m_version = version M, m_max_pages_in_buffer = 0, m_monitor_freq = 0, m_umap_page_size = 0,
      m_system_page_size = sysconf_pagesize M, m_num_fillers = 0, m_num_evictors = 0,
      m_evict_low_water_threshold = 0, m_evict_high_water_threshold = 0,
      m_max_fault_events = 0, total_mem_kb = 0\<rparr>"

definition basic_settings :: "machine \<Rightarrow> Settings" where
  "basic_settings M =
     (let c1 = set_max_fault_events (env_or M ''UMAP_MAX_FAULT_EVENTS'' 256) (zero_Settings M);
          c2 = set_num_fillers (env_or M ''UMAP_PAGE_FILLERS'' (ucast (nthreads M))) c1;
          c3 = set_num_evictors (env_or M ''UMAP_PAGE_EVICTORS'' (ucast (nthreads M))) c2;
          c4 = set_evict_high_water_threshold
                 (to_int (env_or M ''UMAP_EVICT_HIGH_WATER_THRESHOLD'' 90)) c3
      in set_evict_low_water_threshold
           (to_int (env_or M ''UMAP_EVICT_LOW_WATER_THRESHOLD'' 70)) c4)"

definition RegionManager_init :: "machine \<Rightarrow> Settings result" where
  "RegionManager_init M =
     (let c5 = basic_settings M in
      bindR (set_umap_page_size (env_or M ''UMAP_PAGESIZE'' (m_system_page_size c5)) c5) (\<lambda>c6.
      bindR (case read_env_var (uninit M ''UMAP_BUFSIZE'') (getenv M ''UMAP_BUFSIZE'') of
               Some v \<Rightarrow> set_max_pages_in_buffer (proc_meminfo M) v c6
             | None \<Rightarrow>
                 bindR (get_max_pages_in_memory (proc_meminfo M) c6) (\<lambda>(pages, c7).
                   set_max_pages_in_buffer (proc_meminfo M) pages c7)) (\<lambda>c8.
        Inr (c8\<lparr>m_monitor_freq := to_int (env_or M ''UMAP_MONITOR_FREQ'' 0)\<rparr>))))"

section \<open>Lemmas\<close>

lemma set_max_pages_in_buffer_ok:
  assumes "set_max_pages_in_buffer meminfo n c = Inr c'"
  shows "\<exists>kb. c' = c\<lparr>total_mem_kb := kb, m_max_pages_in_buffer := n\<rparr>
     \<and> (total_mem_kb c \<noteq> 0 \<longrightarrow> kb = total_mem_kb c)
     \<and> (total_mem_kb c = 0 \<longrightarrow> scan_meminfo ''MemFree:'' 0 meminfo = Inr kb)
     \<and> n \<le> ((kb div (m_umap_page_size c div 1024)) * 90) div 100"
  using assms
  by (auto simp: set_max_pages_in_buffer_def get_max_pages_in_memory_def bindR_eq_Inr_iff
      split: if_splits)

lemma get_max_pages_in_memory_ok:
  assumes "get_max_pages_in_memory meminfo c = Inr (n, c')" and "total_mem_kb c = 0"
  shows "scan_meminfo ''MemFree:'' 0 meminfo = Inr (total_mem_kb c')
       \<and> c' = c\<lparr>total_mem_kb := total_mem_kb c'\<rparr>"
  using assms by (auto simp: get_max_pages_in_memory_def bindR_eq_Inr_iff split: if_splits)

lemma buffer_setting_ok:
  assumes res: "(case env of
        Some v \<Rightarrow> set_max_pages_in_buffer meminfo v c
      | None \<Rightarrow> bindR (get_max_pages_in_memory meminfo c) (\<lambda>(pages, c7).
          set_max_pages_in_buffer meminfo pages c7)) = Inr c'"
    and zero: "total_mem_kb c = 0"
  shows "\<exists>kb n. c' = c\<lparr>total_mem_kb := kb, m_max_pages_in_buffer := n\<rparr>
     \<and> scan_meminfo ''MemFree:'' 0 meminfo = Inr kb
     \<and> n \<le> ((kb div (m_umap_page_size c div 1024)) * 90) div 100"
proof (cases env)
  case None
  with res obtain n c7 where g: "get_max_pages_in_memory meminfo c = Inr (n, c7)"
    and set: "set_max_pages_in_buffer meminfo n c7 = Inr c'"
    by (auto simp: bindR_eq_Inr_iff)
  note g' = get_max_pages_in_memory_ok [OF g zero]
  obtain kb where kb: "c' = c7\<lparr>total_mem_kb := kb, m_max_pages_in_buffer := n\<rparr>"
    "total_mem_kb c7 \<noteq> 0 \<longrightarrow> kb = total_mem_kb c7"
    "total_mem_kb c7 = 0 \<longrightarrow> scan_meminfo ''MemFree:'' 0 meminfo = Inr kb"
    "n \<le> ((kb div (m_umap_page_size c7 div 1024)) * 90) div 100"
    using set_max_pages_in_buffer_ok [OF set] by blast
  have scan: "scan_meminfo ''MemFree:'' 0 meminfo = Inr kb"
    using g' kb by (cases "total_mem_kb c7 = 0") simp_all
  have c7: "c7 = c\<lparr>total_mem_kb := total_mem_kb c7\<rparr>" using g' by blast
  have "c' = c\<lparr>total_mem_kb := kb, m_max_pages_in_buffer := n\<rparr>"
    unfolding kb(1) by (subst c7) simp
  moreover have "m_umap_page_size c7 = m_umap_page_size c" by (subst c7) simp
  ultimately show ?thesis using scan kb(4) by auto
next
  case (Some v)
  with res have "set_max_pages_in_buffer meminfo v c = Inr c'" by simp
  from set_max_pages_in_buffer_ok [OF this] zero show ?thesis by blast
qed

section \<open>Properties\<close>


text \<open>A machine with 4 KiB pages, two hardware threads and 1000 KiB of free memory.\<close>

definition demo_machine :: machine where
  "demo_machine =
     \<lparr>getenv = [''UMAP_PAGE_FILLERS'' \<mapsto> ''3'', ''UMAP_PAGESIZE'' \<mapsto> ''8192''],
      sysconf_pagesize = 4096, hardware_concurrency = 2,
      proc_meminfo = ''MemFree: 1000 kB'', version = \<lparr>major = 2, minor = 1, patch = 0\<rparr>,
      uninit = (\<lambda>_. 0)\<rparr>"

lemmas demo_machine_eval =
  demo_machine_def env_or_def read_env_var_def get_u64_def is_space_def is_digit_def
  digits_value_def nthreads_def Let_def

lemma demo_env:
  "env_or demo_machine ''UMAP_PAGE_FILLERS'' (ucast (nthreads demo_machine)) = 3"
  "env_or demo_machine ''UMAP_PAGE_EVICTORS'' (ucast (nthreads demo_machine)) = 2"
  "env_or demo_machine ''UMAP_PAGESIZE'' (sysconf_pagesize demo_machine) = 8192"
  by (simp_all add: demo_machine_eval)

lemma demo_meminfo: "scan_meminfo ''MemFree:'' 0 ''MemFree: 1000 kB'' = Inr 1000"
  by (simp add: scan_meminfo.simps [of _ _ "''MemFree: 1000 kB''"] scan_meminfo.simps [of _ _ "[]"]
      get_token_def get_u64_def skip_line_def is_space_def is_digit_def digits_value_def)

lemma demo_machine_init:
  "\<exists>c. RegionManager_init demo_machine = Inr c \<and> m_max_pages_in_buffer c = 112"
  by (simp add: demo_machine_eval demo_meminfo RegionManager_init_def basic_settings_def
      zero_Settings_def set_max_fault_events_def set_num_fillers_def set_num_evictors_def
      set_evict_high_water_threshold_def set_evict_low_water_threshold_def
      set_umap_page_size_def set_max_pages_in_buffer_def get_max_pages_in_memory_def bindR_def)


text \<open>
  C23: A decimal number written into an environment variable is read back as this number:
  for every non-zero 64-bit value. Zero, and a text that does not begin with a number,
  count as not set; white space alone leaves the result to chance, because the variable
  that receives the number is not initialised.
\<close>

theorem read_env_var_decimal:
  "(0 < n \<and> n < 2 ^ 64 \<longrightarrow> read_env_var u (Some (show_nat n)) = Some (of_nat n))
   \<and> read_env_var u (Some (show_nat 0)) = None
   \<and> ((\<forall>c\<in>set s. is_space c) \<longrightarrow> read_env_var u (Some s) = (if u \<noteq> 0 then Some u else None))"
proof (intro conjI impI)
  have get: "get_u64 (show_nat n) = (Some (of_nat n), True, [])" if "n < 2 ^ 64" for n
    using get_u64_show_nat [of n "[]" "[]"] that by simp
  show "read_env_var u (Some (show_nat n)) = Some (of_nat n)" if n: "0 < n \<and> n < 2 ^ 64"
  proof -
    have "(of_nat n :: u64) \<noteq> 0" using n of_nat_u64_inj [of n 0] by simp
    then show ?thesis using get [of n] n by (simp add: read_env_var_def)
  qed
  show "read_env_var u (Some (show_nat 0)) = None"
    using get [of 0] by (simp add: read_env_var_def)
  show "read_env_var u (Some s) = (if u \<noteq> 0 then Some u else None)" if "\<forall>c\<in>set s. is_space c"
    using that by (simp add: read_env_var_def get_u64_def Let_def)
qed

theorem read_env_var_decimal_witness:
  "read_env_var 7 (Some (show_nat 300)) = Some 300 \<and> read_env_var 7 (Some '' '') = Some 7"
proof -
  have "\<forall>c\<in>set '' ''. is_space c" by code_simp
  then show ?thesis using read_env_var_decimal [of 300 7 "'' ''"] by simp
qed

end
