(* ===== verification/Prefetch.thy ===== *)
theory Prefetch
  imports Demo_World Config
begin

text \<open>
  Fetching and pinning of a range of pages, \<open>Buffer::fetch_and_pin\<close> of \<^verbatim>\<open>Buffer.cpp\<close>: the
  range is cut off at the end of its region, the buffer gives free pages up when the memory
  is short, and up to eight threads copy the pages in. Pinned pages have no descriptor and
  are not write protected.
\<close>

section \<open>The fetching threads\<close>

record FetchFuncParams =
  ff_psize :: u64
  ff_rd :: RegionDescriptor
  ff_offset_st :: u64
  ff_offset_end :: u64

text \<open>
  One turn of the loop of \<open>FetchFunc\<close>. \<open>io_ok offset\<close>: \<open>read_from_store\<close> does not return -1
  there.
\<close>

definition fetch_page ::
  "('k, 'd) setting \<Rightarrow> (u64 \<Rightarrow> bool) \<Rightarrow> RegionDescriptor \<Rightarrow> u64 \<Rightarrow> ('k, 'd) world
     \<Rightarrow> ('k, 'd) world result" where
  "fetch_page S io_ok rd offset w =
     (if \<not> io_ok offset then Inl (UMAP_ERROR ''failed to read_from_store at offset'')
      else bindR (copy_in_page (page_sz S) (kern S) (stores w (m_store rd) offset)
                    (rd_start rd + offset) (mem w)) (\<lambda>k.
             Inr (w\<lparr>mem := k\<rparr>)))"

text \<open>The loop need not end when the offset wraps around: \<open>None\<close> is a loop without an end.\<close>

partial_function (option) fetch_loop ::
  "('k, 'd) setting \<Rightarrow> (u64 \<Rightarrow> bool) \<Rightarrow> FetchFuncParams \<Rightarrow> u64 \<Rightarrow> ('k, 'd) world
     \<Rightarrow> ('k, 'd) world result option" where
  "fetch_loop S io_ok params offset w =
     (if offset < ff_offset_end params then
        (case fetch_page S io_ok (ff_rd params) offset w of
           Inl e \<Rightarrow> Some (Inl e)
         | Inr w' \<Rightarrow> fetch_loop S io_ok params (offset + ff_psize params) w')
      else Some (Inr w))"

definition FetchFunc ::
  "('k, 'd) setting \<Rightarrow> bool \<Rightarrow> (u64 \<Rightarrow> bool) \<Rightarrow> FetchFuncParams \<Rightarrow> ('k, 'd) world
     \<Rightarrow> ('k, 'd) world result option" where
  "FetchFunc S malloc_ok io_ok params w =
     (if \<not> malloc_ok then Some (Inl (UMAP_ERROR ''Failed to allocate copyin_buf''))
      else fetch_loop S io_ok params (ff_offset_st params) w)"

section \<open>The range and its threads\<close>

text \<open>The range is cut off at the end of the region; the sum of the first line can wrap around.\<close>

definition fetch_end :: "RegionDescriptor \<Rightarrow> addr \<Rightarrow> u64 \<Rightarrow> addr" where
  "fetch_end rd paddr sz =
     (let pend = paddr + sz in if pend > rd_end rd then rd_end rd else pend)"

text \<open>\<open>asserts\<close>: the code is compiled without \<^verbatim>\<open>NDEBUG\<close>.\<close>

definition checked_offset :: "bool \<Rightarrow> RegionDescriptor \<Rightarrow> addr \<Rightarrow> u64 result" where
  "checked_offset asserts rd a = (if asserts then store_offset rd a else Inr (a - rd_start rd))"

definition fetch_params ::
  "u64 \<Rightarrow> RegionDescriptor \<Rightarrow> u64 \<Rightarrow> u64 \<Rightarrow> FetchFuncParams list" where
  "fetch_params psize rd offset_st offset_end =
     (let num_pages = (offset_end - offset_st) div psize;
          num_fetch_threads = (if num_pages > 1024 then 8 else 1 :: nat);
          stride = num_pages div of_nat num_fetch_threads * psize
      in map (\<lambda>i.
           let st = offset_st + stride * of_nat i
           in \<lparr>ff_psize = psize, ff_rd = rd, ff_offset_st = st,
               ff_offset_end = (if i = num_fetch_threads - 1 then offset_end else st + stride)\<rparr>)
         [0 ..< num_fetch_threads])"

section \<open>Memory\<close>

definition mem_margin_kb :: u64 where
  "mem_margin_kb = 16777216"

definition usable_memory :: "string \<Rightarrow> u64 \<Rightarrow> u64 result" where
  "usable_memory meminfo psize =
     bindR (scan_meminfo ''MemAvailable:'' 0 meminfo) (\<lambda>kb.
       let mem_avail_kb = (if kb > mem_margin_kb then kb - mem_margin_kb else 0)
       in if psize = 0 then Inl (UNDEFINED ''division by zero'')
          else Inr (mem_avail_kb * 1024 div psize * psize))"

text \<open>
  The free pages that do not fit beside the pinned range are given up; \<^verbatim>\<open>resize\<close> keeps the
  first ones. The size of the buffer and its water marks follow.
\<close>

definition reserve_memory :: "Settings \<Rightarrow> u64 \<Rightarrow> u64 \<Rightarrow> u64 \<Rightarrow> Buffer \<Rightarrow> Buffer result" where
  "reserve_memory c psize mem_avail sz b =
     (let free_page_mem = psize * of_nat (length (m_free_pages b)) in
      if free_page_mem + sz \<ge> mem_avail then
        let reduced_mem = (free_page_mem + sz) - mem_avail in
        if reduced_mem < free_page_mem then
          let b1 = b\<lparr>m_free_pages :=
                       take (unat ((free_page_mem - reduced_mem) div psize)) (m_free_pages b)\<rparr>;
              b2 = b1\<lparr>m_size := length (m_busy_pages b1) + length (m_free_pages b1)\<rparr>
          in bindR (apply_int_percentage (m_evict_low_water_threshold c) (m_size b2)) (\<lambda>low.
             bindR (apply_int_percentage (m_evict_high_water_threshold c) (m_size b2)) (\<lambda>high.
               Inr (b2\<lparr>m_evict_low_water := low, m_evict_high_water := high\<rparr>)))
        else Inl (UMAP_ERROR
          ''Currently, no support for pinning a region larger than free pages'')
      else Inr b)"

section \<open>The operation\<close>

text \<open>The operation up to the start of the threads.\<close>

definition fetch_plan ::
  "bool \<Rightarrow> string \<Rightarrow> Settings \<Rightarrow> bool \<Rightarrow> addr \<Rightarrow> u64 \<Rightarrow> engine
     \<Rightarrow> (engine \<times> FetchFuncParams list) result" where
  "fetch_plan asserts meminfo c busy paddr sz e =
     (let e1 = e\<lparr>buf := lock_buffer busy (buf e)\<rparr> in
      case containing_region paddr (table e1) of
        (None, rt) \<Rightarrow> Inl (UMAP_ERROR ''the prefetched region is not found'')
      | (Some r, rt) \<Rightarrow>
          let e2 = e1\<lparr>table := rt\<rparr>; rd = rds rt r; pend = fetch_end rd paddr sz;
              psize = m_umap_page_size c
          in bindR (checked_offset asserts rd paddr) (\<lambda>offset_st.
             bindR (checked_offset asserts rd pend) (\<lambda>offset_end.
             bindR (usable_memory meminfo psize) (\<lambda>mem_avail.
             bindR (reserve_memory c psize mem_avail (pend - paddr) (buf e2)) (\<lambda>b.
               Inr (e2\<lparr>buf := b\<rparr>, fetch_params psize rd offset_st offset_end))))))"

text \<open>
  The whole operation. \<open>created i\<close>: thread \<open>i\<close> is created; \<open>order\<close>: the order in which the
  threads get to their pages, each a region descriptor with an offset.
\<close>

fun fetch_pages ::
  "('k, 'd) setting \<Rightarrow> (u64 \<Rightarrow> bool) \<Rightarrow> RegionDescriptor \<Rightarrow> u64 list \<Rightarrow> ('k, 'd) world
     \<Rightarrow> ('k, 'd) world result" where
  "fetch_pages S io_ok rd [] w = Inr w"
| "fetch_pages S io_ok rd (offset # offsets) w =
     bindR (fetch_page S io_ok rd offset w) (fetch_pages S io_ok rd offsets)"

definition fetch_and_pin ::
  "bool \<Rightarrow> string \<Rightarrow> Settings \<Rightarrow> ('k, 'd) setting \<Rightarrow> (nat \<Rightarrow> bool) \<Rightarrow> (u64 \<Rightarrow> bool)
     \<Rightarrow> (FetchFuncParams list \<Rightarrow> u64 list) \<Rightarrow> bool \<Rightarrow> addr \<Rightarrow> u64 \<Rightarrow> ('k, 'd) world
     \<Rightarrow> ('k, 'd) world result" where
  "fetch_and_pin asserts meminfo c S created io_ok order busy paddr sz w =
     bindR (fetch_plan asserts meminfo c busy paddr sz (eng w)) (\<lambda>(e, params).
       if \<exists>i<length params. \<not> created i then Inl (UMAP_ERROR ''Failed to launch fetchthread'')
       else fetch_pages S io_ok (ff_rd (hd params)) (order params) (w\<lparr>eng := e\<rparr>))"

section \<open>The offsets of a thread\<close>

text \<open>The page offsets from \<open>st\<close> up to, not including, \<open>en\<close>.\<close>

definition page_offsets :: "u64 \<Rightarrow> u64 \<Rightarrow> u64 \<Rightarrow> u64 list" where
  "page_offsets psize st en =
     map (\<lambda>j. st + of_nat j * psize)
       [0 ..< (unat en - unat st + unat psize - 1) div unat psize]"

definition thread_offsets :: "FetchFuncParams \<Rightarrow> u64 list" where
  "thread_offsets params =
     page_offsets (ff_psize params) (ff_offset_st params) (ff_offset_end params)"

lemma page_offsets_done: "en \<le> st \<Longrightarrow> 0 < psize \<Longrightarrow> page_offsets psize st en = []"
  by (simp add: page_offsets_def word_le_nat_alt word_less_nat_alt)

lemma page_offsets_next:
  assumes "st < en" and "0 < psize" and "unat en + unat psize < 2 ^ 64"
  shows "page_offsets psize st en = st # page_offsets psize (st + psize) en"
proof -
  let ?s = "unat st" and ?e = "unat en" and ?p = "unat psize"
  have lt: "?s < ?e" and p: "0 < ?p" using assms by (simp_all add: word_less_nat_alt)
  have add: "unat (st + psize) = ?s + ?p"
    using unat_add_lem [of st psize] assms(3) lt by simp
  have count: "(?e - ?s + ?p - 1) div ?p = Suc ((?e - (?s + ?p) + ?p - 1) div ?p)"
  proof (cases "?e \<le> ?s + ?p")
    case True
    have "?e - ?s + ?p - 1 = (?e - ?s - 1) + 1 * ?p" using lt by simp
    then have "(?e - ?s + ?p - 1) div ?p = Suc ((?e - ?s - 1) div ?p)" using p
      by (metis One_nat_def add.commute div_mult_self1 nat_less_le plus_1_eq_Suc)
    moreover have "(?e - ?s - 1) div ?p = 0" using True lt p by simp
    ultimately show ?thesis using True p by simp
  next
    case False
    then have "?e - ?s + ?p - 1 = (?e - (?s + ?p) + ?p - 1) + 1 * ?p" by simp
    then show ?thesis using p by (metis add.commute div_mult_self1 nat_less_le plus_1_eq_Suc)
  qed
  show ?thesis
    unfolding page_offsets_def add count
    by (simp add: upt_conv_Cons map_Suc_upt [symmetric] o_def algebra_simps del: upt_Suc)
qed

lemma fetch_loop_pages:
  assumes "0 < ff_psize params" and "unat (ff_offset_end params) + unat (ff_psize params) < 2 ^ 64"
  shows "fetch_loop S io_ok params st w
       = Some (fetch_pages S io_ok (ff_rd params)
                 (page_offsets (ff_psize params) st (ff_offset_end params)) w)"
proof (induction "unat (ff_offset_end params) - unat st" arbitrary: st w rule: less_induct)
  case less
  let ?p = "ff_psize params" and ?e = "ff_offset_end params"
  show ?case
  proof (cases "st < ?e")
    case False
    then show ?thesis using page_offsets_done [of ?e st ?p] assms(1)
      by (subst fetch_loop.simps) simp
  next
    case True
    have "unat (st + ?p) = unat st + unat ?p"
      using unat_add_lem [of st ?p] assms(2) True by (simp add: word_less_nat_alt)
    then have "unat ?e - unat (st + ?p) < unat ?e - unat st"
      using True assms(1) by (simp add: word_less_nat_alt)
    note IH = less [OF this]
    show ?thesis
      using True IH page_offsets_next [OF True assms]
      by (subst fetch_loop.simps) (simp add: bindR_def split: sum.split)
  qed
qed

section \<open>The threads share the range\<close>

lemma concat_blocks: "concat (map (\<lambda>i. [i * m ..< Suc i * m]) [0 ..< k]) = [0 ..< k * m]"
proof (induction k)
  case (Suc k)
  have "[0 ..< k * m] @ [k * m ..< Suc k * m] = [0 ..< Suc k * m]"
    using upt_add_eq_append [of 0 "k * m" m] by (simp add: add.commute)
  then show ?case using Suc by simp
qed simp

lemma page_offsets_block:
  assumes "unat en = unat st + m * unat psize" and "0 < psize"
  shows "page_offsets psize st en = map (\<lambda>j. st + of_nat j * psize) [0 ..< m]"
proof -
  have "(m * unat psize + unat psize - 1) div unat psize = m"
    using assms(2) by (intro div_nat_eqI) (auto simp: word_less_nat_alt algebra_simps)
  then show ?thesis by (simp add: page_offsets_def assms(1))
qed

lemma map_shift_upt: "map (\<lambda>j. f (a + j)) [0 ..< n] = map f [a ..< a + n]" for f :: "nat \<Rightarrow> 'a"
proof -
  have "[a ..< a + n] = map (\<lambda>j. a + j) [0 ..< n]"
    using map_add_upt [of a n] by (simp add: add.commute)
  then show ?thesis by (simp add: o_def)
qed

lemma stride_facts:
  fixes st en psize :: u64
  assumes p: "0 < psize" and le: "st \<le> en" and n: "0 < n" "n < 2 ^ 32"
  defines "m \<equiv> (unat en - unat st) div unat psize div n"
  defines "stride \<equiv> (en - st) div psize div of_nat n * psize"
  shows "stride = of_nat m * psize"
    and "k \<le> n \<Longrightarrow> k * m * unat psize \<le> unat en - unat st"
    and "j * unat psize \<le> unat en - unat st
      \<Longrightarrow> unat (st + of_nat j * psize) = unat st + j * unat psize"
proof -
  let ?p = "unat psize" and ?f = "\<lambda>j. st + of_nat j * psize"
  let ?D = "unat en - unat st"
  have p': "0 < ?p" using p by (simp add: word_less_nat_alt)
  have le': "unat st \<le> unat en" using le by (simp add: word_le_nat_alt)
  have un: "unat (of_nat n :: u64) = n" using n(2) by (simp add: unat_of_nat take_bit_nat_eq_self)
  have D: "unat (en - st) = ?D" using le by (rule unat_sub)
  show "stride = of_nat m * psize"
  proof -
    have "unat ((en - st) div psize div of_nat n) = m" by (simp add: unat_div_distrib D un m_def)
    then have "(en - st) div psize div of_nat n = of_nat m" by (metis of_nat_unat ucast_id)
    then show ?thesis by (simp only: stride_def)
  qed
  show "k * m * ?p \<le> ?D" if "k \<le> n"
  proof -
    have "k * m \<le> n * m" using that by (rule mult_right_mono) simp
    also have "n * m \<le> ?D div ?p" unfolding m_def by (rule times_div_less_eq_dividend)
    finally have "k * m * ?p \<le> ?D div ?p * ?p" by (rule mult_right_mono) simp
    also have "\<dots> \<le> ?D" by (rule div_times_less_eq_dividend)
    finally show ?thesis .
  qed
  show "unat (?f j) = unat st + j * ?p" if "j * ?p \<le> ?D"
  proof -
    have "unat st + j * ?p < 2 ^ 64"
      using that le' unat_bound_u64 [of en] by (simp add: le_diff_conv2)
    moreover have "?f j = of_nat (unat st + j * ?p)" by simp
    ultimately show ?thesis by (simp only: unat_of_nat_u64)
  qed
qed

lemma page_offsets_middle:
  assumes "0 < psize"
    and "unat (st + of_nat (k + m) * psize) = unat (st + of_nat k * psize) + m * unat psize"
  shows "page_offsets psize (st + of_nat k * psize) (st + of_nat (k + m) * psize)
       = map (\<lambda>j. st + of_nat j * psize) [k ..< k + m]"
proof -
  have "page_offsets psize (st + of_nat k * psize) (st + of_nat (k + m) * psize)
      = map (\<lambda>j. st + of_nat k * psize + of_nat j * psize) [0 ..< m]"
    using assms(2,1) by (rule page_offsets_block)
  also have "\<dots> = map (\<lambda>j. st + of_nat (k + j) * psize) [0 ..< m]" by (simp add: algebra_simps)
  also have "\<dots> = map (\<lambda>j. st + of_nat j * psize) [k ..< k + m]" by (rule map_shift_upt)
  finally show ?thesis .
qed

lemma page_offsets_tail:
  fixes st en psize :: u64
  assumes p: "0 < psize" and k: "k * unat psize \<le> unat en - unat st"
    and f: "unat (st + of_nat k * psize) = unat st + k * unat psize"
  defines "C \<equiv> (unat en - unat st + unat psize - 1) div unat psize"
  shows "page_offsets psize (st + of_nat k * psize) en = map (\<lambda>j. st + of_nat j * psize) [k ..< C]"
    and "k \<le> C"
proof -
  let ?p = "unat psize" and ?D = "unat en - unat st"
  have p': "0 < ?p" using p by (simp add: word_less_nat_alt)
  have shift: "(x + y * ?p) div ?p = x div ?p + y" for x y using p' by simp
  have "?D + ?p - 1 = (?D - k * ?p + ?p - 1) + k * ?p" using k p' by linarith
  then have C: "C = (?D - k * ?p + ?p - 1) div ?p + k" unfolding C_def by (simp only: shift)
  then show kC: "k \<le> C" by simp
  have "page_offsets psize (st + of_nat k * psize) en
      = map (\<lambda>j. st + of_nat k * psize + of_nat j * psize) [0 ..< C - k]"
    using C f by (simp add: page_offsets_def)
  also have "\<dots> = map (\<lambda>j. st + of_nat (k + j) * psize) [0 ..< C - k]" by (simp add: algebra_simps)
  also have "\<dots> = map (\<lambda>j. st + of_nat j * psize) [k ..< k + (C - k)]" by (rule map_shift_upt)
  finally show "page_offsets psize (st + of_nat k * psize) en = map (\<lambda>j. st + of_nat j * psize) [k ..< C]"
    using kC by simp
qed

lemma split_range_offsets:
  fixes st en psize :: u64
  assumes p: "0 < psize" and le: "st \<le> en" and n: "0 < n" "n < 2 ^ 32"
  defines "m \<equiv> (unat en - unat st) div unat psize div n"
  defines "stride \<equiv> (en - st) div psize div of_nat n * psize"
  shows "concat (map (\<lambda>i. page_offsets psize (st + stride * of_nat i)
             (if i = n - 1 then en else st + stride * of_nat i + stride)) [0 ..< n])
       = page_offsets psize st en"
    (is "concat (map ?part _) = _")
proof -
  let ?f = "\<lambda>j. st + of_nat j * psize" and ?k = "n - 1"
  let ?C = "(unat en - unat st + unat psize - 1) div unat psize"
  note stride = stride_facts(1) [OF p le n, folded m_def stride_def]
  note mono = stride_facts(2) [OF p le n, folded m_def]
  note ust = stride_facts(3) [OF p le n]
  have st: "st + stride * of_nat i = ?f (i * m)" for i by (simp add: stride algebra_simps)
  have kn: "?k * m * unat psize \<le> unat en - unat st" by (rule mono) simp
  note tail = page_offsets_tail [OF p kn ust [OF kn]]
  have block: "?part i = map ?f [i * m ..< Suc i * m]" if "i < ?k" for i
  proof -
    have i: "i \<le> n" "Suc i \<le> n" "i \<noteq> n - 1" using that by auto
    have "unat (?f (i * m + m)) = unat (?f (i * m)) + m * unat psize"
      using ust [OF mono [OF i(1)]] ust [OF mono [OF i(2)]] by (simp add: algebra_simps)
    from page_offsets_middle [OF p this] i(3) st [of i] st [of "Suc i"] show ?thesis
      by (simp add: algebra_simps)
  qed
  have upto: "[0 ..< n] = [0 ..< ?k] @ [?k]" using n(1) by (cases n) simp_all
  have blocks: "map ?part [0 ..< ?k] = map (\<lambda>i. map ?f [i * m ..< Suc i * m]) [0 ..< ?k]"
    by (rule map_cong [OF refl]) (rule block, simp)
  have last: "?part ?k = map ?f [?k * m ..< ?C]" using tail(1) unfolding st by (simp only: simp_thms if_True)
  have "concat (map ?part [0 ..< n])
      = concat (map (\<lambda>i. map ?f [i * m ..< Suc i * m]) [0 ..< ?k]) @ map ?f [?k * m ..< ?C]"
    unfolding upto map_append concat_append blocks
    by (simp only: list.map concat.simps last append_Nil2)
  also have "\<dots> = map ?f (concat (map (\<lambda>i. [i * m ..< Suc i * m]) [0 ..< ?k]) @ [?k * m ..< ?C])"
    by (simp add: map_concat o_def del: upt_Suc)
  also have "\<dots> = map ?f [0 ..< ?C]"
    unfolding concat_blocks using tail(2) upt_add_eq_append [of 0 "?k * m" "?C - ?k * m"] by simp
  finally show ?thesis by (simp add: page_offsets_def)
qed

lemma fetch_params_partition:
  assumes "0 < psize" and "st \<le> en"
  shows "concat (map thread_offsets (fetch_params psize rd st en)) = page_offsets psize st en"
proof -
  let ?n = "if (en - st) div psize > 1024 then 8 else 1 :: nat"
  show ?thesis
    using split_range_offsets [OF assms, of ?n]
    by (simp only: fetch_params_def Let_def map_map o_def thread_offsets_def FetchFuncParams.simps)
      (simp split: if_splits)
qed

lemma fetch_params_fields:
  assumes "0 < psize" and "st \<le> en" and "params \<in> set (fetch_params psize rd st en)"
  shows "ff_psize params = psize \<and> ff_rd params = rd \<and> ff_offset_end params \<le> en"
proof -
  let ?n = "if (en - st) div psize > 1024 then 8 else 1 :: nat"
  let ?m = "(unat en - unat st) div unat psize div ?n"
  let ?stride = "(en - st) div psize div of_nat ?n * psize"
  have n: "0 < ?n" "?n < 2 ^ 32" by simp_all
  note facts = stride_facts [OF assms(1,2) n]
  obtain i where i: "i < ?n" and params: "ff_psize params = psize" "ff_rd params = rd"
    "ff_offset_end params
       = (if i = ?n - 1 then en else st + ?stride * of_nat i + ?stride)"
    using assms(3) unfolding fetch_params_def Let_def by auto
  have "st + ?stride * of_nat i + ?stride = st + of_nat (Suc i * ?m) * psize"
    unfolding facts(1) by (simp add: algebra_simps)
  moreover have "Suc i * ?m * unat psize \<le> unat en - unat st" using i by (intro facts(2)) simp
  ultimately have "unat (st + ?stride * of_nat i + ?stride) = unat st + Suc i * ?m * unat psize"
    and "Suc i * ?m * unat psize \<le> unat en - unat st"
    using facts(3) by (simp_all only:)
  moreover have "unat st \<le> unat en" using assms(2) by (simp add: word_le_nat_alt)
  ultimately have "st + ?stride * of_nat i + ?stride \<le> en" unfolding word_le_nat_alt by linarith
  with params show ?thesis by simp
qed

section \<open>What the threads install\<close>

lemma fetch_pages_missing:
  assumes "kernel_ok abi (page_sz S) (kern S)" and "distinct offs" and "\<forall>off\<in>set offs. io_ok off"
    and "\<forall>off\<in>set offs. page_view (kern S) (mem w) (rd_start rd + off) = None"
  shows "\<exists>k'. fetch_pages S io_ok rd offs w = Inr (w\<lparr>mem := k'\<rparr>)
     \<and> (\<forall>a. page_view (kern S) k' a =
           (if a - rd_start rd \<in> set offs then Some (stores w (m_store rd) (a - rd_start rd), False)
            else page_view (kern S) (mem w) a))"
  using assms(2-)
proof (induction offs arbitrary: w)
  case Nil
  have "fetch_pages S io_ok rd [] w = Inr (w\<lparr>mem := mem w\<rparr>)" by simp
  then show ?case by (intro exI [of _ "mem w"]) simp
next
  case (Cons off offs)
  let ?V = "page_view (kern S)" and ?a = "rd_start rd + off"
  let ?d = "stores w (m_store rd) off"
  obtain k where k: "copy_in_page (page_sz S) (kern S) ?d ?a (mem w) = Inr k"
    "?V k = (?V (mem w))(?a \<mapsto> (?d, False))"
    using kernel_calls(1) [OF assms(1), of "mem w" ?a ?d] Cons.prems(3) by auto
  have step: "fetch_page S io_ok rd off w = Inr (w\<lparr>mem := k\<rparr>)"
    using k(1) Cons.prems(2) by (simp add: fetch_page_def)
  have "\<exists>k'. fetch_pages S io_ok rd offs (w\<lparr>mem := k\<rparr>) = Inr (w\<lparr>mem := k\<rparr>\<lparr>mem := k'\<rparr>)
     \<and> (\<forall>a. ?V k' a = (if a - rd_start rd \<in> set offs
            then Some (stores (w\<lparr>mem := k\<rparr>) (m_store rd) (a - rd_start rd), False)
            else ?V (mem (w\<lparr>mem := k\<rparr>)) a))"
    by (rule Cons.IH) (use Cons.prems k(2) in auto)
  then obtain k' where k': "fetch_pages S io_ok rd offs (w\<lparr>mem := k\<rparr>) = Inr (w\<lparr>mem := k'\<rparr>)"
    "\<And>a. ?V k' a = (if a - rd_start rd \<in> set offs
            then Some (stores w (m_store rd) (a - rd_start rd), False) else ?V k a)"
    by auto
  have "?V k' a = (if a - rd_start rd \<in> set (off # offs)
            then Some (stores w (m_store rd) (a - rd_start rd), False) else ?V (mem w) a)" for a
    using k'(2) [of a] by (cases "a = ?a") (auto simp: k(2))
  with k'(1) step show ?case by (intro exI [of _ k']) simp
qed

lemma fetch_pages_present:
  assumes ok: "kernel_ok abi (page_sz S) (kern S)" and "off \<in> set offs"
    and "page_view (kern S) (mem w) (rd_start rd + off) \<noteq> None"
  shows "\<exists>e. fetch_pages S io_ok rd offs w = Inl e"
  using assms(2-)
proof (induction offs arbitrary: w)
  case (Cons o1 offs)
  let ?V = "page_view (kern S)" and ?a = "rd_start rd + o1"
  let ?d = "stores w (m_store rd) o1"
  show ?case
  proof (cases "?V (mem w) ?a = None \<and> io_ok o1")
    case True
    obtain k where k: "copy_in_page (page_sz S) (kern S) ?d ?a (mem w) = Inr k"
      "?V k = (?V (mem w))(?a \<mapsto> (?d, False))"
      using kernel_calls(1) [OF ok, of "mem w" ?a ?d] True by auto
    have "off \<in> set offs" using Cons.prems True by auto
    moreover have "?V k (rd_start rd + off) \<noteq> None" using Cons.prems(2) unfolding k(2) by auto
    ultimately have "\<exists>e. fetch_pages S io_ok rd offs (w\<lparr>mem := k\<rparr>) = Inl e"
      by (intro Cons.IH) simp_all
    then show ?thesis using True k(1) by (simp add: fetch_page_def)
  next
    case False
    then show ?thesis using kernel_calls(6) [OF ok, of "mem w" ?a ?d]
      by (auto simp: fetch_page_def)
  qed
qed simp

lemma mem_page_offsets:
  assumes "0 < psize"
  shows "x \<in> set (page_offsets psize st en)
     \<longleftrightarrow> (\<exists>j. x = st + of_nat j * psize \<and> unat st + j * unat psize < unat en)"
proof -
  let ?p = "unat psize"
  have "0 < ?p" using assms by (simp add: word_less_nat_alt)
  then have "j < (unat en - unat st + ?p - 1) div ?p \<longleftrightarrow> unat st + j * ?p < unat en" for j
  proof -
    have "j < (unat en - unat st + ?p - 1) div ?p \<longleftrightarrow> Suc j * ?p \<le> unat en - unat st + ?p - 1"
      using \<open>0 < ?p\<close> by (simp add: less_eq_div_iff_mult_less_eq Suc_le_eq [symmetric])
    also have "\<dots> \<longleftrightarrow> unat st + j * ?p < unat en" using \<open>0 < ?p\<close> by auto
    finally show ?thesis .
  qed
  then show ?thesis by (auto simp: page_offsets_def)
qed

lemma distinct_page_offsets:
  assumes "0 < psize" and "st \<le> en"
  shows "distinct (page_offsets psize st en)"
proof -
  let ?p = "unat psize"
  have p: "0 < ?p" using assms by (simp add: word_less_nat_alt)
  have "unat (st + of_nat j * psize) = unat st + j * ?p"
    if "j < (unat en - unat st + ?p - 1) div ?p" for j
  proof -
    have "st + of_nat j * psize \<in> set (page_offsets psize st en)"
      using that by (auto simp: page_offsets_def)
    have "Suc j * ?p \<le> unat en - unat st + ?p - 1"
      using that p by (simp add: less_eq_div_iff_mult_less_eq Suc_le_eq [symmetric])
    then have "j * ?p \<le> unat en - unat st" by simp
    then show ?thesis using stride_facts(3) [OF assms, of 1] by simp
  qed
  then show ?thesis using p
    by (auto simp: page_offsets_def distinct_map inj_on_def) (metis add_left_cancel mult_cancel2 nat_less_le)
qed

lemma checked_offset_value: "checked_offset asserts rd a = Inr x \<Longrightarrow> x = a - rd_start rd"
  by (auto simp: checked_offset_def store_offset_def split: if_splits)

lemma reserve_memory_present:
  "reserve_memory c psize mem_avail sz b = Inr b' \<Longrightarrow> m_present_pages b' = m_present_pages b"
  by (auto simp: reserve_memory_def Let_def bindR_eq_Inr_iff split: if_splits)

lemma fetch_plan_ok:
  assumes "fetch_plan asserts meminfo c busy paddr sz e = Inr (e', params)"
    and "containing_region paddr (table e) = (Some r, rt)"
  shows "params = fetch_params (m_umap_page_size c) (rds rt r) (paddr - rd_start (rds rt r))
            (fetch_end (rds rt r) paddr sz - rd_start (rds rt r))
       \<and> m_present_pages (buf e') = m_present_pages (buf e)"
  using assms
  by (auto simp: fetch_plan_def Let_def bindR_eq_Inr_iff lock_buffer_def
      dest!: checked_offset_value reserve_memory_present)

lemma fetch_params_hd:
  assumes "0 < psize" and "st \<le> en"
  shows "ff_rd (hd (fetch_params psize rd st en)) = rd"
proof -
  have "fetch_params psize rd st en \<noteq> []" by (simp add: fetch_params_def Let_def)
  then show ?thesis using fetch_params_fields [OF assms] hd_in_set by blast
qed

text \<open>The page offsets of a range inside a region, as addresses.\<close>

lemma mem_range_offsets:
  assumes "0 < psize" and "s \<le> st" and "st \<le> en"
  shows "a - s \<in> set (page_offsets psize (st - s) (en - s))
     \<longleftrightarrow> (\<exists>j. a = st + of_nat j * psize \<and> unat st + j * unat psize < unat en)"
proof -
  have "s \<le> en" using assms(2,3) by (rule order_trans)
  have "unat (st - s) + j * unat psize < unat (en - s) \<longleftrightarrow> unat st + j * unat psize < unat en" for j
    using assms(2,3) \<open>s \<le> en\<close> by (auto simp: unat_sub word_le_nat_alt)
  moreover have "a - s = st - s + of_nat j * psize \<longleftrightarrow> a = st + of_nat j * psize" for j
    by (auto simp: algebra_simps diff_eq_eq)
  ultimately show ?thesis unfolding mem_page_offsets [OF assms(1)] by simp
qed

lemma diff_le_diff_u64:
  fixes s :: u64
  assumes "s \<le> st" and "st \<le> en"
  shows "st - s \<le> en - s"
proof -
  have "s \<le> en" using assms by (rule order_trans)
  then show ?thesis using assms by (simp add: word_le_nat_alt unat_sub)
qed

section \<open>Properties\<close>

text \<open>
  The threads of a fetch end and share the range: with \<open>N\<close> pages between two offsets,
  the loops of the one or eight threads return, every thread fetches its own offsets in
  increasing order, and the offsets of all threads, one after the other, are the page
  offsets of the whole range, also when the number of pages is no multiple of eight or the
  range ends inside a page.
\<close>

lemma fetch_threads_partition:
  assumes "0 < psize" and "st \<le> en" and "unat en + unat psize < 2 ^ 64"
  shows "concat (map thread_offsets (fetch_params psize rd st en)) = page_offsets psize st en
       \<and> (\<forall>params\<in>set (fetch_params psize rd st en).
            FetchFunc S True io_ok params w
              = Some (fetch_pages S io_ok rd (thread_offsets params) w))"
proof (intro conjI ballI)
  show "concat (map thread_offsets (fetch_params psize rd st en)) = page_offsets psize st en"
    by (rule fetch_params_partition [OF assms(1,2)])
  fix params assume "params \<in> set (fetch_params psize rd st en)"
  note f = fetch_params_fields [OF assms(1,2) this]
  have "unat (ff_offset_end params) + unat (ff_psize params) < 2 ^ 64"
    using f assms(3) by (simp add: word_le_nat_alt)
  then show "FetchFunc S True io_ok params w
              = Some (fetch_pages S io_ok rd (thread_offsets params) w)"
    using fetch_loop_pages [of params S io_ok "ff_offset_st params" w] f assms(1)
    by (simp add: FetchFunc_def thread_offsets_def)
qed


definition demo_settings :: Settings where
  "demo_settings =
     \<lparr>m_version = \<lparr>major = 2, minor = 1, patch = 0\<rparr>, m_max_pages_in_buffer = 2, m_monitor_freq = 0,
      m_umap_page_size = 4096, m_system_page_size = 4096, m_num_fillers = 2, m_num_evictors = 1,
      m_evict_low_water_threshold = 100, m_evict_high_water_threshold = 100,
      m_max_fault_events = 256, total_mem_kb = 0\<rparr>"

lemma demo_mem_available:
  "usable_memory ''MemAvailable: 33554432 kB'' 4096 = Inr 17179869184"
proof -
  have "scan_meminfo ''MemAvailable:'' 0 ''MemAvailable: 33554432 kB'' = Inr 33554432"
    by (simp add: scan_meminfo.simps [of _ _ "''MemAvailable: 33554432 kB''"]
        scan_meminfo.simps [of _ _ "[]"]
        get_token_def get_u64_def skip_line_def is_space_def is_digit_def digits_value_def)
  then show ?thesis by (simp add: usable_memory_def mem_margin_kb_def)
qed

lemmas demo_fetch_eval = demo_world_def demo_table_def demo_buffer_def demo_settings_def
  containing_region_def region_search_def upper_bound_def RegionDescriptor_init_def rd_defs
  fetch_end_def lock_buffer_def Let_def

lemma demo_fetch_region:
  "containing_region 69632 (table (eng demo_world)) = (Some 0, demo_table\<lparr>m_last_iter := Some 65536\<rparr>)"
  by (simp add: demo_fetch_eval)

lemma demo_fetch_plan:
  "\<exists>e. fetch_plan True ''MemAvailable: 33554432 kB'' demo_settings False 69632 8192 (eng demo_world)
     = Inr (e, fetch_params 4096 (rds demo_table 0) 4096 12288)"
proof -
  have "fetch_plan True ''MemAvailable: 33554432 kB'' demo_settings False 69632 8192 (eng demo_world)
     = Inr ((eng demo_world)\<lparr>buf := lock_buffer False (buf (eng demo_world)),
              table := demo_table\<lparr>m_last_iter := Some 65536\<rparr>\<rparr>,
            fetch_params 4096 (rds demo_table 0) 4096 12288)"
    using demo_mem_available demo_fetch_region
    by (simp add: fetch_plan_def checked_offset_def reserve_memory_def demo_fetch_eval)
  then show ?thesis by blast
qed


text \<open>
  A fetch up to the end of its region stops at a failed assertion when assertions are
  compiled in: the end of the range is cut off at the end of the region, which is not an
  address of the region, and its offset is asked for.
\<close>

lemma fetch_to_region_end_asserts:
  assumes "containing_region paddr (table e) = (Some r, rt)"
    and "rd_sound (rds rt r)" and "in_region (rds rt r) paddr"
    and "rd_end (rds rt r) \<le> paddr + sz"
  shows "fetch_plan True meminfo c busy paddr sz e
       = Inl (ASSERT_FAIL ''Invalid address for calculating offset'')"
proof -
  have "fetch_end (rds rt r) paddr sz = rd_end (rds rt r)"
    using assms(4) by (auto simp: fetch_end_def Let_def)
  moreover have "store_offset (rds rt r) paddr = Inr (paddr - rd_start (rds rt r))"
    using store_offset_in_region [OF assms(2,3)] by simp
  ultimately show ?thesis
    using assms(1) by (simp add: fetch_plan_def Let_def checked_offset_def)
      (simp add: store_offset_def)
qed

lemma fetch_to_region_end_asserts_example:
  "fetch_plan True [] demo_settings False 69632 258048 (eng demo_world)
     = Inl (ASSERT_FAIL ''Invalid address for calculating offset'')"
proof -
  let ?rd = "rds (demo_table\<lparr>m_last_iter := Some 65536\<rparr>) 0"
  have "rd_sound ?rd" "in_region ?rd 69632" "rd_end ?rd \<le> 69632 + 258048"
    by (simp_all add: demo_fetch_eval rd_sound_def in_region_def)
  then show ?thesis by (rule fetch_to_region_end_asserts [OF demo_fetch_region])
qed

text \<open>The branch of \<open>reserve_memory\<close> that gives up free pages.\<close>

lemma reserve_memory_shrinks:
  fixes psize :: u64 and b
  defines "free \<equiv> psize * of_nat (length (m_free_pages b))"
  assumes short: "mem_avail \<le> free + sz" and some: "free + sz - mem_avail < free" and lt: "sz < mem_avail"
    and thresholds: "m_evict_low_water_threshold c \<in> {0 .. 100}"
      "m_evict_high_water_threshold c \<in> {0 .. 100}"
  shows "\<exists>b'. reserve_memory c psize mem_avail sz b = Inr b'
    \<and> m_free_pages b' = take ((unat mem_avail - unat sz) div unat psize) (m_free_pages b)
    \<and> m_busy_pages b' = m_busy_pages b
    \<and> m_size b' = length (m_busy_pages b') + length (m_free_pages b')"
proof -
  have pct: "\<exists>v. apply_int_percentage t k = Inr v" if "t \<in> {0 .. 100}" for t k
    using that by (auto simp: apply_int_percentage_def Let_def)
  have n: "unat ((mem_avail - sz) div psize) = (unat mem_avail - unat sz) div unat psize"
    using unat_sub [OF less_imp_le [OF lt]] by (simp only: unat_div_distrib)
  let ?b1 = "b\<lparr>m_free_pages := take ((unat mem_avail - unat sz) div unat psize) (m_free_pages b)\<rparr>"
  let ?b2 = "?b1\<lparr>m_size := length (m_busy_pages ?b1) + length (m_free_pages ?b1)\<rparr>"
  obtain lo hi where "apply_int_percentage (m_evict_low_water_threshold c) (m_size ?b2) = Inr lo"
    "apply_int_percentage (m_evict_high_water_threshold c) (m_size ?b2) = Inr hi"
    using pct thresholds by blast
  then have "reserve_memory c psize mem_avail sz b
      = Inr (?b2\<lparr>m_evict_low_water := lo, m_evict_high_water := hi\<rparr>)"
    using short some by (simp add: reserve_memory_def Let_def n free_def)
  then show ?thesis by simp
qed

text \<open>
  Making room for a pinned range. A range that is not smaller than the usable memory is
  refused. Otherwise the free pages that are kept, the first ones of the list, fit into the
  usable memory together with the range, as many of them as do; pages in use stay, and when
  pages are given up the size of the buffer is the number of the pages left.
\<close>

lemma reserve_memory_fits:
  assumes psize: "0 < psize"
    and bound: "unat psize * length (m_free_pages b) + unat sz < 2 ^ 64"
    and thresholds: "m_evict_low_water_threshold c \<in> {0 .. 100}"
      "m_evict_high_water_threshold c \<in> {0 .. 100}"
  shows "(mem_avail \<le> sz \<longrightarrow> (\<exists>err. reserve_memory c psize mem_avail sz b = Inl err))
    \<and> (sz < mem_avail \<longrightarrow> (\<exists>b' n. reserve_memory c psize mem_avail sz b = Inr b'
         \<and> n = min (length (m_free_pages b)) ((unat mem_avail - unat sz) div unat psize)
         \<and> m_free_pages b' = take n (m_free_pages b)
         \<and> unat psize * n + unat sz \<le> unat mem_avail
         \<and> m_busy_pages b' = m_busy_pages b
         \<and> (n < length (m_free_pages b) \<longrightarrow> m_size b' = length (m_busy_pages b') + n)))"
proof -
  let ?p = "unat psize" and ?l = "length (m_free_pages b)" and ?s = "unat sz" and ?a = "unat mem_avail"
  let ?free = "psize * of_nat ?l" and ?n = "min ?l ((?a - ?s) div ?p)"
  have p: "0 < ?p" using psize by (simp add: word_less_nat_alt)
  have prod: "?p * ?l < 2 ^ 64" using bound by simp
  have "?free = of_nat (?p * ?l)" by simp
  then have free: "unat ?free = ?p * ?l" using prod by (simp only: unat_of_nat_u64)
  then have sum: "unat (?free + sz) = ?p * ?l + ?s" using bound unat_add_lem [of ?free sz] by simp
  have room: "?p * ?n + ?s \<le> ?a" if "sz < mem_avail"
  proof -
    have "?p * ?n \<le> ?p * ((?a - ?s) div ?p)" by (rule mult_left_mono) simp_all
    also have "\<dots> \<le> ?a - ?s" by (rule times_div_less_eq_dividend)
    finally show ?thesis using that by (simp add: word_less_nat_alt)
  qed
  show ?thesis
  proof (cases "mem_avail \<le> ?free + sz")
    case True
    then have le: "?a \<le> ?p * ?l + ?s" by (simp add: word_le_nat_alt sum)
    have red: "unat (?free + sz - mem_avail) = ?p * ?l + ?s - ?a" using unat_sub [OF True] sum by simp
    show ?thesis
    proof (cases "sz < mem_avail")
      case False
      then have "\<not> ?free + sz - mem_avail < ?free" by (simp add: word_less_nat_alt red free)
      then show ?thesis using True False by (simp add: reserve_memory_def Let_def)
    next
      case lt: True
      then have "?free + sz - mem_avail < ?free" using le by (simp add: word_less_nat_alt red free)
      from reserve_memory_shrinks [OF True this lt thresholds]
      obtain b' where b': "reserve_memory c psize mem_avail sz b = Inr b'"
        "m_free_pages b' = take ((?a - ?s) div ?p) (m_free_pages b)" "m_busy_pages b' = m_busy_pages b"
        "m_size b' = length (m_busy_pages b') + length (m_free_pages b')"
        by blast
      have "m_free_pages b' = take ?n (m_free_pages b)" using b'(2) by (simp add: min_def)
      moreover have "m_size b' = length (m_busy_pages b') + ?n" using b'(2,4) by simp
      ultimately show ?thesis using b'(1,3) lt room [OF lt] leD by blast
    qed
  next
    case False
    then have gt: "?p * ?l + ?s < ?a" by (simp add: word_le_nat_alt sum)
    then have "?l \<le> (?a - ?s) div ?p" using p
      by (simp add: less_eq_div_iff_mult_less_eq mult.commute)
    then have "?n = ?l" by simp
    moreover have "sz < mem_avail" using gt by (simp add: word_less_nat_alt)
    ultimately show ?thesis
      using False room by (simp add: reserve_memory_def Let_def)
  qed
qed

lemma reserve_memory_fits_example:
  "\<exists>b'. reserve_memory demo_settings 4096 8192 4096 demo_buffer = Inr b'
      \<and> m_free_pages b' = [0] \<and> m_size b' = 1"
proof -
  have free: "m_free_pages demo_buffer = [0, 1]" by (simp add: demo_buffer_def upt_rec)
  have "\<exists>b' n. reserve_memory demo_settings 4096 8192 4096 demo_buffer = Inr b'
         \<and> n = min (length (m_free_pages demo_buffer))
                 ((unat (8192 :: u64) - unat (4096 :: u64)) div unat (4096 :: u64))
         \<and> m_free_pages b' = take n (m_free_pages demo_buffer)
         \<and> unat (4096 :: u64) * n + unat (4096 :: u64) \<le> unat (8192 :: u64)
         \<and> m_busy_pages b' = m_busy_pages demo_buffer
         \<and> (n < length (m_free_pages demo_buffer) \<longrightarrow> m_size b' = length (m_busy_pages b') + n)"
    by (rule mp [OF conjunct2 [OF reserve_memory_fits]]) (simp_all add: free demo_settings_def)
  then obtain b' where "reserve_memory demo_settings 4096 8192 4096 demo_buffer = Inr b'"
    "m_free_pages b' = [0]" "m_busy_pages b' = m_busy_pages demo_buffer"
    "m_size b' = length (m_busy_pages b') + 1"
    unfolding free by auto
  moreover have "m_busy_pages demo_buffer = []" by (simp add: demo_buffer_def)
  ultimately show ?thesis by simp
qed

end
