(* ===== verification/Stores.thy ===== *)
theory Stores
  imports Decimal
begin

text \<open>
  Backing stores: the part of a POSIX file system that the stores use, the store of
  \<^verbatim>\<open>store/StoreFile.cpp\<close> on one file descriptor, and the contract every store has to
  meet, as a locale that the two stores of the library interpret.
\<close>

section \<open>Files\<close>

text \<open>
  Regular files are lists of bytes, named by their path. An open file descriptor is a
  position in the table \<open>fds\<close>; \<^verbatim>\<open>open\<close> takes the lowest one that is not in use.
\<close>

record fsys =
  data :: "string \<rightharpoonup> byte list"
  dirs :: "string set"
  fds :: "string option list"

definition fd_path :: "int \<Rightarrow> fsys \<Rightarrow> string option" where
  "fd_path fd fs = (if 0 \<le> fd \<and> nat fd < length (fds fs) then fds fs ! nat fd else None)"

definition lowest_fd :: "string option list \<Rightarrow> nat" where
  "lowest_fd t = length (takeWhile (\<lambda>x. x \<noteq> None) t)"

text \<open>\<^verbatim>\<open>open\<close> with \<^verbatim>\<open>O_CREAT\<close>, when it succeeds.\<close>

definition fs_open :: "string \<Rightarrow> fsys \<Rightarrow> int \<times> fsys" where
  "fs_open path fs =
     (let n = lowest_fd (fds fs);
          t = (if n < length (fds fs) then (fds fs)[n := Some path] else fds fs @ [Some path]);
          d = (if data fs path = None then (data fs)(path \<mapsto> []) else data fs)
      in (int n, fs\<lparr>data := d, fds := t\<rparr>))"

definition fs_close :: "int \<Rightarrow> fsys \<Rightarrow> fsys option" where
  "fs_close fd fs =
     (if fd_path fd fs = None then None else Some (fs\<lparr>fds := (fds fs)[nat fd := None]\<rparr>))"

text \<open>
  \<^verbatim>\<open>pread\<close> returns the bytes there are, \<^verbatim>\<open>pwrite\<close> fills a gap behind the end with zeros;
  \<open>None\<close> is the return value -1. \<^verbatim>\<open>posix_fallocate\<close> extends a file with zeros.
\<close>

definition pread :: "int \<Rightarrow> nat \<Rightarrow> nat \<Rightarrow> fsys \<Rightarrow> byte list option" where
  "pread fd nb off fs =
     (case Option.bind (fd_path fd fs) (data fs) of
        None \<Rightarrow> None | Some d \<Rightarrow> Some (take nb (drop off d)))"

definition overwrite :: "nat \<Rightarrow> byte list \<Rightarrow> byte list \<Rightarrow> byte list" where
  "overwrite off bs d =
     take off (d @ replicate (off - length d) 0) @ bs @ drop (off + length bs) d"

definition pwrite :: "int \<Rightarrow> byte list \<Rightarrow> nat \<Rightarrow> fsys \<Rightarrow> fsys option" where
  "pwrite fd bs off fs =
     (case fd_path fd fs of
        None \<Rightarrow> None
      | Some path \<Rightarrow>
          (case data fs path of
             None \<Rightarrow> None
           | Some d \<Rightarrow> Some (fs\<lparr>data := (data fs)(path \<mapsto> overwrite off bs d)\<rparr>)))"

definition fallocate :: "int \<Rightarrow> nat \<Rightarrow> fsys \<Rightarrow> fsys" where
  "fallocate fd len fs =
     (case fd_path fd fs of
        None \<Rightarrow> fs
      | Some path \<Rightarrow>
          (case data fs path of
             None \<Rightarrow> fs
           | Some d \<Rightarrow> fs\<lparr>data := (data fs)(path \<mapsto> d @ replicate (len - length d) 0)\<rparr>))"

lemma fd_path_data [simp]: "fd_path fd (fs\<lparr>data := d\<rparr>) = fd_path fd fs"
  by (simp add: fd_path_def)

text \<open>Opening a file.\<close>

lemma lowest_fd_free: "lowest_fd t < length t \<Longrightarrow> t ! lowest_fd t = None"
  using nth_length_takeWhile [of "\<lambda>x. x \<noteq> None" t] by (simp add: lowest_fd_def)

lemma lowest_fd_le: "lowest_fd t \<le> length t"
  by (simp add: lowest_fd_def length_takeWhile_le)

lemma fs_open_props:
  assumes "fs_open path fs = (fd, fs1)"
  shows "fd_path fd fs1 = Some path" and "0 \<le> fd"
    and "fd_path g fs = Some q \<Longrightarrow> fd_path g fs1 = Some q"
    and "data fs1 = (if data fs path = None then (data fs)(path \<mapsto> []) else data fs)"
proof -
  let ?n = "lowest_fd (fds fs)"
  have fd: "fd = int ?n" and t: "fds fs1 = (if ?n < length (fds fs) then (fds fs)[?n := Some path]
      else fds fs @ [Some path])"
    and d: "data fs1 = (if data fs path = None then (data fs)(path \<mapsto> []) else data fs)"
    using assms by (auto simp: fs_open_def Let_def)
  show "0 \<le> fd" and "data fs1 = (if data fs path = None then (data fs)(path \<mapsto> []) else data fs)"
    using fd d by simp_all
  show "fd_path fd fs1 = Some path"
    using fd t lowest_fd_le [of "fds fs"] by (auto simp: fd_path_def nth_append)
  show "fd_path g fs1 = Some q" if "fd_path g fs = Some q"
    using that lowest_fd_free [of "fds fs"]
    by (auto simp: fd_path_def t nth_append nth_list_update split: if_splits)
qed

lemma length_overwrite: "length (overwrite off bs d) = max (length d) (off + length bs)"
  by (auto simp: overwrite_def max_def min_def)

lemma nth_overwrite:
  assumes "off + length bs \<le> length d" and "i < length d"
  shows "overwrite off bs d ! i = (if off \<le> i \<and> i < off + length bs then bs ! (i - off) else d ! i)"
  using assms by (auto simp: overwrite_def nth_append)

lemma overwrite_inside:
  assumes "off + length bs \<le> length d"
  shows "overwrite off bs d = take off d @ bs @ drop (off + length bs) d"
  using assms by (simp add: overwrite_def)

section \<open>The store on one file\<close>

record StoreFile =
  sf_region :: addr
  sf_rsize :: u64
  sf_alignsize :: u64
  sf_fd :: int

definition StoreFile_init :: "addr \<Rightarrow> u64 \<Rightarrow> u64 \<Rightarrow> int \<Rightarrow> StoreFile" where
  "StoreFile_init region rsize alignsize fd =
     \<lparr>sf_region = region, sf_rsize = rsize, sf_alignsize = alignsize, sf_fd = fd\<rparr>"

definition make_store :: "addr \<Rightarrow> u64 \<Rightarrow> u64 \<Rightarrow> int \<Rightarrow> StoreFile" where
  "make_store region rsize alignsize fd = StoreFile_init region rsize alignsize fd"

text \<open>
  The buffer after the call holds the bytes read in front and its old bytes behind them;
  the return value is their number.
\<close>

definition StoreFile_read :: "StoreFile \<Rightarrow> nat \<Rightarrow> nat \<Rightarrow> fsys \<Rightarrow> (byte list \<times> fsys) result" where
  "StoreFile_read sf nb off fs =
     (case pread (sf_fd sf) nb off fs of
        None \<Rightarrow> Inl (UMAP_ERROR ''pread: Failed'')
      | Some bs \<Rightarrow> Inr (bs, fs))"

definition StoreFile_write :: "StoreFile \<Rightarrow> byte list \<Rightarrow> nat \<Rightarrow> fsys \<Rightarrow> (nat \<times> fsys) result" where
  "StoreFile_write sf bs off fs =
     (case pwrite (sf_fd sf) bs off fs of
        None \<Rightarrow> Inl (UMAP_ERROR ''pwrite: Failed'')
      | Some fs' \<Rightarrow> Inr (length bs, fs'))"

section \<open>The contract of a store\<close>

text \<open>Page \<open>n\<close> of a store with the given bytes, and a sequence of page writes.\<close>

definition page_at :: "nat \<Rightarrow> (nat \<Rightarrow> byte) \<Rightarrow> nat \<Rightarrow> byte list" where
  "page_at psize bytes n = map bytes [n * psize ..< n * psize + psize]"

fun write_pages ::
  "(byte list \<Rightarrow> nat \<Rightarrow> 's \<Rightarrow> (nat \<times> 's) result) \<Rightarrow> nat \<Rightarrow> (nat \<times> byte list) list \<Rightarrow> 's \<Rightarrow> 's result" where
  "write_pages write_to_store psize [] s = Inr s"
| "write_pages write_to_store psize ((n, bs) # ws) s =
     bindR (write_to_store bs (n * psize) s) (\<lambda>(_, s'). write_pages write_to_store psize ws s')"

text \<open>
  A store in a sound state has a byte at every offset. A read or write of a span that the
  store admits succeeds, transfers all of the bytes, keeps the state sound and the spans;
  a read changes no byte, a write exactly those of its span.
\<close>

locale byte_store =
  fixes sound :: "'s \<Rightarrow> bool"
    and span :: "'s \<Rightarrow> nat \<Rightarrow> nat \<Rightarrow> bool"
    and bytes :: "'s \<Rightarrow> nat \<Rightarrow> byte"
    and read_from_store :: "nat \<Rightarrow> nat \<Rightarrow> 's \<Rightarrow> (byte list \<times> 's) result"
    and write_to_store :: "byte list \<Rightarrow> nat \<Rightarrow> 's \<Rightarrow> (nat \<times> 's) result"
  assumes read_ok: "sound s \<Longrightarrow> span s off nb \<Longrightarrow>
      \<exists>s'. read_from_store nb off s = Inr (map (bytes s) [off ..< off + nb], s')
         \<and> sound s' \<and> span s' = span s \<and> bytes s' = bytes s"
    and write_ok: "sound s \<Longrightarrow> span s off (length bs) \<Longrightarrow>
      \<exists>s'. write_to_store bs off s = Inr (length bs, s')
         \<and> sound s' \<and> span s' = span s
         \<and> bytes s' = (\<lambda>i. if off \<le> i \<and> i < off + length bs then bs ! (i - off) else bytes s i)"
begin

lemma page_at_write:
  assumes "sound s" and "span s (n * psize) psize" and "length bs = psize"
  shows "\<exists>s'. write_to_store bs (n * psize) s = Inr (psize, s') \<and> sound s' \<and> span s' = span s
       \<and> page_at psize (bytes s') = (page_at psize (bytes s))(n := bs)"
proof -
  from write_ok [of s "n * psize" bs] assms obtain s' where
    w: "write_to_store bs (n * psize) s = Inr (psize, s')" "sound s'" "span s' = span s" and
    b: "bytes s' = (\<lambda>i. if n * psize \<le> i \<and> i < n * psize + psize then bs ! (i - n * psize)
          else bytes s i)"
    by auto
  have "page_at psize (bytes s') m = ((page_at psize (bytes s))(n := bs)) m" for m
  proof (cases "m = n")
    case True
    then show ?thesis using assms(3) by (auto simp: page_at_def b intro!: nth_equalityI)
  next
    case False
    have "\<not> (n * psize \<le> i \<and> i < n * psize + psize)" if "m * psize \<le> i" "i < m * psize + psize" for i
    proof
      assume A: "n * psize \<le> i \<and> i < n * psize + psize"
      then have "i div psize = n" using that
        by (intro div_nat_eqI) (simp_all add: algebra_simps)
      moreover have "i div psize = m" using that
        by (intro div_nat_eqI) (simp_all add: algebra_simps)
      ultimately show False using False by simp
    qed
    then show ?thesis using False by (auto simp: page_at_def b)
  qed
  with w show ?thesis by (intro exI [of _ s']) (simp add: fun_eq_iff)
qed

lemma page_at_read:
  assumes "sound s" and "span s (n * psize) psize"
  shows "\<exists>s'. read_from_store psize (n * psize) s = Inr (page_at psize (bytes s) n, s') \<and> sound s'
       \<and> span s' = span s \<and> page_at psize (bytes s') = page_at psize (bytes s)"
  using read_ok [OF assms] by (auto simp: page_at_def fun_eq_iff)

lemma write_pages_ok:
  assumes "sound s" and "\<forall>(n, bs)\<in>set ws. span s (n * psize) psize \<and> length bs = psize"
  shows "\<exists>s'. write_pages write_to_store psize ws s = Inr s' \<and> sound s' \<and> span s' = span s
       \<and> page_at psize (bytes s') = fold (\<lambda>(n, bs) m. m(n := bs)) ws (page_at psize (bytes s))"
  using assms
proof (induction ws arbitrary: s)
  case (Cons w ws)
  obtain n bs where w: "w = (n, bs)" by (cases w)
  with Cons.prems obtain s1 where
    s1: "write_to_store bs (n * psize) s = Inr (psize, s1)" "sound s1" "span s1 = span s"
      "page_at psize (bytes s1) = (page_at psize (bytes s))(n := bs)"
    using page_at_write [of s n psize bs] by auto
  moreover have "\<forall>(n, bs)\<in>set ws. span s1 (n * psize) psize \<and> length bs = psize"
    using Cons.prems(2) s1(3) by auto
  ultimately show ?case using Cons.IH [of s1] w by auto
qed simp

end

section \<open>The file store meets the contract\<close>

definition file_sound :: "StoreFile \<Rightarrow> fsys \<Rightarrow> bool" where
  "file_sound sf fs \<longleftrightarrow> Option.bind (fd_path (sf_fd sf) fs) (data fs) \<noteq> None"

definition file_contents :: "StoreFile \<Rightarrow> fsys \<Rightarrow> byte list" where
  "file_contents sf fs = the (Option.bind (fd_path (sf_fd sf) fs) (data fs))"

definition file_span :: "StoreFile \<Rightarrow> fsys \<Rightarrow> nat \<Rightarrow> nat \<Rightarrow> bool" where
  "file_span sf fs off nb \<longleftrightarrow> off + nb \<le> length (file_contents sf fs)"

definition file_bytes :: "StoreFile \<Rightarrow> fsys \<Rightarrow> nat \<Rightarrow> byte" where
  "file_bytes sf fs i = (if i < length (file_contents sf fs) then file_contents sf fs ! i else 0)"

lemma file_soundE:
  assumes "file_sound sf fs"
  obtains path where "fd_path (sf_fd sf) fs = Some path"
    and "data fs path = Some (file_contents sf fs)"
  using assms by (cases "fd_path (sf_fd sf) fs") (auto simp: file_sound_def file_contents_def)

lemma take_drop_bytes:
  assumes "off + nb \<le> length d"
  shows "take nb (drop off d) = map (\<lambda>i. if i < length d then d ! i else 0) [off ..< off + nb]"
  using assms by (auto intro!: nth_equalityI)

interpretation fstore: byte_store "file_sound sf" "file_span sf" "file_bytes sf"
  "StoreFile_read sf" "StoreFile_write sf" for sf
proof
  fix s off nb
  assume s: "file_sound sf s" and span: "file_span sf s off nb"
  obtain path where p: "fd_path (sf_fd sf) s = Some path" "data s path = Some (file_contents sf s)"
    by (rule file_soundE [OF s])
  have "StoreFile_read sf nb off s = Inr (map (file_bytes sf s) [off ..< off + nb], s)"
    using p span take_drop_bytes [of off nb "file_contents sf s"]
    by (simp add: StoreFile_read_def pread_def file_span_def file_bytes_def [abs_def])
  with s show "\<exists>s'. StoreFile_read sf nb off s = Inr (map (file_bytes sf s) [off ..< off + nb], s')
      \<and> file_sound sf s' \<and> file_span sf s' = file_span sf s \<and> file_bytes sf s' = file_bytes sf s"
    by blast
next
  fix s off and bs :: "byte list"
  assume s: "file_sound sf s" and span: "file_span sf s off (length bs)"
  obtain path where p: "fd_path (sf_fd sf) s = Some path" "data s path = Some (file_contents sf s)"
    by (rule file_soundE [OF s])
  let ?d = "file_contents sf s"
  let ?s' = "s\<lparr>data := (data s)(path \<mapsto> overwrite off bs ?d)\<rparr>"
  have w: "StoreFile_write sf bs off s = Inr (length bs, ?s')"
    using p by (simp add: StoreFile_write_def pwrite_def)
  have fp: "fd_path (sf_fd sf) ?s' = Some path" using p(1) by simp
  then have d': "file_contents sf ?s' = overwrite off bs ?d" by (simp add: file_contents_def)
  have len: "length (overwrite off bs ?d) = length ?d"
    using span by (simp add: length_overwrite file_span_def)
  have "file_sound sf ?s'" using fp by (simp add: file_sound_def)
  moreover have "file_span sf ?s' = file_span sf s" by (simp add: fun_eq_iff file_span_def d' len)
  moreover have "file_bytes sf ?s'
      = (\<lambda>i. if off \<le> i \<and> i < off + length bs then bs ! (i - off) else file_bytes sf s i)"
    using span by (auto simp: fun_eq_iff file_bytes_def d' len nth_overwrite file_span_def)
  ultimately show "\<exists>s'. StoreFile_write sf bs off s = Inr (length bs, s') \<and> file_sound sf s'
      \<and> file_span sf s' = file_span sf s
      \<and> file_bytes sf s' = (\<lambda>i. if off \<le> i \<and> i < off + length bs then bs ! (i - off) else file_bytes sf s i)"
    using w by blast
qed



end
