(* ===== verification/Umap_API.thy ===== *)
theory Umap_API
  imports Prefetch Fill_Workers Evict_Manager Stores
begin

text \<open>
  The interface of \<^verbatim>\<open>umap.cpp\<close> and the operations of \<^verbatim>\<open>RegionManager.cpp\<close> behind it: mapping
  and unmapping a region, which starts and stops the paging engine, flushing, prefetching
  and the queries of the configuration.
\<close>

section \<open>State and environment\<close>

text \<open>The members \<^verbatim>\<open>m_buffer\<close>, \<^verbatim>\<open>m_uffd\<close>, \<^verbatim>\<open>m_fill_workers\<close> and \<^verbatim>\<open>m_evict_manager\<close>, which are set together.\<close>

record parts =
  p_buffer :: Buffer
  p_uffd :: Uffd
  p_fill_workers :: WorkerPool
  p_evict_manager :: WorkerPool
  p_evict_workers :: WorkerPool

record RegionManager =
  rm_settings :: Settings
  rm_table :: RegionTable
  rm_parts :: "parts option"

definition engine_of :: "RegionTable \<Rightarrow> parts \<Rightarrow> engine" where
  "engine_of rt p =
     \<lparr>buf = p_buffer p, table = rt, fill_workers = p_fill_workers p,
      evict_manager = p_evict_manager p, evict_workers = p_evict_workers p\<rparr>"

text \<open>Constants of \<^verbatim>\<open>sys/mman.h\<close> and \<^verbatim>\<open>errno.h\<close>.\<close>

record mman_abi =
  PROT_READ :: u32
  PROT_WRITE :: u32
  MAP_PRIVATE :: u32
  MAP_FIXED :: u32
  MAP_ANONYMOUS :: u32
  MAP_NORESERVE :: u32
  EINVAL :: int

text \<open>The answers of the system to the calls of these operations.\<close>

record sys_env =
  sys_calloc_ok :: bool
  sys_monitor_ok :: bool
  sys_create :: "nat \<Rightarrow> nat option"
  sys_named :: "nat \<Rightarrow> bool"
  sys_userfaultfd :: int
  sys_pipe2 :: int
  sys_pipe_fds :: "int \<times> int"
  sys_uffdio_api :: "u64 option"
  sys_register :: "addr \<Rightarrow> u64 \<Rightarrow> u64 \<Rightarrow> u64 option"
  sys_unregister :: "addr \<Rightarrow> u64 \<Rightarrow> int"
  sys_mmap :: "addr \<Rightarrow> u64 \<Rightarrow> u32 \<Rightarrow> u32 \<Rightarrow> addr option"

section \<open>Region manager\<close>

definition start_parts :: "uffd_abi \<Rightarrow> bool \<Rightarrow> sys_env \<Rightarrow> Settings \<Rightarrow> parts result" where
  "start_parts abi ro env c =
     bindR (Buffer_init (sys_calloc_ok env) (sys_monitor_ok env) (unat (m_max_pages_in_buffer c))
              (m_evict_low_water_threshold c) (m_evict_high_water_threshold c)
              (m_monitor_freq c)) (\<lambda>b.
     bindR (Uffd_init abi ro (sys_create env) (sys_named env) (Settings.m_max_fault_events c)
              (m_umap_page_size c) (sys_userfaultfd env) (sys_pipe2 env) (sys_pipe_fds env)
              (sys_uffdio_api env)) (\<lambda>u.
     bindR (FillWorkers_init (sys_create env) (sys_named env) (m_num_fillers c)) (\<lambda>fw.
     bindR (EvictManager_init (sys_create env) (sys_named env) (m_num_evictors c)) (\<lambda>(em, ew).
       Inr \<lparr>p_buffer = b, p_uffd = u, p_fill_workers = fw, p_evict_manager = em,
            p_evict_workers = ew\<rparr>))))"

text \<open>\<open>r\<close> names the new descriptor.\<close>

definition addRegion ::
  "uffd_abi \<Rightarrow> bool \<Rightarrow> sys_env \<Rightarrow> rid \<Rightarrow> store_ref \<Rightarrow> addr \<Rightarrow> u64 \<Rightarrow> addr \<Rightarrow> u64 \<Rightarrow> RegionManager
     \<Rightarrow> RegionManager result" where
  "addRegion abi ro env r str region_addr region_sz mmap_region mmap_sz M =
     bindR (if m_active_regions (rm_table M) = []
            then bindR (start_parts abi ro env (rm_settings M)) (\<lambda>p. Inr (M\<lparr>rm_parts := Some p\<rparr>))
            else Inr M) (\<lambda>M1.
       let rd = RegionDescriptor_init region_addr region_sz mmap_region mmap_sz str;
           M2 = M1\<lparr>rm_table := table_add r rd (rm_table M1)\<rparr>
       in if rm_parts M2 = None then Inl (UNDEFINED ''null Uffd'')
          else bindR (register_region abi ro (sys_register env) rd) (\<lambda>_. Inr M2))"

text \<open>
  \<open>removeRegion\<close>: the search for the region, whose pages \<open>evict_region\<close> then evicts, and what
  follows when they are gone. \<open>Uffd::unregister_region\<close> is the call of \<open>evict_region\<close> with
  the ioctl at the beginning of the second half.
\<close>

definition removeRegion_find :: "addr \<Rightarrow> RegionManager \<Rightarrow> rid result" where
  "removeRegion_find region_addr M =
     (case map_of (m_active_regions (rm_table M)) region_addr of
        None \<Rightarrow> Inl (UMAP_ERROR ''umap fault monitor not found for'')
      | Some r \<Rightarrow> Inr r)"

definition removeRegion_begin ::
  "bool \<Rightarrow> addr \<Rightarrow> RegionManager \<Rightarrow> (rid \<times> engine \<times> unmap_pc) result" where
  "removeRegion_begin busy region_addr M =
     bindR (removeRegion_find region_addr M) (\<lambda>r.
       case rm_parts M of
         None \<Rightarrow> Inl (UNDEFINED ''null Uffd'')
       | Some p \<Rightarrow> Inr (r, evict_region_begin busy (engine_of (rm_table M) p)))"

definition unregister_ioctl :: "sys_env \<Rightarrow> RegionDescriptor \<Rightarrow> unit result" where
  "unregister_ioctl env rd =
     (if sys_unregister env (rd_start rd) (rd_size rd) \<noteq> 0
      then Inl (UMAP_ERROR ''ioctl(UFFDIO_UNREGISTER) failed'') else Inr ())"

text \<open>The destructors, in the order of the code; the last one asserts that no page is left.\<close>

definition stop_parts :: "RegionTable \<Rightarrow> parts \<Rightarrow> parts result" where
  "stop_parts rt p =
     (let e = EvictManager_destroy (engine_of rt p);
          p' = p\<lparr>p_evict_manager := evict_manager e, p_evict_workers := evict_workers e,
                 p_fill_workers := stop_thread_pool (p_fill_workers p),
                 p_uffd := Uffd_destroy (p_uffd p)\<rparr>
      in bindR (Buffer_destroy (p_buffer p')) (\<lambda>_. Inr p'))"

definition removeRegion_end ::
  "sys_env \<Rightarrow> rid \<Rightarrow> addr \<Rightarrow> RegionManager \<Rightarrow> RegionManager result" where
  "removeRegion_end env r region_addr M =
     bindR (unregister_ioctl env (rds (rm_table M) r)) (\<lambda>_.
       let rt = table_remove region_addr (rm_table M); M1 = M\<lparr>rm_table := rt\<rparr> in
       if m_active_regions rt = [] then
         case rm_parts M1 of
           None \<Rightarrow> Inr M1
         | Some p \<Rightarrow> bindR (stop_parts rt p) (\<lambda>_. Inr (M1\<lparr>rm_parts := None\<rparr>))
       else Inr M1)"

definition flush_buffer :: "bool \<Rightarrow> RegionManager \<Rightarrow> (engine \<times> flush_pc) result" where
  "flush_buffer busy M =
     (case rm_parts M of
        None \<Rightarrow> Inl (UNDEFINED ''null Buffer'')
      | Some p \<Rightarrow> Inr (flush_begin busy (engine_of (rm_table M) p)))"

text \<open>The calls of \<open>process_page\<close> that \<open>prefetch\<close> makes; the array is read up to \<open>npages\<close>.\<close>

definition prefetch :: "int \<Rightarrow> addr list \<Rightarrow> (bool \<times> addr) list result" where
  "prefetch npages page_array =
     (if int (length page_array) < npages then Inl (UNDEFINED ''array index out of range'')
      else Inr (map (\<lambda>a. (False, a)) (take (nat npages) page_array)))"

section \<open>The C interface\<close>

definition umap_ex ::
  "uffd_abi \<Rightarrow> mman_abi \<Rightarrow> bool \<Rightarrow> sys_env \<Rightarrow> rid \<Rightarrow> store_ref \<Rightarrow> addr \<Rightarrow> u64 \<Rightarrow> u32 \<Rightarrow> u32 \<Rightarrow> int \<Rightarrow> int
     \<Rightarrow> store_ref option \<Rightarrow> RegionManager
     \<Rightarrow> (addr \<times> int option \<times> StoreFile option \<times> RegionManager) result" where
  "umap_ex abi mm ro env r new_store region_addr region_sz prot flags fd offset str M =
     (let umap_psize = m_umap_page_size (rm_settings M) in
      if region_sz = 0 then Inr (- 1, Some (- EINVAL mm), None, M)
      else if ro \<and> prot \<noteq> PROT_READ mm
        then Inl (UMAP_ERROR ''only PROT_READ is supported in UMAP_RO_MODE compilation'')
      else if \<not> ro \<and> prot AND NOT (PROT_READ mm OR PROT_WRITE mm) \<noteq> 0
        then Inl (UMAP_ERROR ''only PROT_READ or PROT_WRITE is supported in UMap'')
      else if umap_psize = 0 then Inl (UNDEFINED ''division by zero'')
      else if region_sz mod umap_psize \<noteq> 0
        then Inl (UMAP_ERROR ''Region size is not a multple of umapPageSize'')
      else if region_addr AND (umap_psize - 1) \<noteq> 0
        then Inl (UMAP_ERROR ''region_addr must be page aligned'')
      else if flags AND MAP_PRIVATE mm = 0 \<or> flags AND NOT (MAP_PRIVATE mm OR MAP_FIXED mm) \<noteq> 0
        then Inl (UMAP_ERROR ''Invalid flags'')
      else
        let mmap_size = region_sz + umap_psize in
        case sys_mmap env region_addr mmap_size prot
               (flags OR (MAP_ANONYMOUS mm OR MAP_NORESERVE mm)) of
          None \<Rightarrow> Inl (UMAP_ERROR ''mmap failed'')
        | Some mmap_region \<Rightarrow>
            let umap_region = page_base umap_psize (mmap_region + umap_psize - 1);
                made = (if str = None then Some (make_store umap_region region_sz umap_psize fd)
                        else None)
            in bindR (addRegion abi ro env r (case str of None \<Rightarrow> new_store | Some s \<Rightarrow> s)
                        umap_region region_sz mmap_region mmap_size M) (\<lambda>M'.
                 Inr (umap_region, None, made, M')))"

definition umap ::
  "uffd_abi \<Rightarrow> mman_abi \<Rightarrow> bool \<Rightarrow> sys_env \<Rightarrow> rid \<Rightarrow> store_ref \<Rightarrow> addr \<Rightarrow> u64 \<Rightarrow> u32 \<Rightarrow> u32 \<Rightarrow> int \<Rightarrow> int
     \<Rightarrow> RegionManager \<Rightarrow> (addr \<times> int option \<times> StoreFile option \<times> RegionManager) result" where
  "umap abi mm ro env r new_store region_addr region_sz prot flags fd offset M =
     umap_ex abi mm ro env r new_store region_addr region_sz prot flags fd 0 None M"

definition uunmap_begin ::
  "bool \<Rightarrow> addr \<Rightarrow> u64 \<Rightarrow> RegionManager \<Rightarrow> (rid \<times> engine \<times> unmap_pc) result" where
  "uunmap_begin busy a len M = removeRegion_begin busy a M"

definition uunmap_end ::
  "sys_env \<Rightarrow> rid \<Rightarrow> addr \<Rightarrow> u64 \<Rightarrow> RegionManager \<Rightarrow> (int \<times> RegionManager) result" where
  "uunmap_end env r a len M = bindR (removeRegion_end env r a M) (\<lambda>M'. Inr (0, M'))"

definition umap_flush :: "bool \<Rightarrow> RegionManager \<Rightarrow> (engine \<times> flush_pc) result" where
  "umap_flush busy M = flush_buffer busy M"

definition umap_has_write_support :: "bool \<Rightarrow> int" where
  "umap_has_write_support ro = (if ro then 0 else 1)"

definition umap_prefetch :: "int \<Rightarrow> addr list \<Rightarrow> (bool \<times> addr) list result" where
  "umap_prefetch npages page_array = prefetch npages page_array"

definition umap_fetch_and_pin ::
  "bool \<Rightarrow> string \<Rightarrow> ('k, 'd) setting \<Rightarrow> (nat \<Rightarrow> bool) \<Rightarrow> (u64 \<Rightarrow> bool)
     \<Rightarrow> (FetchFuncParams list \<Rightarrow> u64 list) \<Rightarrow> bool \<Rightarrow> addr \<Rightarrow> u64 \<Rightarrow> Settings \<Rightarrow> ('k, 'd) world
     \<Rightarrow> ('k, 'd) world result" where
  "umap_fetch_and_pin asserts meminfo S created io_ok order busy paddr sz c w =
     fetch_and_pin asserts meminfo c S created io_ok order busy paddr sz w"

definition umapcfg_get_system_page_size :: "RegionManager \<Rightarrow> u64" where
  "umapcfg_get_system_page_size M = m_system_page_size (rm_settings M)"

definition umapcfg_get_max_pages_in_buffer :: "RegionManager \<Rightarrow> u64" where
  "umapcfg_get_max_pages_in_buffer M = m_max_pages_in_buffer (rm_settings M)"

definition umapcfg_get_umap_page_size :: "RegionManager \<Rightarrow> u64" where
  "umapcfg_get_umap_page_size M = m_umap_page_size (rm_settings M)"

definition umapcfg_get_num_fillers :: "RegionManager \<Rightarrow> u64" where
  "umapcfg_get_num_fillers M = m_num_fillers (rm_settings M)"

definition umapcfg_get_num_evictors :: "RegionManager \<Rightarrow> u64" where
  "umapcfg_get_num_evictors M = m_num_evictors (rm_settings M)"

definition umapcfg_get_evict_low_water_threshold :: "RegionManager \<Rightarrow> int" where
  "umapcfg_get_evict_low_water_threshold M = m_evict_low_water_threshold (rm_settings M)"

definition umapcfg_get_evict_high_water_threshold :: "RegionManager \<Rightarrow> int" where
  "umapcfg_get_evict_high_water_threshold M = m_evict_high_water_threshold (rm_settings M)"

definition umapcfg_get_max_fault_events :: "RegionManager \<Rightarrow> u64" where
  "umapcfg_get_max_fault_events M = Settings.m_max_fault_events (rm_settings M)"

section \<open>Placing a region\<close>

text \<open>Clearing the bits of a mask takes at most the mask away.\<close>

lemma unat_and_not:
  fixes x y :: u64
  shows "unat (x AND NOT y) \<le> unat x" and "unat x \<le> unat (x AND NOT y) + unat y"
proof -
  have "x AND NOT y = x - (x AND y)"
  proof -
    have "(x AND y) + (x AND NOT y) = (x AND y) OR (x AND NOT y)"
      by (rule disjunctive_add) (auto simp: bit_simps)
    also have "\<dots> = x" by (rule bit_eqI) (auto simp: bit_simps)
    finally show ?thesis by (simp add: algebra_simps)
  qed
  moreover have le: "x AND y \<le> x" "x AND y \<le> y" by (simp_all add: word_and_le1 word_and_le2)
  ultimately have "unat (x AND NOT y) = unat x - unat (x AND y)" by (simp add: unat_sub)
  then show "unat (x AND NOT y) \<le> unat x" and "unat x \<le> unat (x AND NOT y) + unat y"
    using le unfolding word_le_nat_alt by linarith+
qed

lemma region_inside_mapping:
  assumes "0 < psize" and "unat base + unat sz + unat psize \<le> 2 ^ 64"
  shows "unat base \<le> unat (page_base psize (base + psize - 1))"
    and "unat (page_base psize (base + psize - 1)) + unat sz \<le> unat base + unat sz + unat psize - 1"
proof -
  let ?x = "base + psize - 1"
  have p: "0 < unat psize" using assms(1) by (simp add: word_less_nat_alt)
  have p1: "unat (psize - 1) = unat psize - 1" using assms(1) unat_minus_one [of psize] by auto
  have "unat base + unat (psize - 1) < 2 ^ 64" using assms(2) p p1 by linarith
  then have "unat (base + (psize - 1)) = unat base + unat (psize - 1)"
    using unat_add_lem [of base "psize - 1"] by simp
  moreover have "base + (psize - 1) = ?x" by (rule add_diff_eq)
  ultimately have x: "unat ?x = unat base + (unat psize - 1)" by (simp only: p1)
  show "unat base \<le> unat (page_base psize ?x)"
    and "unat (page_base psize ?x) + unat sz \<le> unat base + unat sz + unat psize - 1"
    using unat_and_not [of ?x "psize - 1"] x p1 p unfolding page_base_def by linarith+
qed

lemma page_base_aligned: "2 ^ k dvd unat (page_base (2 ^ k) a)"
  by (simp add: unat_page_base)

section \<open>Properties\<close>

text \<open>The table is sound, and the parts of the engine exist exactly while a region is active.\<close>

definition manager_ok :: "RegionManager \<Rightarrow> bool" where
  "manager_ok M \<longleftrightarrow> table_ok (rm_table M)
     \<and> (rm_parts M = None \<longleftrightarrow> m_active_regions (rm_table M) = [])"

lemma map_insert_not_Nil: "map_insert k v m \<noteq> []"
  by (cases "(k, v, m)" rule: map_insert.cases) auto

lemma addRegion_result:
  assumes "addRegion abi ro env r str a sz ma msz M = Inr M'"
  shows "rm_table M' = table_add r (RegionDescriptor_init a sz ma msz str) (rm_table M)
       \<and> rm_parts M' \<noteq> None \<and> rm_settings M' = rm_settings M
       \<and> (m_active_regions (rm_table M) \<noteq> [] \<longrightarrow> rm_parts M' = rm_parts M)"
  using assms by (auto simp: addRegion_def bindR_eq_Inr_iff Let_def split: if_splits)

lemma rd_init_fields [simp]:
  "rd_start (RegionDescriptor_init a sz ma msz str) = a"
  "rd_size (RegionDescriptor_init a sz ma msz str) = sz"
  by (simp_all add: RegionDescriptor_init_def rd_start_def rd_size_def)

lemma addRegion_ok:
  assumes "manager_ok M" and "addRegion abi ro env r str a sz ma msz M = Inr M'"
    and "rd_sound (RegionDescriptor_init a sz ma msz str)"
    and "r \<notin> snd ` set (m_active_regions (rm_table M))"
    and "no_overlap (rm_table M) (RegionDescriptor_init a sz ma msz str)"
  shows "manager_ok M'"
proof -
  note res = addRegion_result [OF assms(2)]
  have "table_ok (rm_table M')"
    using assms(1) res table_add_ok [OF _ assms(3-5)] by (simp add: manager_ok_def)
  moreover have "m_active_regions (rm_table M') \<noteq> []"
    using res map_insert_not_Nil by (simp add: table_add_def)
  ultimately show ?thesis using res by (simp add: manager_ok_def)
qed

lemma removeRegion_end_ok:
  assumes "manager_ok M" and "removeRegion_end env r a M = Inr M'"
  shows "manager_ok M' \<and> rm_table M' = table_remove a (rm_table M)"
proof -
  have t: "rm_table M' = table_remove a (rm_table M)"
    and p: "rm_parts M' = (if m_active_regions (table_remove a (rm_table M)) = [] then None
              else rm_parts M)"
    using assms(2)
    by (auto simp: removeRegion_end_def bindR_eq_Inr_iff Let_def split: if_splits option.splits)
  have "m_active_regions (rm_table M) \<noteq> []"
    if "m_active_regions (table_remove a (rm_table M)) \<noteq> []"
    using that by (auto simp: table_remove_def map_erase_def)
  then show ?thesis using assms(1) t p table_remove_ok by (simp add: manager_ok_def)
qed

text \<open>
  C24: A region that \<open>umap_ex\<close> maps. For every page size the region lies inside the memory
  that the system has mapped, and it begins on a page boundary when the page size is a
  power of two; when it meets no region there is, the manager stays sound, and from then on
  every address of the new region is looked up to it, every other address to the region
  it had before.
\<close>

theorem umap_ex_places_region:
  assumes ok: "manager_ok M"
    and res: "umap_ex abi mm ro env r ns region_addr sz prot flags fd offset str M = Inr (a, None, made, M')"
    and mmap: "sys_mmap env region_addr (sz + m_umap_page_size (rm_settings M)) prot
        (flags OR (MAP_ANONYMOUS mm OR MAP_NORESERVE mm)) = Some base"
    and fits: "unat base + unat sz + unat (m_umap_page_size (rm_settings M)) < 2 ^ 64"
    and fresh: "r \<notin> snd ` set (m_active_regions (rm_table M))"
    and apart: "\<forall>q b. covers (rm_table M) q b \<longrightarrow> \<not> (a \<le> b \<and> b < a + sz)"
  shows "unat base \<le> unat a
       \<and> unat a + unat sz < unat base + unat (sz + m_umap_page_size (rm_settings M))
       \<and> (m_umap_page_size (rm_settings M) = 2 ^ k \<longrightarrow> 2 ^ k dvd unat a)
       \<and> manager_ok M'
       \<and> (\<forall>b. fst (containing_region b (rm_table M')) =
            (if a \<le> b \<and> b < a + sz then Some r else fst (containing_region b (rm_table M))))"
proof -
  let ?p = "m_umap_page_size (rm_settings M)"
  let ?str = "case str of None \<Rightarrow> ns | Some s \<Rightarrow> s"
  let ?rd = "RegionDescriptor_init a sz base (sz + ?p) ?str"
  have a: "a = page_base ?p (base + ?p - 1)" and p0: "?p \<noteq> 0" and sz0: "sz \<noteq> 0"
    and add: "addRegion abi ro env r ?str a sz base (sz + ?p) M = Inr M'"
    using res mmap by (auto simp: umap_ex_def Let_def bindR_eq_Inr_iff split: if_splits)
  have p: "0 < ?p" using p0 by (simp add: word_neq_0_conv)
  have p': "0 < unat ?p" using p by (simp add: word_less_nat_alt)
  have bounds: "unat base \<le> unat a" "unat a + unat sz \<le> unat base + unat sz + unat ?p - 1"
    using region_inside_mapping [OF p less_imp_le [OF fits]] by (simp_all only: a [symmetric])
  have sum: "unat (sz + ?p) = unat sz + unat ?p" using unat_add_lem [of sz ?p] fits by simp
  have s: "rd_sound ?rd"
    using sz0 bounds fits p' by (simp add: rd_sound_def word_less_nat_alt unat_gt_0)
  have ends: "in_region ?rd b \<longleftrightarrow> a \<le> b \<and> b < a + sz" for b
    by (simp add: in_region_def rd_end_def)
  have no: "no_overlap (rm_table M) ?rd" using apart ends by (simp add: no_overlap_def)
  have t: "table_ok (rm_table M)" using ok by (simp add: manager_ok_def)
  have ok': "manager_ok M'" by (rule addRegion_ok [OF ok add s fresh no])
  have t': "rm_table M' = table_add r ?rd (rm_table M)" using addRegion_result [OF add] by blast
  have look: "fst (containing_region b (rm_table M')) = Some q
      \<longleftrightarrow> q = r \<and> a \<le> b \<and> b < a + sz \<or> fst (containing_region b (rm_table M)) = Some q" for b q
  proof -
    have "fst (containing_region b (rm_table M')) = Some q \<longleftrightarrow> covers (rm_table M') q b"
      by (rule rm.lookup_iff) (use ok' in \<open>simp add: manager_ok_def\<close>)
    also have "\<dots> \<longleftrightarrow> (q = r \<and> in_region ?rd b) \<or> covers (rm_table M) q b"
      unfolding t' by (rule covers_table_add [OF t s fresh no])
    finally show ?thesis using rm.lookup_iff [OF t, of b q] ends by blast
  qed
  have found: "fst (containing_region b (rm_table M')) =
      (if a \<le> b \<and> b < a + sz then Some r else fst (containing_region b (rm_table M)))" for b
  proof (cases "a \<le> b \<and> b < a + sz")
    case True
    then show ?thesis using look [of b r] by simp
  next
    case False
    then show ?thesis using look [of b]
      by (cases "fst (containing_region b (rm_table M))") (auto intro: option.expand)
  qed
  have "unat a + unat sz < unat base + unat (sz + ?p)" unfolding sum using bounds p' by linarith
  then show ?thesis using bounds(1) a ok' found page_base_aligned by auto
qed

text \<open>A system that answers every call, and a manager without regions.\<close>

definition demo_env :: sys_env where
  "demo_env =
     \<lparr>sys_calloc_ok = True, sys_monitor_ok = True, sys_create = (\<lambda>i. Some i), sys_named = (\<lambda>_. True),
      sys_userfaultfd = 3, sys_pipe2 = 0, sys_pipe_fds = (4, 5), sys_uffdio_api = Some 1,
      sys_register = (\<lambda>_ _ _. Some 72), sys_unregister = (\<lambda>_ _. 0),
      sys_mmap = (\<lambda>_ _ _ _. Some 69632)\<rparr>"

definition demo_mman :: mman_abi where
  "demo_mman = \<lparr>PROT_READ = 1, PROT_WRITE = 2, MAP_PRIVATE = 2, MAP_FIXED = 16, MAP_ANONYMOUS = 32,
     MAP_NORESERVE = 16384, EINVAL = 22\<rparr>"

definition demo_manager :: RegionManager where
  "demo_manager =
     \<lparr>rm_settings = demo_settings\<lparr>m_umap_page_size := 8192, m_num_fillers := 1\<rparr>,
      rm_table = \<lparr>m_active_regions = [], m_last_iter = None, rds = (\<lambda>_. RegionDescriptor_init 0 0 0 0 0)\<rparr>,
      rm_parts = None\<rparr>"

lemma demo_manager_ok: "manager_ok demo_manager"
  by (simp add: manager_ok_def demo_manager_def table_ok_def)

lemma demo_umap:
  obtains made M' where
    "umap_ex demo_abi demo_mman False demo_env 0 9 0 16384 3 2 6 0 None demo_manager
       = Inr (73728, None, made, M')"
proof -
  have "case umap_ex demo_abi demo_mman False demo_env 0 9 0 16384 3 2 6 0 None demo_manager of
      Inl _ \<Rightarrow> False | Inr (a, e, _) \<Rightarrow> a = 73728 \<and> Option.is_none e" by code_simp
  then show thesis using that by (auto simp: Option.is_none_def split: sum.splits)
qed

theorem umap_ex_places_region_witness:
  "\<exists>made M'. umap_ex demo_abi demo_mman False demo_env 0 9 0 16384 3 2 6 0 None demo_manager
      = Inr (73728, None, made, M') \<and> manager_ok M'
    \<and> fst (containing_region 80000 (rm_table M')) = Some 0"
proof -
  obtain made M' where u:
    "umap_ex demo_abi demo_mman False demo_env 0 9 0 16384 3 2 6 0 None demo_manager
       = Inr (73728, None, made, M')" by (rule demo_umap)
  have "unat (69632 :: addr) \<le> unat (73728 :: addr)
      \<and> unat (73728 :: addr) + unat (16384 :: u64)
          < unat (69632 :: addr) + unat (16384 + m_umap_page_size (rm_settings demo_manager))
      \<and> (m_umap_page_size (rm_settings demo_manager) = 2 ^ 13 \<longrightarrow> 2 ^ 13 dvd unat (73728 :: addr))
      \<and> manager_ok M'
      \<and> (\<forall>b. fst (containing_region b (rm_table M')) =
            (if 73728 \<le> b \<and> b < 73728 + 16384 then Some 0
             else fst (containing_region b (rm_table demo_manager))))"
    by (rule umap_ex_places_region [OF demo_manager_ok u])
      (simp_all add: demo_env_def demo_manager_def covers_def)
  then show ?thesis using u by auto
qed

text \<open>
  What \<open>umap_ex\<close> refuses, before it has changed anything or asked the system for
  anything: an empty region is answered with \<open>UMAP_FAILED\<close> and an error number; other
  protections than reading and writing (only reading in the read-only build), sizes that
  are no multiple of the page size, addresses off a page boundary and flags other than
  private, with or without fixed, raise an exception.
\<close>

lemma umap_ex_refuses:
  "umap_ex abi mm ro env r ns addr0 0 prot flags fd offset str M = Inr (- 1, Some (- EINVAL mm), None, M)
   \<and> (sz \<noteq> 0 \<and> m_umap_page_size (rm_settings M) \<noteq> 0
       \<and> ((if ro then prot \<noteq> PROT_READ mm else prot AND NOT (PROT_READ mm OR PROT_WRITE mm) \<noteq> 0)
         \<or> sz mod m_umap_page_size (rm_settings M) \<noteq> 0
         \<or> addr0 AND (m_umap_page_size (rm_settings M) - 1) \<noteq> 0
         \<or> flags AND MAP_PRIVATE mm = 0 \<or> flags AND NOT (MAP_PRIVATE mm OR MAP_FIXED mm) \<noteq> 0)
      \<longrightarrow> (\<exists>msg. \<forall>env. umap_ex abi mm ro env r ns addr0 sz prot flags fd offset str M
              = Inl (UMAP_ERROR msg)))"
proof (intro conjI impI)
  let ?p = "m_umap_page_size (rm_settings M)"
  assume H: "sz \<noteq> 0 \<and> ?p \<noteq> 0
       \<and> ((if ro then prot \<noteq> PROT_READ mm else prot AND NOT (PROT_READ mm OR PROT_WRITE mm) \<noteq> 0)
         \<or> sz mod ?p \<noteq> 0 \<or> addr0 AND (?p - 1) \<noteq> 0
         \<or> flags AND MAP_PRIVATE mm = 0 \<or> flags AND NOT (MAP_PRIVATE mm OR MAP_FIXED mm) \<noteq> 0)"
  let ?ok = "if ro then prot = PROT_READ mm else prot AND NOT (PROT_READ mm OR PROT_WRITE mm) = 0"
  show "\<exists>msg. \<forall>env. umap_ex abi mm ro env r ns addr0 sz prot flags fd offset str M = Inl (UMAP_ERROR msg)"
  proof (cases ?ok)
    case prot: True
    show ?thesis
    proof (cases "sz mod ?p = 0")
      case size: True
      show ?thesis
      proof (cases "addr0 AND (?p - 1) = 0")
        case True
        with H prot size show ?thesis by (cases ro) (simp_all add: umap_ex_def Let_def)
      qed (use H prot size in \<open>cases ro; simp add: umap_ex_def Let_def\<close>)
    qed (use H prot in \<open>cases ro; simp add: umap_ex_def Let_def\<close>)
  qed (use H in \<open>cases ro; simp add: umap_ex_def Let_def\<close>)
qed (simp add: umap_ex_def)

text \<open>
  C30: The life of the paging engine. Adding a region keeps the manager sound, and starts
  the engine when there was none; removing a region keeps it sound, takes away exactly the
  addresses of that region, and stops the engine with the last region, which succeeds only
  when no page is left in the buffer: otherwise the destructor's assertion fails.
\<close>

theorem engine_life_cycle:
  assumes ok: "manager_ok M"
  shows "(addRegion abi ro env r str a sz ma msz M = Inr M'
      \<and> rd_sound (RegionDescriptor_init a sz ma msz str)
      \<and> r \<notin> snd ` set (m_active_regions (rm_table M))
      \<and> no_overlap (rm_table M) (RegionDescriptor_init a sz ma msz str)
        \<longrightarrow> manager_ok M' \<and> rm_parts M' \<noteq> None)
    \<and> (removeRegion_end env q b M = Inr M'' \<longrightarrow>
        manager_ok M''
      \<and> (\<forall>s x. covers (rm_table M'') s x \<longleftrightarrow> covers (rm_table M) s x \<and> rd_start (rds (rm_table M) s) \<noteq> b)
      \<and> (m_active_regions (rm_table M'') = [] \<longrightarrow> rm_parts M'' = None
          \<and> (\<forall>p. rm_parts M = Some p \<longrightarrow> m_present_pages (p_buffer p) = Map.empty)))"
proof (intro conjI impI)
  assume A: "addRegion abi ro env r str a sz ma msz M = Inr M'
      \<and> rd_sound (RegionDescriptor_init a sz ma msz str)
      \<and> r \<notin> snd ` set (m_active_regions (rm_table M))
      \<and> no_overlap (rm_table M) (RegionDescriptor_init a sz ma msz str)"
  then show "manager_ok M'" using addRegion_ok [OF ok] by blast
  show "rm_parts M' \<noteq> None" using A addRegion_result by blast
next
  assume B: "removeRegion_end env q b M = Inr M''"
  note res = removeRegion_end_ok [OF ok B]
  show "manager_ok M''" using res by blast
  show "\<forall>s x. covers (rm_table M'') s x \<longleftrightarrow> covers (rm_table M) s x \<and> rd_start (rds (rm_table M) s) \<noteq> b"
    using res covers_table_remove ok by (simp add: manager_ok_def)
  assume last: "m_active_regions (rm_table M'') = []"
  show "rm_parts M'' = None" using res last by (simp add: manager_ok_def)
  show "\<forall>p. rm_parts M = Some p \<longrightarrow> m_present_pages (p_buffer p) = Map.empty"
    using B res last
    by (auto simp: removeRegion_end_def stop_parts_def Buffer_destroy_def bindR_eq_Inr_iff Let_def
        split: if_splits)
qed

theorem engine_life_cycle_witness:
  "\<exists>M M''. manager_ok M \<and> removeRegion_end demo_env 0 65536 M = Inr M'' \<and> rm_parts M'' = None
     \<and> \<not> covers (rm_table M'') 0 65536"
proof -
  let ?p = "\<lparr>p_buffer = demo_buffer, p_uffd = demo_uffd, p_fill_workers = WorkerPool_init ''f'' 1,
      p_evict_manager = WorkerPool_init ''m'' 1, p_evict_workers = WorkerPool_init ''e'' 1\<rparr>"
  let ?M = "\<lparr>rm_settings = demo_settings, rm_table = demo_table, rm_parts = Some ?p\<rparr>"
  have ok: "manager_ok ?M"
    by (simp add: manager_ok_def table_ok_def demo_table_def rd_sound_def)
  obtain M'' where M'': "removeRegion_end demo_env 0 65536 ?M = Inr M''" "rm_parts M'' = None"
    by (simp add: removeRegion_end_def unregister_ioctl_def demo_env_def table_remove_def map_erase_def
        demo_table_def stop_parts_def Buffer_destroy_def demo_buffer_def Let_def)
  have "covers (rm_table M'') s x \<longleftrightarrow> covers (rm_table ?M) s x \<and> rd_start (rds (rm_table ?M) s) \<noteq> 65536" for s x
    using engine_life_cycle [OF ok, where env = demo_env and q = 0 and b = 65536 and M'' = M''] M'' by blast
  then have "\<not> covers (rm_table M'') 0 65536" by (simp add: demo_table_def)
  with ok M'' show ?thesis by blast
qed

end
