(* ===== verification/Engine_Life.thy ===== *)
theory Engine_Life
  imports Evict_All Umap_API
begin

text \<open>
  The engine from its start to its end: regions are mapped and unmapped while it runs. What the
  application sees are the files behind the regions: a page of a mapped region shows the
  contents of its place in a file, a write changes them, and mapping and unmapping do not.
  The stores hold the contents of all places that are not mapped, and of all places once the
  last region is unmapped.
\<close>

section \<open>The files\<close>

text \<open>The places of the mapped pages.\<close>

definition mapped_place :: "RegionTable \<Rightarrow> place \<Rightarrow> bool" where
  "mapped_place T l \<longleftrightarrow> (\<exists>q a. covers T q a \<and> region_loc T q a = l)"

text \<open>A write of the application goes to the place of its page.\<close>

fun file_step :: "RegionTable \<Rightarrow> 'd event \<Rightarrow> (place \<Rightarrow> 'd) \<Rightarrow> place \<Rightarrow> 'd" where
  "file_step T (App_write a z) f =
     (case fst (containing_region a T) of None \<Rightarrow> f | Some q \<Rightarrow> f(region_loc T q a := z))"
| "file_step T Internal f = f"

definition stored :: "('k, 'd) world \<Rightarrow> place \<Rightarrow> 'd" where
  "stored w = (\<lambda>(st, off). stores w st off)"

definition shows_files :: "('k, 'd) setting \<Rightarrow> (place \<Rightarrow> 'd) \<Rightarrow> ('k, 'd) sys \<Rightarrow> bool" where
  "shows_files S f s \<longleftrightarrow>
     (\<forall>q a. covers (table (sys_eng s)) q a \<longrightarrow>
        page_contents S (table (sys_eng s)) (wld s) q a = f (region_loc (table (sys_eng s)) q a))
   \<and> (\<forall>l. \<not> mapped_place (table (sys_eng s)) l \<longrightarrow> stored (wld s) l = f l)"

lemma shows_filesD:
  assumes "shows_files S f s"
  shows "covers (table (sys_eng s)) q a \<Longrightarrow>
      page_contents S (table (sys_eng s)) (wld s) q a = f (region_loc (table (sys_eng s)) q a)"
    and "\<not> mapped_place (table (sys_eng s)) l \<Longrightarrow> stored (wld s) l = f l"
  using assms unfolding shows_files_def by blast+

lemma covers_lookup: "table_ok T \<Longrightarrow> covers T q a \<Longrightarrow> fst (containing_region a T) = Some q"
  using rm.lookup_iff by blast

lemma file_step_mapped:
  assumes ok: "table_ok T" and ap: "apart (covers T) (region_loc T)" and cov: "covers T q a"
  shows "file_step T ev f (region_loc T q a) = flat_step a ev (f (region_loc T q a))"
proof (cases ev)
  case (App_write b z)
  show ?thesis
  proof (cases "fst (containing_region b T)")
    case None
    then show ?thesis using covers_lookup [OF ok cov] App_write by auto
  next
    case (Some q')
    then have b: "covers T q' b" using rm.lookup_iff [OF ok] by blast
    then have "region_loc T q a = region_loc T q' b \<longleftrightarrow> b = a"
      using ap cov covers_unique [OF ok, of q a q'] unfolding apart_def by metis
    then show ?thesis using App_write Some by simp
  qed
qed simp

lemma file_step_unmapped:
  assumes ok: "table_ok T" and l: "\<not> mapped_place T l"
  shows "file_step T ev f l = f l"
proof (cases ev)
  case (App_write b z)
  show ?thesis
  proof (cases "fst (containing_region b T)")
    case (Some q)
    then have "covers T q b" using rm.lookup_iff [OF ok] by blast
    then have "region_loc T q b \<noteq> l" using l by (auto simp: mapped_place_def)
    then show ?thesis using App_write Some by simp
  qed (simp add: App_write)
qed simp

lemma file_fold:
  assumes ok: "table_ok T"
  shows "apart (covers T) (region_loc T) \<Longrightarrow> covers T q a \<Longrightarrow>
      fold (file_step T) tr f (region_loc T q a) = fold (flat_step a) tr (f (region_loc T q a))"
    and "\<not> mapped_place T l \<Longrightarrow> fold (file_step T) tr f l = f l"
  by (induction tr arbitrary: f) (simp_all add: file_step_mapped [OF ok] file_step_unmapped [OF ok])

text \<open>Only the layout of the table matters.\<close>

lemma layout_refl: "same_layout T T"
  by (simp add: same_layout_def)

lemma layout_trans: "same_layout T T' \<Longrightarrow> same_layout T T'' \<Longrightarrow> same_layout T' T''"
  by (simp add: same_layout_def)

lemma sys_inv_layout:
  assumes inv: "sys_inv S T n nf ne s"
  shows "sys_inv S (table (sys_eng s)) n nf ne s"
proof -
  have l: "covers (table (sys_eng s)) = covers T" "region_loc (table (sys_eng s)) = region_loc T"
    using same_layout_covers [OF sys_invD(4) [OF inv]] by simp_all
  show ?thesis
    using inv unfolding sys_inv_def handler_ok_def l by (simp add: layout_refl)
qed

lemma layout_files:
  assumes l: "same_layout T (table (sys_eng s))"
  shows "shows_files S f s \<longleftrightarrow>
     (\<forall>q a. covers T q a \<longrightarrow> page_contents S T (wld s) q a = f (region_loc T q a))
   \<and> (\<forall>l. \<not> mapped_place T l \<longrightarrow> stored (wld s) l = f l)"
  unfolding shows_files_def mapped_place_def page_contents_def same_layout_covers [OF l] ..

text \<open>A place that is not mapped stays as it is.\<close>

lemma filler_stores:
  assumes "filler_step S io_ok busy (w, pc) = Some (Inr (w', pc'))"
  shows "stores w' = stores w"
  using assms by (cases pc; auto simp: filler_step_def filler_get_def filler_load_def filler_copy_def
      Let_def bindR_eq_Inr_iff split: prod.splits dequeue_out.splits if_splits option.splits)

lemma evictor_stored:
  assumes inv: "sys_inv S T n nf ne s" and j: "j < ne"
    and res: "evictor_step S io_ok busy (wld s, evictors s j) = Some (Inr (w, pc))" and l: "\<not> mapped_place T l"
  shows "stored w l = stored (wld s) l"
proof (cases "evictors s j")
  case (E_protected t i st off)
  have own: "evict_own (region_loc T) (evictors s j) = Some (i, \<lambda>f. t = EVICT \<and> protected_f (region_loc T) (st, off) f)"
    using E_protected by simp
  note known = evictor_own [OF inv j own]
  obtain r where r: "region (desc (wld s) i) = Some r" "covers T r (page (desc (wld s) i))"
    using core_invD(2) [OF sys_invD(1) [OF inv], of i] known(1) by (auto simp: core_of_simps)
  then have "(st, off) \<noteq> l" using known(2) l by (auto simp: wface_def mapped_place_def)
  then show ?thesis using res E_protected
    by (auto simp: evictor_step_def evictor_write_def stored_def split: option.splits if_splits prod.splits)
qed (use res in \<open>auto simp: stored_def evictor_step_def evictor_get_def evictor_protect_def evictor_drop_def Let_def
    bindR_eq_Inr_iff split: prod.splits dequeue_out.splits if_splits option.splits\<close>)

lemma step_stored:
  assumes step: "sys_step S nf ne s ev s'" and inv: "sys_inv S T n nf ne s" and l: "\<not> mapped_place T l"
  shows "stored (wld s') l = stored (wld s) l"
  using step by cases (auto simp: stored_def handler_to_def filler_stores dest: evictor_stored [OF inv _ _ l, unfolded stored_def])

lemma step_layout:
  assumes "sys_step S nf ne s ev s'" and "sys_inv S T n nf ne s" and "setting_ok S"
    and "apart (covers T) (region_loc T)" and "n < 2 ^ 64"
  shows "sys_inv S T n nf ne s'" and "same_layout T (table (sys_eng s'))"
proof -
  show inv: "sys_inv S T n nf ne s'" using step_sys_inv [OF assms(1,2,4,5)] assms(3) by (simp add: setting_ok_def)
  show "same_layout T (table (sys_eng s'))" by (rule sys_invD(4) [OF inv])
qed

section \<open>The invariant of the life of an engine\<close>

definition stores_apart :: "RegionTable \<Rightarrow> bool" where
  "stores_apart T \<longleftrightarrow>
     (\<forall>(k, r) \<in> set (m_active_regions T). \<forall>(k', r') \<in> set (m_active_regions T).
        m_store (rds T r) = m_store (rds T r') \<longrightarrow> r = r')"

definition life_inv ::
  "('k, 'd) setting \<Rightarrow> nat \<Rightarrow> nat \<Rightarrow> nat \<Rightarrow> (place \<Rightarrow> 'd) \<Rightarrow> ('k, 'd) sys \<Rightarrow> bool" where
  "life_inv S n nf ne f s \<longleftrightarrow>
     sys_inv S (table (sys_eng s)) n nf ne s \<and> stores_apart (table (sys_eng s))
   \<and> active_ok {} (desc (wld s)) (active_of (sys_eng s)) \<and> no_exit nf ne s \<and> listed (buf (sys_eng s))
   \<and> shows_files S f s"

lemma life_invD:
  assumes "life_inv S n nf ne f s"
  shows "sys_inv S (table (sys_eng s)) n nf ne s" and "apart (covers (table (sys_eng s))) (region_loc (table (sys_eng s)))"
    and "active_ok {} (desc (wld s)) (active_of (sys_eng s))" and "no_exit nf ne s" and "listed (buf (sys_eng s))"
    and "shows_files S f s" and "stores_apart (table (sys_eng s))"
proof -
  show inv: "sys_inv S (table (sys_eng s)) n nf ne s" and st: "stores_apart (table (sys_eng s))"
    and "active_ok {} (desc (wld s)) (active_of (sys_eng s))" and "no_exit nf ne s" and "listed (buf (sys_eng s))"
    and "shows_files S f s"
    using assms by (simp_all add: life_inv_def)
  show "apart (covers (table (sys_eng s))) (region_loc (table (sys_eng s)))"
    by (rule region_loc_apart [OF sys_invD(3) [OF inv]]) (use st in \<open>auto simp: stores_apart_def\<close>)
qed

lemma layout_stores_apart: "same_layout T T' \<Longrightarrow> stores_apart T \<Longrightarrow> stores_apart T'"
  by (simp add: same_layout_def stores_apart_def)

lemma step_life_inv:
  assumes step: "sys_step S nf ne s ev s'" and life: "life_inv S n nf ne f s" and S: "setting_ok S" and n: "n < 2 ^ 64"
  shows "life_inv S n nf ne (file_step (table (sys_eng s)) ev f) s'"
proof -
  let ?T = "table (sys_eng s)"
  note inv = life_invD(1) [OF life] and ap = life_invD(2) [OF life]
  note ok = sys_invD(3) [OF inv] and inv' = step_layout [OF step inv S ap n]
  have "shows_files S (file_step ?T ev f) s'"
    unfolding layout_files [OF inv'(2)]
    using step_contents [OF step inv S ap] step_stored [OF step inv] life_invD(6) [OF life]
    by (simp add: shows_files_def file_step_mapped [OF ok ap] file_step_unmapped [OF ok])
  moreover have "active_ok {} (desc (wld s')) (active_of (sys_eng s'))"
    by (rule active_ok_step [OF life_invD(3) [OF life] step_pds [OF step inv n]])
  moreover note step_no_exit [OF step inv life_invD(4) [OF life]] step_listed [OF step inv n life_invD(5) [OF life]]
    sys_inv_layout [OF inv'(1)] layout_stores_apart [OF inv'(2) life_invD(7) [OF life]]
  ultimately show ?thesis by (simp add: life_inv_def)
qed

section \<open>A region is mapped or taken from the table\<close>

abbreviation set_table :: "RegionTable \<Rightarrow> ('k, 'd) sys \<Rightarrow> ('k, 'd) sys" where
  "set_table t s \<equiv> with_eng ((sys_eng s)\<lparr>table := t\<rparr>) s"

lemma core_of_table [simp]: "core_of S (set_table t s) = core_of S s"
  by (simp add: core_of_simps)

text \<open>The invariant does not depend on regions that no page is in use for.\<close>

lemma pool_inv_own:
  assumes inv: "pool_inv own q F A qs n pcs" and same: "\<And>pc. map_option fst (own' pc) = map_option fst (own pc)"
    and P: "\<And>pc i P P'. own pc = Some (i, P) \<Longrightarrow> own' pc = Some (i, P') \<Longrightarrow> i \<in> A \<Longrightarrow> P (F i) \<Longrightarrow> P' (F i)"
  shows "pool_inv own' q F A qs n pcs"
proof (rule pool_invI)
  have "(case own' pc of None \<Rightarrow> {#} | Some (i, _) \<Rightarrow> {#i#}) = (case own pc of None \<Rightarrow> {#} | Some (i, _) \<Rightarrow> {#i#})" for pc
    using same [of pc] by (cases "own pc"; cases "own' pc") auto
  then have "tokens own' qs n pcs = tokens own qs n pcs" unfolding tokens_def by simp
  then show "count (tokens own' qs n pcs) i = of_bool (i \<in> A)" for i using pool_inv_count [OF inv] by simp
  show "q (F i)" if "i \<in> set qs" for i by (rule pool_inv_queue(2) [OF inv that])
  show "P' (F i)" if j: "j < n" and own': "own' (pcs j) = Some (i, P')" for j i P'
  proof -
    obtain P where own: "own (pcs j) = Some (i, P)" using same [of "pcs j"] own' by (cases "own (pcs j)") auto
    show ?thesis by (rule P [OF own own' pool_inv_pc(1,2) [OF inv j own]])
  qed
qed

lemma evict_own_same: "map_option fst (evict_own loc' pc) = map_option fst (evict_own loc pc)"
  by (cases pc) simp_all

lemma evict_own_loc:
  assumes "evict_own loc pc = Some (i, P)" and "evict_own loc' pc = Some (i, P')" and "P (d, v, x)"
    and "loc' (the (region d)) (page d) = loc (the (region d)) (page d)"
  shows "P' (d, v, x)"
  using assms by (cases pc) auto

lemma core_inv_layout:
  fixes c :: "'d core"
  assumes inv: "core_inv cov loc nf ne c"
    and used: "\<And>i r. state (c_arr c i) \<noteq> FREE \<Longrightarrow> region (c_arr c i) = Some r \<Longrightarrow> cov r (page (c_arr c i)) \<Longrightarrow>
      cov' r (page (c_arr c i)) \<and> loc' r (page (c_arr c i)) = loc r (page (c_arr c i))"
    and new: "\<And>q a. cov' q a \<Longrightarrow> \<not> cov q a \<Longrightarrow> c_pv c a = None"
  shows "core_inv cov' loc' nf ne c"
proof (rule core_invI)
  have reg: "\<exists>r. region (c_arr c i) = Some r \<and> cov' r (page (c_arr c i)) \<and> loc' r (page (c_arr c i)) = loc r (page (c_arr c i))"
    if "state (c_arr c i) \<noteq> FREE" for i using core_invD(2) [OF inv that] used [OF that] by blast
  then have face: "face loc' c i = face loc c i" if "state (c_arr c i) \<noteq> FREE" for i
    using that by (force simp: face_def)
  then have faces: "\<forall>i\<in>in_state X c. face loc' c i = face loc c i" if "FREE \<notin> X" for X
    using that by (force simp: in_state_def)
  show "pages_ok (c_arr c) (c_pres c) (c_free c) (c_busy c)" by (rule core_invD(1) [OF inv])
  show "\<exists>r. region (c_arr c i) = Some r \<and> cov' r (page (c_arr c i))" if "state (c_arr c i) \<noteq> FREE" for i
    using reg [OF that] by blast
  show "c_pv c a = None" if "cov' r a" "c_pres c a = None" for r a
    using that core_invD(3) [OF inv, of r a] new by blast
  show "present_f (face loc' c i)" if "state (c_arr c i) = PRESENT" for i
    using core_invD(4) [OF inv that] face [of i] that by simp
  show "pool_inv fill_own wait_f (face loc' c) (in_state {FILLING, UPDATING} c) (c_fq c) nf (c_fill c)"
    by (rule pool_inv_frame [OF core_invD(5) [OF inv] faces]) simp
  have "pool_inv (evict_own loc') loaded_f (face loc c) (in_state {LEAVING} c) (c_eq c) ne (c_evict c)"
  proof (rule pool_inv_own [OF core_invD(6) [OF inv] evict_own_same])
    fix pc i and P P' :: "'d face \<Rightarrow> bool"
    assume own: "evict_own loc pc = Some (i, P)" "evict_own loc' pc = Some (i, P')" and i: "i \<in> in_state {LEAVING} c"
      and P: "P (face loc c i)"
    have "loc' (the (region (c_arr c i))) (page (c_arr c i)) = loc (the (region (c_arr c i))) (page (c_arr c i))"
      using reg [of i] i by (auto simp: in_state_def)
    then show "P' (face loc c i)" using evict_own_loc [OF own] P unfolding face_def by blast
  qed
  then show "pool_inv (evict_own loc') loaded_f (face loc' c) (in_state {LEAVING} c) (c_eq c) ne (c_evict c)"
    by (rule pool_inv_frame [OF _ faces]) simp
qed

lemma table_life_inv:
  assumes life: "life_inv S n nf ne f s" and T': "table_ok T'" "stores_apart T'" and h: "handler_ok T' (core_of S s) (handler s)"
    and used: "\<And>i r. state (desc (wld s) i) \<noteq> FREE \<Longrightarrow> region (desc (wld s) i) = Some r \<Longrightarrow>
      covers (table (sys_eng s)) r (page (desc (wld s) i)) \<Longrightarrow>
      covers T' r (page (desc (wld s) i)) \<and> region_loc T' r (page (desc (wld s) i)) = region_loc (table (sys_eng s)) r (page (desc (wld s) i))"
    and new: "\<And>q a. covers T' q a \<Longrightarrow> \<not> covers (table (sys_eng s)) q a \<Longrightarrow> page_view (kern S) (mem (wld s)) a = None"
    and active: "active_ok {} (desc (wld s)) (\<lambda>q. m_active_pages (rds T' q))"
    and files: "shows_files S f (set_table T' s)"
  shows "life_inv S n nf ne f (set_table T' s)"
proof -
  note inv = life_invD(1) [OF life]
  have "core_inv (covers T') (region_loc T') nf ne (core_of S s)"
    by (rule core_inv_layout [OF sys_invD(1) [OF inv]]) (use used new in \<open>simp_all add: core_of_simps\<close>)
  then have "sys_inv S T' n nf ne (set_table T' s)"
    using sys_invD(2,5) [OF inv] T'(1) h
    by (simp add: sys_inv_def layout_refl queues_ok_def)
  then show ?thesis using life T'(2) active files by (simp add: life_inv_def no_exit_def)
qed

lemma rds_table_add: "rds (table_add r rd T) q = (if q = r then rd else rds T q)"
  by (simp add: table_add_def)

lemma stores_apart_add:
  assumes T: "stores_apart T" "table_ok T" and sound: "rd_sound rd" and fresh: "r \<notin> snd ` set (m_active_regions T)"
    and over: "no_overlap T rd"
    and str: "\<forall>(k, q) \<in> set (m_active_regions T). m_store (rds T q) \<noteq> m_store rd"
  shows "stores_apart (table_add r rd T)"
  unfolding stores_apart_def
proof (intro ballI, clarify)
  let ?T' = "table_add r rd T"
  fix k q k' q'
  assume in_T': "(k, q) \<in> set (m_active_regions ?T')" "(k', q') \<in> set (m_active_regions ?T')"
    and eq: "m_store (rds ?T' q) = m_store (rds ?T' q')"
  have in_T: "q = r \<or> (k, q) \<in> set (m_active_regions T)" "q' = r \<or> (k', q') \<in> set (m_active_regions T)"
    using in_T' by (auto simp: set_table_add [OF T(2) sound over])
  have other: "m_store (rds T p) \<noteq> m_store rd" if "(j, p) \<in> set (m_active_regions T)" for j p
    using str that by blast
  have eq': "m_store (if q = r then rd else rds T q) = m_store (if q' = r then rd else rds T q')"
    using eq by (simp only: rds_table_add)
  consider "q = r" "q' = r" | "q = r" "q' \<noteq> r" | "q \<noteq> r" "q' = r" | "q \<noteq> r" "q' \<noteq> r" by blast
  then show "q = q'"
  proof cases
    case 2
    then show ?thesis using eq' in_T(2) other [of k' q'] by simp
  next
    case 3
    then show ?thesis using eq' in_T(1) other [of k q] by simp
  next
    case 4
    then have "m_store (rds T q) = m_store (rds T q')" using eq' by simp
    then show ?thesis using T(1) in_T 4 unfolding stores_apart_def by blast
  qed simp
qed

lemma active_ok_add:
  assumes ok: "active_ok {} D (\<lambda>q. m_active_pages (rds T q))" and act: "m_active_pages rd = {}"
    and used: "\<And>i. state (D i) \<noteq> FREE \<Longrightarrow> region (D i) \<noteq> Some r"
  shows "active_ok {} D (\<lambda>q. m_active_pages (rds (table_add r rd T) q))"
  unfolding active_ok_def
proof (intro conjI allI impI)
  fix q i assume "i \<in> m_active_pages (rds (table_add r rd T) q)"
  then have i: "i \<in> m_active_pages (rds T q)" using act by (simp add: rds_table_add split: if_splits)
  show "state (D i) \<noteq> FREE" "region (D i) = Some q" "\<not> deferred (D i)"
    using active_okD(1-3) [OF ok i] by blast+
next
  fix q i assume i: "state (D i) \<noteq> FREE \<and> region (D i) = Some q"
  then have "q \<noteq> r" using used by blast
  then show "i \<in> m_active_pages (rds (table_add r rd T) q) \<or> i \<in> {}"
    using active_okD(4) [OF ok, of i q] i by (simp add: rds_table_add)
qed

text \<open>A new region shows its store, in which the file is as long as it is not mapped.\<close>

lemma shows_files_add:
  fixes S :: "('k, 'd) setting" and s :: "('k, 'd) sys"
  defines "T \<equiv> table (sys_eng s)"
  assumes files: "shows_files S f s" and fresh: "r \<notin> snd ` set (m_active_regions T)"
    and cov: "\<And>q a. covers (table_add r rd T) q a \<longleftrightarrow> covers T q a \<or> q = r \<and> in_region rd a"
    and str: "\<forall>(k, q) \<in> set (m_active_regions T). m_store (rds T q) \<noteq> m_store rd"
    and mem: "\<And>a. in_region rd a \<Longrightarrow> page_view (kern S) (mem (wld s)) a = None"
  shows "shows_files S f (set_table (table_add r rd T) s)"
proof -
  let ?T' = "table_add r rd T"
  have loc: "region_loc ?T' q a = region_loc T q a" if "covers T q a" for q a
    using that fresh by (force simp: covers_def region_loc_def rds_table_add)
  have mono: "mapped_place T l \<Longrightarrow> mapped_place ?T' l" for l
    unfolding mapped_place_def using cov loc by metis
  have new_place: "\<not> mapped_place T (region_loc ?T' r a)" for a
    using str by (auto simp: mapped_place_def region_loc_def rds_table_add covers_def)
  have "page_contents S ?T' (wld s) q a = f (region_loc ?T' q a)" if "covers ?T' q a" for q a
  proof (cases "covers T q a")
    case True
    then show ?thesis using shows_filesD(1) [OF files, of q a] loc [OF True] by (simp add: page_contents_def T_def)
  next
    case False
    then have q: "q = r" "in_region rd a" using that cov by auto
    have "stored (wld s) (region_loc ?T' r a) = f (region_loc ?T' r a)"
      using shows_filesD(2) [OF files] new_place unfolding T_def by blast
    then show ?thesis using mem [OF q(2)] q(1) by (simp add: page_contents_def stored_def split_beta)
  qed
  moreover have "stored (wld s) l = f l" if "\<not> mapped_place ?T' l" for l
    using shows_filesD(2) [OF files] that mono [of l] unfolding T_def by blast
  ultimately show ?thesis
    unfolding shows_files_def by (simp add: stored_def page_contents_def)
qed

lemma map_life_inv:
  assumes life: "life_inv S n nf ne f s" and sound: "rd_sound rd"
    and fresh: "r \<notin> snd ` set (m_active_regions (table (sys_eng s)))"
    and over: "no_overlap (table (sys_eng s)) rd" and act: "m_active_pages rd = {}"
    and str: "\<forall>(k, q) \<in> set (m_active_regions (table (sys_eng s))). m_store (rds (table (sys_eng s)) q) \<noteq> m_store rd"
    and mem: "\<And>a. in_region rd a \<Longrightarrow> page_view (kern S) (mem (wld s)) a = None"
  shows "life_inv S n nf ne f (set_table (table_add r rd (table (sys_eng s))) s)"
proof -
  let ?T = "table (sys_eng s)" and ?T' = "table_add r rd (table (sys_eng s))"
  note inv = life_invD(1) [OF life]
  note ok = sys_invD(3) [OF inv]
  note cov = covers_table_add [OF ok sound fresh over]
  have old: "q \<noteq> r" if "covers ?T q a" for q a using that fresh by (force simp: covers_def)
  have loc: "region_loc ?T' q a = region_loc ?T q a" if "covers ?T q a" for q a
    using old [OF that] by (simp add: region_loc_def rds_table_add)
  have used: "region (desc (wld s) i) \<noteq> Some r" if "state (desc (wld s) i) \<noteq> FREE" for i
    using core_invD(2) [OF sys_invD(1) [OF inv], of i] that by (auto simp: core_of_simps dest: old)
  have h: "handler_ok ?T' (core_of S s) (handler s)"
    using sys_invD(6) [OF inv] by (auto simp: handler_ok_def cov split: handler_pc.splits)
  show ?thesis
  proof (rule table_life_inv [OF life table_add_ok [OF ok sound fresh over] _ h])
    show "stores_apart ?T'" by (rule stores_apart_add [OF life_invD(7) [OF life] ok sound fresh over str])
    show "active_ok {} (desc (wld s)) (\<lambda>q. m_active_pages (rds ?T' q))"
      by (rule active_ok_add [OF life_invD(3) [OF life] act used])
    show "shows_files S f (set_table ?T' s)"
      by (rule shows_files_add [OF life_invD(6) [OF life] fresh _ str mem]) (use cov in auto)
  qed (use cov loc mem in auto)
qed

text \<open>The monitor must not sleep inside \<open>process_page\<close> with a page of the region that goes.\<close>

fun waits_for :: "rid \<Rightarrow> handler_pc \<Rightarrow> bool" where
  "waits_for r H_idle = False"
| "waits_for r (H_state a w q) = (q = r)"
| "waits_for r (H_avail a w q) = (q = r)"

lemma remove_life_inv:
  assumes life: "life_inv S n nf ne f s" and r: "(b, r) \<in> set (m_active_regions (table (sys_eng s)))"
    and gone: "active_of (sys_eng s) r = {}" and wait: "\<not> waits_for r (handler s)"
  shows "life_inv S n nf ne f (set_table (table_remove b (table (sys_eng s))) s)"
proof -
  let ?T = "table (sys_eng s)" and ?T' = "table_remove b (table (sys_eng s))"
  note inv = life_invD(1) [OF life]
  note ok = sys_invD(3) [OF inv]
  have rds: "rds ?T' = rds ?T" by (simp add: table_remove_def)
  have loc: "region_loc ?T' = region_loc ?T" by (simp add: region_loc_def fun_eq_iff rds)
  have start: "rd_start (rds ?T q) = b \<longleftrightarrow> q = r" if "covers ?T q a" for q a
    using that r table_okD(2) [OF ok] keys_sorted_key_inj [OF table_okD(1) [OF ok]] by (auto simp: covers_def)
  have cov: "covers ?T' q a \<longleftrightarrow> covers ?T q a \<and> q \<noteq> r" for q a
    using covers_table_remove [OF ok, of b q a] start by blast
  have none: "region (desc (wld s) i) \<noteq> Some r" if "state (desc (wld s) i) \<noteq> FREE" for i
    using active_okD(4) [OF life_invD(3) [OF life] that, of r] gone by auto
  have out: "page_view (kern S) (mem (wld s)) a = None" if "covers ?T r a" for a
  proof -
    have "m_present_pages (buf (sys_eng s)) a \<noteq> Some i" for i
      using pages_okD(6,7) [OF core_invD(1) [OF sys_invD(1) [OF inv]], of a i] desc_covers [OF inv, of i r] that none [of i]
      by (auto simp: core_of_simps)
    then show ?thesis using core_invD(3) [OF sys_invD(1) [OF inv] that] by (auto simp: core_of_simps)
  qed
  have h: "handler_ok ?T' (core_of S s) (handler s)"
    using sys_invD(6) [OF inv] wait by (auto simp: handler_ok_def cov split: handler_pc.splits)
  show ?thesis
  proof (rule table_life_inv [OF life table_remove_ok [OF ok] _ h])
    show "stores_apart ?T'"
      using life_invD(7) [OF life] by (auto simp: stores_apart_def table_remove_def map_erase_def)
    show "active_ok {} (desc (wld s)) (\<lambda>q. m_active_pages (rds ?T' q))"
      using life_invD(3) [OF life] by (simp add: rds)
    have "stored (wld s) l = f l" if l: "\<not> mapped_place ?T' l" for l
    proof (cases "mapped_place ?T l")
      case True
      then obtain a where a: "covers ?T r a" "region_loc ?T r a = l" using l by (auto simp: mapped_place_def cov loc)
      then have "page_contents S ?T (wld s) r a = f l" using shows_filesD(1) [OF life_invD(6) [OF life]] by auto
      then show ?thesis using out [OF a(1)] a(2) by (simp add: page_contents_def stored_def split_beta)
    next
      case False
      then show ?thesis by (rule shows_filesD(2) [OF life_invD(6) [OF life]])
    qed
    moreover have "page_contents S ?T' (wld s) q a = f (region_loc ?T' q a)" if "covers ?T' q a" for q a
      using shows_filesD(1) [OF life_invD(6) [OF life], of q a] that by (simp add: page_contents_def cov loc)
    ultimately show "shows_files S f (set_table ?T' s)"
      unfolding shows_files_def by (simp add: stored_def page_contents_def)
  qed (use cov none loc in auto)
qed

section \<open>A region is unmapped\<close>

lemma region_step_listed:
  assumes l: "listed (buf e)" and res: "evict_region_step begin_of r (e, pc) = Some (Inr (e', pc'))"
  shows "listed (buf e')"
proof -
  have "m_busy_pages (buf e') = m_busy_pages (buf e)
    \<and> (\<forall>i. state (m_array (buf e') i) \<in> in_use \<longrightarrow> state (m_array (buf e) i) \<in> in_use)"
    using res by (auto simp: evict_region_step_def region_leave_def region_wait_free_def get_next_page_descriptor_def
        schedule_eviction_def set_state_leaving_def set_pd_def bindR_eq_Inr_iff Let_def in_use_def
        split: evict_region_pc.splits if_splits)
  with l show ?thesis by (auto simp: listed_def)
qed

lemma unmap_run_frame:
  assumes run: "unmap_run S nf ne begin_of r s0 pc0 tr s pc" and beg: "begin_ok begin_of" and S: "setting_ok S"
    and start: "sys_inv S T n nf ne s0" "region_inv r pc0 (sys_eng s0)" "no_exit nf ne s0" "pc0 \<noteq> R_done"
    and ap: "apart (covers T) (region_loc T)" and n: "n < 2 ^ 64" and l: "listed (buf (sys_eng s0))"
  shows "listed (buf (sys_eng s)) \<and> (\<forall>l. \<not> mapped_place T l \<longrightarrow> stored (wld s) l = stored (wld s0) l)"
  using run
proof induction
  case unmap_start
  then show ?case using l by simp
next
  case (unmap_other tr s pc ev s')
  have "sys_inv S T n nf ne s"
    using unmap_run_inv [OF unmap_other.hyps(1) beg S start(1-3) _ ap n] start(4) by simp
  with unmap_other step_listed [OF unmap_other.hyps(3) _ n] step_stored [OF unmap_other.hyps(3)] show ?case by metis
next
  case (unmap_region tr s pc e pc')
  then show ?case using region_step_listed [OF _ unmap_region.hyps(2)] by (simp add: stored_def)
qed

lemma unmap_life_inv:
  assumes life: "life_inv S n nf ne f s" and S: "setting_ok S" and beg: "begin_ok begin_of" and n: "n < 2 ^ 64"
    and u: "evict_region_begin busy (sys_eng s) = (e0, U_region R_loop)"
    and unmap: "unmap_run S nf ne begin_of r (with_eng e0 s) R_loop tr s' R_done"
  shows "life_inv S n nf ne (fold (file_step (table (sys_eng s))) tr f) s'" and "active_of (sys_eng s') r = {}"
    and "same_layout (table (sys_eng s)) (table (sys_eng s'))"
proof -
  let ?T = "table (sys_eng s)" and ?s = "with_eng e0 s"
  note inv = life_invD(1) [OF life] and ap = life_invD(2) [OF life]
  note ok = sys_invD(3) [OF inv]
  have e0: "e0 = (sys_eng s)\<lparr>buf := lock_buffer busy (buf (sys_eng s))\<rparr>"
    using u by (auto simp: evict_region_begin_def split: if_splits)
  have start: "sys_inv S ?T n nf ne ?s" "region_inv r R_loop (sys_eng ?s)" "no_exit nf ne ?s" "listed (buf (sys_eng ?s))"
    using lock_sys_inv [OF inv, of busy] life_invD(3-5) [OF life] e0 by (simp_all add: region_inv_def no_exit_def listed_def)
  note all = unmap_run_inv [OF unmap beg S start(1-3) _ ap n]
    and frame = unmap_run_frame [OF unmap beg S start(1-3) _ ap n start(4)]
  then have inv': "sys_inv S ?T n nf ne s'" by simp
  show gone: "active_of (sys_eng s') r = {}" and lay: "same_layout ?T (table (sys_eng s'))"
    using all sys_invD(4) [OF inv'] by simp_all
  have "page_contents S ?T (wld s') q a = fold (file_step ?T) tr f (region_loc ?T q a)" if "covers ?T q a" for q a
    using all that shows_filesD(1) [OF life_invD(6) [OF life] that] file_fold(1) [OF ok ap that, of tr f]
    by (simp add: page_contents_def)
  moreover have "stored (wld s') l = fold (file_step ?T) tr f l" if "\<not> mapped_place ?T l" for l
  proof -
    have "stored (wld s') l = stored (wld ?s) l" using frame that by (cases l) simp
    then show ?thesis
      using shows_filesD(2) [OF life_invD(6) [OF life] that] file_fold(2) [OF ok that, of tr f] by (simp add: stored_def)
  qed
  ultimately have "shows_files S (fold (file_step ?T) tr f) s'" unfolding layout_files [OF lay] by blast
  then show "life_inv S n nf ne (fold (file_step ?T) tr f) s'"
    using all frame sys_inv_layout [OF inv'] layout_stores_apart [OF lay life_invD(7) [OF life]]
    by (simp add: life_inv_def region_inv_def)
qed

section \<open>The last region\<close>

lemma work_stored:
  assumes step: "work_step S nf ne s ev s'" and a: "all_inv S T n nf ne pc s" and S: "setting_ok S"
    and ap: "apart (covers T) (region_loc T)" and l: "\<not> mapped_place T l"
  shows "stored (wld s') l = stored (wld s) l"
  using step
proof cases
  case (work_evictor j io_ok busy w epc)
  obtain H p m where inv: "sys_inv S T n nf ne (shade p m pc s)" and h: "hides S T H m (wld s)"
    and q: "queue_shade p (sys_eng s)" using a by (rule all_invE)
  obtain p' m' where "evictor_step S io_ok busy (wld (shade p m pc s), evictors (shade p m pc s) j)
      = Some (Inr (shade_w p' m' w, as_evict epc))"
    using outcomesD(1) [OF evictor_shade [OF inv h q S ap work_evictor(3)] work_evictor(4)] by (auto simp: evict_match_def)
  from evictor_stored [OF inv work_evictor(3) this l] work_evictor(2) show ?thesis by (simp add: stored_def)
qed (auto simp: stored_def filler_stores)

lemma all_run_stored:
  assumes run: "all_run S nf ne s0 pc0 tr s pc" and start: "all_inv S T n nf ne pc0 s0" "pc0 \<noteq> A_done" and S: "setting_ok S"
    and ap: "apart (covers T) (region_loc T)" and n: "n < 2 ^ 64" and l: "\<not> mapped_place T l"
  shows "stored (wld s) l = stored (wld s0) l"
  using run
proof induction
  case (all_work tr s pc ev s')
  have "all_inv S T n nf ne pc s" using all_run_inv [OF all_work.hyps(1) start S ap n] by simp
  with work_stored [OF all_work.hyps(3) _ S ap l] all_work.IH show ?case by simp
qed (simp_all add: stored_def)

lemma life_all_begins:
  assumes life: "life_inv S n nf ne f s" and m: "mgr_list (mgr s) = []"
  shows "all_inv S (table (sys_eng s)) n nf ne A_next s"
proof (rule all_begins [OF life_invD(1) [OF life] m life_invD(5) [OF life] _ life_invD(4) [OF life]])
  fix i assume d: "deferred (desc (wld s) i)"
  show "state (desc (wld s) i) = FREE"
  proof (rule ccontr)
    assume st: "state (desc (wld s) i) \<noteq> FREE"
    then obtain r where "region (desc (wld s) i) = Some r"
      using core_invD(2) [OF sys_invD(1) [OF life_invD(1) [OF life]], of i] by (auto simp: core_of_simps)
    then show False using active_okD(3,4) [OF life_invD(3) [OF life], of i r] st d by simp
  qed
qed

lemma life_all_done:
  assumes life: "life_inv S n nf ne f s" and S: "setting_ok S" and n: "n < 2 ^ 64" and m: "mgr_list (mgr s) = []"
    and all: "all_run S nf ne s A_next tr s' A_done"
  shows "Buffer_destroy (buf (sys_eng s')) = Inr ()" and "stored (wld s') = fold (file_step (table (sys_eng s))) tr f"
proof -
  let ?T = "table (sys_eng s)"
  note start = life_all_begins [OF life m] and ap = life_invD(2) [OF life]
  note ok = sys_invD(3) [OF life_invD(1) [OF life]]
  have inv: "all_inv S ?T n nf ne A_done s'" "evictors_idle ne s'"
    and contents: "\<And>q a. covers ?T q a \<Longrightarrow>
      page_contents S ?T (wld s') q a = fold (flat_step a) tr (page_contents S ?T (wld s) q a)"
    using all_run_inv [OF all start _ S ap n] by auto
  show "Buffer_destroy (buf (sys_eng s')) = Inr ()" using all_done(1) [OF inv] by (simp add: Buffer_destroy_def)
  show "stored (wld s') = fold (file_step ?T) tr f"
  proof
    fix l
    show "stored (wld s') l = fold (file_step ?T) tr f l"
    proof (cases "mapped_place ?T l")
      case True
      then obtain q a where q: "covers ?T q a" "region_loc ?T q a = l" by (auto simp: mapped_place_def)
      have "stored (wld s') l = page_contents S ?T (wld s') q a"
        using all_done(2) [OF inv q(1)] q(2) by (simp add: stored_def split_beta)
      also have "\<dots> = fold (file_step ?T) tr f l"
        using contents [OF q(1)] shows_filesD(1) [OF life_invD(6) [OF life] q(1)] file_fold(1) [OF ok ap q(1), of tr f] q(2) by simp
      finally show ?thesis .
    next
      case False
      then show ?thesis
        using all_run_stored [OF all start _ S ap n False] shows_filesD(2) [OF life_invD(6) [OF life] False]
          file_fold(2) [OF ok False, of tr f] by simp
    qed
  qed
qed

section \<open>The life of an engine\<close>

text \<open>The region manager of a running engine, with its settings \<open>c\<close> and its fault monitor \<open>u\<close>.\<close>

definition manager_of :: "Settings \<Rightarrow> Uffd \<Rightarrow> engine \<Rightarrow> RegionManager" where
  "manager_of c u e =
     \<lparr>rm_settings = c, rm_table = table e,
      rm_parts = Some \<lparr>p_buffer = buf e, p_uffd = u, p_fill_workers = fill_workers e,
                       p_evict_manager = evict_manager e, p_evict_workers = evict_workers e\<rparr>\<rparr>"

text \<open>
  Steps of the engine, mapping of a region, and unmapping of one of several regions, while all
  others go on; \<open>f\<close> are the files as the application sees them.
\<close>

inductive life ::
  "('k, 'd) setting \<Rightarrow> nat \<Rightarrow> nat \<Rightarrow> (pd_ref set \<Rightarrow> pd_ref) \<Rightarrow> Settings \<Rightarrow> Uffd \<Rightarrow> ('k, 'd) sys \<Rightarrow> ('k, 'd) sys \<Rightarrow> (place \<Rightarrow> 'd) \<Rightarrow> bool"
  for S nf ne begin_of c u s0 where
  life_start: "life S nf ne begin_of c u s0 s0 (stored (wld s0))"
| life_step:
    "life S nf ne begin_of c u s0 s f \<Longrightarrow> sys_step S nf ne s ev s' \<Longrightarrow>
     life S nf ne begin_of c u s0 s' (file_step (table (sys_eng s)) ev f)"
| life_map:
    "life S nf ne begin_of c u s0 s f \<Longrightarrow>
     addRegion (abi_of S) (ro_mode S) env r str a sz ma msz (manager_of c u (sys_eng s)) = Inr M \<Longrightarrow>
     m_active_regions (table (sys_eng s)) \<noteq> [] \<Longrightarrow>
     rd_sound (RegionDescriptor_init a sz ma msz str) \<Longrightarrow>
     r \<notin> snd ` set (m_active_regions (table (sys_eng s))) \<Longrightarrow>
     no_overlap (table (sys_eng s)) (RegionDescriptor_init a sz ma msz str) \<Longrightarrow>
     \<forall>(k, q) \<in> set (m_active_regions (table (sys_eng s))). m_store (rds (table (sys_eng s)) q) \<noteq> str \<Longrightarrow>
     \<forall>b. in_region (RegionDescriptor_init a sz ma msz str) b \<longrightarrow> page_view (kern S) (mem (wld s)) b = None \<Longrightarrow>
     life S nf ne begin_of c u s0 (set_table (rm_table M) s) f"
| life_unmap:
    "life S nf ne begin_of c u s0 s f \<Longrightarrow>
     removeRegion_begin busy b (manager_of c u (sys_eng s)) = Inr (r, e0, U_region R_loop) \<Longrightarrow>
     unmap_run S nf ne begin_of r (with_eng e0 s) R_loop tr s' R_done \<Longrightarrow>
     \<not> waits_for r (handler s') \<Longrightarrow>
     removeRegion_end env r b (manager_of c u (sys_eng s')) = Inr M \<Longrightarrow>
     life S nf ne begin_of c u s0 (set_table (rm_table M) s') (fold (file_step (table (sys_eng s))) tr f)"

lemma addRegion_table:
  assumes "addRegion abi ro env r str a sz ma msz (manager_of c u e) = Inr M" and "m_active_regions (table e) \<noteq> []"
  shows "rm_table M = table_add r (RegionDescriptor_init a sz ma msz str) (table e)"
  using assms by (auto simp: addRegion_def manager_of_def bindR_eq_Inr_iff Let_def)

lemma removeRegion_table:
  assumes "removeRegion_end env r b (manager_of c u e) = Inr M"
  shows "rm_table M = table_remove b (table e)"
  using assms by (auto simp: removeRegion_end_def manager_of_def bindR_eq_Inr_iff Let_def split: if_splits)

lemma removeRegion_starts:
  assumes "removeRegion_begin busy b (manager_of c u e) = Inr (r, e0, pc)"
  shows "(b, r) \<in> set (m_active_regions (table e))" and "evict_region_begin busy e = (e0, pc)"
proof -
  have e: "\<lparr>buf = buf e, table = table e, fill_workers = fill_workers e, evict_manager = evict_manager e,
      evict_workers = evict_workers e\<rparr> = e" by (cases e) simp
  show "(b, r) \<in> set (m_active_regions (table e))" "evict_region_begin busy e = (e0, pc)"
    using assms by (auto simp: removeRegion_begin_def removeRegion_find_def manager_of_def engine_of_def bindR_eq_Inr_iff e
        split: option.splits dest: map_of_SomeD)
qed

lemma booted_life_inv:
  assumes b: "booted S n nf ne s" and f: "fresh_regions (sys_eng s)" and S: "setting_ok S"
  shows "life_inv S n nf ne (stored (wld s)) s"
proof -
  have "shows_files S (stored (wld s)) s"
    using b by (auto simp: shows_files_def page_contents_def booted_def stored_def split_beta)
  moreover have "stores_apart (table (sys_eng s))" using b by (simp add: stores_apart_def booted_def)
  ultimately show ?thesis
    using booted_inv [OF b] run_active [OF run_start b S f] run_listed [OF run_start b S] by (simp add: life_inv_def)
qed

lemma life_keeps_inv:
  assumes life: "life S nf ne begin_of c u s0 s f" and b: "booted S n nf ne s0" and fr: "fresh_regions (sys_eng s0)"
    and S: "setting_ok S" and beg: "begin_ok begin_of"
  shows "life_inv S n nf ne f s"
  using life
proof induction
  case life_start
  show ?case by (rule booted_life_inv [OF b fr S])
next
  case (life_step s f ev s')
  have n: "n < 2 ^ 64" using b by (simp add: booted_def)
  show ?case by (rule step_life_inv [OF life_step.hyps(2) life_step.IH S n])
next
  case (life_map s f env r str a sz ma msz M)
  have st: "m_store (RegionDescriptor_init a sz ma msz str) = str" "m_active_pages (RegionDescriptor_init a sz ma msz str) = {}"
    by (simp_all add: RegionDescriptor_init_def)
  show ?case
    unfolding addRegion_table [OF life_map.hyps(2,3)]
    by (rule map_life_inv [OF life_map.IH life_map.hyps(4-6)]) (use st life_map.hyps(7,8) in auto)
next
  case (life_unmap s f busy b' r e0 tr s' env M)
  have n: "n < 2 ^ 64" using b by (simp add: booted_def)
  note start = removeRegion_starts [OF life_unmap.hyps(2)]
  note un = unmap_life_inv [OF life_unmap.IH S beg n start(2) life_unmap.hyps(3)]
  have "(b', r) \<in> set (m_active_regions (table (sys_eng s')))" using start(1) un(3) by (simp add: same_layout_def)
  from remove_life_inv [OF un(1) this un(2) life_unmap.hyps(4)] show ?case
    unfolding removeRegion_table [OF life_unmap.hyps(5)] .
qed

section \<open>Properties\<close>


section \<open>An example\<close>

lemma file_step_layout:
  assumes "table_ok T" and "table_ok T'" and l: "same_layout T T'"
  shows "file_step T' = file_step T"
proof (intro ext)
  fix ev and f :: "place \<Rightarrow> 'd" and p
  show "file_step T' ev f p = file_step T ev f p"
  proof (cases ev)
    case (App_write a z)
    have "fst (containing_region a T') = fst (containing_region a T)"
      using rm.lookup_iff [OF assms(1), of a] rm.lookup_iff [OF assms(2), of a] same_layout_covers(1) [OF l]
      by (metis option.exhaust)
    then show ?thesis by (simp add: App_write same_layout_covers(2) [OF l] split: option.split)
  qed simp
qed

lemma run_life:
  assumes run: "sys_run S nf ne s0 tr s" and b: "booted S n nf ne s0" and S: "setting_ok S"
  shows "life S nf ne begin_of c u s0 s (fold (file_step (table (sys_eng s0))) tr (stored (wld s0)))"
  using run
proof induction
  case run_start
  then show ?case by (simp add: life_start)
next
  case (run_step tr s ev s')
  note inv = run_inv [OF run_step.hyps(1) b S]
  have "file_step (table (sys_eng s)) = (file_step (table (sys_eng s0)) :: 'b event \<Rightarrow> (place \<Rightarrow> 'b) \<Rightarrow> place \<Rightarrow> 'b)"
    by (rule file_step_layout [OF _ sys_invD(3) [OF inv] sys_invD(4) [OF inv]]) (use b in \<open>simp add: booted_def\<close>)
  with life_step [OF run_step.IH run_step.hyps(2)] show ?case by simp
qed

lemma file_fold_internal: "set tr \<subseteq> {Internal} \<Longrightarrow> fold (file_step T) tr f = f"
  by (induction tr arbitrary: f) auto

lemma two_written:
  "fold (file_step two_regions) demo_trace (stored (wld two_sys)) (7, 4096) = 5"
proof -
  have "fst (containing_region 69632 two_regions) = Some 0"
    by (rule covers_lookup) (use two_booted two_covers(1) [of 69632] in \<open>simp_all add: booted_def two_table\<close>)
  then show ?thesis by (simp add: demo_trace_def two_covers(2))
qed


end
