(* ===== verification/Sparse_Store.thy ===== *)
theory Sparse_Store
  imports Stores Float_Round
begin

text \<open>
  The sparse store of \<^verbatim>\<open>store/SparseStore.cpp\<close>: a directory with one file per granule, opened
  and allocated when first used, and a metadata file with the granule and the capacity.
\<close>

section \<open>Data\<close>

record SparseStore =
  file_size :: u64
  current_capacity :: u64
  num_files :: u64
  rsize :: u64
  aligned_size :: u64
  read_only :: bool
  root_path :: string
  numreads :: int
  numwrites :: int
  file_descriptors :: "int list"

section \<open>Sizes in double precision\<close>

text \<open>\<^verbatim>\<open>ceil( x*1.0 / y )\<close> on two \<^verbatim>\<open>size_t\<close> values, for \<open>y\<close> not 0.\<close>

definition ceil_quot :: "u64 \<Rightarrow> u64 \<Rightarrow> int" where
  "ceil_quot x y = \<lceil>f64 (f64 (of_nat (unat x)) / f64 (of_nat (unat y)))\<rceil>"

definition to_size :: "rat \<Rightarrow> u64 result" where
  "to_size v =
     (if 0 \<le> v \<and> v < 2 ^ 64 then Inr (of_int \<lfloor>v\<rfloor>)
      else Inl (UNDEFINED ''conversion of a double out of range''))"

definition round_file_size :: "u64 \<Rightarrow> u64 \<Rightarrow> u64 result" where
  "round_file_size aligned fsize =
     (if aligned = 0 then Inl (UNDEFINED ''conversion of a double out of range'')
      else to_size (f64 (f64 (of_nat (unat aligned)) * of_int (ceil_quot fsize aligned))))"

definition count_files :: "u64 \<Rightarrow> u64 \<Rightarrow> u64 result" where
  "count_files amount fsize =
     (if fsize = 0 then Inl (UNDEFINED ''conversion of a double out of range'')
      else to_size (of_int (ceil_quot amount fsize)))"

text \<open>The array of descriptors; its loop counts in an \<^verbatim>\<open>int\<close>.\<close>

definition fresh_descriptors :: "u64 \<Rightarrow> int list result" where
  "fresh_descriptors n =
     (if 2 ^ 31 \<le> unat n then Inl (UNDEFINED ''int overflow'') else Inr (replicate (unat n) (- 1)))"

section \<open>Construction\<close>

definition metadata_path :: "string \<Rightarrow> string" where
  "metadata_path rpath = rpath @ ''/_metadata''"

definition metadata_text :: "u64 \<Rightarrow> u64 \<Rightarrow> string" where
  "metadata_text fsize capacity = show_nat (unat fsize) @ [CHR 0x0A] @ show_nat (unat capacity)"

text \<open>Text files hold the codes of their characters.\<close>

definition encode_text :: "string \<Rightarrow> byte list" where
  "encode_text s = map of_char s"

definition decode_text :: "byte list \<Rightarrow> string" where
  "decode_text d = map (char_of \<circ> unat) d"

text \<open>
  The constructor in create mode. \<open>mkdir_ok\<close> and \<open>meta_ok\<close>: the directory and the metadata file
  can be created; \<open>capacity0\<close> is what the member \<open>current_capacity\<close>, which this constructor
  does not set, happens to hold.
\<close>

definition SparseStore_create ::
  "bool \<Rightarrow> bool \<Rightarrow> u64 \<Rightarrow> u64 \<Rightarrow> u64 \<Rightarrow> string \<Rightarrow> u64 \<Rightarrow> fsys \<Rightarrow> (SparseStore \<times> fsys) result" where
  "SparseStore_create mkdir_ok meta_ok capacity0 rsz asz rpath fsz fs =
     bindR (round_file_size asz fsz) (\<lambda>fsz'.
     bindR (count_files rsz fsz') (\<lambda>n.
     bindR (fresh_descriptors n) (\<lambda>ids.
       if rpath \<in> dirs fs then Inl (UMAP_ERROR ''Directory already exist. Needs to be opened in open mode'')
       else if \<not> mkdir_ok then Inl (UMAP_ERROR ''ERROR: Failed to create directory'')
       else if \<not> meta_ok then Inl (UMAP_ERROR ''Failed to open metadata file'')
       else Inr
         (\<lparr>file_size = fsz', current_capacity = capacity0, num_files = n, rsize = rsz,
           aligned_size = asz, read_only = False, root_path = rpath, numreads = 0, numwrites = 0,
           file_descriptors = ids\<rparr>,
          fs\<lparr>dirs := insert rpath (dirs fs),
             data := (data fs)(metadata_path rpath \<mapsto>
               encode_text (metadata_text fsz' (max fsz' rsz)))\<rparr>))))"

text \<open>
  The constructor in open mode; \<open>u\<close> is what the members that receive the two numbers hold
  before they are read.
\<close>

definition extract_u64 :: "u64 \<Rightarrow> string \<Rightarrow> u64 \<times> string" where
  "extract_u64 u s = (case get_u64 s of (v, _, rest) \<Rightarrow> (case v of None \<Rightarrow> u | Some x \<Rightarrow> x, rest))"

definition SparseStore_open ::
  "u64 \<Rightarrow> u64 \<Rightarrow> u64 \<Rightarrow> string \<Rightarrow> bool \<Rightarrow> fsys \<Rightarrow> SparseStore result" where
  "SparseStore_open u rsz0 asz0 rpath ro fs =
     (if rpath \<notin> dirs fs then Inl (UMAP_ERROR ''Base directory does not exist'')
      else case data fs (metadata_path rpath) of
        None \<Rightarrow> Inl (UMAP_ERROR ''Failed to open metadata file'')
      | Some d \<Rightarrow>
          let (fsz, rest) = extract_u64 u (decode_text d); (cap, _) = extract_u64 u rest in
          bindR (count_files cap fsz) (\<lambda>n.
          bindR (fresh_descriptors n) (\<lambda>ids.
            Inr \<lparr>file_size = fsz, current_capacity = cap, num_files = n, rsize = rsz0,
                 aligned_size = asz0, read_only = ro, root_path = rpath, numreads = 0,
                 numwrites = 0, file_descriptors = ids\<rparr>)))"

definition get_current_capacity :: "SparseStore \<Rightarrow> u64" where
  "get_current_capacity S = current_capacity S"

definition get_capacity :: "string \<Rightarrow> fsys \<Rightarrow> u64 result" where
  "get_capacity rpath fs =
     (case data fs (metadata_path rpath) of
        None \<Rightarrow> Inl (UMAP_ERROR ''Failed to open metadata file'')
      | Some d \<Rightarrow> Inr (fst (extract_u64 0 (skip_line (decode_text d)))))"

section \<open>Access\<close>

definition file_path :: "SparseStore \<Rightarrow> nat \<Rightarrow> string" where
  "file_path S i = root_path S @ ''/'' @ show_nat i"

text \<open>
  The answers of the system for a file that is opened: whether \<^verbatim>\<open>open\<close> succeeds with and
  without \<^verbatim>\<open>O_DIRECT\<close>, and the status of \<^verbatim>\<open>posix_fallocate\<close>; and whether \<^verbatim>\<open>pread\<close> and
  \<^verbatim>\<open>pwrite\<close> report an error.
\<close>

record io_env =
  open_direct_ok :: bool
  open_ok :: bool
  fallocate_status :: int
  pread_ok :: bool
  pwrite_ok :: bool

definition open_granule ::
  "io_env \<Rightarrow> nat \<Rightarrow> SparseStore \<times> fsys \<Rightarrow> (SparseStore \<times> fsys) result" where
  "open_granule env i = (\<lambda>(S, fs).
     if \<not> open_direct_ok env \<and> \<not> open_ok env then Inl (UMAP_ERROR ''ERROR: Failed to open file with id'')
     else
       let (fd, fs1) = fs_open (file_path S i) fs;
           S' = S\<lparr>file_descriptors := (file_descriptors S)[i := fd]\<rparr>
       in if read_only S then Inr (S', fs1)
          else if fallocate_status env \<noteq> 0 then Inl (UMAP_ERROR ''SparseStore: fallocate() failed'')
          else Inr (S', fallocate fd (unat (file_size S)) fs1))"

definition get_fd ::
  "io_env \<Rightarrow> u64 \<Rightarrow> SparseStore \<times> fsys \<Rightarrow> ((int \<times> u64) \<times> SparseStore \<times> fsys) result" where
  "get_fd env offset = (\<lambda>(S, fs).
     if file_size S = 0 then Inl (UNDEFINED ''division by zero'')
     else
       let fd_index = sint (ucast (offset div file_size S) :: u32);
           file_offset = offset mod file_size S
       in if fd_index < 0 \<or> int (length (file_descriptors S)) \<le> fd_index
          then Inl (UNDEFINED ''array index out of range'')
          else if file_descriptors S ! nat fd_index \<noteq> - 1
          then Inr ((file_descriptors S ! nat fd_index, file_offset), S, fs)
          else bindR (open_granule env (nat fd_index) (S, fs)) (\<lambda>(S', fs').
                 Inr ((file_descriptors S' ! nat fd_index, file_offset), S', fs')))"

definition SparseStore_read ::
  "io_env \<Rightarrow> nat \<Rightarrow> nat \<Rightarrow> SparseStore \<times> fsys \<Rightarrow> (byte list \<times> SparseStore \<times> fsys) result" where
  "SparseStore_read env nb off st =
     bindR (get_fd env (of_nat off) st) (\<lambda>((fd, file_offset), S, fs).
       case (if pread_ok env then pread fd nb (unat file_offset) fs else None) of
         None \<Rightarrow> Inl (UMAP_ERROR ''pread Failed'')
       | Some bs \<Rightarrow> Inr (bs, S\<lparr>numreads := numreads S + 1\<rparr>, fs))"

definition SparseStore_write ::
  "io_env \<Rightarrow> byte list \<Rightarrow> nat \<Rightarrow> SparseStore \<times> fsys \<Rightarrow> (nat \<times> SparseStore \<times> fsys) result" where
  "SparseStore_write env bs off st =
     bindR (get_fd env (of_nat off) st) (\<lambda>((fd, file_offset), S, fs).
       case (if pwrite_ok env then pwrite fd bs (unat file_offset) fs else None) of
         None \<Rightarrow> Inl (UMAP_ERROR ''pwrite Failed'')
       | Some fs' \<Rightarrow> Inr (length bs, S\<lparr>numwrites := numwrites S + 1\<rparr>, fs'))"

text \<open>The status of \<^verbatim>\<open>close\<close> is 0 or -1; the or of the statuses is -1 when one of them is.\<close>

fun close_all :: "int list \<Rightarrow> int \<Rightarrow> fsys \<Rightarrow> int \<times> fsys" where
  "close_all [] return_status fs = (return_status, fs)"
| "close_all (fd # ids) return_status fs =
     (if fd \<noteq> - 1 then
        case fs_close fd fs of
          None \<Rightarrow> close_all ids (return_status OR - 1) fs
        | Some fs' \<Rightarrow> close_all ids (return_status OR 0) fs'
      else close_all ids return_status fs)"

definition close_files :: "SparseStore \<Rightarrow> fsys \<Rightarrow> int \<times> fsys" where
  "close_files S fs = close_all (file_descriptors S) 0 fs"

section \<open>Exact sizes\<close>

text \<open>
  In double precision the quotient of two integers below \<open>2\<^sup>5\<^sup>3\<close> is rounded, but its ceiling
  is exact: a quotient that is no integer is further from the next integer than the
  rounding error.
\<close>

lemma ceil_f64_quot:
  fixes x y :: nat
  assumes y: "0 < y" and x: "x < 2 ^ 53"
  shows "\<lceil>f64 (of_nat x / of_nat y)\<rceil> = int ((x + y - 1) div y)"
proof -
  let ?q = "of_nat x / of_nat y :: rat"
  let ?n = "(x + y - 1) div y"
  show ?thesis
  proof (cases "y dvd x")
    case True
    then obtain k where k: "x = y * k" by blast
    have n: "?n = k" using y k by (intro ceil_div_eqI) simp_all
    have q: "?q = of_int (int k)" using y k by simp
    have "k \<le> x" using y k by simp
    then have "k < 2 ^ 53" using x by simp
    then have "?q < 2 ^ 53" unfolding q by (simp del: of_nat_less_iff add: of_nat_less_numeral_power_cancel_iff)
    then have "f64 ?q = ?q" using fl_round_int [OF q, of 53] by simp
    then show ?thesis using n q by simp
  next
    case False
    then have x0: "0 < x" by (rule contrapos_np) simp
    have mod: "0 < x mod y" "x mod y < y" using False y by (auto simp: dvd_eq_mod_eq_0)
    have n: "?n = Suc (x div y)"
    proof (rule ceil_div_eqI)
      have "Suc (x div y) * y = x div y * y + y" by simp
      then show "x \<le> Suc (x div y) * y" "Suc (x div y) * y < x + y"
        using mod div_mult_mod_eq [of x y] by linarith+
    qed
    have y': "(0 :: rat) < of_nat y" using y by simp
    have xq: "of_nat x = (of_nat (x div y) * of_nat y + of_nat (x mod y) :: rat)"
      by (metis div_mult_mod_eq of_nat_add of_nat_mult)
    have lo: "of_nat (x div y) + 1 / of_nat y \<le> ?q"
      unfolding xq using y' mod(1) by (simp add: field_simps)
    have hi: "?q \<le> of_nat ?n - 1 / of_nat y"
    proof -
      have "of_nat (x mod y) + 1 \<le> (of_nat y :: rat)" using mod(2)
        by (metis Suc_leI add.commute of_nat_Suc of_nat_mono)
      moreover have "(of_nat ?n - 1 / of_nat y) * of_nat y = of_nat (x div y) * of_nat y + of_nat y - (1 :: rat)"
        unfolding n using y' by (simp add: algebra_simps)
      ultimately show ?thesis unfolding pos_divide_le_eq [OF y'] using xq by linarith
    qed
    have q0: "0 < ?q" using x0 y by simp
    have "of_nat x < (2 ^ 53 :: rat)" using x by (simp add: of_nat_less_numeral_power_cancel_iff)
    then have err: "?q / 2 ^ 53 < 1 / of_nat y" using y' by (simp add: field_simps)
    have e: "\<bar>f64 ?q - ?q\<bar> \<le> ?q / 2 ^ 53" using fl_round_error [of 53 ?q] q0 by simp
    have "of_nat (x div y) < f64 ?q" using e err lo by (simp only: abs_le_iff) linarith
    moreover have "f64 ?q \<le> of_nat ?n" using e err hi by (simp only: abs_le_iff) linarith
    ultimately show ?thesis unfolding n by (intro ceiling_unique) simp_all
  qed
qed

lemma f64_nat:
  assumes "n < 2 ^ 53"
  shows "f64 (of_nat n) = of_nat n"
proof -
  have "(of_nat n :: rat) < 2 ^ 53" using assms by (simp add: of_nat_less_numeral_power_cancel_iff)
  then show ?thesis by (intro fl_round_int [of _ "int n"]) simp_all
qed

lemma ceil_quot_exact:
  assumes "0 < unat y" and "unat y < 2 ^ 53" and "unat x < 2 ^ 53"
  shows "ceil_quot x y = int ((unat x + unat y - 1) div unat y)"
  unfolding ceil_quot_def f64_nat [OF assms(2)] f64_nat [OF assms(3)]
  by (rule ceil_f64_quot [OF assms(1,3)])

lemma ceil_div_bounds:
  fixes x y :: nat
  assumes "0 < y"
  shows "x \<le> (x + y - 1) div y * y" and "(x + y - 1) div y * y < x + y"
proof -
  have "(x + y - 1) div y * y + (x + y - 1) mod y = x + y - 1" by (rule div_mult_mod_eq)
  moreover have "(x + y - 1) mod y < y" using assms by simp
  ultimately show "x \<le> (x + y - 1) div y * y" "(x + y - 1) div y * y < x + y"
    using assms by linarith+
qed

lemma to_size_nat: "n < 2 ^ 64 \<Longrightarrow> to_size (of_nat n) = Inr (of_nat n)"
  by (simp add: to_size_def of_nat_less_numeral_power_cancel_iff)

lemma round_file_size_exact:
  assumes "0 < unat asz" and "unat fsz + unat asz \<le> 2 ^ 53"
  shows "round_file_size asz fsz = Inr (of_nat ((unat fsz + unat asz - 1) div unat asz * unat asz))"
proof -
  let ?a = "unat asz" and ?m = "(unat fsz + unat asz - 1) div unat asz"
  have lt: "?m * ?a < 2 ^ 53" using ceil_div_bounds(2) [OF assms(1), of "unat fsz"] assms(2) by linarith
  have cq: "ceil_quot fsz asz = int ?m"
  proof (cases "unat fsz = 0")
    case True
    then show ?thesis using assms by (simp add: ceil_quot_def)
  next
    case False
    then show ?thesis using assms by (intro ceil_quot_exact) linarith+
  qed
  have a: "f64 (of_nat ?a) = of_nat ?a" if "unat fsz \<noteq> 0"
    by (rule f64_nat) (use that assms(2) in linarith)
  have "f64 (of_nat ?a) * of_int (ceil_quot fsz asz) = of_nat (?m * ?a)"
  proof (cases "unat fsz = 0")
    case True
    then have "?m = 0" using assms(1) by simp
    then show ?thesis by (simp add: cq)
  next
    case False
    then show ?thesis using a cq by (simp add: mult.commute)
  qed
  moreover have "?m * ?a < 2 ^ 64" using lt by simp
  moreover have "asz \<noteq> 0" using assms(1) by auto
  ultimately show ?thesis using f64_nat [OF lt] to_size_nat [of "?m * ?a"]
    by (simp add: round_file_size_def)
qed

lemma count_files_exact:
  assumes "0 < unat fsz" and "unat fsz < 2 ^ 53" and "unat n < 2 ^ 53"
  shows "count_files n fsz = Inr (of_nat ((unat n + unat fsz - 1) div unat fsz))"
proof -
  let ?m = "(unat n + unat fsz - 1) div unat fsz"
  have "?m \<le> unat n + unat fsz" using div_le_dividend [of "unat n + unat fsz - 1" "unat fsz"] by linarith
  then have "?m < 2 ^ 64" using assms(2,3) by simp
  moreover have "fsz \<noteq> 0" using assms(1) by auto
  ultimately show ?thesis
    using ceil_quot_exact [OF assms] to_size_nat [of ?m] by (simp add: count_files_def)
qed

lemma sparse_create_exact:
  assumes create: "SparseStore_create mkdir_ok meta_ok c0 rsz asz rpath fsz fs = Inr (S, fs')"
    and pos: "0 < asz" "0 < fsz"
    and bounds: "unat fsz + unat asz \<le> 2 ^ 53" "unat rsz < 2 ^ 53"
  shows "unat (file_size S) = (unat fsz + unat asz - 1) div unat asz * unat asz"
    and "0 < unat (file_size S)" and "unat (file_size S) < 2 ^ 53"
    and "unat (num_files S) = (unat rsz + unat (file_size S) - 1) div unat (file_size S)"
    and "count_files rsz (file_size S) = Inr (num_files S)"
    and "fresh_descriptors (num_files S) = Inr (file_descriptors S)"
    and "fs' = fs\<lparr>dirs := insert rpath (dirs fs), data := (data fs)(metadata_path rpath \<mapsto>
               encode_text (metadata_text (file_size S) (max (file_size S) rsz)))\<rparr>"
proof -
  let ?m = "(unat fsz + unat asz - 1) div unat asz * unat asz"
  have a: "0 < unat asz" and f: "0 < unat fsz" using pos by (simp_all add: word_less_nat_alt)
  have m: "unat fsz \<le> ?m" "?m < 2 ^ 53"
    using ceil_div_bounds [OF a, of "unat fsz"] bounds(1) by linarith+
  have r: "round_file_size asz fsz = Inr (of_nat ?m)" by (rule round_file_size_exact [OF a bounds(1)])
  from create r have S: "file_size S = of_nat ?m" "count_files rsz (file_size S) = Inr (num_files S)"
    "fresh_descriptors (num_files S) = Inr (file_descriptors S)"
    "fs' = fs\<lparr>dirs := insert rpath (dirs fs), data := (data fs)(metadata_path rpath \<mapsto>
               encode_text (metadata_text (file_size S) (max (file_size S) rsz)))\<rparr>"
    by (auto simp: SparseStore_create_def bindR_eq_Inr_iff split: if_splits)
  have "?m < 2 ^ 64" using m(2) by simp
  then have us: "unat (file_size S) = ?m" using S(1) by (simp only: unat_of_nat_u64)
  then show "unat (file_size S) = ?m" and "0 < unat (file_size S)" and "unat (file_size S) < 2 ^ 53"
    using m f by linarith+
  show "count_files rsz (file_size S) = Inr (num_files S)"
    "fresh_descriptors (num_files S) = Inr (file_descriptors S)" by (rule S)+
  show "fs' = fs\<lparr>dirs := insert rpath (dirs fs), data := (data fs)(metadata_path rpath \<mapsto>
               encode_text (metadata_text (file_size S) (max (file_size S) rsz)))\<rparr>" by (rule S(4))
  let ?n = "(unat rsz + unat (file_size S) - 1) div unat (file_size S)"
  have c: "count_files rsz (file_size S) = Inr (of_nat ?n)"
    by (rule count_files_exact) (use us m f bounds in linarith)+
  have "?n \<le> unat rsz + unat (file_size S)"
    using div_le_dividend [of "unat rsz + unat (file_size S) - 1" "unat (file_size S)"] by linarith
  then have "?n < 2 ^ 64" using us m bounds(2) by simp
  then show "unat (num_files S) = ?n" using c S(2) by (auto simp: unat_of_nat_u64)
qed

end
