(* ===== verification/Sparse_Store_Props.thy ===== *)
theory Sparse_Store_Props
  imports Sparse_Store
begin

text \<open>
  What the sparse store promises: it meets the contract of a byte store, its sizes are the
  ones intended as long as they fit into the significand of a double, and a store that is
  opened again has the shape it was created with.
\<close>

section \<open>File names\<close>

lemma show_nat_inj: "show_nat m = show_nat n \<longleftrightarrow> m = n"
  using show_nat_digits [of m] show_nat_digits [of n] by metis

lemma file_path_inj: "file_path S i = file_path S j \<longleftrightarrow> i = j"
  by (simp add: file_path_def show_nat_inj)

section \<open>Soundness\<close>

text \<open>Every granule is closed, or its descriptor is open on its file and the file is allocated.\<close>

definition granule_ok :: "SparseStore \<Rightarrow> fsys \<Rightarrow> nat \<Rightarrow> bool" where
  "granule_ok S fs i \<longleftrightarrow> file_descriptors S ! i = - 1
     \<or> fd_path (file_descriptors S ! i) fs = Some (file_path S i)
       \<and> (\<exists>d. data fs (file_path S i) = Some d \<and> unat (file_size S) \<le> length d)"

definition sparse_sound :: "SparseStore \<times> fsys \<Rightarrow> bool" where
  "sparse_sound = (\<lambda>(S, fs). 0 < unat (file_size S) \<and> \<not> read_only S
     \<and> length (file_descriptors S) < 2 ^ 31
     \<and> (\<forall>i<length (file_descriptors S). granule_ok S fs i))"

definition sparse_span :: "SparseStore \<times> fsys \<Rightarrow> nat \<Rightarrow> nat \<Rightarrow> bool" where
  "sparse_span = (\<lambda>(S, fs) off nb. off < 2 ^ 64
     \<and> off div unat (file_size S) < length (file_descriptors S)
     \<and> off mod unat (file_size S) + nb \<le> unat (file_size S))"

definition file_byte :: "byte list option \<Rightarrow> nat \<Rightarrow> byte" where
  "file_byte f j = (case f of None \<Rightarrow> 0 | Some d \<Rightarrow> if j < length d then d ! j else 0)"

definition sparse_bytes :: "SparseStore \<times> fsys \<Rightarrow> nat \<Rightarrow> byte" where
  "sparse_bytes = (\<lambda>(S, fs) i.
     file_byte (data fs (file_path S (i div unat (file_size S)))) (i mod unat (file_size S)))"

text \<open>The system answers without errors, with or without \<^verbatim>\<open>O_DIRECT\<close>.\<close>

definition good_io :: "bool \<Rightarrow> io_env" where
  "good_io direct = \<lparr>open_direct_ok = direct, open_ok = True, fallocate_status = 0,
     pread_ok = True, pwrite_ok = True\<rparr>"

lemma open_granule_ok:
  assumes sound: "sparse_sound (S, fs)" and i: "i < length (file_descriptors S)"
  shows "\<exists>fd fs'. open_granule (good_io direct) i (S, fs)
        = Inr (S\<lparr>file_descriptors := (file_descriptors S)[i := fd]\<rparr>, fs')
     \<and> fd \<noteq> - 1 \<and> fd_path fd fs' = Some (file_path S i)
     \<and> (\<forall>g q. fd_path g fs = Some q \<longrightarrow> fd_path g fs' = Some q)
     \<and> data fs' = (data fs)(file_path S i \<mapsto>
          (case data fs (file_path S i) of None \<Rightarrow> [] | Some d \<Rightarrow> d)
          @ replicate (unat (file_size S)
              - length (case data fs (file_path S i) of None \<Rightarrow> [] | Some d \<Rightarrow> d)) 0)"
proof -
  obtain fd fs1 where o: "fs_open (file_path S i) fs = (fd, fs1)" by fastforce
  note p = fs_open_props [OF o]
  let ?d = "case data fs (file_path S i) of None \<Rightarrow> [] | Some d \<Rightarrow> d"
  let ?fs' = "fallocate fd (unat (file_size S)) fs1"
  have d1: "data fs1 (file_path S i) = Some ?d" using p(4) by (auto split: option.splits)
  have fs': "?fs' = fs1\<lparr>data := (data fs1)(file_path S i \<mapsto>
      ?d @ replicate (unat (file_size S) - length ?d) 0)\<rparr>"
    using p(1) d1 by (simp add: fallocate_def)
  have run: "open_granule (good_io direct) i (S, fs)
      = Inr (S\<lparr>file_descriptors := (file_descriptors S)[i := fd]\<rparr>, ?fs')"
    using sound o by (simp add: open_granule_def good_io_def sparse_sound_def)
  have "data ?fs' = (data fs)(file_path S i \<mapsto> ?d @ replicate (unat (file_size S) - length ?d) 0)"
    unfolding fs' using p(4) by (auto simp: fun_eq_iff)
  moreover have "fd_path g ?fs' = Some q" if "fd_path g fs = Some q" for g q
    unfolding fs' using p(3) [OF that] by simp
  moreover have "fd_path fd ?fs' = Some (file_path S i)" unfolding fs' using p(1) by simp
  moreover have "fd \<noteq> - 1" using p(2) by simp
  ultimately show ?thesis using run by blast
qed

lemma file_byte_extend: "file_byte (Some (d @ replicate n 0)) j = file_byte (Some d) j"
  by (simp add: file_byte_def nth_append)

lemma file_byte_empty: "file_byte (Some (replicate n 0)) j = file_byte None j"
  by (simp add: file_byte_def)

lemma file_byte_alloc:
  "file_byte (Some ((case f of None \<Rightarrow> [] | Some d \<Rightarrow> d) @ replicate n 0)) j = file_byte f j"
  by (cases f) (simp_all add: file_byte_extend file_byte_empty)

text \<open>The granule of an offset, open and allocated.\<close>

lemma granule_index:
  assumes "sparse_sound (S, fs)" and "sparse_span (S, fs) off nb"
  shows "sint (ucast ((of_nat off :: u64) div file_size S) :: u32) = int (off div unat (file_size S))"
    and "unat ((of_nat off :: u64) mod file_size S) = off mod unat (file_size S)"
    and "file_size S \<noteq> 0"
proof -
  let ?i = "off div unat (file_size S)"
  have off: "unat (of_nat off :: u64) = off"
    using assms(2) by (intro unat_of_nat_u64) (simp add: sparse_span_def)
  have i: "?i < 2 ^ 31" using assms by (auto simp: sparse_span_def sparse_sound_def)
  have "unat ((of_nat off :: u64) div file_size S) = ?i" by (simp only: unat_div_distrib off)
  then have "(of_nat off :: u64) div file_size S = of_nat ?i" by (metis of_nat_unat ucast_id)
  then have "ucast ((of_nat off :: u64) div file_size S) = (of_nat ?i :: u32)"
    using i by (simp add: unsigned_of_nat take_bit_nat_eq_self)
  moreover have "sint (of_nat ?i :: u32) = int ?i"
    using i by (simp add: signed_of_nat signed_take_bit_int_eq_self)
  ultimately show "sint (ucast ((of_nat off :: u64) div file_size S) :: u32) = int ?i" by simp
  show "unat ((of_nat off :: u64) mod file_size S) = off mod unat (file_size S)"
    by (simp only: unat_mod_distrib off)
  show "file_size S \<noteq> 0" using assms(1) by (auto simp: sparse_sound_def)
qed

text \<open>Two states of a store that agree in everything but the open descriptors and the counters.\<close>

definition same_store :: "SparseStore \<Rightarrow> SparseStore \<Rightarrow> bool" where
  "same_store S S' \<longleftrightarrow> file_size S' = file_size S \<and> root_path S' = root_path S
     \<and> read_only S' = read_only S \<and> length (file_descriptors S') = length (file_descriptors S)"

lemma same_store_path: "same_store S S' \<Longrightarrow> file_path S' i = file_path S i"
  by (simp add: same_store_def file_path_def)

lemma get_fd_ok:
  assumes sound: "sparse_sound (S, fs)" and span: "sparse_span (S, fs) off nb"
  defines "i \<equiv> off div unat (file_size S)"
  shows "\<exists>fd S' fs' d. get_fd (good_io direct) (of_nat off) (S, fs)
        = Inr ((fd, of_nat off mod file_size S), S', fs')
     \<and> same_store S S' \<and> sparse_sound (S', fs') \<and> sparse_bytes (S', fs') = sparse_bytes (S, fs)
     \<and> fd_path fd fs' = Some (file_path S i) \<and> data fs' (file_path S i) = Some d
     \<and> unat (file_size S) \<le> length d"
proof -
  note gi = granule_index [OF sound span, folded i_def]
  have i: "i < length (file_descriptors S)" using span by (simp add: sparse_span_def i_def)
  then have g: "granule_ok S fs i" using sound by (simp add: sparse_sound_def)
  show ?thesis
  proof (cases "file_descriptors S ! i = - 1")
    case False
    have "get_fd (good_io direct) (of_nat off) (S, fs)
        = Inr ((file_descriptors S ! i, of_nat off mod file_size S), S, fs)"
      using gi i False by (simp add: get_fd_def Let_def)
    moreover have "same_store S S" by (simp add: same_store_def)
    ultimately show ?thesis using g False sound by (auto simp: granule_ok_def)
  next
    case True
    let ?p = "file_path S i" and ?ids = "file_descriptors S"
    let ?d = "case data fs ?p of None \<Rightarrow> [] | Some d \<Rightarrow> d"
    let ?d' = "?d @ replicate (unat (file_size S) - length ?d) 0"
    obtain fd fs' where o: "open_granule (good_io direct) i (S, fs)
        = Inr (S\<lparr>file_descriptors := ?ids[i := fd]\<rparr>, fs')"
      and fd: "fd \<noteq> - 1" "fd_path fd fs' = Some ?p"
      and keep: "\<And>g q. fd_path g fs = Some q \<Longrightarrow> fd_path g fs' = Some q"
      and d: "data fs' = (data fs)(?p \<mapsto> ?d')"
      using open_granule_ok [OF sound i, of direct] by blast
    let ?S' = "S\<lparr>file_descriptors := ?ids[i := fd]\<rparr>"
    have same: "same_store S ?S'" by (simp add: same_store_def)
    have run: "get_fd (good_io direct) (of_nat off) (S, fs)
        = Inr ((fd, of_nat off mod file_size S), ?S', fs')"
      using gi i True o by (simp add: get_fd_def Let_def)
    have "granule_ok ?S' fs' j" if "j < length ?ids" for j
    proof (cases "j = i")
      case True
      then show ?thesis using fd d i same_store_path [OF same] by (simp add: granule_ok_def)
    next
      case False
      have "granule_ok S fs j" using sound that by (simp add: sparse_sound_def)
      then show ?thesis using False keep d same_store_path [OF same]
        by (auto simp: granule_ok_def file_path_inj)
    qed
    then have "sparse_sound (?S', fs')" using sound by (simp add: sparse_sound_def)
    moreover have "sparse_bytes (?S', fs') = sparse_bytes (S, fs)"
      by (auto simp: sparse_bytes_def fun_eq_iff d same_store_path [OF same] file_byte_alloc)
    ultimately show ?thesis using run same fd d by fastforce
  qed
qed

lemma same_store_span: "same_store S S' \<Longrightarrow> sparse_span (S', fs') = sparse_span (S, fs)"
  by (simp add: same_store_def sparse_span_def fun_eq_iff)

lemma same_store_bytes:
  assumes "same_store S S'"
  shows "sparse_bytes (S', fs) = sparse_bytes (S, fs)"
  using assms same_store_path [OF assms] by (simp add: same_store_def sparse_bytes_def fun_eq_iff)

lemma sparse_sound_data:
  assumes "sparse_sound (S, fs)" and "data fs (file_path S i) = Some d"
    and "length d \<le> length d'"
  shows "sparse_sound (S, fs\<lparr>data := (data fs)(file_path S i \<mapsto> d')\<rparr>)"
proof -
  have "granule_ok S (fs\<lparr>data := (data fs)(file_path S i \<mapsto> d')\<rparr>) j" if "granule_ok S fs j" for j
    using that assms(2,3) by (cases "j = i") (auto simp: granule_ok_def file_path_inj)
  with assms(1) show ?thesis by (auto simp: sparse_sound_def)
qed

lemma sparse_sound_count:
  "sparse_sound (S\<lparr>numreads := a\<rparr>, fs) = sparse_sound (S, fs)"
  "sparse_sound (S\<lparr>numwrites := a\<rparr>, fs) = sparse_sound (S, fs)"
  by (simp_all add: sparse_sound_def granule_ok_def file_path_def)

lemma same_store_trans: "same_store S S' \<Longrightarrow> same_store S' S'' \<Longrightarrow> same_store S S''"
  by (simp add: same_store_def)

lemma same_store_count:
  "same_store S (S\<lparr>numreads := a\<rparr>)" "same_store S (S\<lparr>numwrites := a\<rparr>)"
  by (simp_all add: same_store_def)

text \<open>The bytes of a span lie in one file.\<close>

lemma span_div_mod:
  fixes F :: nat
  assumes "off mod F + nb \<le> F" and "off \<le> i" and "i < off + nb"
  shows "i div F = off div F" and "i mod F = off mod F + (i - off)"
proof -
  have off: "F * (off div F) + off mod F = off" by (rule mult_div_mod_eq)
  show q: "i div F = off div F"
  proof (rule div_nat_eqI)
    show "F * (off div F) \<le> i" using off assms(2) by linarith
    have "F * Suc (off div F) = F * (off div F) + F" by simp
    then show "i < F * Suc (off div F)" using off assms by linarith
  qed
  have "F * (i div F) + i mod F = i" by (rule mult_div_mod_eq)
  then show "i mod F = off mod F + (i - off)" unfolding q using off assms(2) by linarith
qed

lemma span_inside:
  fixes F :: nat
  assumes "0 < F" and "off mod F + nb \<le> F"
  shows "off \<le> i \<and> i < off + nb
     \<longleftrightarrow> i div F = off div F \<and> off mod F \<le> i mod F \<and> i mod F < off mod F + nb"
proof
  assume "off \<le> i \<and> i < off + nb"
  then show "i div F = off div F \<and> off mod F \<le> i mod F \<and> i mod F < off mod F + nb"
    using span_div_mod [OF assms(2), of i] by linarith
next
  assume A: "i div F = off div F \<and> off mod F \<le> i mod F \<and> i mod F < off mod F + nb"
  then have "i = off div F * F + i mod F" using div_mult_mod_eq [of i F] by metis
  then show "off \<le> i \<and> i < off + nb" using A div_mult_mod_eq [of off F] by linarith
qed

section \<open>The sparse store meets the contract\<close>

lemma sparse_read_ok:
  assumes sound: "sparse_sound (S, fs)" and span: "sparse_span (S, fs) off nb"
  shows "\<exists>s'. SparseStore_read (good_io direct) nb off (S, fs)
        = Inr (map (sparse_bytes (S, fs)) [off ..< off + nb], s')
     \<and> sparse_sound s' \<and> sparse_span s' = sparse_span (S, fs) \<and> sparse_bytes s' = sparse_bytes (S, fs)"
proof -
  let ?F = "unat (file_size S)"
  obtain fd S' fs' d where get: "get_fd (good_io direct) (of_nat off) (S, fs)
        = Inr ((fd, of_nat off mod file_size S), S', fs')"
    and same: "same_store S S'" and s': "sparse_sound (S', fs')"
    and bytes: "sparse_bytes (S', fs') = sparse_bytes (S, fs)"
    and fd: "fd_path fd fs' = Some (file_path S (off div ?F))"
    and d: "data fs' (file_path S (off div ?F)) = Some d" "?F \<le> length d"
    using get_fd_ok [OF sound span, of direct] by blast
  let ?S = "S'\<lparr>numreads := numreads S' + 1\<rparr>"
  have same': "same_store S ?S" using same_store_trans [OF same same_store_count(1)] .
  have in_file: "off mod ?F + nb \<le> ?F" using span by (simp add: sparse_span_def)
  have "SparseStore_read (good_io direct) nb off (S, fs)
      = Inr (take nb (drop (off mod ?F) d), ?S, fs')"
    using get fd d granule_index(2) [OF sound span]
    by (simp add: SparseStore_read_def good_io_def pread_def)
  moreover have "take nb (drop (off mod ?F) d) = map (sparse_bytes (S, fs)) [off ..< off + nb]"
  proof (rule nth_equalityI)
    show "length (take nb (drop (off mod ?F) d)) = length (map (sparse_bytes (S, fs)) [off ..< off + nb])"
      using in_file d(2) by simp
    fix k assume "k < length (take nb (drop (off mod ?F) d))"
    then have k: "k < nb" by simp
    have "sparse_bytes (S, fs) (off + k) = file_byte (Some d) (off mod ?F + k)"
      unfolding bytes [symmetric] using same same_store_path [OF same]
        span_div_mod [OF in_file, of "off + k"] k d(1)
      by (simp add: sparse_bytes_def same_store_def)
    also have "\<dots> = d ! (off mod ?F + k)" using k in_file d(2) by (simp add: file_byte_def)
    finally show "take nb (drop (off mod ?F) d) ! k = map (sparse_bytes (S, fs)) [off ..< off + nb] ! k"
      using k in_file d(2) by simp
  qed
  moreover have "sparse_sound (?S, fs')" using s' by (simp only: sparse_sound_count)
  moreover have "sparse_bytes (?S, fs') = sparse_bytes (S, fs)"
    using same_store_bytes [OF same_store_count(1)] bytes by simp
  ultimately show ?thesis using same_store_span [OF same'] by fastforce
qed

text \<open>A write inside one file changes the bytes of its range and no others.\<close>

lemma granule_overwrite:
  assumes pos: "0 < F" and in_file: "off mod F + length bs \<le> F"
    and d: "D (file_path S (off div F)) = Some d" "F \<le> length d"
  shows "file_byte ((D(file_path S (off div F) \<mapsto> overwrite (off mod F) bs d)) (file_path S (i div F))) (i mod F)
       = (if off \<le> i \<and> i < off + length bs then bs ! (i - off)
          else file_byte (D (file_path S (i div F))) (i mod F))"
proof (cases "i div F = off div F")
  case False
  then have "\<not> (off \<le> i \<and> i < off + length bs)" using span_inside [OF pos in_file, of i] by blast
  then show ?thesis using False by (auto simp: file_path_inj)
next
  case True
  have fits: "off mod F + length bs \<le> length d" using in_file d(2) by linarith
  have inside: "off \<le> i \<and> i < off + length bs
      \<longleftrightarrow> off mod F \<le> i mod F \<and> i mod F < off mod F + length bs"
    using span_inside [OF pos in_file, of i] True by blast
  have shift: "i mod F - off mod F = i - off" if "off \<le> i \<and> i < off + length bs"
    using span_div_mod(2) [OF in_file, of i] that by linarith
  have lt: "i mod F < length d" using pos d(2) mod_less_divisor [OF pos, of i] by linarith
  then show ?thesis
    using True d(1) nth_overwrite [OF fits lt] inside shift fits
    by (simp add: file_byte_def length_overwrite)
qed

lemma sparse_write_ok:
  assumes sound: "sparse_sound (S, fs)" and span: "sparse_span (S, fs) off (length bs)"
  shows "\<exists>s'. SparseStore_write (good_io direct) bs off (S, fs) = Inr (length bs, s')
     \<and> sparse_sound s' \<and> sparse_span s' = sparse_span (S, fs)
     \<and> sparse_bytes s' = (\<lambda>i. if off \<le> i \<and> i < off + length bs then bs ! (i - off)
          else sparse_bytes (S, fs) i)"
proof -
  let ?F = "unat (file_size S)" and ?p = "file_path S (off div unat (file_size S))"
  obtain fd S' fs' d where get: "get_fd (good_io direct) (of_nat off) (S, fs)
        = Inr ((fd, of_nat off mod file_size S), S', fs')"
    and same: "same_store S S'" and s': "sparse_sound (S', fs')"
    and bytes: "sparse_bytes (S', fs') = sparse_bytes (S, fs)"
    and fd: "fd_path fd fs' = Some ?p"
    and d: "data fs' ?p = Some d" "?F \<le> length d"
    using get_fd_ok [OF sound span, of direct] by blast
  let ?S = "S'\<lparr>numwrites := numwrites S' + 1\<rparr>"
  let ?d = "overwrite (off mod ?F) bs d" and ?fs = "fs'\<lparr>data := (data fs')(?p \<mapsto> overwrite (off mod ?F) bs d)\<rparr>"
  have same': "same_store S ?S" using same_store_trans [OF same same_store_count(2)] .
  have path: "file_path ?S j = file_path S j" for j by (rule same_store_path [OF same'])
  have path': "file_path S' j = file_path S j" for j by (rule same_store_path [OF same])
  have F: "file_size ?S = file_size S" "file_size S' = file_size S" using same by (simp_all add: same_store_def)
  have in_file: "off mod ?F + length bs \<le> ?F" using span by (simp add: sparse_span_def)
  have pos: "0 < ?F" using sound by (simp add: sparse_sound_def)
  have run: "SparseStore_write (good_io direct) bs off (S, fs) = Inr (length bs, ?S, ?fs)"
    using get fd d granule_index(2) [OF sound span]
    by (simp add: SparseStore_write_def good_io_def pwrite_def)
  have len: "length ?d = length d" using in_file d(2) by (simp add: length_overwrite)
  have "sparse_sound (S', ?fs)"
    using sparse_sound_data [OF s', of "off div ?F" d ?d] d(1) len by (simp only: path' order_refl)
  then have snd: "sparse_sound (?S, ?fs)" by (simp only: sparse_sound_count)
  have "sparse_bytes (?S, ?fs) i = (if off \<le> i \<and> i < off + length bs then bs ! (i - off)
          else sparse_bytes (S, fs) i)" for i
    using granule_overwrite [where D = "data fs'" and S = S, OF pos in_file d, of i] unfolding bytes [symmetric]
    by (simp add: sparse_bytes_def path path' F)
  then have "sparse_bytes (?S, ?fs) = (\<lambda>i. if off \<le> i \<and> i < off + length bs then bs ! (i - off)
          else sparse_bytes (S, fs) i)" by blast
  with run snd same_store_span [OF same'] show ?thesis by fastforce
qed

interpretation sstore: byte_store sparse_sound sparse_span sparse_bytes
  "SparseStore_read (good_io direct)" "SparseStore_write (good_io direct)" for direct
proof
  fix s off nb
  assume "sparse_sound s" and "sparse_span s off nb"
  then show "\<exists>s'. SparseStore_read (good_io direct) nb off s = Inr (map (sparse_bytes s) [off ..< off + nb], s')
      \<and> sparse_sound s' \<and> sparse_span s' = sparse_span s \<and> sparse_bytes s' = sparse_bytes s"
    by (cases s) (simp only: sparse_read_ok)
next
  fix s off and bs :: "byte list"
  assume "sparse_sound s" and "sparse_span s off (length bs)"
  then show "\<exists>s'. SparseStore_write (good_io direct) bs off s = Inr (length bs, s') \<and> sparse_sound s'
      \<and> sparse_span s' = sparse_span s
      \<and> sparse_bytes s' = (\<lambda>i. if off \<le> i \<and> i < off + length bs then bs ! (i - off) else sparse_bytes s i)"
    by (cases s) (simp only: sparse_write_ok)
qed

section \<open>Properties\<close>

lemma page_in_file:
  fixes a F off :: nat
  assumes "a dvd F" and "a dvd off" and "0 < F"
  shows "off mod F + a \<le> F"
proof -
  obtain k where k: "F = a * k" using assms(1) by blast
  obtain j where j: "off mod F = a * j" using assms(1,2) by (meson dvd_def dvd_mod)
  have "a * j < a * k" using j k mod_less_divisor [OF assms(3), of off] by simp
  then have "a * Suc j \<le> a * k" by (intro mult_le_mono2) simp
  then show ?thesis using j k by simp
qed

lemma file_index_bound:
  fixes F off r :: nat
  assumes "0 < F" and "off < r"
  shows "off div F < (r + F - 1) div F"
proof -
  have "r \<le> (r + F - 1) div F * F" by (rule ceil_div_bounds(1) [OF assms(1)])
  then have "off < (r + F - 1) div F * F" using assms(2) by linarith
  then show ?thesis using assms(1) by (simp add: div_less_iff_less_mult)
qed

text \<open>
  C26: The shape of a sparse store, computed in double precision. When the file size with one
  page more and the region size are at most \<open>2\<^sup>5\<^sup>3\<close>, the size of a file is the file size asked
  for, rounded up to a multiple of the page size; the files are as many as are needed to
  cover the region and not one more; every page of the region has its file within the
  array of descriptors and lies entirely within this file.
\<close>

theorem sparse_store_geometry:
  assumes create: "SparseStore_create mkdir_ok meta_ok c0 rsz asz rpath fsz fs = Inr (S, fs')"
    and pos: "0 < asz" "0 < fsz"
    and bounds: "unat fsz + unat asz \<le> 2 ^ 53" "unat rsz < 2 ^ 53"
  shows "unat asz dvd unat (file_size S)
       \<and> unat fsz \<le> unat (file_size S) \<and> unat (file_size S) < unat fsz + unat asz
       \<and> unat rsz \<le> unat (num_files S) * unat (file_size S)
       \<and> unat (num_files S) * unat (file_size S) < unat rsz + unat (file_size S)
       \<and> (\<forall>off. unat asz dvd off \<and> off < unat rsz \<longrightarrow>
            off div unat (file_size S) < length (file_descriptors S)
            \<and> off mod unat (file_size S) + unat asz \<le> unat (file_size S))"
proof -
  note ex = sparse_create_exact [OF create pos bounds]
  let ?F = "unat (file_size S)" and ?a = "unat asz"
  have a: "0 < ?a" using pos(1) by (simp add: word_less_nat_alt)
  have dvd: "?a dvd ?F" unfolding ex(1) by simp
  have "length (file_descriptors S) = unat (num_files S)"
    using ex(6) by (metis fresh_descriptors_def length_replicate sum.distinct(1) sum.inject(2))
  then have "off div ?F < length (file_descriptors S)" if "off < unat rsz" for off
    using file_index_bound [OF ex(2) that] ex(4) by simp
  then have pages: "\<forall>off. ?a dvd off \<and> off < unat rsz \<longrightarrow>
      off div ?F < length (file_descriptors S) \<and> off mod ?F + ?a \<le> ?F"
    using page_in_file [OF dvd _ ex(2)] by blast
  have "unat fsz \<le> ?F" "?F < unat fsz + ?a"
    using ceil_div_bounds [OF a, of "unat fsz"] ex(1) by linarith+
  moreover have "unat rsz \<le> unat (num_files S) * ?F" "unat (num_files S) * ?F < unat rsz + ?F"
    using ceil_div_bounds [OF ex(2), of "unat rsz"] ex(4) by simp_all
  ultimately show ?thesis using dvd pages by blast
qed

definition demo_fs :: fsys where
  "demo_fs = \<lparr>data = Map.empty, dirs = {}, fds = [None, Some ''log'']\<rparr>"

lemma demo_create:
  "\<exists>S fs'. SparseStore_create True True 0 6 2 ''store'' 3 demo_fs = Inr (S, fs')"
proof -
  have "round_file_size 2 3 = Inr 4"
    using round_file_size_exact [of 2 3] by simp
  moreover have "count_files 6 4 = Inr 2" using count_files_exact [of 4 6] by simp
  ultimately show ?thesis
    by (simp add: SparseStore_create_def fresh_descriptors_def demo_fs_def)
qed

theorem sparse_store_geometry_witness:
  "\<exists>S fs'. SparseStore_create True True 0 6 2 ''store'' 3 demo_fs = Inr (S, fs')
      \<and> 2 dvd unat (file_size S) \<and> 3 \<le> unat (file_size S) \<and> unat (file_size S) < 5"
proof -
  obtain S fs' where "SparseStore_create True True 0 6 2 ''store'' 3 demo_fs = Inr (S, fs')"
    using demo_create by blast
  with sparse_store_geometry [OF this] show ?thesis by auto
qed

lemma decode_encode: "decode_text (encode_text s) = s"
proof -
  have "char_of (unat (of_char c :: byte)) = c" for c
  proof -
    have "unat (of_nat (of_char c) :: byte) = of_char c" by (simp add: unat_of_nat)
    then have "unat (of_char c :: byte) = of_char c" by (simp only: of_nat_of_char)
    then show ?thesis by simp
  qed
  then show ?thesis by (simp add: decode_text_def encode_text_def o_def)
qed

lemma extract_metadata:
  "extract_u64 u (metadata_text f c) = (f, CHR 0x0A # show_nat (unat c))"
  "extract_u64 u (CHR 0x0A # show_nat (unat c)) = (c, [])"
  "extract_u64 u (show_nat (unat c)) = (c, [])"
proof -
  have nl: "\<not> is_digit (CHR 0x0A)" "is_space (CHR 0x0A)" by (simp_all add: is_digit_def is_space_def)
  show "extract_u64 u (metadata_text f c) = (f, CHR 0x0A # show_nat (unat c))"
    using get_u64_show_nat [of "unat f" "CHR 0x0A # show_nat (unat c)" "[]"] unat_bound_u64 [of f] nl
    by (simp add: extract_u64_def metadata_text_def)
  show "extract_u64 u (CHR 0x0A # show_nat (unat c)) = (c, [])"
    using get_u64_show_nat [of "unat c" "[]" "[CHR 0x0A]"] unat_bound_u64 [of c] nl
    by (simp add: extract_u64_def)
  show "extract_u64 u (show_nat (unat c)) = (c, [])"
    using get_u64_show_nat [of "unat c" "[]" "[]"] unat_bound_u64 [of c]
    by (simp add: extract_u64_def)
qed

lemma skip_metadata: "skip_line (metadata_text f c) = show_nat (unat c)"
proof -
  have "\<forall>x\<in>set (show_nat (unat f)). x \<noteq> CHR 0x0A"
    using show_nat_digits [of "unat f"] by (auto simp: is_digit_def)
  then show ?thesis by (simp add: skip_line_def metadata_text_def dropWhile_append2)
qed

text \<open>
  C27: A sparse store that has been created can be opened again, with the same file size, the
  same number of files and as capacity the region size or, when that is smaller, one file;
  the static \<open>get_capacity\<close> reports the same capacity.
\<close>

theorem sparse_store_reopen:
  assumes create: "SparseStore_create mkdir_ok meta_ok c0 rsz asz rpath fsz fs = Inr (S, fs')"
    and pos: "0 < asz" "0 < fsz" "0 < rsz"
    and bounds: "unat fsz + unat asz \<le> 2 ^ 53" "unat rsz < 2 ^ 53"
  shows "\<exists>S'. SparseStore_open u r0 a0 rpath ro fs' = Inr S'
       \<and> file_size S' = file_size S \<and> num_files S' = num_files S
       \<and> file_descriptors S' = file_descriptors S
       \<and> get_current_capacity S' = max (file_size S) rsz
       \<and> get_capacity rpath fs' = Inr (get_current_capacity S')"
proof -
  note ex = sparse_create_exact [OF create pos(1,2) bounds]
  let ?F = "file_size S" and ?c = "max (file_size S) rsz"
  have r: "0 < unat rsz" using pos(3) by (simp add: word_less_nat_alt)
  have count: "count_files ?c ?F = Inr (num_files S)"
  proof (cases "?F \<le> rsz")
    case True
    then show ?thesis using ex(5) by (simp add: max_def)
  next
    case False
    then have lt: "unat rsz < unat ?F" by (simp add: word_le_nat_alt)
    have "(unat rsz + unat ?F - 1) div unat ?F = 1" "(unat ?F + unat ?F - 1) div unat ?F = 1"
      using lt r by (intro ceil_div_eqI; simp)+
    then have "num_files S = 1" "count_files ?F ?F = Inr 1"
      using ex(4) count_files_exact [OF ex(2,3,3)] by (simp_all add: word_unat_eq_iff)
    then show ?thesis using False by (simp add: max_def)
  qed
  have meta: "data fs' (metadata_path rpath) = Some (encode_text (metadata_text ?F ?c))"
    and dir: "rpath \<in> dirs fs'" unfolding ex(7) by simp_all
  show ?thesis
    using meta dir count ex(6)
    by (simp add: SparseStore_open_def get_capacity_def get_current_capacity_def decode_encode
        extract_metadata skip_metadata)
qed

theorem sparse_store_reopen_witness:
  "\<exists>S fs' S'. SparseStore_create True True 0 6 2 ''store'' 3 demo_fs = Inr (S, fs')
      \<and> SparseStore_open 0 0 0 ''store'' False fs' = Inr S' \<and> num_files S' = num_files S"
proof -
  obtain S fs' where c: "SparseStore_create True True 0 6 2 ''store'' 3 demo_fs = Inr (S, fs')"
    using demo_create by blast
  have "\<exists>S'. SparseStore_open 0 0 0 ''store'' False fs' = Inr S'
       \<and> file_size S' = file_size S \<and> num_files S' = num_files S
       \<and> file_descriptors S' = file_descriptors S
       \<and> get_current_capacity S' = max (file_size S) 6
       \<and> get_capacity ''store'' fs' = Inr (get_current_capacity S')"
    by (rule sparse_store_reopen [OF c]) simp_all
  with c show ?thesis by blast
qed

lemma sparse_create_root:
  "SparseStore_create mkdir_ok meta_ok c0 rsz asz rpath fsz fs = Inr (S, fs') \<Longrightarrow> root_path S = rpath"
  by (auto simp: SparseStore_create_def bindR_eq_Inr_iff split: if_splits)

lemma sparse_create_sound:
  assumes create: "SparseStore_create mkdir_ok meta_ok c0 rsz asz rpath fsz fs = Inr (S, fs')"
    and pos: "0 < asz" "0 < fsz"
    and bounds: "unat fsz + unat asz \<le> 2 ^ 53" "unat rsz < 2 ^ 53"
  shows "sparse_sound (S, fs')"
    and "n * unat asz < unat rsz \<Longrightarrow> sparse_span (S, fs') (n * unat asz) (unat asz)"
proof -
  note ex = sparse_create_exact [OF create pos bounds]
  have ids: "unat (num_files S) < 2 ^ 31" "file_descriptors S = replicate (unat (num_files S)) (- 1)"
    using ex(6) unfolding fresh_descriptors_def by (auto split: if_splits)
  have "\<not> read_only S"
    using create by (auto simp: SparseStore_create_def bindR_eq_Inr_iff split: if_splits)
  then show "sparse_sound (S, fs')"
    using ids ex(2) by (simp add: sparse_sound_def granule_ok_def)
  show "sparse_span (S, fs') (n * unat asz) (unat asz)" if "n * unat asz < unat rsz"
    using sparse_store_geometry [OF create pos bounds] that bounds(2) by (simp add: sparse_span_def)
qed

text \<open>
  C25: A fresh sparse store is a memory of zeros, page by page: after any sequence of page
  writes inside the region, all of which succeed, a read of page \<open>n\<close> returns what was
  written to it last, or zeros. Files that do not exist yet are created on the way, and it
  makes no difference whether the file system supports direct access.
\<close>

theorem sparse_store_pages:
  assumes create: "SparseStore_create mkdir_ok meta_ok c0 rsz asz rpath fsz fs = Inr (S, fs')"
    and pos: "0 < asz" "0 < fsz"
    and bounds: "unat fsz + unat asz \<le> 2 ^ 53" "unat rsz < 2 ^ 53"
    and fresh: "\<forall>i. data fs' (file_path S i) = None"
    and ws: "\<forall>(n, bs)\<in>set ws. n * unat asz < unat rsz \<and> length bs = unat asz"
  shows "\<exists>st. write_pages (SparseStore_write (good_io direct)) (unat asz) ws (S, fs') = Inr st
     \<and> (\<forall>n. n * unat asz < unat rsz \<longrightarrow>
          (\<exists>st'. SparseStore_read (good_io direct) (unat asz) (n * unat asz) st
            = Inr (fold (\<lambda>(n, bs) m. m(n := bs)) ws (\<lambda>_. replicate (unat asz) 0) n, st')))"
proof -
  note init = sparse_create_sound [OF create pos bounds]
  let ?p = "unat asz" and ?z = "page_at (unat asz) (sparse_bytes (S, fs'))"
  have spans: "\<forall>(n, bs)\<in>set ws. sparse_span (S, fs') (n * ?p) ?p \<and> length bs = ?p"
    using ws init(2) by auto
  have zero: "?z = (\<lambda>_. replicate ?p 0)"
    using fresh by (auto simp: fun_eq_iff page_at_def sparse_bytes_def file_byte_def map_replicate_const)
  obtain st where st: "write_pages (SparseStore_write (good_io direct)) ?p ws (S, fs') = Inr st"
    "sparse_sound st" "sparse_span st = sparse_span (S, fs')"
    "page_at ?p (sparse_bytes st) = fold (\<lambda>(n, bs) m. m(n := bs)) ws ?z"
    using sstore.write_pages_ok [OF init(1) spans, of direct] by blast
  have "\<exists>st'. SparseStore_read (good_io direct) ?p (n * ?p) st
      = Inr (page_at ?p (sparse_bytes st) n, st')" if "n * ?p < unat rsz" for n
    using sstore.page_at_read [OF st(2), of n ?p direct] init(2) [OF that] st(3) by auto
  with st(1) show ?thesis unfolding st(4) zero by blast
qed

theorem sparse_store_pages_witness:
  "\<exists>S fs' st st'. SparseStore_create True True 0 6 2 ''store'' 3 demo_fs = Inr (S, fs')
      \<and> write_pages (SparseStore_write (good_io False)) 2 [(2, [7, 8])] (S, fs') = Inr st
      \<and> SparseStore_read (good_io False) 2 (2 * 2) st = Inr ([7, 8], st')"
proof -
  obtain S fs' where c: "SparseStore_create True True 0 6 2 ''store'' 3 demo_fs = Inr (S, fs')"
    using demo_create by blast
  have path: "root_path S = ''store''" by (rule sparse_create_root [OF c])
  have d: "data fs' = [metadata_path ''store'' \<mapsto>
      encode_text (metadata_text (file_size S) (max (file_size S) 6))]"
    using sparse_create_exact(7) [OF c] by (simp add: demo_fs_def)
  have ne: "show_nat i \<noteq> ''_metadata''" for i
  proof
    assume "show_nat i = ''_metadata''"
    then have "is_digit (CHR ''_'')" using show_nat_digits [of i] by auto
    then show False by (simp add: is_digit_def)
  qed
  then have fresh: "\<forall>i. data fs' (file_path S i) = None"
    by (simp add: d file_path_def path metadata_path_def)
  have w: "\<forall>(n, bs)\<in>set [(2 :: nat, [7, 8 :: byte])].
      n * unat (2 :: u64) < unat (6 :: u64) \<and> length bs = unat (2 :: u64)" by simp
  have "\<exists>st. write_pages (SparseStore_write (good_io False)) (unat (2 :: u64)) [(2, [7, 8])] (S, fs') = Inr st
     \<and> (\<forall>n. n * unat (2 :: u64) < unat (6 :: u64) \<longrightarrow>
          (\<exists>st'. SparseStore_read (good_io False) (unat (2 :: u64)) (n * unat (2 :: u64)) st
            = Inr (fold (\<lambda>(n, bs) m. m(n := bs)) [(2, [7, 8])]
                (\<lambda>_. replicate (unat (2 :: u64)) 0) n, st')))"
    by (rule sparse_store_pages [OF c _ _ _ _ fresh w]) simp_all
  then obtain st where st: "write_pages (SparseStore_write (good_io False)) (unat (2 :: u64))
        [(2, [7, 8])] (S, fs') = Inr st"
    and rd: "\<And>n. n * unat (2 :: u64) < unat (6 :: u64) \<Longrightarrow>
          \<exists>st'. SparseStore_read (good_io False) (unat (2 :: u64)) (n * unat (2 :: u64)) st
            = Inr (fold (\<lambda>(n, bs) m. m(n := bs)) [(2, [7, 8])]
                (\<lambda>_. replicate (unat (2 :: u64)) 0) n, st')" by blast
  have "\<exists>st'. SparseStore_read (good_io False) 2 (2 * 2) st = Inr ([7, 8], st')"
    using rd [of 2] by simp
  moreover have "unat (2 :: u64) = 2" by simp
  ultimately show ?thesis using c st by metis
qed

end
