(* ===== verification/Logging.thy ===== *)
theory Logging
  imports Buffer Decimal
begin

text \<open>
  Diagnostics: the exception class and the two macros of \<^verbatim>\<open>util/Exception.cpp\<close> and
  \<^verbatim>\<open>util/Macros.hpp\<close>, the logger of \<^verbatim>\<open>util/Logger.cpp\<close> with its configuration by the
  environment, and the printers and the monitor of \<^verbatim>\<open>Buffer.cpp\<close>.
\<close>

section \<open>Text\<close>

definition show_int :: "int \<Rightarrow> string" where
  "show_int i = (if i < 0 then ''-'' @ show_nat (nat (- i)) else show_nat (nat i))"

text \<open>\<^verbatim>\<open>std::setw\<close>: blanks on the left up to the width.\<close>

definition setw :: "nat \<Rightarrow> string \<Rightarrow> string" where
  "setw n s = replicate (n - length s) (CHR '' '') @ s"

section \<open>Exceptions\<close>

record Exception =
  m_message :: string
  m_file :: string
  m_line :: int
  m_what :: string

definition message :: "string \<Rightarrow> string \<Rightarrow> int \<Rightarrow> string" where
  "message msg file line =
     ''! UMAP Exception ['' @ file @ '':'' @ show_int line @ '']: '' @ msg"

definition Exception_init :: "string \<Rightarrow> string \<Rightarrow> int \<Rightarrow> Exception" where
  "Exception_init msg file line =
     \<lparr>m_message = msg, m_file = file, m_line = line, m_what = message msg file line\<rparr>"

definition what :: "Exception \<Rightarrow> string" where
  "what e = m_what e"

section \<open>The logger\<close>

datatype Level = Error | Warning | Info | Debug

fun level_index :: "Level \<Rightarrow> nat" where
  "level_index Error = 0"
| "level_index Warning = 1"
| "level_index Info = 2"
| "level_index Debug = 3"

definition Levels :: "Level list" where
  "Levels = [Error, Warning, Info, Debug]"

fun MessageLevelName :: "Level \<Rightarrow> string" where
  "MessageLevelName Error = ''ERROR''"
| "MessageLevelName Warning = ''WARNING''"
| "MessageLevelName Info = ''INFO''"
| "MessageLevelName Debug = ''DEBUG''"

record Logger =
  m_log_timestamp :: bool
  m_isEnabled :: "Level \<Rightarrow> bool"

definition Logger_init :: "bool \<Rightarrow> Logger" where
  "Logger_init log_with_timestamp =
     \<lparr>m_log_timestamp = log_with_timestamp, m_isEnabled = (\<lambda>_. False)\<rparr>"

definition setLoggingMsgLevel :: "Level \<Rightarrow> Logger \<Rightarrow> Logger" where
  "setLoggingMsgLevel level lg = lg\<lparr>m_isEnabled := (\<lambda>i. level_index i \<le> level_index level)\<rparr>"

definition logLevelEnabled :: "Level \<Rightarrow> Logger \<Rightarrow> bool" where
  "logLevelEnabled level lg = m_isEnabled lg level"

text \<open>
  What \<open>logMessage\<close> writes to the standard output. \<open>stamp\<close>, \<open>pid\<close> and \<open>tid\<close> are the time in
  seconds as printed, the process and the thread.
\<close>

definition logMessage ::
  "string \<Rightarrow> int \<Rightarrow> int \<Rightarrow> Level \<Rightarrow> string \<Rightarrow> string \<Rightarrow> int \<Rightarrow> Logger \<Rightarrow> string" where
  "logMessage stamp pid tid level msg fileName line lg =
     (if \<not> logLevelEnabled level lg then []
      else if m_log_timestamp lg then
        stamp @ '':'' @ show_int pid @ '':'' @ show_int tid @ '' ''
        @ ''['' @ MessageLevelName level @ '']''
        @ ''['' @ fileName @ '':'' @ show_int line @ '']:'' @ msg @ [CHR 0x0A]
      else msg @ [CHR 0x0A])"

text \<open>\<^verbatim>\<open>strcasecmp\<close> is zero: the texts agree up to the case of the ASCII letters.\<close>

definition to_lower :: "char \<Rightarrow> char" where
  "to_lower c =
     (if 65 \<le> (of_char c :: nat) \<and> (of_char c :: nat) \<le> 90 then char_of (of_char c + 32 :: nat) else c)"

definition strcaseeq :: "string \<Rightarrow> string \<Rightarrow> bool" where
  "strcaseeq s t \<longleftrightarrow> map to_lower s = map to_lower t"

definition level_of_name :: "string \<Rightarrow> Level option" where
  "level_of_name enval = find (\<lambda>i. strcaseeq enval (MessageLevelName i)) Levels"

definition no_level_text :: "string \<Rightarrow> string" where
  "no_level_text enval =
     ''No matching logging levels for: '' @ enval @ [CHR 0x0A]
     @ ''Available levels are:'' @ [CHR 0x0A]
     @ concat (map (\<lambda>i. [CHR 0x09] @ MessageLevelName i @ [CHR 0x0A]) Levels)"

definition defaultLevel :: Level where
  "defaultLevel = Info"

text \<open>
  \<open>initialize\<close> on the logger there is and the values of the two environment variables; the
  second component of the result is what is written to the standard error.
\<close>

definition initialize ::
  "string option \<Rightarrow> string option \<Rightarrow> Logger option \<Rightarrow> Logger option \<times> string" where
  "initialize enval enval_no_timestamp s_Logger =
     (case s_Logger of
        Some lg \<Rightarrow> (Some lg, [])
      | None \<Rightarrow>
          let log_with_timestamp = (enval_no_timestamp = None);
              name = (case enval_no_timestamp of Some s \<Rightarrow> Some s | None \<Rightarrow> enval);
              level = (case name of
                         None \<Rightarrow> defaultLevel
                       | Some s \<Rightarrow> (case level_of_name s of Some l \<Rightarrow> l | None \<Rightarrow> defaultLevel));
              err = (case name of
                       None \<Rightarrow> []
                     | Some s \<Rightarrow> if level_of_name s = None then no_level_text s else [])
          in (Some (setLoggingMsgLevel level (Logger_init log_with_timestamp)), err))"

definition finalize :: "Logger option \<Rightarrow> Logger option" where
  "finalize s_Logger = None"

definition getActiveLogger ::
  "string option \<Rightarrow> string option \<Rightarrow> Logger option \<Rightarrow> Logger option \<times> string" where
  "getActiveLogger enval enval_no_timestamp s_Logger =
     (if s_Logger = None then initialize enval enval_no_timestamp s_Logger else (s_Logger, []))"

section \<open>The macros\<close>

text \<open>
  The text that \<open>UMAP_LOG\<close> hands to the logger, and the exception that \<open>UMAP_ERROR\<close> throws;
  \<open>func\<close>, \<open>file\<close> and \<open>line\<close> are those of the place of use.
\<close>

definition UMAP_LOG_text :: "string \<Rightarrow> string \<Rightarrow> string" where
  "UMAP_LOG_text func msg = '' '' @ func @ '' '' @ msg"

definition UMAP_LOG ::
  "bool \<Rightarrow> string \<Rightarrow> int \<Rightarrow> int \<Rightarrow> string \<Rightarrow> string \<Rightarrow> int \<Rightarrow> Level \<Rightarrow> string \<Rightarrow> Logger \<Rightarrow> string" where
  "UMAP_LOG debug_logging stamp pid tid func file line level msg lg =
     (if debug_logging \<and> logLevelEnabled level lg
      then logMessage stamp pid tid level (UMAP_LOG_text func msg) file line lg else [])"

definition UMAP_ERROR_exception :: "string \<Rightarrow> string \<Rightarrow> int \<Rightarrow> string \<Rightarrow> Exception" where
  "UMAP_ERROR_exception func file line msg =
     Exception_init ('' '' @ func @ '' '' @ msg) file line"

section \<open>Printing the buffer\<close>

definition print_Buffer :: "Buffer option \<Rightarrow> string" where
  "print_Buffer p =
     (case p of
        Some b \<Rightarrow>
          ''{ m_size: '' @ show_nat (m_size b)
          @ '', m_waits_for_avail_pd: '' @ show_int (m_waits_for_avail_pd b)
          @ '', m_present_pages.size(): '' @ setw 2 (show_nat (card (dom (m_present_pages b))))
          @ '', m_free_pages.size(): '' @ setw 2 (show_nat (length (m_free_pages b)))
          @ '', m_busy_pages.size(): '' @ setw 2 (show_nat (length (m_busy_pages b)))
          @ '' }''
      | None \<Rightarrow> ''{ nullptr }'')"

definition stat_line :: "string \<Rightarrow> u64 \<Rightarrow> string" where
  "stat_line name v = name @ setw 12 (show_nat (unat v))"

definition print_BufferStats :: "BufferStats \<Rightarrow> string" where
  "print_BufferStats stats =
     ''Buffer Statisics:'' @ [CHR 0x0A]
     @ stat_line ''   Pages Inserted: '' (pages_inserted stats) @ [CHR 0x0A]
     @ stat_line ''    Pages Deleted: '' (pages_deleted stats) @ [CHR 0x0A]
     @ stat_line '' Unavailable wait: '' (not_avail stats) @ [CHR 0x0A]
     @ stat_line ''            Locks: '' (lock_count stats) @ [CHR 0x0A]
     @ stat_line ''  Lock collisions: '' (lock_collision stats) @ [CHR 0x0A]
     @ stat_line ''            waits: '' (waits stats)"

text \<open>
  The monitor's message, and its loop: one message per turn as long as the flag is set;
  \<open>views\<close> are the buffers that the turns find.
\<close>

definition monitor_text :: "Buffer \<Rightarrow> string" where
  "monitor_text b =
     ''m_size = '' @ show_nat (m_size b)
     @ '', num_busy_pages = '' @ show_nat (length (m_busy_pages b))
     @ '', num_free_pages = '' @ show_nat (length (m_free_pages b))
     @ '', events_processed = '' @ show_nat (unat (events_processed (m_stats b)))"

fun monitor :: "Buffer list \<Rightarrow> string list" where
  "monitor [] = []"
| "monitor (b # views) = (if is_monitor_on b then monitor_text b # monitor views else [])"

section \<open>Properties\<close>

lemma level_of_name_exact: "level_of_name (MessageLevelName l) = Some l"
proof (cases l)
  case Error
  have "level_of_name (MessageLevelName Error) = Some Error" by code_simp
  with Error show ?thesis by (simp only:)
next
  case Warning
  have "level_of_name (MessageLevelName Warning) = Some Warning" by code_simp
  with Warning show ?thesis by (simp only:)
next
  case Info
  have "level_of_name (MessageLevelName Info) = Some Info" by code_simp
  with Info show ?thesis by (simp only:)
next
  case Debug
  have "level_of_name (MessageLevelName Debug) = Some Debug" by code_simp
  with Debug show ?thesis by (simp only:)
qed

lemma level_of_name_case: "strcaseeq s t \<Longrightarrow> level_of_name s = level_of_name t"
  by (simp add: level_of_name_def strcaseeq_def)

lemma level_of_name_None: "level_of_name s = None \<longleftrightarrow> (\<forall>l. \<not> strcaseeq s (MessageLevelName l))"
proof -
  have "l \<in> set Levels" for l by (cases l) (simp_all add: Levels_def)
  then show ?thesis unfolding level_of_name_def find_None_iff by blast
qed

lemma get_u64_setw:
  assumes "rest = [] \<or> \<not> is_digit (hd rest)"
  shows "get_u64 (setw n (show_nat (unat v)) @ rest) = (Some v, True, rest)"
  using get_u64_show_nat [of "unat v" rest "replicate (n - length (show_nat (unat v))) (CHR '' '')"]
    assms unat_bound_u64 [of v] by (simp add: setw_def is_space_def)

text \<open>
  The choice of the log level. The name of a level, in any mixture of upper and lower
  case, enables exactly the messages up to that level; the variable without time stamps
  wins over the other and switches the time stamps off; an unknown name is reported with
  the list of the levels and leaves the level at \<open>Info\<close>, as does an empty environment; a
  logger that exists is not changed.
\<close>

lemma logger_level_selection:
  "(strcaseeq s (MessageLevelName l) \<longrightarrow>
      (\<exists>lg. initialize (Some s) None None = (Some lg, []) \<and> m_log_timestamp lg
         \<and> (\<forall>i. logLevelEnabled i lg \<longleftrightarrow> level_index i \<le> level_index l))
    \<and> (\<exists>lg. initialize env (Some s) None = (Some lg, []) \<and> \<not> m_log_timestamp lg
         \<and> (\<forall>i. logLevelEnabled i lg \<longleftrightarrow> level_index i \<le> level_index l)))
   \<and> ((\<forall>k. \<not> strcaseeq s (MessageLevelName k)) \<longrightarrow>
      (\<exists>lg. initialize (Some s) None None = (Some lg, no_level_text s)
         \<and> (\<forall>i. logLevelEnabled i lg \<longleftrightarrow> i \<noteq> Debug)))
   \<and> (\<exists>lg. initialize None None None = (Some lg, []) \<and> (\<forall>i. logLevelEnabled i lg \<longleftrightarrow> i \<noteq> Debug))
   \<and> initialize env env' (Some lg0) = (Some lg0, [])"
proof -
  have info: "level_index i \<le> level_index Info \<longleftrightarrow> i \<noteq> Debug" for i by (cases i) simp_all
  have known: "level_of_name s = Some l" if "strcaseeq s (MessageLevelName l)"
    using level_of_name_case [OF that] level_of_name_exact by simp
  note defs = initialize_def Let_def setLoggingMsgLevel_def Logger_init_def logLevelEnabled_def
    defaultLevel_def
  show ?thesis
  proof (intro conjI impI)
    assume s: "strcaseeq s (MessageLevelName l)"
    show "\<exists>lg. initialize (Some s) None None = (Some lg, []) \<and> m_log_timestamp lg
         \<and> (\<forall>i. logLevelEnabled i lg \<longleftrightarrow> level_index i \<le> level_index l)"
      and "\<exists>lg. initialize env (Some s) None = (Some lg, []) \<and> \<not> m_log_timestamp lg
         \<and> (\<forall>i. logLevelEnabled i lg \<longleftrightarrow> level_index i \<le> level_index l)"
      using known [OF s] by (simp_all add: defs)
  next
    assume "\<forall>k. \<not> strcaseeq s (MessageLevelName k)"
    then have "level_of_name s = None" by (simp add: level_of_name_None)
    then show "\<exists>lg. initialize (Some s) None None = (Some lg, no_level_text s)
         \<and> (\<forall>i. logLevelEnabled i lg \<longleftrightarrow> i \<noteq> Debug)"
      using info by (simp add: defs)
  next
    show "\<exists>lg. initialize None None None = (Some lg, []) \<and> (\<forall>i. logLevelEnabled i lg \<longleftrightarrow> i \<noteq> Debug)"
      using info by (simp add: defs)
  qed (simp add: defs)
qed

text \<open>
  The statistics can be read back from their printout: after the label of a line the
  number that is printed with the width of twelve is what an extraction of an unsigned
  number yields, for every 64-bit value, also for numbers wider than the field.
\<close>

lemma stat_line_read_back:
  assumes "rest = [] \<or> hd rest = CHR 0x0A"
  shows "get_u64 (drop (length name) (stat_line name v @ rest)) = (Some v, True, rest)
       \<and> length (stat_line name v) \<ge> length name + 12"
proof
  have "\<not> is_digit (CHR 0x0A)" by (simp add: is_digit_def)
  then have "rest = [] \<or> \<not> is_digit (hd rest)" using assms by auto
  then show "get_u64 (drop (length name) (stat_line name v @ rest)) = (Some v, True, rest)"
    using get_u64_setw [of rest 12 v] by (simp add: stat_line_def)
qed (simp add: stat_line_def setw_def)

end
