(* ===== verification/Rmat_Hash.thy ===== *)
theory Rmat_Hash
  imports Umap_Prelude
begin

text \<open>
  The hash functions of \<^verbatim>\<open>examples/bfs/rmat_graph_generator/hash.hpp\<close> that scramble the
  vertices of a generated graph. What makes them fit for that is that they are permutations:
  every line of \<open>hash32\<close> and \<open>hash16\<close> can be undone, the other two replace a window of bits,
  and \<open>hash_nbits\<close> moves that window up and down over the bits of a vertex.
\<close>

section \<open>The functions\<close>

definition hash32 :: "u32 \<Rightarrow> u32" where
  "hash32 a =
     (let a = (a + 0x7ed55d16) + push_bit 12 a;
          a = (a XOR 0xc761c23c) XOR drop_bit 19 a;
          a = (a + 0x165667b1) + push_bit 5 a;
          a = (a + 0xd3a2646c) XOR push_bit 9 a;
          a = (a + 0xfd7046c5) + push_bit 3 a;
          a = (a XOR 0xb55a4f09) XOR drop_bit 16 a
      in a)"

text \<open>
  The operands of \<open>hash16\<close> are promoted to \<^verbatim>\<open>int\<close>, where nothing overflows, and the result
  of every line is cut off to 16 bits; on words of 16 bits the same is computed.
\<close>

definition hash16 :: "u16 \<Rightarrow> u16" where
  "hash16 a =
     (let a = (a + 0x5d16) + push_bit 6 a;
          a = (a XOR 0xc23c) XOR drop_bit 9 a;
          a = (a + 0x67b1) + push_bit 5 a;
          a = (a + 0x646c) XOR push_bit 7 a;
          a = (a + 0x46c5) + push_bit 3 a;
          a = (a XOR 0x4f09) XOR drop_bit 8 a
      in a)"

definition shifted_n_hash32 :: "u64 \<Rightarrow> nat \<Rightarrow> u64" where
  "shifted_n_hash32 input n =
     (let to_hash = drop_bit n input; m = 0xFFFFFFFF; to_hash = to_hash AND m;
          to_hash = ucast (hash32 (ucast to_hash)); to_hash = push_bit n to_hash;
          m = push_bit n m; input = input AND NOT m
      in input OR to_hash)"

definition shifted_n_hash16 :: "u64 \<Rightarrow> nat \<Rightarrow> u64" where
  "shifted_n_hash16 input n =
     (let to_hash = drop_bit n input; m = 0xFFFF; to_hash = to_hash AND m;
          to_hash = ucast (hash16 (ucast to_hash)); to_hash = push_bit n to_hash;
          m = push_bit n m; input = input AND NOT m
      in input OR to_hash)"

text \<open>
  A shift by the width of the type or more, which numbers of bits above 64 would lead to,
  is undefined.
\<close>

definition hash_nbits :: "u64 \<Rightarrow> nat \<Rightarrow> u64 result" where
  "hash_nbits input n =
     (if n = 32 then Inr (ucast (hash32 (ucast input)))
      else if 32 < n then
        let n = n - 32 in
        if 64 \<le> n then Inl (UNDEFINED ''shift by the width of the type'')
        else let input = fold (\<lambda>i x. shifted_n_hash32 x i) [0..<Suc n] input;
                 input = fold (\<lambda>i x. shifted_n_hash32 x i) (rev [0..<Suc n]) input
             in Inr input
      else if n \<le> 16 then Inl (ASSERT_FAIL ''Hashing less than 16bits is not supported'')
      else let n = n - 16;
               input = fold (\<lambda>i x. shifted_n_hash16 x i) [0..<Suc n] input;
               input = fold (\<lambda>i x. shifted_n_hash16 x i) (rev [0..<Suc n]) input
           in Inr input)"

section \<open>Every line can be undone\<close>

lemma eq_by_low_bits:
  fixes a b :: "'a :: len word"
  assumes "\<And>m. take_bit m a = take_bit m b \<Longrightarrow> take_bit (Suc m) a = take_bit (Suc m) b"
  shows "a = b"
proof -
  have "take_bit m a = take_bit m b" for m
    by (induction m) (simp_all only: take_bit_0 assms)
  then show ?thesis by (metis take_bit_word_eq_self order_refl)
qed

lemma eq_by_high_bits:
  fixes a b :: "'a :: len word"
  assumes "\<And>m. drop_bit (Suc m) a = drop_bit (Suc m) b \<Longrightarrow> drop_bit m a = drop_bit m b"
  shows "a = b"
proof -
  have "drop_bit (LENGTH('a) - m) a = drop_bit (LENGTH('a) - m) b" if "m \<le> LENGTH('a)" for m
    using that
  proof (induction m)
    case 0
    have "drop_bit LENGTH('a) x = 0" for x :: "'a word"
      by (rule bit_eqI) (auto simp: bit_simps dest: bit_imp_le_length)
    then show ?case by simp
  next
    case (Suc m)
    then show ?case using assms [of "LENGTH('a) - Suc m"] by (simp add: Suc_diff_Suc Suc_le_eq)
  qed
  from this [of "LENGTH('a)"] show ?thesis by simp
qed

lemma take_bit_push_low:
  assumes "0 < k" and "take_bit m a = take_bit m (b :: 'a :: len word)"
  shows "take_bit (Suc m) (push_bit k a) = take_bit (Suc m) (push_bit k b)"
proof -
  have "bit a i = bit b i" if "i < m" for i
    using arg_cong [OF assms(2), of "\<lambda>x. bit x i"] that by (simp add: bit_take_bit_iff)
  then show ?thesis using assms(1) by (intro bit_eqI) (auto simp: bit_simps)
qed

lemma take_bit_diff_cong:
  fixes a b :: "'a :: len word"
  assumes "take_bit n a = take_bit n b" and "take_bit n c = take_bit n d"
  shows "take_bit n (a - c) = take_bit n (b - d)"
  using assms
proof transfer
  fix n and a b c d :: int
  let ?t = "\<lambda>x. take_bit (min LENGTH('a) n) (x :: int)"
  assume "take_bit LENGTH('a) (?t a) = take_bit LENGTH('a) (?t b)"
    and "take_bit LENGTH('a) (?t c) = take_bit LENGTH('a) (?t d)"
  then have "?t a = ?t b" and "?t c = ?t d" by (simp_all add: min.absorb1)
  then have "?t (a - c) = ?t (b - d)" by (metis take_bit_diff)
  then show "take_bit LENGTH('a) (?t (a - c)) = take_bit LENGTH('a) (?t (b - d))" by (simp only:)
qed

lemma inj_add_push:
  assumes "0 < k"
  shows "inj (\<lambda>a :: 'a :: len word. (a + c) + push_bit k a)"
proof (rule injI)
  fix a b :: "'a word"
  assume e: "(a + c) + push_bit k a = (b + c) + push_bit k b"
  show "a = b"
  proof (rule eq_by_low_bits)
    fix m assume "take_bit m a = take_bit m b"
    from take_bit_push_low [OF assms this]
    have p: "take_bit (Suc m) (push_bit k a) = take_bit (Suc m) (push_bit k b)" .
    have "take_bit (Suc m) ((a + c) + push_bit k a) = take_bit (Suc m) ((b + c) + push_bit k b)"
      by (simp only: e)
    from take_bit_diff_cong [OF this p] have "take_bit (Suc m) (a + c) = take_bit (Suc m) (b + c)" by simp
    from take_bit_diff_cong [OF this refl] show "take_bit (Suc m) a = take_bit (Suc m) b"
      by (metis add_diff_cancel_right')
  qed
qed

lemma inj_xor_push:
  assumes "0 < k"
  shows "inj (\<lambda>a :: 'a :: len word. (a + c) XOR push_bit k a)"
proof (rule injI)
  fix a b :: "'a word"
  assume e: "(a + c) XOR push_bit k a = (b + c) XOR push_bit k b"
  show "a = b"
  proof (rule eq_by_low_bits)
    fix m assume "take_bit m a = take_bit m b"
    from take_bit_push_low [OF assms this]
    have p: "take_bit (Suc m) (push_bit k a) = take_bit (Suc m) (push_bit k b)" .
    have x: "x + c = ((x + c) XOR push_bit k x) XOR push_bit k x" for x :: "'a word"
      by (rule bit_eqI) (auto simp: bit_simps)
    have "take_bit (Suc m) (a + c) = take_bit (Suc m) (b + c)"
      by (subst (1 2) x) (simp only: take_bit_xor e p)
    from take_bit_diff_cong [OF this refl] show "take_bit (Suc m) a = take_bit (Suc m) b"
      by (metis add_diff_cancel_right')
  qed
qed

lemma inj_xor_drop:
  assumes "0 < k"
  shows "inj (\<lambda>a :: 'a :: len word. (a XOR c) XOR drop_bit k a)"
proof (rule injI)
  fix a b :: "'a word"
  assume e: "(a XOR c) XOR drop_bit k a = (b XOR c) XOR drop_bit k b"
  show "a = b"
  proof (rule eq_by_high_bits)
    fix m assume h: "drop_bit (Suc m) a = drop_bit (Suc m) b"
    have "drop_bit m (drop_bit k x) = drop_bit (k - 1) (drop_bit (Suc m) x)" for x :: "'a word"
      using assms by (simp add: drop_bit_drop_bit add.commute)
    then have p: "drop_bit m (drop_bit k a) = drop_bit m (drop_bit k b)" by (simp only: h)
    have x: "x = ((x XOR c) XOR drop_bit k x) XOR c XOR drop_bit k x" for x :: "'a word"
      by (rule bit_eqI) (auto simp: bit_simps)
    show "drop_bit m a = drop_bit m b"
      by (subst x, subst (2) x) (simp only: drop_bit_xor e p)
  qed
qed

lemma inj_hash32: "inj hash32"
proof -
  have "hash32 = (\<lambda>a. (a XOR 0xb55a4f09) XOR drop_bit 16 a) \<circ> (\<lambda>a. (a + 0xfd7046c5) + push_bit 3 a)
    \<circ> (\<lambda>a. (a + 0xd3a2646c) XOR push_bit 9 a) \<circ> (\<lambda>a. (a + 0x165667b1) + push_bit 5 a)
    \<circ> (\<lambda>a. (a XOR 0xc761c23c) XOR drop_bit 19 a) \<circ> (\<lambda>a. (a + 0x7ed55d16) + push_bit 12 a)"
    by (rule ext) (simp only: hash32_def Let_def comp_apply)
  then show ?thesis
    by (rule ssubst) (intro inj_compose inj_xor_drop inj_add_push inj_xor_push zero_less_numeral)
qed

lemma inj_hash16: "inj hash16"
proof -
  have "hash16 = (\<lambda>a. (a XOR 0x4f09) XOR drop_bit 8 a) \<circ> (\<lambda>a. (a + 0x46c5) + push_bit 3 a)
    \<circ> (\<lambda>a. (a + 0x646c) XOR push_bit 7 a) \<circ> (\<lambda>a. (a + 0x67b1) + push_bit 5 a)
    \<circ> (\<lambda>a. (a XOR 0xc23c) XOR drop_bit 9 a) \<circ> (\<lambda>a. (a + 0x5d16) + push_bit 6 a)"
    by (rule ext) (simp only: hash16_def Let_def comp_apply)
  then show ?thesis
    by (rule ssubst) (intro inj_compose inj_xor_drop inj_add_push inj_xor_push zero_less_numeral)
qed

section \<open>Windows\<close>

lemma bit_shifted_n_hash32:
  "bit (shifted_n_hash32 x n) j \<longleftrightarrow>
     (if n \<le> j \<and> j < n + 32 then j < 64 \<and> bit (hash32 (ucast (drop_bit n x))) (j - n) else bit x j)"
proof -
  have m: "(0xFFFFFFFF :: u64) = mask 32" by (simp add: mask_eq_exp_minus_1)
  have "(ucast (drop_bit n x AND mask 32) :: u32) = ucast (drop_bit n x)"
    by (rule bit_eqI) (auto simp: bit_simps)
  then show ?thesis
    unfolding shifted_n_hash32_def Let_def m by (auto simp: bit_simps dest: bit_imp_le_length)
qed

lemma bit_shifted_n_hash16:
  "bit (shifted_n_hash16 x n) j \<longleftrightarrow>
     (if n \<le> j \<and> j < n + 16 then j < 64 \<and> bit (hash16 (ucast (drop_bit n x))) (j - n) else bit x j)"
proof -
  have m: "(0xFFFF :: u64) = mask 16" by (simp add: mask_eq_exp_minus_1)
  have "(ucast (drop_bit n x AND mask 16) :: u16) = ucast (drop_bit n x)"
    by (rule bit_eqI) (auto simp: bit_simps)
  then show ?thesis
    unfolding shifted_n_hash16_def Let_def m by (auto simp: bit_simps dest: bit_imp_le_length)
qed

text \<open>A permutation of a window inside of the word is a permutation of the word.\<close>

lemma inj_window:
  fixes f :: "u64 \<Rightarrow> u64" and h :: "'w :: len word \<Rightarrow> 'w word"
  assumes f: "\<And>x j. bit (f x) j \<longleftrightarrow>
      (if n \<le> j \<and> j < n + LENGTH('w) then j < 64 \<and> bit (h (ucast (drop_bit n x))) (j - n) else bit x j)"
    and h: "inj h" and n: "n + LENGTH('w) \<le> 64"
  shows "inj f"
proof (rule injI)
  fix x y assume e: "f x = f y"
  have "h (ucast (drop_bit n x)) = h (ucast (drop_bit n y))"
  proof (rule bit_word_eqI)
    fix i assume "i < LENGTH('w)"
    then show "bit (h (ucast (drop_bit n x))) i = bit (h (ucast (drop_bit n y))) i"
      using f [of x "n + i"] f [of y "n + i"] n e by simp
  qed
  then have w: "(ucast (drop_bit n x) :: 'w word) = ucast (drop_bit n y)" using h by (simp add: inj_eq)
  show "x = y"
  proof (rule bit_word_eqI)
    fix j assume j: "j < LENGTH(64)"
    show "bit x j = bit y j"
    proof (cases "n \<le> j \<and> j < n + LENGTH('w)")
      case True
      then have "j - n < LENGTH('w)" by linarith
      then show ?thesis
        using arg_cong [OF w, of "\<lambda>z. bit z (j - n)"] j True by (simp add: bit_simps)
    next
      case False
      then have "bit (f x) j = bit x j" "bit (f y) j = bit y j" unfolding f by (simp_all only: if_False)
      then show ?thesis using e by simp
    qed
  qed
qed

lemma inj_shifted_n_hash32: "n \<le> 32 \<Longrightarrow> inj (\<lambda>x. shifted_n_hash32 x n)"
  by (rule inj_window [OF _ inj_hash32, of _ n]) (simp_all add: bit_shifted_n_hash32)

lemma inj_shifted_n_hash16: "n \<le> 48 \<Longrightarrow> inj (\<lambda>x. shifted_n_hash16 x n)"
  by (rule inj_window [OF _ inj_hash16, of _ n]) (simp_all add: bit_shifted_n_hash16)

section \<open>Numbers of n bits\<close>

definition nbits :: "nat \<Rightarrow> u64 set" where
  "nbits n = {x. unat x < 2 ^ n}"

lemma nbits_iff: "x \<in> nbits n \<longleftrightarrow> (\<forall>j\<ge>n. \<not> bit x j)"
proof -
  have "x \<in> nbits n \<longleftrightarrow> take_bit n (unat x) = unat x"
    by (simp add: nbits_def take_bit_nat_eq_self_iff)
  also have "\<dots> \<longleftrightarrow> take_bit n x = x"
    by (metis unsigned_take_bit_eq word_unat_eq_iff)
  also have "\<dots> \<longleftrightarrow> (\<forall>j\<ge>n. \<not> bit x j)"
  proof
    assume "take_bit n x = x"
    then show "\<forall>j\<ge>n. \<not> bit x j" by (metis bit_take_bit_iff not_less)
  next
    assume high: "\<forall>j\<ge>n. \<not> bit x j"
    show "take_bit n x = x"
    proof (rule bit_word_eqI)
      fix j show "bit (take_bit n x) j = bit x j"
        using high by (cases "n \<le> j") (simp_all add: bit_take_bit_iff)
    qed
  qed
  finally show ?thesis .
qed

lemma shifted_n_hash32_nbits:
  "x \<in> nbits m \<Longrightarrow> n + 32 \<le> m \<Longrightarrow> shifted_n_hash32 x n \<in> nbits m"
  by (simp add: nbits_iff bit_shifted_n_hash32)

lemma shifted_n_hash16_nbits:
  "x \<in> nbits m \<Longrightarrow> n + 16 \<le> m \<Longrightarrow> shifted_n_hash16 x n \<in> nbits m"
  by (simp add: nbits_iff bit_shifted_n_hash16)

lemma bij_nbits:
  assumes "inj_on f (nbits n)" and "\<And>x. x \<in> nbits n \<Longrightarrow> f x \<in> nbits n"
  shows "bij_betw f (nbits n) (nbits n)"
proof -
  have "f ` nbits n \<subseteq> nbits n" using assms(2) by blast
  moreover have "finite (nbits n)" by simp
  ultimately have "f ` nbits n = nbits n" using assms(1) by (metis endo_inj_surj)
  with assms(1) show ?thesis by (simp add: bij_betw_def)
qed

lemma bij_fold:
  assumes "\<And>i. i \<in> set is \<Longrightarrow> bij_betw (f i) A A"
  shows "bij_betw (fold f is) A A"
  using assms
proof (induction "is")
  case (Cons i "is")
  have "bij_betw (fold f is \<circ> f i) A A" by (rule bij_betw_trans) (use Cons in auto)
  then show ?case by (simp only: fold_Cons)
qed simp

lemma bij_shifted_n_hash32: "n + 32 \<le> m \<Longrightarrow> m \<le> 64 \<Longrightarrow> bij_betw (\<lambda>x. shifted_n_hash32 x n) (nbits m) (nbits m)"
  by (rule bij_nbits [OF inj_on_subset [OF inj_shifted_n_hash32]]) (simp_all add: shifted_n_hash32_nbits)

lemma bij_shifted_n_hash16: "n + 16 \<le> m \<Longrightarrow> m \<le> 64 \<Longrightarrow> bij_betw (\<lambda>x. shifted_n_hash16 x n) (nbits m) (nbits m)"
  by (rule bij_nbits [OF inj_on_subset [OF inj_shifted_n_hash16]]) (simp_all add: shifted_n_hash16_nbits)

lemma bij_hash32_low: "bij_betw (\<lambda>x :: u64. ucast (hash32 (ucast x))) (nbits 32) (nbits 32)"
proof (rule bij_nbits)
  show "inj_on (\<lambda>x :: u64. ucast (hash32 (ucast x)) :: u64) (nbits 32)"
  proof (rule inj_onI)
    fix x y :: u64
    assume x: "x \<in> nbits 32" and y: "y \<in> nbits 32"
      and e: "(ucast (hash32 (ucast x)) :: u64) = ucast (hash32 (ucast y))"
    have "hash32 (ucast x) = hash32 (ucast y)"
    proof (rule bit_word_eqI)
      fix j assume "j < LENGTH(32)"
      then show "bit (hash32 (ucast x)) j = bit (hash32 (ucast y)) j"
        using arg_cong [OF e, of "\<lambda>z. bit z j"] by (simp add: bit_simps)
    qed
    then have w: "(ucast x :: u32) = ucast y" using inj_hash32 by (simp add: inj_eq)
    show "x = y"
    proof (rule bit_word_eqI)
      fix j
      show "bit x j = bit y j"
        using arg_cong [OF w, of "\<lambda>z. bit z j"] x y
        by (cases "j < 32") (simp_all add: bit_simps nbits_iff)
    qed
  qed
qed (auto simp: nbits_iff bit_simps dest: bit_imp_le_length)

lemma hash_nbits_bij:
  assumes n: "16 < n" "n \<le> 64"
  shows "\<exists>f. (\<forall>x. hash_nbits x n = Inr (f x)) \<and> bij_betw f (nbits n) (nbits n)"
proof -
  have updown: "bij_betw (fold g (rev is) \<circ> fold g is) A A"
    if "\<And>i. i \<in> set is \<Longrightarrow> bij_betw (g i) A A" for g :: "nat \<Rightarrow> u64 \<Rightarrow> u64" and "is" A
    by (rule bij_betw_trans; rule bij_fold) (use that in auto)
  consider "n = 32" | "32 < n" | "n < 32" by linarith
  then show ?thesis
  proof cases
    case 1
    then show ?thesis using bij_hash32_low by (intro exI [of _ "\<lambda>x. ucast (hash32 (ucast x))"] conjI)
        (simp_all only: hash_nbits_def if_True simp_thms)
  next
    case 2
    let ?g = "\<lambda>i x. shifted_n_hash32 x i" and ?is = "[0..<Suc (n - 32)]"
    have "bij_betw (fold ?g (rev ?is) \<circ> fold ?g ?is) (nbits n) (nbits n)"
      by (rule updown, rule bij_shifted_n_hash32) (use n 2 in auto)
    moreover have "hash_nbits x n = Inr ((fold ?g (rev ?is) \<circ> fold ?g ?is) x)" for x
      using n 2 by (simp add: hash_nbits_def Let_def del: upt_Suc)
    ultimately show ?thesis by blast
  next
    case 3
    let ?g = "\<lambda>i x. shifted_n_hash16 x i" and ?is = "[0..<Suc (n - 16)]"
    have "bij_betw (fold ?g (rev ?is) \<circ> fold ?g ?is) (nbits n) (nbits n)"
      by (rule updown, rule bij_shifted_n_hash16) (use n 3 in auto)
    moreover have "hash_nbits x n = Inr ((fold ?g (rev ?is) \<circ> fold ?g ?is) x)" for x
      using n 3 by (simp add: hash_nbits_def Let_def del: upt_Suc)
    ultimately show ?thesis by blast
  qed
qed

text \<open>
  C35: The hash that scrambles the vertices is a permutation. For 17 to 64 bits \<open>hash_nbits\<close>
  returns, maps numbers of that many bits to numbers of that many bits, and takes every one
  of them exactly once: scrambled graphs are the generated ones up to the names of the
  vertices. For 16 bits and less its assertion fails.
\<close>

theorem hash_nbits_permutes:
  "(n \<le> 16 \<longrightarrow> hash_nbits x n = Inl (ASSERT_FAIL ''Hashing less than 16bits is not supported''))
   \<and> (16 < n \<and> n \<le> 64 \<longrightarrow>
        (\<exists>f. (\<forall>x. hash_nbits x n = Inr (f x)) \<and> bij_betw f {x. unat x < 2 ^ n} {x. unat x < 2 ^ n}))"
  using hash_nbits_bij [of n] by (simp add: hash_nbits_def nbits_def)

theorem hash_nbits_permutes_witness:
  "\<exists>f. (\<forall>x. hash_nbits x 17 = Inr (f x)) \<and> bij_betw f {x. unat x < 2 ^ 17} {x. unat x < 2 ^ 17}"
  using hash_nbits_permutes [of 17] by simp

end
