(* ===== verification/Rmat.thy ===== *)
theory Rmat
  imports Rmat_Hash
begin

text \<open>
  The generator of random graphs of
  \<^verbatim>\<open>examples/bfs/rmat_graph_generator/rmat_edge_generator.hpp\<close> and the division of the edges
  among the threads in \<^verbatim>\<open>generate_edge_list.cpp\<close>. The arithmetic in double precision, the
  random engine and its distribution are arguments of the model: nothing that is proved
  depends on them, rounding and values that are no numbers included.
\<close>

section \<open>The generator\<close>

record ('d, 'g) numerics =
  plus_d :: "'d \<Rightarrow> 'd \<Rightarrow> 'd"
  minus_d :: "'d \<Rightarrow> 'd \<Rightarrow> 'd"
  times_d :: "'d \<Rightarrow> 'd \<Rightarrow> 'd"
  divide_d :: "'d \<Rightarrow> 'd \<Rightarrow> 'd"
  less_d :: "'d \<Rightarrow> 'd \<Rightarrow> bool"
  ge_d :: "'d \<Rightarrow> 'd \<Rightarrow> bool"
  lit_0_9 :: 'd
  lit_0_2 :: 'd
  lit_1 :: 'd
  mt19937 :: "u64 \<Rightarrow> 'g"
  dis :: "'g \<Rightarrow> 'd \<times> 'g"

type_synonym edge_type = "u64 \<times> u64"

record ('d, 'g) rmat_edge_generator =
  m_seed :: u64
  m_rng :: 'g
  m_vertex_scale :: u64
  m_edge_count :: u64
  m_scramble :: bool
  m_undirected :: bool
  m_rmat_a :: 'd
  m_rmat_b :: 'd
  m_rmat_c :: 'd
  m_rmat_d :: 'd

text \<open>The constructor, and the size that the program asked for.\<close>

definition mk_generator ::
  "('d, 'g) numerics \<Rightarrow> u64 \<Rightarrow> u64 \<Rightarrow> u64 \<Rightarrow> 'd \<Rightarrow> 'd \<Rightarrow> 'd \<Rightarrow> 'd \<Rightarrow> bool \<Rightarrow> bool
     \<Rightarrow> ('d, 'g) rmat_edge_generator" where
  "mk_generator N sd vertex_scale edge_count a b c d scramble undirected =
     \<lparr>m_seed = sd, m_rng = mt19937 N sd, m_vertex_scale = vertex_scale,
      m_edge_count = edge_count, m_scramble = scramble, m_undirected = undirected,
      m_rmat_a = a, m_rmat_b = b, m_rmat_c = c, m_rmat_d = d\<rparr>"

definition size_gen :: "('d, 'g) rmat_edge_generator \<Rightarrow> u64" where
  "size_gen gen = m_edge_count gen"

text \<open>The local variables of \<open>generate_edge\<close>.\<close>

record ('d, 'g) rmat_locals =
  loc_rng :: 'g
  loc_u :: u64
  loc_v :: u64
  loc_step :: u64
  loc_a :: 'd
  loc_b :: 'd
  loc_c :: 'd
  loc_d :: 'd

text \<open>The choice of a quadrant: which of the two numbers the step is added to.\<close>

definition choose_quadrant ::
  "('d, 'g) numerics \<Rightarrow> 'd \<Rightarrow> ('d, 'g) rmat_locals \<Rightarrow> ('d, 'g) rmat_locals" where
  "choose_quadrant N p l =
     (let a = loc_a l; ab = plus_d N (loc_a l) (loc_b l); abc = plus_d N ab (loc_c l);
          step = loc_step l
      in if less_d N p a then l
         else if ge_d N p a \<and> less_d N p ab then l\<lparr>loc_v := loc_v l + step\<rparr>
         else if ge_d N p ab \<and> less_d N p abc then l\<lparr>loc_u := loc_u l + step\<rparr>
         else l\<lparr>loc_u := loc_u l + step, loc_v := loc_v l + step\<rparr>)"

text \<open>One factor \<open>0.9 + 0.2 * dis(rng)\<close>.\<close>

definition noise :: "('d, 'g) numerics \<Rightarrow> 'g \<Rightarrow> 'd \<times> 'g" where
  "noise N g = (let (r, g') = dis N g in (plus_d N (lit_0_9 N) (times_d N (lit_0_2 N) r), g'))"

definition rmat_step ::
  "('d, 'g) numerics \<Rightarrow> ('d, 'g) rmat_locals \<Rightarrow> ('d, 'g) rmat_locals" where
  "rmat_step N l =
     (let (p, g) = dis N (loc_rng l);
          l1 = choose_quadrant N p l;
          step = loc_step l1 div 2;
          (fa, g) = noise N g; a = times_d N (loc_a l1) fa;
          (fb, g) = noise N g; b = times_d N (loc_b l1) fb;
          (fc, g) = noise N g; c = times_d N (loc_c l1) fc;
          (fd, g) = noise N g; d = times_d N (loc_d l1) fd;
          S = plus_d N (plus_d N (plus_d N a b) c) d;
          a = divide_d N a S; b = divide_d N b S; c = divide_d N c S;
          d = minus_d N (minus_d N (minus_d N (lit_1 N) a) b) c
      in l1\<lparr>loc_rng := g, loc_step := step, loc_a := a, loc_b := b, loc_c := c, loc_d := d\<rparr>)"

definition generate_edge ::
  "('d, 'g) numerics \<Rightarrow> ('d, 'g) rmat_edge_generator \<Rightarrow> 'g \<Rightarrow> (edge_type \<times> 'g) result" where
  "generate_edge N gen rng =
     (if 64 \<le> m_vertex_scale gen then Inl (UNDEFINED ''shift by the width of the type'')
      else
        let scale = unat (m_vertex_scale gen);
            l0 = \<lparr>loc_rng = rng, loc_u = 0, loc_v = 0, loc_step = push_bit scale 1 div 2,
                  loc_a = m_rmat_a gen, loc_b = m_rmat_b gen, loc_c = m_rmat_c gen,
                  loc_d = m_rmat_d gen\<rparr>;
            l = (rmat_step N ^^ scale) l0
        in if m_scramble gen then
             bindR (hash_nbits (loc_u l) scale) (\<lambda>u.
             bindR (hash_nbits (loc_v l) scale) (\<lambda>v. Inr ((u, v), loc_rng l)))
           else Inr ((loc_u l, loc_v l), loc_rng l))"

text \<open>The overload that draws from the engine of the generator itself.\<close>

definition generate_edge_self ::
  "('d, 'g) numerics \<Rightarrow> ('d, 'g) rmat_edge_generator
     \<Rightarrow> (edge_type \<times> ('d, 'g) rmat_edge_generator) result" where
  "generate_edge_self N gen =
     bindR (generate_edge N gen (m_rng gen)) (\<lambda>(e, g). Inr (e, gen\<lparr>m_rng := g\<rparr>))"

definition max_vertex_id :: "('d, 'g) rmat_edge_generator \<Rightarrow> u64 result" where
  "max_vertex_id gen =
     (if 64 \<le> m_vertex_scale gen then Inl (UNDEFINED ''shift by the width of the type'')
      else Inr (push_bit (unat (m_vertex_scale gen)) 1 - 1))"

section \<open>The iterator\<close>

text \<open>\<open>m_current\<close> is \<open>None\<close> until the first edge is generated.\<close>

record 'g input_iterator_type =
  it_rng :: 'g
  it_count :: u64
  it_current :: "edge_type option"
  it_make_undirected :: bool

definition check_current ::
  "('d, 'g) rmat_edge_generator \<Rightarrow> 'g input_iterator_type \<Rightarrow> 'g input_iterator_type result" where
  "check_current gen it =
     bindR (max_vertex_id gen) (\<lambda>top.
       case it_current it of
         None \<Rightarrow> Inl (UNDEFINED ''uninitialised edge'')
       | Some (u, v) \<Rightarrow> if u \<le> top \<and> v \<le> top then Inr it else Inl (ASSERT_FAIL ''max_vertex_id''))"

definition get_next ::
  "('d, 'g) numerics \<Rightarrow> ('d, 'g) rmat_edge_generator \<Rightarrow> 'g input_iterator_type
     \<Rightarrow> 'g input_iterator_type result" where
  "get_next N gen it =
     (if m_undirected gen \<and> it_make_undirected it then
        check_current gen
          (it\<lparr>it_current := map_option prod.swap (it_current it), it_make_undirected := False\<rparr>)
      else
        bindR (generate_edge N gen (it_rng it)) (\<lambda>(e, g).
          check_current gen
            (it\<lparr>it_rng := g, it_current := Some e, it_count := it_count it + 1,
               it_make_undirected := True\<rparr>)))"

definition mk_iterator ::
  "('d, 'g) numerics \<Rightarrow> ('d, 'g) rmat_edge_generator \<Rightarrow> u64 \<Rightarrow> 'g input_iterator_type result" where
  "mk_iterator N gen count =
     (let it = \<lparr>it_rng = mt19937 N (m_seed gen), it_count = count, it_current = None,
                it_make_undirected = False\<rparr>
      in if count = 0 then bindR (get_next N gen it) (\<lambda>it. Inr (it\<lparr>it_count := 0\<rparr>)) else Inr it)"

definition begin_it where "begin_it N gen = mk_iterator N gen 0"

definition end_it where "end_it N gen = mk_iterator N gen (m_edge_count gen)"

definition is_equal :: "'g input_iterator_type \<Rightarrow> 'g input_iterator_type \<Rightarrow> bool" where
  "is_equal x y \<longleftrightarrow> it_count x = it_count y"

text \<open>\<open>operator*\<close> and the two increments; the postfix one returns a copy of the old iterator.\<close>

definition deref :: "'g input_iterator_type \<Rightarrow> edge_type result" where
  "deref it = (case it_current it of
       None \<Rightarrow> Inl (UNDEFINED ''uninitialised edge'')
     | Some e \<Rightarrow> Inr e)"

definition pre_inc ::
  "('d, 'g) numerics \<Rightarrow> ('d, 'g) rmat_edge_generator \<Rightarrow> 'g input_iterator_type
     \<Rightarrow> 'g input_iterator_type result" where
  "pre_inc N gen it = get_next N gen it"

definition post_inc ::
  "('d, 'g) numerics \<Rightarrow> ('d, 'g) rmat_edge_generator \<Rightarrow> 'g input_iterator_type
     \<Rightarrow> ('g input_iterator_type \<times> 'g input_iterator_type) result" where
  "post_inc N gen it = bindR (get_next N gen it) (\<lambda>it'. Inr (it, it'))"

lemma get_next_count:
  assumes "get_next N gen it = Inr it'"
  shows "it_count it' = it_count it + of_bool (\<not> (m_undirected gen \<and> it_make_undirected it))"
    and "it_make_undirected it' \<longleftrightarrow> \<not> (m_undirected gen \<and> it_make_undirected it)"
proof -
  have chk: "x' = x" if "check_current gen x = Inr x'" for x x'
    using that by (auto simp: check_current_def bindR_eq_Inr_iff split: option.splits if_splits)
  show "it_count it' = it_count it + of_bool (\<not> (m_undirected gen \<and> it_make_undirected it))"
    and "it_make_undirected it' \<longleftrightarrow> \<not> (m_undirected gen \<and> it_make_undirected it)"
    using assms by (auto simp: get_next_def bindR_eq_Inr_iff split: if_splits dest!: chk)
qed

lemma unat_minus_next:
  assumes "c \<noteq> (n :: u64)"
  shows "unat (n - (c + 1)) + 1 = unat (n - c)"
proof -
  have "n - c \<noteq> 0" using assms by simp
  then have "unat (n - c - 1) = unat (n - c) - 1" and "0 < unat (n - c)"
    by (rule unat_minus_one, simp add: unat_gt_0)
  then show ?thesis by (simp add: diff_diff_add)
qed

text \<open>The loop over all edges, which ends for every count of edges.\<close>

function edges_until ::
  "('d, 'g) numerics \<Rightarrow> ('d, 'g) rmat_edge_generator \<Rightarrow> 'g input_iterator_type \<Rightarrow> 'g input_iterator_type
     \<Rightarrow> edge_type list result" where
  "edges_until N gen it it_end =
     (if is_equal it it_end then Inr []
      else case deref it of
          Inl err \<Rightarrow> Inl err
        | Inr e \<Rightarrow>
            (case pre_inc N gen it of
               Inl err \<Rightarrow> Inl err
             | Inr it' \<Rightarrow> bindR (edges_until N gen it' it_end) (\<lambda>es. Inr (e # es))))"
  by pat_completeness auto
termination
proof (relation "measure (\<lambda>(N, gen, it, it_end). 2 * unat (it_count it_end - it_count it)
    + of_bool (m_undirected gen \<and> it_make_undirected it))", goal_cases)
  case (2 N gen it it_end e it')
  have "it_count it \<noteq> it_count it_end" using 2(1) by (simp add: is_equal_def)
  from unat_minus_next [OF this] get_next_count [OF 2(3) [unfolded pre_inc_def]]
  show ?case by (cases "m_undirected gen \<and> it_make_undirected it") auto
qed simp

declare edges_until.simps [simp del]

definition all_edges :: "('d, 'g) numerics \<Rightarrow> ('d, 'g) rmat_edge_generator \<Rightarrow> edge_type list result" where
  "all_edges N gen = bindR (begin_it N gen) (\<lambda>it. bindR (end_it N gen) (\<lambda>it_end. edges_until N gen it it_end))"

text \<open>
  The loop of \<open>sanity_max_vertex_id\<close>, which does not move the iterator. The result of the
  function is the value that it prints.
\<close>

partial_function (option) sanity_loop ::
  "'g input_iterator_type \<Rightarrow> 'g input_iterator_type \<Rightarrow> u64 \<Rightarrow> u64 result option" where
  "sanity_loop it it_end value =
     (if is_equal it it_end then Some (Inr value)
      else case deref it of
          Inl err \<Rightarrow> Some (Inl err)
        | Inr e \<Rightarrow> sanity_loop it it_end (max (max value (fst e)) (snd e)))"

definition sanity_max_vertex_id ::
  "('d, 'g) numerics \<Rightarrow> ('d, 'g) rmat_edge_generator \<Rightarrow> u64 result option" where
  "sanity_max_vertex_id N gen =
     (case bindR (begin_it N gen) (\<lambda>it. bindR (end_it N gen) (\<lambda>it_end. Inr (it, it_end))) of
        Inl err \<Rightarrow> Some (Inl err)
      | Inr (it, it_end) \<Rightarrow>
          map_option (\<lambda>r. bindR r (\<lambda>value. bindR (max_vertex_id gen) (\<lambda>top.
              if top = value then Inr value else Inl (ASSERT_FAIL ''max_vertex_id''))))
            (sanity_loop it it_end 0))"

section \<open>Lemmas\<close>

text \<open>With \<open>k\<close> rounds to go there is room for \<open>k\<close> bits.\<close>

definition fits :: "nat \<Rightarrow> nat \<Rightarrow> ('d, 'g) rmat_locals \<Rightarrow> bool" where
  "fits s k l \<longleftrightarrow> unat (loc_u l) + 2 ^ k \<le> 2 ^ s \<and> unat (loc_v l) + 2 ^ k \<le> 2 ^ s
     \<and> unat (loc_step l) = 2 ^ k div 2"

lemma add_step:
  assumes "unat u + 2 ^ Suc k \<le> 2 ^ s" and "unat step = 2 ^ k" and "s < 64"
  shows "unat (u + step :: u64) + 2 ^ k \<le> 2 ^ s" and "unat u + 2 ^ k \<le> 2 ^ s"
proof -
  have "(2 :: nat) ^ s \<le> 2 ^ 63" using assms(3) by (intro power_increasing) auto
  then have "unat u + unat step < 2 ^ 64" using assms by simp
  then have "unat (u + step) = unat u + unat step" using unat_add_lem [of u step] by simp
  then show "unat (u + step) + 2 ^ k \<le> 2 ^ s" using assms by simp
  show "unat u + 2 ^ k \<le> 2 ^ s" using assms by simp
qed

lemma choose_quadrant_room:
  assumes "fits s (Suc k) l" and "s < 64"
  shows "unat (loc_u (choose_quadrant N p l)) + 2 ^ k \<le> 2 ^ s"
    and "unat (loc_v (choose_quadrant N p l)) + 2 ^ k \<le> 2 ^ s"
    and "loc_step (choose_quadrant N p l) = loc_step l"
  using assms add_step [of "loc_u l" k s "loc_step l"] add_step [of "loc_v l" k s "loc_step l"]
  by (simp_all add: fits_def choose_quadrant_def Let_def)

lemma rmat_step_fits:
  assumes "fits s (Suc k) l" and "s < 64"
  shows "fits s k (rmat_step N l)"
proof -
  let ?p = "fst (dis N (loc_rng l))"
  have uv: "loc_u (rmat_step N l) = loc_u (choose_quadrant N ?p l)"
    "loc_v (rmat_step N l) = loc_v (choose_quadrant N ?p l)"
    "loc_step (rmat_step N l) = loc_step (choose_quadrant N ?p l) div 2"
    by (simp_all add: rmat_step_def Let_def split_beta)
  have "unat (loc_step l div 2) = 2 ^ k div 2" using assms(1) by (simp add: fits_def unat_div_distrib)
  then show ?thesis
    using choose_quadrant_room [OF assms, of N ?p] uv by (simp add: fits_def)
qed

lemma rmat_steps_fit:
  assumes "fits s (k + j) l" and "s < 64"
  shows "fits s k ((rmat_step N ^^ j) l)"
  using assms(1) by (induction j arbitrary: l)
    (simp_all add: funpow_Suc_right rmat_step_fits assms(2) del: funpow.simps)

definition scale_ok :: "('d, 'g) rmat_edge_generator \<Rightarrow> bool" where
  "scale_ok gen \<longleftrightarrow> m_vertex_scale gen < 64 \<and> (m_scramble gen \<longrightarrow> 16 < m_vertex_scale gen)"

definition edge_fits :: "('d, 'g) rmat_edge_generator \<Rightarrow> edge_type \<Rightarrow> bool" where
  "edge_fits gen e \<longleftrightarrow> unat (fst e) < 2 ^ unat (m_vertex_scale gen) \<and> unat (snd e) < 2 ^ unat (m_vertex_scale gen)"

lemma hash_nbits_fits:
  assumes "16 < n" "n \<le> 64" "unat x < 2 ^ n"
  shows "\<exists>y. hash_nbits x n = Inr y \<and> unat y < 2 ^ n"
proof -
  obtain f where "\<forall>x. hash_nbits x n = Inr (f x)" "bij_betw f (nbits n) (nbits n)"
    using hash_nbits_bij [OF assms(1,2)] by blast
  then show ?thesis using assms(3) by (auto simp: bij_betw_def nbits_def)
qed

lemma unat_bit_u64:
  assumes "s < 64"
  shows "unat (push_bit s (1 :: u64)) = 2 ^ s"
proof -
  have "(2 :: nat) ^ s < 2 ^ 64" using assms by (intro power_strict_increasing) simp_all
  from unat_of_nat_u64 [OF this] show ?thesis by simp
qed

lemma generate_edge_ok:
  assumes "scale_ok gen"
  shows "\<exists>e g'. generate_edge N gen g = Inr (e, g') \<and> edge_fits gen e"
proof -
  let ?s = "unat (m_vertex_scale gen)"
  have s: "?s < 64" "\<not> 64 \<le> m_vertex_scale gen"
    using assms by (simp_all add: scale_ok_def word_less_nat_alt not_le)
  let ?l0 = "\<lparr>loc_rng = g, loc_u = 0, loc_v = 0, loc_step = push_bit ?s 1 div 2,
                  loc_a = m_rmat_a gen, loc_b = m_rmat_b gen, loc_c = m_rmat_c gen,
                  loc_d = m_rmat_d gen\<rparr>"
  have "unat (push_bit ?s (1 :: u64) div 2) = 2 ^ ?s div 2"
    using unat_bit_u64 [OF s(1)] by (simp add: unat_div_distrib del: push_bit_of_1)
  then have "fits ?s (0 + ?s) ?l0" by (simp add: fits_def)
  from rmat_steps_fit [OF this s(1), of N] have "fits ?s 0 ((rmat_step N ^^ ?s) ?l0)" .
  then obtain l where l: "l = (rmat_step N ^^ ?s) ?l0" and u: "unat (loc_u l) < 2 ^ ?s"
    and v: "unat (loc_v l) < 2 ^ ?s"
    by (simp add: fits_def Suc_le_eq del: push_bit_of_1)
  show ?thesis
  proof (cases "m_scramble gen")
    case True
    then have s16: "16 < ?s" using assms by (simp add: scale_ok_def word_less_nat_alt)
    obtain x y where "hash_nbits (loc_u l) ?s = Inr x" "unat x < 2 ^ ?s"
      "hash_nbits (loc_v l) ?s = Inr y" "unat y < 2 ^ ?s"
      using hash_nbits_fits [OF s16 less_imp_le [OF s(1)]] u v by blast
    then show ?thesis using True s(2) l
      by (simp add: generate_edge_def Let_def edge_fits_def del: push_bit_of_1)
  next
    case False
    then show ?thesis using s(2) l u v
      by (simp add: generate_edge_def Let_def edge_fits_def del: push_bit_of_1)
  qed
qed

lemma check_current_ok:
  assumes "scale_ok gen" and "it_current it = Some e" and "edge_fits gen e"
  shows "check_current gen it = Inr it"
proof -
  let ?s = "unat (m_vertex_scale gen)"
  have s: "?s < 64" "\<not> 64 \<le> m_vertex_scale gen"
    using assms(1) by (simp_all add: scale_ok_def word_less_nat_alt not_le)
  note unat_bit_u64 [OF s(1)]
  then have "unat (push_bit ?s (1 :: u64) - 1) = 2 ^ ?s - 1"
    by (metis unat_minus_one unat_0 power_not_zero zero_neq_numeral)
  then show ?thesis using assms(2,3) s(2)
    by (cases e) (auto simp: check_current_def max_vertex_id_def edge_fits_def word_le_nat_alt)
qed

text \<open>What the iterator delivers for the edges that are generated.\<close>

definition directions :: "bool \<Rightarrow> edge_type list \<Rightarrow> edge_type list" where
  "directions both es = (if both then concat (map (\<lambda>(u, v). [(u, v), (v, u)]) es) else es)"

lemma length_directions: "length (directions both es) = (if both then 2 else 1) * length es"
  by (induction es) (auto simp: directions_def split: prod.splits)

lemma directions_fit:
  "\<forall>e\<in>set es. edge_fits gen e \<Longrightarrow> \<forall>e\<in>set (directions both es). edge_fits gen e"
  by (auto simp: directions_def edge_fits_def split: if_splits)

text \<open>An iterator that has just generated its edge.\<close>

definition fresh :: "('d, 'g) rmat_edge_generator \<Rightarrow> 'g input_iterator_type \<Rightarrow> bool" where
  "fresh gen it \<longleftrightarrow> (\<exists>e. it_current it = Some e \<and> edge_fits gen e) \<and> it_make_undirected it"

lemma get_next_generates:
  assumes ok: "scale_ok gen" and g: "\<not> (m_undirected gen \<and> it_make_undirected it)"
  shows "\<exists>it'. get_next N gen it = Inr it' \<and> fresh gen it' \<and> it_count it' = it_count it + 1"
proof -
  obtain e g' where "generate_edge N gen (it_rng it) = Inr (e, g')" "edge_fits gen e"
    using generate_edge_ok [OF ok, of N "it_rng it"] by blast
  then show ?thesis unfolding get_next_def if_not_P [OF g] using ok
    by (cases e) (simp add: fresh_def check_current_ok [where e = e])
qed

lemma get_next_reverses:
  assumes "scale_ok gen" and "m_undirected gen" "it_make_undirected it"
    and "it_current it = Some (u, v)" and "edge_fits gen (u, v)"
  shows "get_next N gen it = Inr (it\<lparr>it_current := Some (v, u), it_make_undirected := False\<rparr>)"
  using assms by (simp add: get_next_def edge_fits_def check_current_ok [where e = "(v, u)"])

lemma edges_until_ok:
  assumes ok: "scale_ok gen" and "fresh gen it"
  shows "\<exists>es. edges_until N gen it it_end = Inr (directions (m_undirected gen) es)
       \<and> length es = unat (it_count it_end - it_count it) \<and> (\<forall>e\<in>set es. edge_fits gen e)"
  using assms(2)
proof (induction "unat (it_count it_end - it_count it)" arbitrary: it)
  case 0
  then have "is_equal it it_end" by (simp add: is_equal_def unat_eq_zero)
  then show ?case by (intro exI [of _ "[]"]) (simp add: edges_until.simps [of N gen it] directions_def is_equal_def)
next
  case (Suc k)
  then have ne: "it_count it \<noteq> it_count it_end" by auto
  obtain u v where e: "it_current it = Some (u, v)" "edge_fits gen (u, v)" "it_make_undirected it"
    using Suc.prems by (auto simp: fresh_def)
  have rest: "\<exists>es. edges_until N gen it2 it_end = Inr (directions (m_undirected gen) es)
       \<and> length es = k \<and> (\<forall>e\<in>set es. edge_fits gen e)"
    if "fresh gen it2" and c: "it_count it2 = it_count it + 1" for it2
  proof -
    have "k = unat (it_count it_end - it_count it2)"
      using Suc.hyps(2) unat_minus_next [OF ne] c by simp
    from Suc.hyps(1) [OF this that(1)] show ?thesis using \<open>k = _\<close> by simp
  qed
  have start: "edges_until N gen it it_end
      = (case get_next N gen it of Inl err \<Rightarrow> Inl err
         | Inr it' \<Rightarrow> bindR (edges_until N gen it' it_end) (\<lambda>es. Inr ((u, v) # es)))"
    using ne e by (subst edges_until.simps) (simp add: is_equal_def deref_def pre_inc_def)
  show ?case
  proof (cases "m_undirected gen")
    case True
    let ?it1 = "it\<lparr>it_current := Some (v, u), it_make_undirected := False\<rparr>"
    obtain it2 where n2: "get_next N gen ?it1 = Inr it2" "fresh gen it2" "it_count it2 = it_count ?it1 + 1"
      using get_next_generates [OF ok, of ?it1] by auto
    obtain es where es: "edges_until N gen it2 it_end = Inr (directions True es)" "length es = k"
      "\<forall>e\<in>set es. edge_fits gen e"
      using rest [OF n2(2)] n2(3) True by auto
    have "edges_until N gen ?it1 it_end = Inr ((v, u) # directions True es)"
      using ne n2(1) es(1) by (subst edges_until.simps) (simp add: is_equal_def deref_def pre_inc_def)
    then have "edges_until N gen it it_end = Inr (directions True ((u, v) # es))"
      using start get_next_reverses [OF ok True e(3,1,2)] by (simp add: directions_def)
    then show ?thesis using True es e(2) Suc.hyps(2) by (intro exI [of _ "(u, v) # es"]) simp
  next
    case False
    obtain it2 where n2: "get_next N gen it = Inr it2" "fresh gen it2" "it_count it2 = it_count it + 1"
      using get_next_generates [OF ok, of it] False by auto
    obtain es where es: "edges_until N gen it2 it_end = Inr (directions False es)" "length es = k"
      "\<forall>e\<in>set es. edge_fits gen e"
      using rest [OF n2(2,3)] False by auto
    then have "edges_until N gen it it_end = Inr (directions False ((u, v) # es))"
      using start n2(1) by (simp add: directions_def)
    then show ?thesis using False es e(2) Suc.hyps(2) by (intro exI [of _ "(u, v) # es"]) simp
  qed
qed

lemma mk_iterator_ok:
  assumes ok: "scale_ok gen"
  shows "\<exists>it. mk_iterator N gen c = Inr it \<and> it_count it = c \<and> (c = 0 \<longrightarrow> fresh gen it)"
proof (cases "c = 0")
  case True
  let ?it = "\<lparr>it_rng = mt19937 N (m_seed gen), it_count = 0, it_current = None, it_make_undirected = False\<rparr>"
  obtain it' where "get_next N gen ?it = Inr it'" "fresh gen it'"
    using get_next_generates [OF ok, of ?it N] by auto
  then show ?thesis using True by (simp add: mk_iterator_def fresh_def)
qed (simp add: mk_iterator_def)

lemma all_edges_ok:
  assumes ok: "scale_ok gen"
  shows "\<exists>es. all_edges N gen = Inr (directions (m_undirected gen) es)
       \<and> length es = unat (m_edge_count gen)
       \<and> (\<forall>e\<in>set (directions (m_undirected gen) es). edge_fits gen e)"
proof -
  obtain it where it: "mk_iterator N gen 0 = Inr it" "it_count it = 0" "fresh gen it"
    using mk_iterator_ok [OF ok, of N 0] by auto
  obtain it_end where en: "mk_iterator N gen (m_edge_count gen) = Inr it_end" "it_count it_end = m_edge_count gen"
    using mk_iterator_ok [OF ok, of N "m_edge_count gen"] by blast
  obtain es where "edges_until N gen it it_end = Inr (directions (m_undirected gen) es)"
    "length es = unat (m_edge_count gen)" "\<forall>e\<in>set es. edge_fits gen e"
    using edges_until_ok [OF ok it(3), of N it_end] it(2) en(2) by auto
  then show ?thesis using it(1) en(1) directions_fit [of es gen "m_undirected gen"]
    by (intro exI [of _ es]) (simp add: all_edges_def begin_it_def end_it_def)
qed

text \<open>The check of the largest vertex returns only where there is no edge to look at.\<close>

lemma sanity_loop_returns:
  "sanity_loop it it_end value = Some r \<Longrightarrow> is_equal it it_end \<or> (\<exists>err. deref it = Inl err)"
proof (erule sanity_loop.raw_induct [rotated])
  fix f it it_end v r
  assume IH: "\<And>it it_end v r. f it it_end v = Some r \<Longrightarrow> is_equal it it_end \<or> (\<exists>err. deref it = Inl err)"
    and run: "(if is_equal it it_end then Some (Inr v)
      else case deref it of Inl err \<Rightarrow> Some (Inl err)
        | Inr e \<Rightarrow> f it it_end (max (max v (fst e)) (snd e))) = Some r"
  show "is_equal it it_end \<or> (\<exists>err. deref it = Inl err)"
    using run IH [of it it_end] by (cases "deref it") (auto split: if_splits)
qed

lemma sanity_max_vertex_id_stuck:
  assumes ok: "scale_ok gen" and "m_edge_count gen \<noteq> 0"
  shows "sanity_max_vertex_id N gen = None"
proof -
  obtain it where it: "mk_iterator N gen 0 = Inr it" "it_count it = 0" "fresh gen it"
    using mk_iterator_ok [OF ok, of N 0] by auto
  obtain it_end where en: "mk_iterator N gen (m_edge_count gen) = Inr it_end" "it_count it_end = m_edge_count gen"
    using mk_iterator_ok [OF ok, of N "m_edge_count gen"] by blast
  have "\<not> is_equal it it_end" "\<exists>e. deref it = Inr e"
    using it(2,3) en(2) assms(2) by (auto simp: is_equal_def fresh_def deref_def)
  then have "sanity_loop it it_end 0 = None"
    using sanity_loop_returns [of it it_end 0] by (cases "sanity_loop it it_end 0") auto
  then show ?thesis using it(1) en(1) by (simp add: sanity_max_vertex_id_def begin_it_def end_it_def)
qed

text \<open>
  C36: The generated edges. For a scale below 64, and above 16 if the vertices are scrambled,
  the loop over the generator ends without a failed assertion, whatever the random numbers
  are and however the arithmetic rounds; it delivers as many edges as were asked for, in
  undirected mode each followed by its reverse, and all vertices lie below two to the power
  of the scale.
\<close>

theorem rmat_edges_typed:
  assumes "m_vertex_scale gen < 64" and "m_scramble gen \<Longrightarrow> 16 < m_vertex_scale gen"
  shows "\<exists>es. all_edges N gen = Inr (directions (m_undirected gen) es)
       \<and> length es = unat (m_edge_count gen)
       \<and> (\<forall>(u, v)\<in>set (directions (m_undirected gen) es).
            unat u < 2 ^ unat (m_vertex_scale gen) \<and> unat v < 2 ^ unat (m_vertex_scale gen))"
  using all_edges_ok [of gen N] assms unfolding scale_ok_def edge_fits_def by fastforce

text \<open>Whole numbers in the place of doubles and a counter as the random engine.\<close>

definition demo_numerics :: "(int, nat) numerics" where
  "demo_numerics = \<lparr>plus_d = (+), minus_d = (-), times_d = (*), divide_d = (div),
     less_d = (<), ge_d = (\<ge>), lit_0_9 = 1, lit_0_2 = 0, lit_1 = 10,
     mt19937 = unat, dis = (\<lambda>g. (int (3 * g mod 10), Suc g))\<rparr>"

definition demo_generator :: "(int, nat) rmat_edge_generator" where
  "demo_generator = mk_generator demo_numerics 1 17 5 5 2 2 1 True True"

theorem rmat_edges_typed_witness:
  "\<exists>es. all_edges demo_numerics demo_generator = Inr (directions True es) \<and> length es = 5"
  using rmat_edges_typed [of demo_generator demo_numerics] by (auto simp: demo_generator_def mk_generator_def)

end
