(* ===== verification/Edge_List.thy ===== *)
theory Edge_List
  imports Rmat Decimal
begin

text \<open>
  The program of \<^verbatim>\<open>examples/bfs/rmat_graph_generator/generate_edge_list.cpp\<close>, which writes a
  random graph as text, one file per thread, and the loop that reads such a file, which
  \<^verbatim>\<open>ingest_edge_list.cpp\<close> has three times.
\<close>

section \<open>Options\<close>

record 'd rmat_option_t =
  seed :: u64
  vertex_scale :: u64
  edge_count :: u64
  opt_a :: 'd
  opt_b :: 'd
  opt_c :: 'd
  scramble_id :: bool
  generate_both_directions :: bool

text \<open>The defaults; the two arguments are the literals 0.57 and 0.19.\<close>

definition default_rmat_option :: "'d \<Rightarrow> 'd \<Rightarrow> 'd rmat_option_t" where
  "default_rmat_option lit_0_57 lit_0_19 =
     \<lparr>seed = 123, vertex_scale = 17, edge_count = push_bit 17 1 * 16, opt_a = lit_0_57,
      opt_b = lit_0_19, opt_c = lit_0_19, scramble_id = True, generate_both_directions = True\<rparr>"

text \<open>
  \<open>parse_options\<close> on the pairs of option and argument that \<^verbatim>\<open>getopt\<close> delivers; \<open>stod\<close> is the
  conversion of the standard library to double precision.
\<close>

fun parse_rmat_options ::
  "(string \<Rightarrow> 'd result) \<Rightarrow> (char \<times> string) list \<Rightarrow> 'd rmat_option_t \<Rightarrow> string
     \<Rightarrow> ('d rmat_option_t \<times> string) result" where
  "parse_rmat_options stod [] opt out =
     (if out = [] then Inl (UMAP_ERROR ''edge list file name (-o option) is required'')
      else Inr (opt, out))"
| "parse_rmat_options stod ((p, optarg) # rest) opt out =
     (if p = CHR ''o'' then parse_rmat_options stod rest opt optarg
      else if p = CHR ''s'' then
        bindR (stoull optarg) (\<lambda>v. parse_rmat_options stod rest (opt\<lparr>seed := v\<rparr>) out)
      else if p = CHR ''v'' then
        bindR (stoull optarg) (\<lambda>v. parse_rmat_options stod rest (opt\<lparr>vertex_scale := v\<rparr>) out)
      else if p = CHR ''e'' then
        bindR (stoull optarg) (\<lambda>v. parse_rmat_options stod rest (opt\<lparr>edge_count := v\<rparr>) out)
      else if p = CHR ''a'' then
        bindR (stod optarg) (\<lambda>v. parse_rmat_options stod rest (opt\<lparr>opt_a := v\<rparr>) out)
      else if p = CHR ''b'' then
        bindR (stod optarg) (\<lambda>v. parse_rmat_options stod rest (opt\<lparr>opt_b := v\<rparr>) out)
      else if p = CHR ''c'' then
        bindR (stod optarg) (\<lambda>v. parse_rmat_options stod rest (opt\<lparr>opt_c := v\<rparr>) out)
      else if p = CHR ''r'' then
        bindR (stoi optarg) (\<lambda>v. parse_rmat_options stod rest (opt\<lparr>scramble_id := v \<noteq> 0\<rparr>) out)
      else if p = CHR ''u'' then
        bindR (stoi optarg) (\<lambda>v.
          parse_rmat_options stod rest (opt\<lparr>generate_both_directions := v \<noteq> 0\<rparr>) out)
      else Inl (UMAP_ERROR ''Illegal option''))"

section \<open>The share of a thread\<close>

definition num_local_edges :: "u64 \<Rightarrow> u64 \<Rightarrow> u64 \<Rightarrow> u64 \<Rightarrow> u64 result" where
  "num_local_edges first final myid nthreads =
     (if nthreads = 0 then Inl (UNDEFINED ''division by zero'')
      else
        let len = final - first + 1; chunk = len div nthreads; r = len mod nthreads in
        if myid < r then
          let start = first + (chunk + 1) * myid; stop = start + chunk
          in Inr ((stop - start) + 1)
        else
          let start = first + (chunk + 1) * r + chunk * (myid - r); stop = start + chunk - 1
          in Inr ((stop - start) + 1))"

section \<open>The program\<close>

definition edge_line :: "edge_type \<Rightarrow> string" where
  "edge_line e = show_nat (unat (fst e)) @ '' '' @ show_nat (unat (snd e)) @ [CHR 0x0A]"

definition edge_text :: "edge_type list \<Rightarrow> string" where
  "edge_text es = concat (map edge_line es)"

text \<open>The body of the parallel region; \<open>opened\<close> says whether the file of a thread opens.\<close>

definition generate_thread ::
  "('d, 'g) numerics \<Rightarrow> (nat \<Rightarrow> bool) \<Rightarrow> 'd rmat_option_t \<Rightarrow> nat \<Rightarrow> nat \<Rightarrow> edge_type list result" where
  "generate_thread N opened opt nthreads i =
     bindR (num_local_edges 0 (edge_count opt - 1) (of_nat i) (of_nat nthreads)) (\<lambda>n.
       let gen = mk_generator N (seed opt + of_nat i) (vertex_scale opt) n
                   (opt_a opt) (opt_b opt) (opt_c opt)
                   (minus_d N (lit_1 N) (plus_d N (plus_d N (opt_a opt) (opt_b opt)) (opt_c opt)))
                   (scramble_id opt) (generate_both_directions opt)
       in if opened i then all_edges N gen else Inl (UMAP_ERROR ''Cannot open''))"

fun mapR :: "('a \<Rightarrow> 'b result) \<Rightarrow> 'a list \<Rightarrow> 'b list result" where
  "mapR f [] = Inr []"
| "mapR f (x # xs) = bindR (f x) (\<lambda>y. bindR (mapR f xs) (\<lambda>ys. Inr (y # ys)))"

text \<open>The result is the contents of the files, one per thread.\<close>

definition generate_edge_list ::
  "('d, 'g) numerics \<Rightarrow> (nat \<Rightarrow> bool) \<Rightarrow> 'd rmat_option_t \<Rightarrow> nat \<Rightarrow> string list result" where
  "generate_edge_list N opened opt nthreads =
     bindR (mapR (generate_thread N opened opt nthreads) [0..<nthreads]) (\<lambda>ess.
       let num_generated_edges = (of_nat (sum_list (map length ess)) :: u64);
           num_edges_supposed_to_generate =
             (if generate_both_directions opt then edge_count opt * 2 else edge_count opt)
       in if num_edges_supposed_to_generate \<noteq> num_generated_edges
          then Inl (UMAP_ERROR ''The number of generated edges is wrong'')
          else Inr (map edge_text ess))"

section \<open>Reading\<close>

function read_edges :: "string \<Rightarrow> edge_type list" where
  "read_edges s =
     (case get_u64 s of
        (Some src, True, s1) \<Rightarrow>
          (case get_u64 s1 of
             (Some trg, True, s2) \<Rightarrow> (src, trg) # read_edges s2
           | _ \<Rightarrow> [])
      | _ \<Rightarrow> [])"
  by pat_completeness auto
termination
  by (relation "measure length") (auto dest!: get_u64_consumes [OF sym])

declare read_edges.simps [simp del]

section \<open>Lemmas\<close>

lemma read_edges_lines:
  "\<forall>c\<in>set sp. is_space c \<Longrightarrow> read_edges (sp @ edge_text es) = es"
proof (induction es arbitrary: sp)
  case Nil
  have "dropWhile is_space sp = []" using Nil by (simp add: dropWhile_eq_Nil_conv)
  then have "get_u64 sp = (None, False, [])" by (simp add: get_u64_def)
  then show ?case by (simp add: read_edges.simps [of sp] edge_text_def)
next
  case (Cons e es)
  obtain u v where e: "e = (u, v)" by (cases e)
  let ?nl = "[CHR 0x0A]"
  let ?r1 = "'' '' @ show_nat (unat v) @ ?nl @ edge_text es"
  have nodig: "\<not> is_digit (CHR '' '')" "\<not> is_digit (CHR 0x0A)" by (simp_all add: is_digit_def)
  have whole: "sp @ edge_text (e # es) = sp @ show_nat (unat u) @ ?r1"
    by (simp add: edge_text_def edge_line_def e)
  have r1: "get_u64 (sp @ show_nat (unat u) @ ?r1) = (Some u, True, ?r1)"
    using get_u64_show_nat [of "unat u" ?r1 sp] unat_bound_u64 nodig Cons.prems by simp
  have r2: "get_u64 ?r1 = (Some v, True, ?nl @ edge_text es)"
    using get_u64_show_nat [of "unat v" "?nl @ edge_text es" "[CHR '' '']"] unat_bound_u64 nodig
    by (simp add: is_space_def)
  have r3: "read_edges (?nl @ edge_text es) = es"
    by (rule Cons.IH) (simp add: is_space_def)
  show ?case
    unfolding whole by (subst read_edges.simps) (use r1 r2 r3 e in simp)
qed

lemma num_local_edges_value:
  assumes n: "0 < n" "n < 2 ^ 64" and i: "i < n"
  shows "\<exists>c. num_local_edges 0 (ec - 1) (of_nat i) (of_nat n) = Inr c
       \<and> unat c = unat ec div n + of_bool (i < unat ec mod n)"
proof -
  have un: "unat (of_nat n :: u64) = n" and ui: "unat (of_nat i :: u64) = i"
    using n i by (simp_all only: unat_of_nat_u64 less_trans [OF i])
  have n0: "(of_nat n :: u64) \<noteq> 0" using un n(1) by (metis unat_0 less_irrefl)
  have ch: "unat (ec div of_nat n) = unat ec div n" by (simp only: unat_div_distrib un)
  have md: "unat (ec mod of_nat n) = unat ec mod n" by (simp only: unat_mod_distrib un)
  show ?thesis
  proof (cases "i < unat ec mod n")
    case True
    then have lt: "(of_nat i :: u64) < ec mod of_nat n" by (simp only: word_less_nat_alt ui md)
    have "n \<noteq> 1" using True by auto
    then have "1 < n" using n(1) by linarith
    moreover have "0 < unat ec" using True by (metis mod_0 not_less_zero gr0I)
    ultimately have "unat ec div n < unat ec" by simp
    then have "unat (ec div of_nat n + 1) = unat ec div n + 1"
      using unat_add_lem [of "ec div of_nat n" 1] unat_bound_u64 [of ec] ch by simp
    then show ?thesis using lt n0 True by (simp add: num_local_edges_def Let_def)
  next
    case False
    then have lt: "\<not> (of_nat i :: u64) < ec mod of_nat n"
      by (simp only: word_less_nat_alt ui md not_False_eq_True)
    then show ?thesis using n0 False ch by (simp add: num_local_edges_def Let_def)
  qed
qed

lemma sum_shares:
  fixes m :: nat
  assumes "0 < n"
  shows "(\<Sum>i<n. m div n + of_bool (i < m mod n)) = m"
proof -
  have "{..<n} \<inter> {i. i < m mod n} = {..<m mod n}" using assms by (auto intro: less_trans)
  then have "(\<Sum>i<n. of_bool (i < m mod n)) = m mod n" by (simp add: of_bool_def sum.If_cases)
  then show ?thesis by (simp add: sum.distrib)
qed

lemma mapR_ok: "(\<And>x. x \<in> set xs \<Longrightarrow> f x = Inr (g x)) \<Longrightarrow> mapR f xs = Inr (map g xs)"
  by (induction xs) simp_all

section \<open>Properties\<close>

text \<open>
  The edges of a graph lie below two to the power of the scale, and in undirected mode the
  lists consist of edges followed by their reverses.
\<close>

definition edges_ok :: "'d rmat_option_t \<Rightarrow> edge_type list \<Rightarrow> bool" where
  "edges_ok opt es \<longleftrightarrow>
     (\<forall>(u, v)\<in>set es. unat u < 2 ^ unat (vertex_scale opt) \<and> unat v < 2 ^ unat (vertex_scale opt))
     \<and> (\<exists>es'. es = directions (generate_both_directions opt) es')"

lemma generate_thread_ok:
  assumes scale: "vertex_scale opt < 64" "scramble_id opt \<Longrightarrow> 16 < vertex_scale opt"
    and n: "0 < n" "n < 2 ^ 64" and i: "i < n" and opened: "opened i"
  shows "\<exists>es. generate_thread N opened opt n i = Inr es \<and> edges_ok opt es
       \<and> length es = (if generate_both_directions opt then 2 else 1)
                       * (unat (edge_count opt) div n + of_bool (i < unat (edge_count opt) mod n))"
proof -
  obtain c where c: "num_local_edges 0 (edge_count opt - 1) (of_nat i) (of_nat n) = Inr c"
    "unat c = unat (edge_count opt) div n + of_bool (i < unat (edge_count opt) mod n)"
    using num_local_edges_value [OF n i] by blast
  define gen where "gen = mk_generator N (seed opt + of_nat i) (vertex_scale opt) c
      (opt_a opt) (opt_b opt) (opt_c opt)
      (minus_d N (lit_1 N) (plus_d N (plus_d N (opt_a opt) (opt_b opt)) (opt_c opt)))
      (scramble_id opt) (generate_both_directions opt)"
  note gen_defs = gen_def mk_generator_def
  have g: "scale_ok gen" using scale by (simp add: scale_ok_def gen_defs)
  have run: "generate_thread N opened opt n i = all_edges N gen"
    using c(1) opened by (simp add: generate_thread_def gen_def)
  obtain es where es: "all_edges N gen = Inr (directions (m_undirected gen) es)"
    "length es = unat (m_edge_count gen)"
    "\<forall>e\<in>set (directions (m_undirected gen) es). edge_fits gen e"
    using all_edges_ok [OF g, of N] by blast
  let ?ds = "directions (generate_both_directions opt) es"
  have "edges_ok opt ?ds" using es(3) unfolding edges_ok_def edge_fits_def by (auto simp: gen_defs)
  moreover have "generate_thread N opened opt n i = Inr ?ds" using run es(1) by (simp add: gen_defs)
  moreover have "length ?ds = (if generate_both_directions opt then 2 else 1) * unat c"
    using es(2) by (simp add: length_directions gen_defs)
  ultimately show ?thesis using c(2) by metis
qed


text \<open>A graph with one vertex bit, without scrambling, by two threads.\<close>

definition demo_option :: "int rmat_option_t" where
  "demo_option = \<lparr>seed = 1, vertex_scale = 1, edge_count = 3, opt_a = 5, opt_b = 2, opt_c = 2,
     scramble_id = False, generate_both_directions = True\<rparr>"


end
