(* ===== verification/Bitmap.thy ===== *)
theory Bitmap
  imports Umap_Prelude
begin

text \<open>
  The bitmaps of \<^verbatim>\<open>examples/bfs/utility/bitmap.hpp\<close>: an array of 64-bit words, and checked
  access to the arrays of the examples.
\<close>

section \<open>Arrays\<close>

text \<open>An access outside of an array is undefined.\<close>

definition get_at :: "'a list \<Rightarrow> u64 \<Rightarrow> 'a result" where
  "get_at xs i =
     (if unat i < length xs then Inr (xs ! unat i) else Inl (UNDEFINED ''array index out of range''))"

definition put_at :: "'a list \<Rightarrow> u64 \<Rightarrow> 'a \<Rightarrow> 'a list result" where
  "put_at xs i x =
     (if unat i < length xs then Inr (xs[unat i := x])
      else Inl (UNDEFINED ''array index out of range''))"

lemma get_at_ok [simp]: "unat i < length xs \<Longrightarrow> get_at xs i = Inr (xs ! unat i)"
  by (simp add: get_at_def)

lemma put_at_ok [simp]: "unat i < length xs \<Longrightarrow> put_at xs i x = Inr (xs[unat i := x])"
  by (simp add: put_at_def)

section \<open>Bitmaps\<close>

definition bitmap_size :: "u64 \<Rightarrow> u64" where
  "bitmap_size sz = (if sz = 0 then 0 else (sz - 1) div (8 * 8) + 1)"

definition bitmap_global_pos :: "u64 \<Rightarrow> u64" where
  "bitmap_global_pos pos = drop_bit 6 pos"

definition bitmap_local_pos :: "u64 \<Rightarrow> u64" where
  "bitmap_local_pos pos = pos AND 0x3F"

definition get_bit :: "u64 list \<Rightarrow> u64 \<Rightarrow> bool result" where
  "get_bit bm pos =
     bindR (get_at bm (bitmap_global_pos pos)) (\<lambda>w.
       Inr (w AND push_bit (unat (bitmap_local_pos pos)) 1 \<noteq> 0))"

definition set_bit_at :: "u64 list \<Rightarrow> u64 \<Rightarrow> u64 list result" where
  "set_bit_at bm pos =
     bindR (get_at bm (bitmap_global_pos pos)) (\<lambda>w.
       put_at bm (bitmap_global_pos pos) (w OR push_bit (unat (bitmap_local_pos pos)) 1))"

section \<open>Lemmas\<close>

lemma unat_global_pos: "unat (bitmap_global_pos pos) = unat pos div 64"
  unfolding bitmap_global_pos_def by (rule trans [OF unat_drop_bit_eq]) (simp add: drop_bit_eq_div)

lemma unat_local_pos: "unat (bitmap_local_pos pos) = unat pos mod 64"
proof -
  have "bitmap_local_pos pos = take_bit 6 pos"
    by (simp add: bitmap_local_pos_def take_bit_eq_mask mask_eq_exp_minus_1)
  then have "unat (bitmap_local_pos pos) = take_bit 6 (unat pos)" by (simp only: unsigned_take_bit_eq)
  then show ?thesis by (simp add: take_bit_eq_mod)
qed

lemma unat_bitmap_size: "unat (bitmap_size n) = (unat n + 63) div 64"
proof (cases "n = 0")
  case True
  then show ?thesis by (simp add: bitmap_size_def)
next
  case False
  have m: "unat (n - 1) = unat n - 1" using False by (rule unat_minus_one)
  have pos: "0 < unat n" using False by (simp add: unat_gt_0)
  have q: "unat ((n - 1) div 64) = (unat n - 1) div 64" by (simp add: unat_div_distrib m)
  have "(unat n - 1) div 64 + 1 < 2 ^ 64" using unat_bound_u64 [of n] by simp
  then have "unat ((n - 1) div 64 + 1) = (unat n - 1) div 64 + 1"
    using unat_add_lem [of "(n - 1) div 64" 1] q by simp
  moreover have "(unat n + 63) div 64 = (unat n - 1) div 64 + 1" using pos by linarith
  ultimately show ?thesis using False by (simp add: bitmap_size_def)
qed

text \<open>The bit at a position, over all words of the bitmap.\<close>

definition bit_at :: "u64 list \<Rightarrow> nat \<Rightarrow> bool" where
  "bit_at bm p \<longleftrightarrow> bit (bm ! (p div 64)) (p mod 64)"

lemma get_bit_spec:
  assumes "unat pos div 64 < length bm"
  shows "get_bit bm pos = Inr (bit_at bm (unat pos))"
proof -
  have "unat (bitmap_global_pos pos) < length bm" using assms by (simp add: unat_global_pos)
  then show ?thesis
    by (simp add: get_bit_def and_exp_eq_0_iff_not_bit unat_global_pos unat_local_pos bit_at_def)
qed

lemma set_bit_spec:
  assumes "unat pos div 64 < length bm"
  shows "\<exists>bm'. set_bit_at bm pos = Inr bm' \<and> length bm' = length bm
       \<and> (\<forall>p. bit_at bm' p \<longleftrightarrow> p = unat pos \<or> bit_at bm p)"
proof -
  let ?g = "unat pos div 64" and ?l = "unat pos mod 64"
  let ?bm' = "bm[?g := bm ! ?g OR 2 ^ ?l]"
  have "unat (bitmap_global_pos pos) < length bm" using assms by (simp add: unat_global_pos)
  then have "set_bit_at bm pos = Inr ?bm'"
    by (simp add: set_bit_at_def unat_global_pos unat_local_pos)
  moreover have "bit_at ?bm' p \<longleftrightarrow> p = unat pos \<or> bit_at bm p" for p
  proof (cases "p div 64 = ?g")
    case True
    have "bit (2 ^ ?l :: u64) (p mod 64) \<longleftrightarrow> p mod 64 = ?l"
      by (auto simp: bit_exp_iff)
    moreover have "p mod 64 = ?l \<longleftrightarrow> p = unat pos"
      using True by (metis div_mult_mod_eq)
    ultimately show ?thesis using True assms by (auto simp: bit_at_def bit_or_iff)
  next
    case False
    then have "p \<noteq> unat pos" by auto
    then show ?thesis using False by (simp add: bit_at_def)
  qed
  ultimately show ?thesis by auto
qed

text \<open>
  A bitmap of the computed size has a bit for every number below \<open>n\<close>: no access is out of
  range, a set bit is read back as set, no other bit changes, and one word less would not do.
\<close>

lemma bitmap_set_get:
  assumes "length bm = unat (bitmap_size n)" and "unat p < unat n" and "unat q < unat n"
  shows "\<exists>bm'. set_bit_at bm p = Inr bm' \<and> length bm' = length bm
       \<and> get_bit bm' q = (if q = p then Inr True else get_bit bm q)
       \<and> 64 * (length bm - 1) < unat n"
proof -
  have len: "length bm = (unat n + 63) div 64" using assms(1) by (simp add: unat_bitmap_size)
  have range: "unat x div 64 < length bm" if "unat x < unat n" for x :: u64
    using that unfolding len by linarith
  obtain bm' where "set_bit_at bm p = Inr bm'" "length bm' = length bm"
    "\<And>i. bit_at bm' i \<longleftrightarrow> i = unat p \<or> bit_at bm i"
    using set_bit_spec [OF range [OF assms(2)]] by blast
  moreover from this have "get_bit bm' q = (if q = p then Inr True else get_bit bm q)"
    using get_bit_spec [of q bm'] get_bit_spec [of q bm] range [OF assms(3)]
    by (auto simp: word_unat_eq_iff)
  moreover have "64 * (length bm - 1) < unat n" using len assms(2) by linarith
  ultimately show ?thesis by blast
qed

end
