(* ===== verification/Bfs.thy ===== *)
theory Bfs
  imports Bitmap
begin

text \<open>
  The breadth-first search of \<^verbatim>\<open>examples/bfs/bfs_kernel.hpp\<close> on a graph in compressed rows,
  compiled without OpenMP (\<^verbatim>\<open>Bfs_Parallel\<close> has the threads): every vertex of the current level
  is scanned in turn, and the bitmap of visited vertices is a filter in front of the level
  array.
\<close>

section \<open>The kernel\<close>

definition k_infinite_level :: u16 where
  "k_infinite_level = 65535"

text \<open>The two loops of \<open>init_bfs\<close> on arrays that are long enough.\<close>

definition fill_front :: "nat \<Rightarrow> 'a \<Rightarrow> 'a list \<Rightarrow> 'a list result" where
  "fill_front n x xs =
     (if length xs < n then Inl (UNDEFINED ''array index out of range'')
      else Inr (replicate n x @ drop n xs))"

definition init_bfs :: "u64 \<Rightarrow> u16 list \<Rightarrow> u64 list \<Rightarrow> (u16 list \<times> u64 list) result" where
  "init_bfs num_vertices level visited_filter =
     bindR (fill_front (unat num_vertices) k_infinite_level level) (\<lambda>level'.
     bindR (fill_front (unat (bitmap_size num_vertices)) 0 visited_filter) (\<lambda>vf'.
       Inr (level', vf')))"

text \<open>The state of a pass: the levels, the filter, and whether a vertex was newly visited.\<close>

type_synonym bfs_state = "u16 list \<times> u64 list \<times> bool"

definition visit_edge :: "u16 \<Rightarrow> u64 \<Rightarrow> bfs_state \<Rightarrow> bfs_state result" where
  "visit_edge current_level trg = (\<lambda>(level, visited_filter, visited_new_vertex).
     bindR (get_bit visited_filter trg) (\<lambda>visited.
       if visited then Inr (level, visited_filter, visited_new_vertex)
       else bindR (get_at level trg) (\<lambda>l.
         if l = k_infinite_level then
           bindR (put_at level trg (current_level + 1)) (\<lambda>level'.
           bindR (set_bit_at visited_filter trg) (\<lambda>vf'.
             Inr (level', vf', True)))
         else Inr (level, visited_filter, visited_new_vertex))))"

lemma unat_next: "i < (stop :: u64) \<Longrightarrow> unat (i + 1) = unat i + 1"
  using unat_bound_u64 [of stop] unat_add_lem [of i 1] by (simp add: word_less_nat_alt)

function scan_edges :: "u64 list \<Rightarrow> u16 \<Rightarrow> u64 \<Rightarrow> u64 \<Rightarrow> bfs_state \<Rightarrow> bfs_state result" where
  "scan_edges edges current_level i stop st =
     (if i < stop then
        bindR (get_at edges i) (\<lambda>trg.
        bindR (visit_edge current_level trg st) (\<lambda>st'.
          scan_edges edges current_level (i + 1) stop st'))
      else Inr st)"
  by pat_completeness auto
termination
  by (relation "measure (\<lambda>(es, c, i, stop, st). unat stop - unat i)")
    (auto simp: unat_next word_less_nat_alt)

definition scan_vertex ::
  "u64 list \<Rightarrow> u64 list \<Rightarrow> u16 \<Rightarrow> u64 \<Rightarrow> bfs_state \<Rightarrow> bfs_state result" where
  "scan_vertex index edges current_level src st =
     bindR (get_at (fst st) src) (\<lambda>l.
       if l \<noteq> current_level then Inr st
       else bindR (get_at index src) (\<lambda>start. bindR (get_at index (src + 1)) (\<lambda>stop.
              scan_edges edges current_level start stop st)))"

function scan_level ::
  "u64 \<Rightarrow> u64 list \<Rightarrow> u64 list \<Rightarrow> u16 \<Rightarrow> u64 \<Rightarrow> bfs_state \<Rightarrow> bfs_state result" where
  "scan_level num_vertices index edges current_level src st =
     (if src < num_vertices then
        bindR (scan_vertex index edges current_level src st) (\<lambda>st'.
          scan_level num_vertices index edges current_level (src + 1) st')
      else Inr st)"
  by pat_completeness auto
termination
  by (relation "measure (\<lambda>(n, ix, es, c, src, st). unat n - unat src)")
    (auto simp: unat_next word_less_nat_alt)

declare scan_edges.simps [simp del] scan_level.simps [simp del]

text \<open>The main loop, \<open>None\<close> when it does not end.\<close>

partial_function (option) bfs_loop ::
  "u64 \<Rightarrow> u64 list \<Rightarrow> u64 list \<Rightarrow> u16 \<Rightarrow> u16 list \<Rightarrow> u64 list
     \<Rightarrow> (u16 \<times> u16 list \<times> u64 list) result option" where
  "bfs_loop num_vertices index edges current_level level visited_filter =
     (case scan_level num_vertices index edges current_level 0 (level, visited_filter, False) of
        Inl e \<Rightarrow> Some (Inl e)
      | Inr (level', vf', visited_new_vertex) \<Rightarrow>
          if \<not> visited_new_vertex then Some (Inr (current_level, level', vf'))
          else bfs_loop num_vertices index edges (current_level + 1) level' vf')"

definition run_bfs ::
  "u64 \<Rightarrow> u64 list \<Rightarrow> u64 list \<Rightarrow> u16 list \<Rightarrow> u64 list
     \<Rightarrow> (u16 \<times> u16 list \<times> u64 list) result option" where
  "run_bfs num_vertices index edges level visited_filter =
     bfs_loop num_vertices index edges 0 level visited_filter"

section \<open>Graphs in compressed rows\<close>

definition csr_ok :: "nat \<Rightarrow> u64 list \<Rightarrow> u64 list \<Rightarrow> bool" where
  "csr_ok n index edges \<longleftrightarrow> n < length index
     \<and> (\<forall>v<n. unat (index ! v) \<le> unat (index ! Suc v))
     \<and> (\<forall>v\<le>n. unat (index ! v) \<le> length edges)
     \<and> (\<forall>t\<in>set edges. unat t < n)"

definition slice :: "nat \<Rightarrow> nat \<Rightarrow> 'a list \<Rightarrow> 'a list" where
  "slice a b xs = take (b - a) (drop a xs)"

definition adjacent :: "u64 list \<Rightarrow> u64 list \<Rightarrow> nat \<Rightarrow> nat set" where
  "adjacent index edges u = unat ` set (slice (unat (index ! u)) (unat (index ! Suc u)) edges)"

definition edge_rel :: "nat \<Rightarrow> u64 list \<Rightarrow> u64 list \<Rightarrow> (nat \<times> nat) set" where
  "edge_rel n index edges = {(u, v). u < n \<and> v \<in> adjacent index edges u}"

lemma slice_Cons: "a < b \<Longrightarrow> a < length xs \<Longrightarrow> slice a b xs = xs ! a # slice (Suc a) b xs"
  by (simp add: slice_def Cons_nth_drop_Suc [symmetric] take_Cons')

lemma slice_Nil: "b \<le> a \<Longrightarrow> slice a b xs = []"
  by (simp add: slice_def)

section \<open>One pass\<close>

text \<open>The levels after the vertices of \<open>A\<close> have been visited for level \<open>c\<close>.\<close>

definition marked :: "nat \<Rightarrow> u16 \<Rightarrow> nat set \<Rightarrow> u16 list \<Rightarrow> u16 list \<Rightarrow> bool" where
  "marked n c A lv lv' \<longleftrightarrow> length lv' = n
     \<and> (\<forall>v<n. lv' ! v = (if lv ! v = k_infinite_level \<and> v \<in> A then c else lv ! v))"

definition filter_ok :: "nat \<Rightarrow> u16 list \<Rightarrow> u64 list \<Rightarrow> bool" where
  "filter_ok n lv vf \<longleftrightarrow> length lv = n \<and> length vf = (n + 63) div 64
     \<and> (\<forall>v<n. bit_at vf v \<longrightarrow> lv ! v \<noteq> k_infinite_level)"

text \<open>What a part of a pass does that visits the vertices of \<open>A\<close>.\<close>

definition pass_result :: "nat \<Rightarrow> u16 \<Rightarrow> nat set \<Rightarrow> bfs_state \<Rightarrow> bfs_state \<Rightarrow> bool" where
  "pass_result n c A st st' \<longleftrightarrow>
     marked n c A (fst st) (fst st') \<and> filter_ok n (fst st') (fst (snd st'))
   \<and> (snd (snd st') \<longleftrightarrow> snd (snd st) \<or> (\<exists>v<n. v \<in> A \<and> fst st ! v = k_infinite_level))"

lemma marked_empty: "length lv = n \<Longrightarrow> marked n c {} lv lv"
  by (simp add: marked_def)

lemma pass_result_refl:
  "filter_ok n (fst st) (fst (snd st)) \<Longrightarrow> pass_result n c {} st st"
  by (simp add: pass_result_def marked_def filter_ok_def)

lemma pass_result_trans:
  assumes "pass_result n c A st st1" and "pass_result n c B st1 st2" and "c \<noteq> k_infinite_level"
  shows "pass_result n c (A \<union> B) st st2"
proof -
  have A: "\<forall>v<n. fst st1 ! v = (if fst st ! v = k_infinite_level \<and> v \<in> A then c else fst st ! v)"
    and B: "length (fst st2) = n"
      "\<forall>v<n. fst st2 ! v = (if fst st1 ! v = k_infinite_level \<and> v \<in> B then c else fst st1 ! v)"
    using assms(1,2) by (simp_all add: pass_result_def marked_def)
  have inf: "fst st1 ! v = k_infinite_level \<longleftrightarrow> fst st ! v = k_infinite_level \<and> v \<notin> A" if "v < n" for v
    using A that assms(3) by auto
  have "fst st2 ! v = (if fst st ! v = k_infinite_level \<and> v \<in> A \<union> B then c else fst st ! v)"
    if "v < n" for v
    using A [rule_format, OF that] B(2) [rule_format, OF that] inf [OF that]
    by (cases "v \<in> A"; cases "v \<in> B"; simp)
  then have "marked n c (A \<union> B) (fst st) (fst st2)" using B(1) by (simp add: marked_def)
  moreover have "snd (snd st2) \<longleftrightarrow> snd (snd st)
      \<or> (\<exists>v<n. v \<in> A \<union> B \<and> fst st ! v = k_infinite_level)"
    using assms(1,2) inf unfolding pass_result_def by blast
  ultimately show ?thesis using assms(2) by (simp add: pass_result_def)
qed

lemma visit_edge_ok:
  assumes "filter_ok n (fst st) (fst (snd st))" and "unat trg < n" and c: "c + 1 \<noteq> k_infinite_level"
  shows "\<exists>st'. visit_edge c trg st = Inr st' \<and> pass_result n (c + 1) {unat trg} st st'"
proof -
  obtain lv vf new where st: "st = (lv, vf, new)" by (cases st)
  have len: "length lv = n" and range: "unat trg div 64 < length vf"
    and bits: "\<And>v. v < n \<Longrightarrow> bit_at vf v \<Longrightarrow> lv ! v \<noteq> k_infinite_level"
    using assms(1,2) by (auto simp: st filter_ok_def)
  have bit: "get_bit vf trg = Inr (bit_at vf (unat trg))" by (rule get_bit_spec [OF range])
  show ?thesis
  proof (cases "lv ! unat trg = k_infinite_level")
    case True
    obtain vf' where vf': "set_bit_at vf trg = Inr vf'" "length vf' = length vf"
      "\<And>p. bit_at vf' p \<longleftrightarrow> p = unat trg \<or> bit_at vf p"
      using set_bit_spec [OF range] by blast
    have "visit_edge c trg st = Inr (lv[unat trg := c + 1], vf', True)"
      using True bit bits [OF assms(2)] vf'(1) assms(2) len by (auto simp: visit_edge_def st)
    moreover have "pass_result n (c + 1) {unat trg} st (lv[unat trg := c + 1], vf', True)"
      using True vf' assms c len bits
      by (auto simp: pass_result_def marked_def filter_ok_def st nth_list_update)
    ultimately show ?thesis by blast
  next
    case False
    have "visit_edge c trg st = Inr st"
      using False bit assms(2) len by (simp add: visit_edge_def st)
    moreover have "pass_result n (c + 1) {unat trg} st st"
      using False assms(1) by (auto simp: pass_result_def marked_def filter_ok_def st)
    ultimately show ?thesis by blast
  qed
qed

lemma pass_result_filter: "pass_result n c A st st' \<Longrightarrow> filter_ok n (fst st') (fst (snd st'))"
  by (simp add: pass_result_def)

lemma pass_result_marked: "pass_result n c A st st' \<Longrightarrow> marked n c A (fst st) (fst st')"
  by (simp add: pass_result_def)

lemma scan_edges_ok:
  assumes "filter_ok n (fst st) (fst (snd st))" and "unat stop \<le> length edges"
    and "\<forall>t\<in>set edges. unat t < n" and c: "c + 1 \<noteq> k_infinite_level"
  shows "\<exists>st'. scan_edges edges c i stop st = Inr st'
       \<and> pass_result n (c + 1) (unat ` set (slice (unat i) (unat stop) edges)) st st'"
  using assms(1)
proof (induction "unat stop - unat i" arbitrary: i st)
  case 0
  then have "\<not> i < stop" by (simp add: word_less_nat_alt)
  then show ?case
    using 0 pass_result_refl by (subst scan_edges.simps) (simp add: slice_Nil word_less_nat_alt)
next
  case (Suc k)
  then have lt: "i < stop" by (simp add: word_less_nat_alt)
  note next_i = unat_next [OF lt]
  have i: "unat i < length edges" using lt assms(2) by (simp add: word_less_nat_alt)
  let ?t = "edges ! unat i"
  have t: "unat ?t < n" using assms(3) i by simp
  obtain st1 where st1: "visit_edge c ?t st = Inr st1" "pass_result n (c + 1) {unat ?t} st st1"
    using visit_edge_ok [OF Suc.prems t c] by blast
  have k: "k = unat stop - unat (i + 1)" using Suc.hyps(2) next_i by simp
  obtain st2 where st2: "scan_edges edges c (i + 1) stop st1 = Inr st2"
    "pass_result n (c + 1) (unat ` set (slice (unat (i + 1)) (unat stop) edges)) st1 st2"
    using Suc.hyps(1) [OF k pass_result_filter [OF st1(2)]] by blast
  have "slice (unat i) (unat stop) edges = ?t # slice (unat (i + 1)) (unat stop) edges"
    using slice_Cons [of "unat i" "unat stop" edges] lt i next_i by (simp add: word_less_nat_alt)
  then have "pass_result n (c + 1) (unat ` set (slice (unat i) (unat stop) edges)) st st2"
    using pass_result_trans [OF st1(2) st2(2) c] by simp
  moreover have "scan_edges edges c i stop st = Inr st2"
    using lt i st1(1) st2(1) by (subst scan_edges.simps) simp
  ultimately show ?case by blast
qed

lemma scan_vertex_ok:
  assumes ok: "filter_ok (unat N) (fst st) (fst (snd st))" and csr: "csr_ok (unat N) index edges"
    and src: "src < N" and c: "c + 1 \<noteq> k_infinite_level"
  shows "\<exists>st'. scan_vertex index edges c src st = Inr st' \<and> pass_result (unat N) (c + 1)
         (if fst st ! unat src = c then adjacent index edges (unat src) else {}) st st'"
proof -
  have lt: "unat src < unat N" using src by (simp add: word_less_nat_alt)
  have lv: "get_at (fst st) src = Inr (fst st ! unat src)" using ok lt by (simp add: filter_ok_def)
  show ?thesis
  proof (cases "fst st ! unat src = c")
    case False
    then show ?thesis using lv pass_result_refl [OF ok] by (auto simp: scan_vertex_def)
  next
    case True
    have ix: "get_at index src = Inr (index ! unat src)"
      "get_at index (src + 1) = Inr (index ! Suc (unat src))"
      using csr lt unat_next [OF src] by (simp_all add: csr_ok_def)
    have "unat (index ! Suc (unat src)) \<le> length edges" "\<forall>t\<in>set edges. unat t < unat N"
      using csr lt by (simp_all add: csr_ok_def)
    then obtain st' where "scan_edges edges c (index ! unat src) (index ! Suc (unat src)) st = Inr st'"
      "pass_result (unat N) (c + 1) (adjacent index edges (unat src)) st st'"
      using scan_edges_ok [OF ok _ _ c] unfolding adjacent_def by blast
    then show ?thesis using True lv ix by (auto simp: scan_vertex_def)
  qed
qed

text \<open>The vertices that a pass visits when it begins at vertex \<open>s\<close>.\<close>

definition frontier :: "nat \<Rightarrow> u64 list \<Rightarrow> u64 list \<Rightarrow> u16 \<Rightarrow> u16 list \<Rightarrow> nat \<Rightarrow> nat set" where
  "frontier n index edges c lv s = (\<Union>u\<in>{u. s \<le> u \<and> u < n \<and> lv ! u = c}. adjacent index edges u)"

lemma frontier_step:
  assumes "s < n"
  shows "frontier n index edges c lv s
       = (if lv ! s = c then adjacent index edges s else {}) \<union> frontier n index edges c lv (Suc s)"
proof -
  have "{u. s \<le> u \<and> u < n \<and> lv ! u = c}
      = (if lv ! s = c then {s} else {}) \<union> {u. Suc s \<le> u \<and> u < n \<and> lv ! u = c}"
    using assms by (auto simp: Suc_le_eq order.order_iff_strict)
  then show ?thesis by (simp add: frontier_def)
qed

lemma frontier_marked:
  assumes "marked n (c + 1) A lv lv'" and "c \<noteq> k_infinite_level" and "c + 1 \<noteq> c"
  shows "frontier n index edges c lv' s = frontier n index edges c lv s"
proof -
  have "lv' ! u = c \<longleftrightarrow> lv ! u = c" if "u < n" for u
    using assms that by (auto simp: marked_def)
  then show ?thesis by (auto simp: frontier_def)
qed

lemma scan_level_ok:
  assumes ok: "filter_ok (unat N) (fst st) (fst (snd st))" and csr: "csr_ok (unat N) index edges"
    and c: "c + 1 \<noteq> k_infinite_level" "c \<noteq> k_infinite_level" "c + 1 \<noteq> c"
  shows "\<exists>st'. scan_level N index edges c src st = Inr st'
       \<and> pass_result (unat N) (c + 1) (frontier (unat N) index edges c (fst st) (unat src)) st st'"
  using ok
proof (induction "unat N - unat src" arbitrary: src st)
  case 0
  then have "\<not> src < N" by (simp add: word_less_nat_alt)
  moreover have "frontier (unat N) index edges c (fst st) (unat src) = {}"
    using 0(1) by (auto simp: frontier_def)
  ultimately show ?case using pass_result_refl [OF 0(2)] by (subst scan_level.simps) simp
next
  case (Suc k)
  then have lt: "src < N" by (simp add: word_less_nat_alt)
  note next_src = unat_next [OF lt]
  let ?A = "if fst st ! unat src = c then adjacent index edges (unat src) else {}"
  let ?F = "frontier (unat N) index edges c"
  obtain st1 where st1: "scan_vertex index edges c src st = Inr st1"
    "pass_result (unat N) (c + 1) ?A st st1"
    using scan_vertex_ok [OF Suc.prems csr lt c(1)] by blast
  have k: "k = unat N - unat (src + 1)" using Suc.hyps(2) next_src by simp
  obtain st2 where st2: "scan_level N index edges c (src + 1) st1 = Inr st2"
    "pass_result (unat N) (c + 1) (?F (fst st1) (unat (src + 1))) st1 st2"
    using Suc.hyps(1) [OF k pass_result_filter [OF st1(2)]] by blast
  have "?F (fst st1) (unat (src + 1)) = ?F (fst st) (unat (src + 1))"
    by (rule frontier_marked [OF pass_result_marked [OF st1(2)] c(2,3)])
  then have "?A \<union> ?F (fst st1) (unat (src + 1)) = ?F (fst st) (unat src)"
    using frontier_step [of "unat src" "unat N"] lt next_src by (simp add: word_less_nat_alt)
  then have "pass_result (unat N) (c + 1) (?F (fst st) (unat src)) st st2"
    using pass_result_trans [OF st1(2) st2(2) c(1)] by simp
  moreover have "scan_level N index edges c src st = Inr st2"
    using lt st1(1) st2(1) by (subst scan_level.simps) simp
  ultimately show ?case by blast
qed

section \<open>Levels are distances\<close>

text \<open>\<open>k\<close> is the length of a shortest path from \<open>r\<close> to \<open>v\<close>.\<close>

definition distance :: "(nat \<times> nat) set \<Rightarrow> nat \<Rightarrow> nat \<Rightarrow> nat \<Rightarrow> bool" where
  "distance E r v k \<longleftrightarrow> (r, v) \<in> E ^^ k \<and> (\<forall>j<k. (r, v) \<notin> E ^^ j)"

lemma distance_unique: "distance E r v k \<Longrightarrow> distance E r v l \<Longrightarrow> k = l"
  by (metis distance_def linorder_neqE_nat)

lemma distance_exists:
  assumes "(r, v) \<in> E ^^ k"
  obtains l where "l \<le> k" and "distance E r v l"
proof -
  let ?l = "LEAST l. (r, v) \<in> E ^^ l"
  have "(r, v) \<in> E ^^ ?l" using assms by (rule LeastI)
  moreover have "\<forall>j<?l. (r, v) \<notin> E ^^ j" using not_less_Least by blast
  moreover have "?l \<le> k" using assms by (rule Least_le)
  ultimately show thesis using that by (simp add: distance_def)
qed

lemma distance_0: "distance E r v 0 \<longleftrightarrow> v = r"
  by (auto simp: distance_def)

lemma distance_Suc:
  "distance E r v (Suc k) \<longleftrightarrow> (\<exists>u. distance E r u k \<and> (u, v) \<in> E) \<and> (\<forall>j\<le>k. \<not> distance E r v j)"
proof
  assume d: "distance E r v (Suc k)"
  then obtain u where u: "(r, u) \<in> E ^^ k" "(u, v) \<in> E" by (auto simp: distance_def)
  have "(r, u) \<notin> E ^^ j" if "j < k" for j
  proof
    assume "(r, u) \<in> E ^^ j"
    with u(2) have "(r, v) \<in> E ^^ Suc j" by auto
    with d that show False unfolding distance_def by (metis Suc_less_eq)
  qed
  then have "distance E r u k" using u(1) by (simp add: distance_def)
  moreover have "\<not> distance E r v j" if "j \<le> k" for j
    using distance_unique [OF d, of j] that by auto
  ultimately show "(\<exists>u. distance E r u k \<and> (u, v) \<in> E) \<and> (\<forall>j\<le>k. \<not> distance E r v j)"
    using u(2) by blast
next
  assume A: "(\<exists>u. distance E r u k \<and> (u, v) \<in> E) \<and> (\<forall>j\<le>k. \<not> distance E r v j)"
  then have "(r, v) \<in> E ^^ Suc k" by (auto simp: distance_def)
  moreover have "(r, v) \<notin> E ^^ j" if "j < Suc k" for j
  proof
    assume "(r, v) \<in> E ^^ j"
    then obtain l where "l \<le> j" "distance E r v l" by (rule distance_exists)
    with A that show False by auto
  qed
  ultimately show "distance E r v (Suc k)" by (simp add: distance_def)
qed

lemma distance_gap:
  assumes "\<forall>v. \<not> distance E r v k"
  shows "k \<le> l \<Longrightarrow> \<not> distance E r v l"
proof (induction l arbitrary: v)
  case 0
  then show ?case using assms by simp
next
  case (Suc l)
  show ?case
  proof (cases "k = Suc l")
    case True
    then show ?thesis using assms by simp
  next
    case False
    then have "k \<le> l" using Suc.prems by simp
    then show ?thesis using Suc.IH distance_Suc by metis
  qed
qed

text \<open>
  The levels before the pass of level \<open>c\<close>: every distance up to \<open>c\<close> is known, and nothing
  else has a level.
\<close>

definition levels_ok :: "nat \<Rightarrow> (nat \<times> nat) set \<Rightarrow> nat \<Rightarrow> nat \<Rightarrow> u16 list \<Rightarrow> bool" where
  "levels_ok n E r c lv \<longleftrightarrow> length lv = n
     \<and> (\<forall>v<n. unat (lv ! v) \<le> c \<or> lv ! v = k_infinite_level)
     \<and> (\<forall>v<n. \<forall>j\<le>c. unat (lv ! v) = j \<longleftrightarrow> distance E r v j)"

lemma unat_infinite: "unat k_infinite_level = 65535"
  by (simp add: k_infinite_level_def)

lemma level_words:
  assumes "k < 65534"
  shows "(of_nat k :: u16) + 1 \<noteq> k_infinite_level" and "(of_nat k :: u16) \<noteq> k_infinite_level"
    and "(of_nat k :: u16) + 1 \<noteq> of_nat k" and "unat (of_nat k :: u16) = k"
    and "unat ((of_nat k :: u16) + 1) = Suc k"
proof -
  show k: "unat (of_nat k :: u16) = k" using assms by (simp add: unat_of_nat)
  have "unat (of_nat (Suc k) :: u16) = Suc k" using assms by (simp add: unat_of_nat del: of_nat_Suc)
  then show k1: "unat ((of_nat k :: u16) + 1) = Suc k" by (simp only: of_nat_Suc add.commute)
  have ne: "a \<noteq> b" if "unat a \<noteq> unat b" for a b :: u16 using that by blast
  show "(of_nat k :: u16) + 1 \<noteq> k_infinite_level"
    by (rule ne) (use k1 unat_infinite assms in simp)
  show "(of_nat k :: u16) \<noteq> k_infinite_level" by (rule ne) (use k unat_infinite assms in simp)
  show "(of_nat k :: u16) + 1 \<noteq> of_nat k" by (rule ne) (use k k1 in linarith)
qed

lemma levels_ok_pass:
  assumes ok: "levels_ok n E r k lv" and k: "k < 65534"
    and E: "E = edge_rel n index edges" and csr: "csr_ok n index edges"
    and m: "marked n (of_nat k + 1) (frontier n index edges (of_nat k) lv 0) lv lv'"
  shows "levels_ok n E r (Suc k) lv'"
proof -
  note w = level_words [OF k]
  let ?F = "frontier n index edges (of_nat k) lv 0"
  have lv': "lv' ! v = (if lv ! v = k_infinite_level \<and> v \<in> ?F then of_nat k + 1 else lv ! v)"
    if "v < n" for v using m that by (simp add: marked_def)
  have known: "unat (lv ! v) = j \<longleftrightarrow> distance E r v j" if "v < n" "j \<le> k" for v j
    using ok that by (simp add: levels_ok_def)
  have "lv ! u = of_nat k \<longleftrightarrow> unat (lv ! u) = k" for u using w(4) by (metis word_unat_eq_iff)
  then have F: "v \<in> ?F \<longleftrightarrow> (\<exists>u. distance E r u k \<and> u < n \<and> (u, v) \<in> E)" for v
    using known [of _ k] by (auto simp: frontier_def E edge_rel_def)
  have src: "u < n" if "(u, v) \<in> E" for u v using that by (simp add: E edge_rel_def)
  have inf: "lv ! v = k_infinite_level \<longleftrightarrow> (\<forall>j\<le>k. \<not> distance E r v j)" if "v < n" for v
  proof
    assume "lv ! v = k_infinite_level"
    then show "\<forall>j\<le>k. \<not> distance E r v j" using known [OF that] k unat_infinite by auto
  next
    assume "\<forall>j\<le>k. \<not> distance E r v j"
    then show "lv ! v = k_infinite_level" using known [OF that] ok that unfolding levels_ok_def by blast
  qed
  have new: "lv ! v = k_infinite_level \<and> v \<in> ?F \<longleftrightarrow> distance E r v (Suc k)" if "v < n" for v
    unfolding inf [OF that] F distance_Suc using src by blast
  have "unat (lv' ! v) = j \<longleftrightarrow> distance E r v j" if v: "v < n" and j: "j \<le> Suc k" for v j
  proof (cases "distance E r v (Suc k)")
    case True
    then have "unat (lv' ! v) = Suc k" using lv' [OF v] new [OF v] w(5) by simp
    then show ?thesis using True distance_unique by metis
  next
    case False
    then have same: "lv' ! v = lv ! v" using lv' [OF v] new [OF v] by simp
    show ?thesis
    proof (cases "j = Suc k")
      case True
      have "unat (lv ! v) \<noteq> Suc k" using ok v k unat_infinite unfolding levels_ok_def by force
      then show ?thesis using False True same by simp
    next
      case False
      then show ?thesis using known [OF v, of j] same j by simp
    qed
  qed
  moreover have "unat (lv' ! v) \<le> Suc k \<or> lv' ! v = k_infinite_level" if "v < n" for v
    using lv' [OF that] w(5) ok that unfolding levels_ok_def by fastforce
  ultimately show ?thesis using m by (simp add: levels_ok_def marked_def)
qed

text \<open>In a graph with \<open>n\<close> vertices all distances are below \<open>n\<close>.\<close>

lemma distance_less:
  assumes range: "\<And>u v. (u, v) \<in> E \<Longrightarrow> v < n" and r: "r < n" and d: "distance E r v j"
  shows "j < n"
proof -
  have in_n: "u < n" if "distance E r u k" for u k
    using that r range by (cases k) (auto simp: distance_0 distance_Suc)
  have "\<exists>u. distance E r u i" if "i \<le> j" for i using distance_gap [OF _ that] d by blast
  then obtain f where f: "\<And>i. i \<le> j \<Longrightarrow> distance E r (f i) i" by metis
  have "inj_on f {..j}" by (rule inj_onI) (metis atMost_iff f distance_unique)
  moreover have "f ` {..j} \<subseteq> {..<n}" using f in_n by auto
  ultimately have "card {..j} \<le> card {..<n}" by (rule card_inj_on_le) simp
  then show ?thesis by simp
qed

text \<open>The vertices without a level.\<close>

definition unvisited :: "nat \<Rightarrow> u16 list \<Rightarrow> nat set" where
  "unvisited n lv = {v. v < n \<and> lv ! v = k_infinite_level}"

lemma unvisited_pass:
  assumes "marked n c A lv lv'" and "c \<noteq> k_infinite_level"
    and "\<exists>v<n. v \<in> A \<and> lv ! v = k_infinite_level"
  shows "card (unvisited n lv') < card (unvisited n lv)"
proof (rule psubset_card_mono)
  show "finite (unvisited n lv)" by (simp add: unvisited_def)
  have lv': "lv' ! u = (if lv ! u = k_infinite_level \<and> u \<in> A then c else lv ! u)" if "u < n" for u
    using assms(1) that by (simp add: marked_def)
  have "unvisited n lv' \<subseteq> unvisited n lv"
  proof
    fix u assume "u \<in> unvisited n lv'"
    then have u: "u < n" "lv' ! u = k_infinite_level" by (simp_all add: unvisited_def)
    then have "lv ! u = k_infinite_level" using lv' [OF u(1)] assms(2) by (metis (full_types))
    with u(1) show "u \<in> unvisited n lv" by (simp add: unvisited_def)
  qed
  moreover obtain v where v: "v < n" "v \<in> A" "lv ! v = k_infinite_level" using assms(3) by blast
  moreover have "v \<notin> unvisited n lv'" using lv' [OF v(1)] v assms(2) by (simp add: unvisited_def)
  ultimately show "unvisited n lv' \<subset> unvisited n lv" by (auto simp: unvisited_def)
qed

text \<open>A pass that finds a vertex keeps the level below the bound of the distances.\<close>

lemma level_bound_pass:
  assumes ok: "levels_ok n E r (Suc k) lv'" and k: "k < 65534"
    and m: "marked n (of_nat k + 1) F lv lv'"
    and found: "\<exists>v<n. v \<in> F \<and> lv ! v = k_infinite_level"
    and shallow: "\<And>v j. v < n \<Longrightarrow> distance E r v j \<Longrightarrow> j < 65534"
  shows "Suc k < 65534"
proof -
  obtain v where v: "v < n" "v \<in> F" "lv ! v = k_infinite_level" using found by blast
  then have "unat (lv' ! v) = Suc k" using m level_words(5) [OF k] by (simp add: marked_def)
  then have "distance E r v (Suc k)" using ok v(1) by (simp add: levels_ok_def)
  then show ?thesis by (rule shallow [OF v(1)])
qed

section \<open>The search\<close>

lemma bfs_loop_ok:
  assumes "filter_ok (unat N) lv vf" and csr: "csr_ok (unat N) index edges"
    and E: "E = edge_rel (unat N) index edges"
    and "levels_ok (unat N) E r k lv" and "k < 65534"
    and shallow: "\<And>v j. v < unat N \<Longrightarrow> distance E r v j \<Longrightarrow> j < 65534"
  shows "\<exists>c lv' vf'. bfs_loop N index edges (of_nat k) lv vf = Some (Inr (c, lv', vf'))
       \<and> k \<le> unat c \<and> unat c < 65534 \<and> levels_ok (unat N) E r (unat c) lv'
       \<and> (\<forall>v<unat N. \<not> distance E r v (Suc (unat c)))"
  using assms(1,4,5)
proof (induction "card (unvisited (unat N) lv)" arbitrary: lv vf k rule: less_induct)
  case less
  let ?n = "unat N" and ?F = "frontier (unat N) index edges (of_nat k) lv 0"
  note k = less.prems(3)
  note w = level_words [OF k]
  obtain lv' vf' new where scan: "scan_level N index edges (of_nat k) 0 (lv, vf, False) = Inr (lv', vf', new)"
    and res: "pass_result ?n (of_nat k + 1) ?F (lv, vf, False) (lv', vf', new)"
    using scan_level_ok [of N "(lv, vf, False)" index edges "of_nat k" 0, OF _ csr w(1-3)] less.prems(1)
    by auto
  have m: "marked ?n (of_nat k + 1) ?F lv lv'" and f: "filter_ok ?n lv' vf'"
    and new: "new \<longleftrightarrow> (\<exists>v<?n. v \<in> ?F \<and> lv ! v = k_infinite_level)"
    using res by (simp_all add: pass_result_def)
  have ok: "levels_ok ?n E r (Suc k) lv'" by (rule levels_ok_pass [OF less.prems(2) k E csr m])
  have lv': "lv' ! v = (if lv ! v = k_infinite_level \<and> v \<in> ?F then of_nat k + 1 else lv ! v)"
    if "v < ?n" for v using m that by (simp add: marked_def)
  show ?case
  proof (cases new)
    case False
    have same: "lv' ! v = lv ! v" if "v < ?n" for v using False new lv' [OF that] that by auto
    then have "lv' = lv" using m less.prems(2)
      by (auto simp: marked_def levels_ok_def intro!: nth_equalityI)
    moreover have "\<not> distance E r v (Suc k)" if "v < ?n" for v
    proof
      assume "distance E r v (Suc k)"
      then have "unat (lv' ! v) = Suc k" using ok that by (simp add: levels_ok_def)
      then show False using same [OF that] less.prems(2) that k unat_infinite
        unfolding levels_ok_def by force
    qed
    moreover have "bfs_loop N index edges (of_nat k) lv vf = Some (Inr (of_nat k, lv', vf'))"
      using scan False by (subst bfs_loop.simps) simp
    ultimately show ?thesis using less.prems(2) w(4) k by auto
  next
    case True
    then have dec: "card (unvisited ?n lv') < card (unvisited ?n lv)"
      using unvisited_pass [OF m w(1)] new by blast
    have Sk: "Suc k < 65534" by (rule level_bound_pass [OF ok k m _ shallow]) (use new True in auto)
    have "\<exists>c lv'' vf''. bfs_loop N index edges (of_nat (Suc k)) lv' vf' = Some (Inr (c, lv'', vf''))
       \<and> Suc k \<le> unat c \<and> unat c < 65534 \<and> levels_ok ?n E r (unat c) lv''
       \<and> (\<forall>v<?n. \<not> distance E r v (Suc (unat c)))"
      by (rule less.hyps [OF dec f ok Sk])
    moreover have "bfs_loop N index edges (of_nat k) lv vf
        = bfs_loop N index edges (of_nat (Suc k)) lv' vf'"
      using scan True by (subst bfs_loop.simps) (simp add: add.commute)
    ultimately show ?thesis by (auto dest: Suc_leD)
  qed
qed

end
