(* ===== verification/Bfs_Main.thy ===== *)
theory Bfs_Main
  imports Bfs Decimal
begin

text \<open>
  The program of \<^verbatim>\<open>examples/bfs/main.cpp\<close> around the search: options, the size of the graph
  file, the views of the mapped file, the choice of the root, the count of the levels and
  their validation.
\<close>

section \<open>Options\<close>

record bfs_options =
  num_vertices :: u64
  num_edges :: u64
  graph_file_name :: string
  bfs_level_reference_file_name :: string
  use_mmap :: bool

definition default_options :: bfs_options where
  "default_options = \<lparr>num_vertices = 0, num_edges = 0, graph_file_name = [],
     bfs_level_reference_file_name = [], use_mmap = False\<rparr>"

text \<open>
  \<open>parse_options\<close> on the pairs of option and argument that \<^verbatim>\<open>getopt\<close> delivers; \<open>None\<close> in the
  result: the usage is printed and the program ends.
\<close>

fun parse_options :: "(char \<times> string) list \<Rightarrow> bfs_options \<Rightarrow> bfs_options option result" where
  "parse_options [] options = Inr (Some options)"
| "parse_options ((c, optarg) # rest) options =
     (if c = CHR ''n'' then
        bindR (stoull optarg) (\<lambda>v. parse_options rest (options\<lparr>num_vertices := v\<rparr>))
      else if c = CHR ''m'' then
        bindR (stoull optarg) (\<lambda>v. parse_options rest (options\<lparr>num_edges := v\<rparr>))
      else if c = CHR ''g'' then parse_options rest (options\<lparr>graph_file_name := optarg\<rparr>)
      else if c = CHR ''l'' then
        parse_options rest (options\<lparr>bfs_level_reference_file_name := optarg\<rparr>)
      else if c = CHR ''s'' then parse_options rest (options\<lparr>use_mmap := True\<rparr>)
      else if c = CHR ''h'' then Inr None
      else parse_options rest options)"

section \<open>The graph file\<close>

definition calculate_umap_pagesize_aligned_graph_file_size ::
  "u64 \<Rightarrow> u64 \<Rightarrow> u64 \<Rightarrow> u64 result" where
  "calculate_umap_pagesize_aligned_graph_file_size umap_page_size nv ne =
     (let original_size = (nv + 1 + ne) * 8 in
      if umap_page_size = 0 then Inl (UNDEFINED ''division by zero'')
      else Inr (if original_size mod umap_page_size = 0 then original_size
                else original_size + (umap_page_size - original_size mod umap_page_size)))"

text \<open>The two arrays inside the mapped file, which is a list of 64-bit words.\<close>

definition graph_views :: "u64 \<Rightarrow> u64 list \<Rightarrow> u64 list \<times> u64 list" where
  "graph_views nv file = (file, drop (unat (nv + 1)) file)"

section \<open>Root, counts, validation\<close>

function find_root_from :: "u64 \<Rightarrow> u64 list \<Rightarrow> u64 \<Rightarrow> u16 list \<Rightarrow> u16 list result" where
  "find_root_from nv index src level =
     (if src < nv then
        bindR (get_at index (src + 1)) (\<lambda>b. bindR (get_at index src) (\<lambda>a.
          if b - a > 0 then put_at level src 0 else find_root_from nv index (src + 1) level))
      else Inl (UMAP_ERROR ''Can not find a proper root vertex''))"
  by pat_completeness auto
termination
  by (relation "measure (\<lambda>(n, ix, src, lv). unat n - unat src)")
    (auto simp: unat_next word_less_nat_alt)

declare find_root_from.simps [simp del]

definition find_bfs_root :: "u64 \<Rightarrow> u64 list \<Rightarrow> u16 list \<Rightarrow> u16 list result" where
  "find_bfs_root nv index level = find_root_from nv index 0 level"

text \<open>The counts per level, \<open>None\<close> when a level above the greatest is met.\<close>

fun count_levels :: "u16 \<Rightarrow> u16 list \<Rightarrow> nat list \<Rightarrow> nat list option" where
  "count_levels max_level [] cnt = Some cnt"
| "count_levels max_level (l # ls) cnt =
     (if l = k_infinite_level then count_levels max_level ls cnt
      else if l > max_level then None
      else count_levels max_level ls (cnt[unat l := cnt ! unat l + 1]))"

definition count_level :: "u64 \<Rightarrow> u16 \<Rightarrow> u16 list \<Rightarrow> nat list option" where
  "count_level nv max_level level =
     count_levels max_level (take (unat nv) level) (replicate (unat max_level + 1) 0)"

text \<open>
  The reference levels: pairs of numbers; the loop ends at the first that cannot be read, a
  level that does not fit into 16 bits included. A vertex outside of the array is undefined.
\<close>

function read_reference :: "string \<Rightarrow> u16 list \<Rightarrow> u16 list result" where
  "read_reference s ref =
     (case get_u64 s of
        (Some i, True, s1) \<Rightarrow>
          (case get_u16 s1 of
             (Some lv, True, s2) \<Rightarrow> bindR (put_at ref i lv) (\<lambda>ref'. read_reference s2 ref')
           | _ \<Rightarrow> Inr ref)
      | _ \<Rightarrow> Inr ref)"
  by pat_completeness auto
termination
  by (relation "measure (\<lambda>(s, ref). length s)") (auto dest!: get_u64_consumes [OF sym] get_u16_consumes [OF sym])

declare read_reference.simps [simp del]

definition validate_level :: "u16 list \<Rightarrow> string option \<Rightarrow> unit result" where
  "validate_level level file =
     (case file of
        None \<Rightarrow> Inl (UMAP_ERROR ''Can not open'')
      | Some s \<Rightarrow>
          bindR (read_reference s (replicate (length level) k_infinite_level)) (\<lambda>ref_level.
            if level \<noteq> ref_level then Inl (UMAP_ERROR ''BFS level is wrong'') else Inr ()))"

text \<open>The core of \<open>main\<close>: the arrays are allocated and the search is run.\<close>

definition bfs_search :: "u64 \<Rightarrow> u64 list \<Rightarrow> u64 list \<Rightarrow> (u16 \<times> u16 list) result option" where
  "bfs_search nv index edges =
     (let level = replicate (unat nv) 0; vf = replicate (unat (bitmap_size nv)) 0 in
      case bindR (init_bfs nv level vf) (\<lambda>(level1, vf1).
             bindR (find_bfs_root nv index level1) (\<lambda>level2. Inr (level2, vf1))) of
        Inl e \<Rightarrow> Some (Inl e)
      | Inr (level2, vf1) \<Rightarrow>
          map_option (map_sum id (\<lambda>(c, lv, _). (c, lv))) (run_bfs nv index edges level2 vf1))"

section \<open>Lemmas\<close>

text \<open>The root is the first vertex with an edge.\<close>

definition is_root :: "nat \<Rightarrow> u64 list \<Rightarrow> nat \<Rightarrow> bool" where
  "is_root n index r \<longleftrightarrow> r < n \<and> index ! r \<noteq> index ! Suc r \<and> (\<forall>v<r. index ! v = index ! Suc v)"

lemma find_root_from_ok:
  assumes len: "unat nv < length index" "length level = unat nv"
    and r: "r < unat nv" "index ! r \<noteq> index ! Suc r"
    and before: "\<forall>v<r. index ! v = index ! Suc v"
  shows "unat src \<le> r \<Longrightarrow> find_root_from nv index src level = Inr (level[r := 0])"
proof (induction "r - unat src" arbitrary: src)
  case 0
  then have src: "unat src = r" by simp
  then have lt: "src < nv" using r(1) by (simp add: word_less_nat_alt)
  have "index ! Suc r - index ! r > 0" using r(2) by (simp add: word_neq_0_conv [symmetric])
  then show ?case using lt src len r(1) unat_next [OF lt] by (subst find_root_from.simps) simp
next
  case (Suc k)
  then have v: "unat src < r" by simp
  then have lt: "src < nv" using r(1) by (simp add: word_less_nat_alt)
  have "find_root_from nv index src level = find_root_from nv index (src + 1) level"
    using lt v len r(1) unat_next [OF lt] before by (subst find_root_from.simps) simp
  moreover have "find_root_from nv index (src + 1) level = Inr (level[r := 0])"
    by (rule Suc.hyps(1)) (use Suc.hyps(2) v unat_next [OF lt] in simp_all)
  ultimately show ?case by simp
qed

lemma count_levels_ok:
  assumes "\<forall>l\<in>set ls. l = k_infinite_level \<or> unat l < length cnt" and "length cnt = unat m + 1"
    and "m \<noteq> k_infinite_level"
  shows "\<exists>cnt'. count_levels m ls cnt = Some cnt' \<and> length cnt' = length cnt
       \<and> (\<forall>i<length cnt. cnt' ! i = cnt ! i + length (filter (\<lambda>l. unat l = i) ls))"
  using assms
proof (induction ls arbitrary: cnt)
  case (Cons l ls)
  show ?case
  proof (cases "l = k_infinite_level")
    case True
    have "unat l \<noteq> i" if "i < length cnt" for i
    proof -
      have "unat m < unat k_infinite_level"
      proof -
        have "unat m < 2 ^ 16" using unsigned_less [of m, where ?'a = nat] by simp
        moreover have "unat m \<noteq> unat k_infinite_level" using Cons.prems(3) by (simp add: word_unat_eq_iff)
        ultimately show ?thesis using unat_infinite by simp
      qed
      then show ?thesis using True that Cons.prems(2) by simp
    qed
    then show ?thesis using Cons True by simp
  next
    case False
    then have l: "unat l < length cnt" using Cons.prems(1) by simp
    then have "\<not> m < l" using Cons.prems(2) by (simp add: word_less_nat_alt)
    then have "count_levels m (l # ls) cnt = count_levels m ls (cnt[unat l := cnt ! unat l + 1])"
      using False by simp
    moreover obtain cnt' where "count_levels m ls (cnt[unat l := cnt ! unat l + 1]) = Some cnt'"
      "length cnt' = length cnt"
      "\<forall>i<length cnt. cnt' ! i = cnt[unat l := cnt ! unat l + 1] ! i + length (filter (\<lambda>l. unat l = i) ls)"
      using Cons.IH [of "cnt[unat l := cnt ! unat l + 1]"] Cons.prems by auto
    ultimately show ?thesis using l by (auto simp: nth_list_update)
  qed
qed simp

lemma init_levels_ok:
  assumes "r < n"
  shows "levels_ok n E r 0 ((replicate n k_infinite_level)[r := 0])"
proof -
  let ?lv = "(replicate n k_infinite_level)[r := 0]"
  have "?lv ! v = (if v = r then 0 else k_infinite_level)" if "v < n" for v
    using that by (simp add: nth_list_update)
  then show "levels_ok n E r 0 ?lv"
    by (auto simp: levels_ok_def distance_0 unat_infinite)
qed

lemma init_bfs_ok:
  "init_bfs nv (replicate (unat nv) 0) (replicate (unat (bitmap_size nv)) 0)
     = Inr (replicate (unat nv) k_infinite_level, replicate (unat (bitmap_size nv)) 0)"
  by (simp add: init_bfs_def fill_front_def)

lemma init_filter_ok:
  "filter_ok (unat nv) ((replicate (unat nv) k_infinite_level)[r := 0]) (replicate (unat (bitmap_size nv)) 0)"
proof -
  have "\<not> bit_at (replicate (unat (bitmap_size nv)) 0) v" if "v < unat nv" for v
  proof -
    have "v div 64 < unat (bitmap_size nv)" using that unfolding unat_bitmap_size by linarith
    then show ?thesis by (simp add: bit_at_def)
  qed
  then show ?thesis by (simp add: filter_ok_def unat_bitmap_size)
qed

lemma filter_count:
  assumes "length lv = n"
  shows "length (filter (\<lambda>l. unat l = i) (take n lv)) = card {v. v < n \<and> unat (lv ! v) = i}"
  using assms length_filter_conv_card [of "\<lambda>l. unat l = i" lv] by simp

lemma levels_final:
  assumes ok: "levels_ok n E r c lv" and stop: "\<forall>v<n. \<not> distance E r v (Suc c)"
    and sub: "\<And>u v. (u, v) \<in> E \<Longrightarrow> v < n" and r: "r < n" and c: "c < 65534" and v: "v < n"
  shows "lv ! v = k_infinite_level \<longleftrightarrow> (r, v) \<notin> E\<^sup>*"
    and "lv ! v \<noteq> k_infinite_level \<Longrightarrow> distance E r v (unat (lv ! v))"
proof -
  have in_n: "u < n" if d: "distance E r u k" for u k
  proof (cases k)
    case 0
    then show ?thesis using d r by (simp add: distance_0)
  next
    case (Suc l)
    with d obtain w where "(w, u) \<in> E" by (auto simp: distance_Suc)
    then show ?thesis by (rule sub)
  qed
  have none: "\<not> distance E r u k" if "Suc c \<le> k" for u k
    by (rule distance_gap [OF _ that]) (use stop in_n in blast)
  have known: "unat (lv ! v) = j \<longleftrightarrow> distance E r v j" if "j \<le> c" for j
    using ok v that by (simp add: levels_ok_def)
  show d: "distance E r v (unat (lv ! v))" if "lv ! v \<noteq> k_infinite_level"
    using known [of "unat (lv ! v)"] ok v that unfolding levels_ok_def by blast
  show "lv ! v = k_infinite_level \<longleftrightarrow> (r, v) \<notin> E\<^sup>*"
  proof
    assume inf: "lv ! v = k_infinite_level"
    show "(r, v) \<notin> E\<^sup>*"
    proof
      assume "(r, v) \<in> E\<^sup>*"
      then obtain k where "(r, v) \<in> E ^^ k" by (auto simp: rtrancl_power)
      then obtain l where l: "distance E r v l" by (rule distance_exists)
      then have "l \<le> c" using none not_less_eq_eq by blast
      with l known have "unat (lv ! v) = l" by blast
      with inf \<open>l \<le> c\<close> c show False by (simp add: unat_infinite)
    qed
  next
    assume "(r, v) \<notin> E\<^sup>*"
    then show "lv ! v = k_infinite_level"
      using d by (metis distance_def relpow_imp_rtrancl)
  qed
qed

lemma edge_rel_range:
  assumes "csr_ok n index edges" and "(u, v) \<in> edge_rel n index edges"
  shows "v < n"
proof -
  obtain t where "t \<in> set (slice (unat (index ! u)) (unat (index ! Suc u)) edges)" "v = unat t"
    using assms(2) by (auto simp: edge_rel_def adjacent_def)
  moreover from this have "t \<in> set edges" unfolding slice_def by (meson in_set_dropD in_set_takeD)
  ultimately show ?thesis using assms(1) by (simp add: csr_ok_def)
qed

lemma count_level_ok:
  assumes ok: "levels_ok (unat nv) E r (unat c) lv" and c: "unat c < 65534"
  shows "\<exists>cnt. count_level nv c lv = Some cnt
       \<and> (\<forall>i\<le>unat c. cnt ! i = card {v. v < unat nv \<and> distance E r v i})"
proof -
  let ?n = "unat nv"
  have lenlv: "length lv = ?n" using ok by (simp add: levels_ok_def)
  have bound: "lv ! v \<le> c" if "v < ?n" "lv ! v \<noteq> k_infinite_level" for v
    using ok that by (auto simp: levels_ok_def word_le_nat_alt)
  have cinf: "c \<noteq> k_infinite_level" using c unat_infinite by auto
  have small_levels: "\<forall>l\<in>set (take ?n lv). l = k_infinite_level \<or> unat l < unat c + 1"
  proof
    fix l assume "l \<in> set (take ?n lv)"
    then obtain v where v: "v < ?n" "l = lv ! v" using lenlv by (auto simp: in_set_conv_nth)
    then show "l = k_infinite_level \<or> unat l < unat c + 1"
      using bound [of v] by (cases "l = k_infinite_level") (simp_all add: word_le_nat_alt)
  qed
  obtain cnt where cnt: "count_level nv c lv = Some cnt"
    "\<forall>i<unat c + 1. cnt ! i = length (filter (\<lambda>l. unat l = i) (take ?n lv))"
  proof -
    let ?z = "replicate (unat c + 1) (0 :: nat)"
    have "\<forall>l\<in>set (take ?n lv). l = k_infinite_level \<or> unat l < length ?z"
      using small_levels by (simp only: length_replicate)
    from count_levels_ok [OF this length_replicate cinf] obtain cnt where
      "count_level nv c lv = Some cnt"
      "\<forall>i<length ?z. cnt ! i = ?z ! i + length (filter (\<lambda>l. unat l = i) (take ?n lv))"
      unfolding count_level_def by blast
    moreover have "?z ! i = 0" if "i < unat c + 1" for i using that by (rule nth_replicate)
    ultimately show thesis using that [of cnt] by (metis add_0 length_replicate)
  qed
  have "cnt ! i = card {v. v < ?n \<and> distance E r v i}" if "i \<le> unat c" for i
  proof -
    have "{v. v < ?n \<and> unat (lv ! v) = i} = {v. v < ?n \<and> distance E r v i}"
      using ok that by (auto simp: levels_ok_def)
    then show ?thesis using cnt(2) that filter_count [OF lenlv, of i] by simp
  qed
  then show ?thesis using cnt(1) by blast
qed

lemma bfs_search_ok:
  assumes csr: "csr_ok (unat nv) index edges" and root: "is_root (unat nv) index r"
    and shallow: "\<And>v j. distance (edge_rel (unat nv) index edges) r v j \<Longrightarrow> j < 65534"
  defines "E \<equiv> edge_rel (unat nv) index edges"
  shows "\<exists>c lv cnt. bfs_search nv index edges = Some (Inr (c, lv)) \<and> length lv = unat nv
     \<and> (\<forall>v<unat nv. (lv ! v = k_infinite_level \<longleftrightarrow> (r, v) \<notin> E\<^sup>*)
          \<and> ((r, v) \<in> E\<^sup>* \<longrightarrow> distance E r v (unat (lv ! v)) \<and> lv ! v \<le> c))
     \<and> count_level nv c lv = Some cnt
     \<and> (\<forall>i\<le>unat c. cnt ! i = card {v. v < unat nv \<and> distance E r v i})"
proof -
  let ?n = "unat nv" and ?lv0 = "(replicate (unat nv) k_infinite_level)[r := 0]"
  let ?vf = "replicate (unat (bitmap_size nv)) 0"
  have r: "r < ?n" and rr: "index ! r \<noteq> index ! Suc r" "\<forall>v<r. index ! v = index ! Suc v"
    using root by (simp_all add: is_root_def)
  have len: "?n < length index" using csr by (simp add: csr_ok_def)
  have find: "find_bfs_root nv index (replicate ?n k_infinite_level) = Inr ?lv0"
    unfolding find_bfs_root_def by (rule find_root_from_ok [OF len _ r rr]) simp_all
  note init = init_levels_ok [OF r]
  have Ed: "E = edge_rel ?n index edges" by (simp add: E_def)
  have shallow': "j < 65534" if "v < ?n" "distance E r v j" for v j
    using shallow that(2) unfolding E_def .
  obtain c lv vf' where run: "bfs_loop nv index edges (of_nat 0) ?lv0 ?vf = Some (Inr (c, lv, vf'))"
    and c: "unat c < 65534" and ok: "levels_ok ?n E r (unat c) lv"
    and stop: "\<forall>v<?n. \<not> distance E r v (Suc (unat c))"
  proof -
    have "\<exists>c lv vf'. bfs_loop nv index edges (of_nat 0) ?lv0 ?vf = Some (Inr (c, lv, vf'))
        \<and> 0 \<le> unat c \<and> unat c < 65534 \<and> levels_ok ?n E r (unat c) lv
        \<and> (\<forall>v<?n. \<not> distance E r v (Suc (unat c)))"
      by (rule bfs_loop_ok [OF init_filter_ok csr Ed init]) (use shallow' in auto)
    then show thesis using that by blast
  qed
  have search: "bfs_search nv index edges = Some (Inr (c, lv))"
    using run find by (simp add: bfs_search_def init_bfs_ok run_bfs_def Let_def)
  have sub: "\<And>u v. (u, v) \<in> E \<Longrightarrow> v < ?n" using edge_rel_range [OF csr] by (simp add: E_def)
  have final: "(lv ! v = k_infinite_level) = ((r, v) \<notin> E\<^sup>*)"
    "lv ! v \<noteq> k_infinite_level \<Longrightarrow> distance E r v (unat (lv ! v))" if "v < ?n" for v
    using levels_final [OF ok stop _ r c that] sub by blast+
  have lenlv: "length lv = ?n" using ok by (simp add: levels_ok_def)
  have bound: "lv ! v \<le> c" if "v < ?n" "lv ! v \<noteq> k_infinite_level" for v
    using ok that by (auto simp: levels_ok_def word_le_nat_alt)
  obtain cnt where "count_level nv c lv = Some cnt"
    "\<forall>i\<le>unat c. cnt ! i = card {v. v < ?n \<and> distance E r v i}"
    using count_level_ok [OF ok c] by blast
  then show ?thesis using search lenlv final bound by blast
qed

section \<open>Properties\<close>

text \<open>
  C32: The breadth-first search is correct. On a graph in compressed rows in which no vertex is
  65534 or more steps away from the root, the first vertex with an edge, the search ends
  without an access out of range; the level of a vertex is the length of a shortest path from the root; exactly the vertices that cannot be reached have the infinite level; the result
  is the greatest level there is, and the counts per level are the numbers of vertices at
  each distance.
\<close>

theorem bfs_levels_are_distances:
  assumes csr: "csr_ok (unat nv) index edges" and root: "is_root (unat nv) index r"
    and shallow: "\<And>v j. distance (edge_rel (unat nv) index edges) r v j \<Longrightarrow> j < 65534"
  defines "E \<equiv> edge_rel (unat nv) index edges"
  shows "\<exists>c lv cnt. bfs_search nv index edges = Some (Inr (c, lv)) \<and> length lv = unat nv
     \<and> (\<forall>v<unat nv. (lv ! v = k_infinite_level \<longleftrightarrow> (r, v) \<notin> E\<^sup>*)
          \<and> ((r, v) \<in> E\<^sup>* \<longrightarrow> distance E r v (unat (lv ! v)) \<and> lv ! v \<le> c))
     \<and> count_level nv c lv = Some cnt
     \<and> (\<forall>i\<le>unat c. cnt ! i = card {v. v < unat nv \<and> distance E r v i})"
  using bfs_search_ok [OF csr root shallow] unfolding E_def .

text \<open>Four vertices; 1 has edges to 2 and 3, 3 to 1; 0 is isolated.\<close>

definition demo_index :: "u64 list" where "demo_index = [0, 0, 2, 2, 3]"
definition demo_edges :: "u64 list" where "demo_edges = [2, 3, 1]"

lemma demo_csr: "csr_ok 4 demo_index demo_edges"
proof -
  have four: "v < (4 :: nat) \<longleftrightarrow> v = 0 \<or> v = 1 \<or> v = 2 \<or> v = 3" for v by auto
  have five: "v \<le> (4 :: nat) \<longleftrightarrow> v = 0 \<or> v = 1 \<or> v = 2 \<or> v = 3 \<or> v = 4" for v by auto
  show ?thesis unfolding csr_ok_def
    by (intro conjI) (simp_all only: four five, auto simp: demo_index_def demo_edges_def)
qed

lemma demo_root: "is_root 4 demo_index 1"
proof -
  have suc: "Suc 0 = 1" "Suc 1 = 2" by simp_all
  have ix: "demo_index ! 0 = 0" "demo_index ! 1 = 0" "demo_index ! 2 = 2"
    by (simp_all add: demo_index_def)
  show ?thesis using ix unfolding is_root_def suc by (simp add: demo_index_def)
qed

lemma demo_shallow: "distance (edge_rel 4 demo_index demo_edges) 1 v j \<Longrightarrow> j < 65534"
  using distance_less [of "edge_rel 4 demo_index demo_edges" 4 1 v j] edge_rel_range [OF demo_csr]
  by fastforce

theorem bfs_levels_are_distances_witness:
  "\<exists>c lv. bfs_search 4 demo_index demo_edges = Some (Inr (c, lv)) \<and> lv ! 0 = k_infinite_level"
proof -
  have four_u: "unat (4 :: u64) = 4" by simp
  obtain c lv where res: "bfs_search 4 demo_index demo_edges = Some (Inr (c, lv))"
    and inf: "lv ! 0 = k_infinite_level \<longleftrightarrow> (1, 0) \<notin> (edge_rel 4 demo_index demo_edges)\<^sup>*"
    using bfs_levels_are_distances [of 4 demo_index demo_edges 1] demo_csr demo_root demo_shallow
    unfolding four_u by fastforce
  have "v \<noteq> 0" if "(u, v) \<in> edge_rel 4 demo_index demo_edges" for u v
  proof -
    have "v \<in> unat ` set demo_edges"
      using that unfolding edge_rel_def adjacent_def slice_def
      by (auto dest!: in_set_takeD in_set_dropD)
    then show ?thesis by (auto simp: demo_edges_def)
  qed
  then have "(1, 0) \<notin> (edge_rel 4 demo_index demo_edges)\<^sup>*" by (metis rtranclE zero_neq_one)
  then show ?thesis using res inf by blast
qed

text \<open>
  The size to which the graph file is extended: the smallest multiple of the page size
  that holds the index and the edges, as long as nothing overflows.
\<close>

lemma aligned_graph_size:
  assumes "0 < psize" and "(unat nv + 1 + unat ne) * 8 + unat psize < 2 ^ 64"
  shows "\<exists>s. calculate_umap_pagesize_aligned_graph_file_size psize nv ne = Inr s
       \<and> unat psize dvd unat s \<and> (unat nv + 1 + unat ne) * 8 \<le> unat s
       \<and> unat s < (unat nv + 1 + unat ne) * 8 + unat psize"
proof -
  let ?o = "(nv + 1 + ne) * 8" and ?n = "(unat nv + 1 + unat ne) * 8"
  have "?o = of_nat ?n" by simp
  moreover have "?n < 2 ^ 64" using assms(2) by linarith
  ultimately have o: "unat ?o = ?n" by (simp only: unat_of_nat_u64)
  have "unat ?o + unat psize < 2 ^ 64" using o assms(2) by simp
  note up = unat_round_up [OF assms(1) this, unfolded o]
  have "calculate_umap_pagesize_aligned_graph_file_size psize nv ne
      = Inr (?o + (if ?o mod psize \<noteq> 0 then psize - ?o mod psize else 0))"
    using assms(1) by (simp add: calculate_umap_pagesize_aligned_graph_file_size_def Let_def)
  then show ?thesis using up by blast
qed

end
