(* ===== verification/Ingest.thy ===== *)
theory Ingest
  imports Edge_List Bfs_Main "HOL-Library.Multiset"
begin

text \<open>
  The program of \<^verbatim>\<open>examples/bfs/rmat_graph_generator/ingest_edge_list.cpp\<close>: text files with
  edges become one graph file in compressed rows. The passes over the edges run in parallel,
  one thread per file, with atomic increments; the model takes the order in which the edges
  are met as an argument, one for the pass that counts and one for the pass that loads.
\<close>

section \<open>The passes\<close>

fun check_edges :: "edge_type list \<Rightarrow> u64 \<times> u64 \<Rightarrow> u64 \<times> u64" where
  "check_edges [] acc = acc"
| "check_edges ((src, trg) # es) (max_id, nedges) =
     check_edges es (max trg (max src max_id), nedges + 1)"

text \<open>The files are given by their contents, \<open>None\<close> for one that cannot be opened.\<close>

fun check_files :: "string option list \<Rightarrow> u64 \<times> u64 \<Rightarrow> (u64 \<times> u64) result" where
  "check_files [] acc = Inr acc"
| "check_files (None # fs) acc = Inl (UMAP_ERROR ''Can not open'')"
| "check_files (Some s # fs) acc = check_files fs (check_edges (read_edges s) acc)"

definition check_edge_list :: "string option list \<Rightarrow> (u64 \<times> u64) result" where
  "check_edge_list files = check_files files (0, 0)"

fun count_degrees :: "edge_type list \<Rightarrow> u64 list \<Rightarrow> u64 list result" where
  "count_degrees [] index = Inr index"
| "count_degrees ((source, target) # es) index =
     bindR (get_at index source) (\<lambda>d. bindR (put_at index source (d + 1)) (count_degrees es))"

lemma unat_prev: "0 < (i :: u64) \<Longrightarrow> unat (i - 1) + 1 = unat i"
  using unat_minus_one [of i] by (simp add: word_gt_0 unat_gt_0)

function shift_index :: "u64 \<Rightarrow> u64 list \<Rightarrow> u64 list result" where
  "shift_index i index =
     (if i > 0 then
        bindR (get_at index (i - 1)) (\<lambda>x. bindR (put_at index i x) (\<lambda>index'. shift_index (i - 1) index'))
      else Inr index)"
  by pat_completeness auto
termination
  by (relation "measure (\<lambda>(i, index). unat i)") (auto dest: unat_prev)

function prefix_sums :: "u64 \<Rightarrow> u64 \<Rightarrow> u64 list \<Rightarrow> u64 list result" where
  "prefix_sums max_id i index =
     (if i < max_id + 1 then
        bindR (get_at index (i + 1)) (\<lambda>b. bindR (get_at index i) (\<lambda>a.
        bindR (put_at index (i + 1) (b + a)) (\<lambda>index'. prefix_sums max_id (i + 1) index')))
      else Inr index)"
  by pat_completeness auto
termination
  by (relation "measure (\<lambda>(max_id, i, index). unat (max_id + 1) - unat i)")
    (auto simp: unat_next word_less_nat_alt)

declare shift_index.simps [simp del] prefix_sums.simps [simp del]

definition construct_index :: "u64 \<Rightarrow> u64 list \<Rightarrow> u64 list result" where
  "construct_index max_id index =
     bindR (shift_index (max_id + 1) index) (\<lambda>index1.
     bindR (put_at index1 0 0) (\<lambda>index2. prefix_sums max_id 0 index2))"

text \<open>The copy of \<open>max_id + 2\<close> words to the front of the mapped file.\<close>

definition write_index :: "u64 \<Rightarrow> u64 list \<Rightarrow> u64 list \<Rightarrow> u64 list result" where
  "write_index max_id index file =
     (let n = unat (max_id + 2) in
      if n \<le> length index \<and> n \<le> length file then Inr (take n index @ drop n file)
      else Inl (UNDEFINED ''memcpy out of range''))"

fun load_edges :: "u64 \<Rightarrow> edge_type list \<Rightarrow> u64 list \<Rightarrow> u64 list \<Rightarrow> u64 list result" where
  "load_edges edges_offset [] index file = Inr file"
| "load_edges edges_offset ((source, target) # es) index file =
     bindR (get_at index source) (\<lambda>pos.
     bindR (put_at index source (pos + 1)) (\<lambda>index'.
     bindR (put_at file (edges_offset + pos) target) (\<lambda>file'.
       load_edges edges_offset es index' file')))"

definition ingest_edges ::
  "u64 list \<Rightarrow> u64 \<Rightarrow> edge_type list \<Rightarrow> edge_type list \<Rightarrow> u64 list result" where
  "ingest_edges map_raw max_id counted loaded =
     (let index = replicate (unat (max_id + 2)) 0 in
      bindR (count_degrees counted index) (\<lambda>index1.
      bindR (construct_index max_id index1) (\<lambda>index2.
      bindR (write_index max_id index2 map_raw) (\<lambda>file.
        load_edges (max_id + 2) loaded index2 file))))"

text \<open>
  The program: the graph file is created and extended to its size with zeros, mapped, and
  filled; the result is the words of the file.
\<close>

definition ingest_main ::
  "string option list \<Rightarrow> edge_type list \<Rightarrow> edge_type list \<Rightarrow> u64 list result" where
  "ingest_main files counted loaded =
     bindR (check_edge_list files) (\<lambda>(max_id, nedges).
       let graph_size = (max_id + 2 + nedges) * 8
       in ingest_edges (replicate (unat graph_size div 8) 0) max_id counted loaded)"

section \<open>Degrees and rows\<close>

definition deg :: "edge_type list \<Rightarrow> nat \<Rightarrow> nat" where
  "deg es v = length (filter (\<lambda>e. unat (fst e) = v) es)"

definition start :: "edge_type list \<Rightarrow> nat \<Rightarrow> nat" where
  "start es v = (\<Sum>u<v. deg es u)"

definition targets :: "edge_type list \<Rightarrow> nat \<Rightarrow> u64 list" where
  "targets es v = map snd (filter (\<lambda>e. unat (fst e) = v) es)"

lemma length_targets [simp]: "length (targets es v) = deg es v"
  by (simp add: targets_def deg_def)

lemma deg_append: "deg (xs @ ys) v = deg xs v + deg ys v"
  by (simp add: deg_def)

lemma deg_mset: "mset xs = mset ys \<Longrightarrow> deg xs v = deg ys v"
  unfolding deg_def by (metis mset_filter size_mset)

lemma start_Suc: "start es (Suc v) = start es v + deg es v"
  by (simp add: start_def)

lemma start_mono: "v \<le> w \<Longrightarrow> start es v \<le> start es w"
  by (auto simp: start_def intro: sum_mono2)

lemma start_deg_le: "v < w \<Longrightarrow> start es v + deg es v \<le> start es w"
  using start_mono [of "Suc v" w es] by (simp add: start_Suc)

lemma start_total: "\<forall>e\<in>set es. unat (fst e) < n \<Longrightarrow> start es n = length es"
proof (induction es)
  case (Cons e es)
  have "start (e # es) n = (\<Sum>u<n. of_bool (u = unat (fst e)) + deg es u)"
    unfolding start_def by (rule sum.cong) (auto simp: deg_def)
  also have "\<dots> = 1 + start es n"
    using Cons.prems by (simp add: sum.distrib start_def of_bool_def)
  finally show ?case using Cons by simp
qed (simp add: start_def deg_def)

lemma count_degrees_ok:
  assumes "\<forall>e\<in>set es. unat (fst e) < length index"
    and "\<forall>v<length index. unat (index ! v) + length es < 2 ^ 64"
  shows "\<exists>index'. count_degrees es index = Inr index' \<and> length index' = length index
       \<and> (\<forall>v<length index. unat (index' ! v) = unat (index ! v) + deg es v)"
  using assms
proof (induction es arbitrary: index)
  case (Cons e es)
  obtain s t where e: "e = (s, t)" by (cases e)
  have s: "unat s < length index" using Cons.prems(1) e by simp
  let ?ix = "index[unat s := index ! unat s + 1]"
  have "unat (index ! unat s) + 1 < 2 ^ 64" using Cons.prems(2) s by force
  then have inc: "unat (index ! unat s + 1) = unat (index ! unat s) + 1"
    using unat_add_lem [of "index ! unat s" 1] by simp
  then have val: "unat (?ix ! v) = unat (index ! v) + of_bool (v = unat s)" if "v < length index" for v
    using that by (simp add: nth_list_update)
  have "\<forall>v<length ?ix. unat (?ix ! v) + length es < 2 ^ 64"
  proof (intro allI impI)
    fix v assume "v < length ?ix"
    then have v: "v < length index" by simp
    then have "unat (index ! v) + Suc (length es) < 2 ^ 64" using Cons.prems(2) by simp
    then show "unat (?ix ! v) + length es < 2 ^ 64" using val [OF v] by (cases "v = unat s") simp_all
  qed
  then obtain ix' where "count_degrees es ?ix = Inr ix'" "length ix' = length index"
    "\<forall>v<length index. unat (ix' ! v) = unat (?ix ! v) + deg es v"
    using Cons.IH [of ?ix] Cons.prems(1) by auto
  then show ?case using s val by (auto simp: e deg_def)
qed (simp add: deg_def)

lemma count_degrees_zero:
  assumes "\<forall>e\<in>set es. unat (fst e) < n" and "length es < 2 ^ 64"
  shows "\<exists>index. count_degrees es (replicate n 0) = Inr index \<and> length index = n
       \<and> (\<forall>v<n. unat (index ! v) = deg es v)"
  using count_degrees_ok [of es "replicate n 0"] assms by simp

lemma shift_index_ok:
  assumes "unat i < length index"
  shows "\<exists>index'. shift_index i index = Inr index' \<and> length index' = length index
       \<and> (\<forall>j<length index. index' ! j = (if 0 < j \<and> j \<le> unat i then index ! (j - 1) else index ! j))"
  using assms
proof (induction "unat i" arbitrary: i index)
  case 0
  then have "i = 0" by (metis unat_eq_zero)
  then show ?case by (auto simp: shift_index.simps [of 0])
next
  case (Suc k)
  then have pos: "0 < i" by (metis unat_0 word_gt_0 nat.distinct(1))
  then have m: "unat (i - 1) = k" using Suc.hyps(2) unat_prev [OF pos] by simp
  let ?ix = "index[unat i := index ! k]"
  obtain ix' where "shift_index (i - 1) ?ix = Inr ix'" "length ix' = length index"
    and val: "\<forall>j<length index. ix' ! j = (if 0 < j \<and> j \<le> k then ?ix ! (j - 1) else ?ix ! j)"
    using Suc.hyps(1) [of "i - 1" ?ix] m Suc.prems Suc.hyps(2) by auto
  moreover have "shift_index i index = shift_index (i - 1) ?ix"
    using pos m Suc.prems Suc.hyps(2) by (simp add: shift_index.simps [of i])
  moreover have "ix' ! j = (if 0 < j \<and> j \<le> unat i then index ! (j - 1) else index ! j)"
    if "j < length index" for j
    using val that Suc.hyps(2) [symmetric] by (cases "j = unat i") (auto simp: nth_list_update)
  ultimately show ?case by simp
qed

text \<open>
  The prefix sums: up to \<open>i\<close> the array holds the starts of the rows, from there on the
  degrees, shifted by one.
\<close>

lemma prefix_sums_ok:
  assumes n: "unat (max_id + 1) = n" and tot: "start es n < 2 ^ 64"
    and "unat i \<le> n" and "length index = Suc n"
    and "\<forall>j\<le>n. unat (index ! j) = (if j \<le> unat i then start es j else deg es (j - 1))"
  shows "\<exists>index'. prefix_sums max_id i index = Inr index' \<and> length index' = Suc n
       \<and> (\<forall>j\<le>n. unat (index' ! j) = start es j)"
  using assms(3-5)
proof (induction "n - unat i" arbitrary: i index)
  case 0
  then have "\<not> i < max_id + 1" using n by (simp add: word_less_nat_alt)
  then have "prefix_sums max_id i index = Inr index" by (subst prefix_sums.simps) (simp only: if_False)
  then show ?case using 0 by simp
next
  case (Suc k)
  then have lt: "i < max_id + 1" using n by (simp add: word_less_nat_alt)
  have i1: "unat (i + 1) = Suc (unat i)" using unat_next [OF lt] by simp
  have le: "Suc (unat i) \<le> n" using Suc.hyps(2) by simp
  let ?x = "index ! Suc (unat i) + index ! unat i" and ?ix = "index[Suc (unat i) := index ! Suc (unat i) + index ! unat i]"
  have a: "unat (index ! Suc (unat i)) = deg es (unat i)" "unat (index ! unat i) = start es (unat i)"
    using Suc.prems(3) le by simp_all
  have "start es (Suc (unat i)) < 2 ^ 64" using start_mono [OF le, of es] tot by simp
  then have "unat (index ! Suc (unat i)) + unat (index ! unat i) < 2 ^ LENGTH(64)"
    unfolding a by (simp add: start_Suc)
  then have "unat ?x = unat (index ! Suc (unat i)) + unat (index ! unat i)"
    by (simp only: unat_add_lem)
  then have x: "unat ?x = start es (Suc (unat i))" unfolding a start_Suc by linarith
  have step: "prefix_sums max_id i index = prefix_sums max_id (i + 1) ?ix"
  proof -
    have "unat i < length index" "unat (i + 1) < length index" using i1 le Suc.prems(2) by simp_all
    note access = get_at_ok [OF this(1)] get_at_ok [OF this(2)] put_at_ok [OF this(2)]
    show ?thesis
      by (subst prefix_sums.simps) (simp only: lt if_True access bindR_simps i1)
  qed
  have "\<forall>j\<le>n. unat (?ix ! j) = (if j \<le> unat (i + 1) then start es j else deg es (j - 1))"
  proof (intro allI impI)
    fix j assume j: "j \<le> n"
    show "unat (?ix ! j) = (if j \<le> unat (i + 1) then start es j else deg es (j - 1))"
    proof (cases "j = Suc (unat i)")
      case True
      then show ?thesis using x i1 le Suc.prems(2) by simp
    next
      case False
      then have "?ix ! j = index ! j" by simp
      moreover have "j \<le> unat (i + 1) \<longleftrightarrow> j \<le> unat i" using False i1 by linarith
      ultimately show ?thesis using Suc.prems(3) j by simp
    qed
  qed
  then show ?case
    unfolding step using Suc.hyps(1) [of "i + 1" ?ix] Suc.hyps(2) i1 le Suc.prems(2) by simp
qed

lemma construct_index_ok:
  assumes n: "unat (max_id + 1) = n" and tot: "start es n < 2 ^ 64" and len: "length index = Suc n"
    and deg: "\<forall>j<n. unat (index ! j) = deg es j"
  shows "\<exists>index'. construct_index max_id index = Inr index' \<and> length index' = Suc n
       \<and> (\<forall>j\<le>n. unat (index' ! j) = start es j)"
proof -
  obtain ix where ix: "shift_index (max_id + 1) index = Inr ix" "length ix = Suc n"
    "\<forall>j<Suc n. ix ! j = (if 0 < j \<and> j \<le> n then index ! (j - 1) else index ! j)"
    using shift_index_ok [of "max_id + 1" index] n len by auto
  let ?ix = "ix[0 := 0]"
  have "\<forall>j\<le>n. unat (?ix ! j) = (if j \<le> unat (0 :: u64) then start es j else deg es (j - 1))"
    using ix(2,3) deg by (auto simp: nth_list_update start_def less_Suc_eq_le)
  from prefix_sums_ok [OF n tot _ _ this] ix show ?thesis by (simp add: construct_index_def)
qed

section \<open>Loading\<close>

text \<open>The rows as far as the edges \<open>done\<close> are loaded; \<open>es\<close> are all edges.\<close>

definition rows_ok :: "edge_type list \<Rightarrow> edge_type list \<Rightarrow> nat \<Rightarrow> u64 list \<Rightarrow> u64 list \<Rightarrow> bool" where
  "rows_ok es loaded n index edges \<longleftrightarrow> n < length index \<and> length edges = length es
     \<and> (\<forall>v<n. unat (index ! v) = start es v + deg loaded v
          \<and> take (deg loaded v) (drop (start es v) edges) = targets loaded v)"

lemma take_drop_update_other:
  assumes "p < a \<or> a + k \<le> p"
  shows "take k (drop a (xs[p := x])) = take k (drop a xs)"
  using assms by (auto simp: drop_update_swap drop_update_cancel take_update_cancel)

lemma take_drop_snoc:
  assumes "a + k < length xs"
  shows "take (Suc k) (drop a (xs[a + k := x])) = take k (drop a xs) @ [x]"
proof -
  have "take (Suc k) ys = take k ys @ [ys ! k]" if "k < length ys" for ys :: "'a list"
    using that by (rule take_Suc_conv_app_nth)
  from this [of "drop a (xs[a + k := x])"] show ?thesis
    using assms by (simp add: take_drop_update_other)
qed

lemma rows_ok_step:
  assumes ok: "rows_ok es ld n index edges" and s: "unat s < n" and n: "\<forall>e\<in>set es. unat (fst e) < n"
    and le: "\<And>v. deg (ld @ [(s, t)]) v \<le> deg es v" and small: "length es < 2 ^ 64"
  defines "p \<equiv> index ! unat s"
  shows "unat p < length es" and "rows_ok es (ld @ [(s, t)]) n (index[unat s := p + 1]) (edges[unat p := t])"
proof -
  have row: "unat (index ! v) = start es v + deg ld v"
    "take (deg ld v) (drop (start es v) edges) = targets ld v" if "v < n" for v
    using ok that by (simp_all add: rows_ok_def)
  have len: "length edges = length es" "n < length index" using ok by (simp_all add: rows_ok_def)
  have p: "unat p = start es (unat s) + deg ld (unat s)" using row(1) [OF s] by (simp add: p_def)
  have "start es (unat s) + deg es (unat s) \<le> start es n" using s by (rule start_deg_le)
  moreover have d: "deg (ld @ [(s, t)]) v = deg ld v + of_bool (v = unat s)" for v by (simp add: deg_def)
  moreover have room: "deg ld (unat s) < deg es (unat s)" using le [of "unat s"] by (simp add: d)
  ultimately have plt: "unat p < length es" using p start_total [OF n] by simp
  then show "unat p < length es" .
  have inc: "unat (p + 1) = unat p + 1"
    using plt small unat_add_lem [of p 1] by simp
  have tg: "targets (ld @ [(s, t)]) v = targets ld v @ (if v = unat s then [t] else [])" for v
    by (simp add: targets_def)
  have "unat (index[unat s := p + 1] ! v) = start es v + deg (ld @ [(s, t)]) v
      \<and> take (deg (ld @ [(s, t)]) v) (drop (start es v) (edges[unat p := t])) = targets (ld @ [(s, t)]) v"
    if v: "v < n" for v
  proof (cases "v = unat s")
    case True
    then show ?thesis
      using row [OF v] p inc len s plt take_drop_snoc [of "start es v" "deg ld v" edges t]
      by (simp add: d tg)
  next
    case False
    have "unat p < start es v \<or> start es v + deg ld v \<le> unat p"
    proof (cases "unat s < v")
      case True
      then have "start es (unat s) + deg es (unat s) \<le> start es v" by (rule start_deg_le)
      then show ?thesis using p room by simp
    next
      case ge: False
      then have "v < unat s" using False by simp
      then have "start es v + deg es v \<le> start es (unat s)" by (rule start_deg_le)
      moreover have "deg ld v \<le> deg es v" using le [of v] by (simp add: d)
      ultimately show ?thesis using p by simp
    qed
    then show ?thesis
      using row [OF v] False by (simp add: d tg take_drop_update_other)
  qed
  then show "rows_ok es (ld @ [(s, t)]) n (index[unat s := p + 1]) (edges[unat p := t])"
    using len by (simp add: rows_ok_def)
qed

lemma load_edges_ok:
  assumes ok: "rows_ok es ld n index edges" and n: "\<forall>e\<in>set es. unat (fst e) < n"
    and off: "length pre = unat off" "unat off + length es < 2 ^ 64"
    and rest: "\<forall>e\<in>set rest. unat (fst e) < n" and "\<And>v. deg (ld @ rest) v = deg es v"
  shows "\<exists>index' edges'. load_edges off rest index (pre @ edges) = Inr (pre @ edges')
       \<and> rows_ok es (ld @ rest) n index' edges'"
  using ok rest assms(6)
proof (induction rest arbitrary: ld index edges)
  case (Cons e rest)
  obtain s t where e: "e = (s, t)" by (cases e)
  have s: "unat s < n" using Cons.prems(2) e by simp
  let ?p = "index ! unat s"
  have le: "deg (ld @ [(s, t)]) v \<le> deg es v" for v
    using Cons.prems(3) [of v] deg_append [of "ld @ [(s, t)]" rest v] e by simp
  have small: "length es < 2 ^ 64" using off(2) by linarith
  note step = rows_ok_step [OF Cons.prems(1) s n le small]
  have len: "unat s < length index" "length edges = length es"
    using Cons.prems(1) s by (simp_all add: rows_ok_def)
  have "unat off + unat ?p < 2 ^ LENGTH(64)" using off(2) step(1) by simp
  then have pos: "unat (off + ?p) = unat off + unat ?p" by (simp only: unat_add_lem)
  have "load_edges off (e # rest) index (pre @ edges)
      = load_edges off rest (index[unat s := ?p + 1]) (pre @ edges[unat ?p := t])"
    using len step(1) pos off(1) by (simp add: e list_update_append)
  moreover have "\<exists>index' edges'. load_edges off rest (index[unat s := ?p + 1]) (pre @ edges[unat ?p := t])
      = Inr (pre @ edges') \<and> rows_ok es ((ld @ [(s, t)]) @ rest) n index' edges'"
    by (rule Cons.IH [OF step(2)]) (use Cons.prems e in simp_all)
  ultimately show ?case by (simp add: e)
qed auto

text \<open>When everything is loaded, the edge array is the concatenation of the rows.\<close>

lemma rows_concat:
  assumes row: "\<And>v. v < n \<Longrightarrow> take (deg ld v) (drop (start es v) edges) = targets ld v"
    and deg: "\<And>v. deg ld v = deg es v"
  shows "k \<le> n \<Longrightarrow> take (start es k) edges = concat (map (targets ld) [0..<k])"
proof (induction k)
  case (Suc k)
  have "take (start es (Suc k)) edges = take (start es k) edges @ take (deg ld k) (drop (start es k) edges)"
    by (simp only: start_Suc deg take_add)
  then show ?case using Suc row by simp
qed (simp add: start_def)

lemma check_edges_ok:
  "\<exists>m'. check_edges es (m, k) = (m', k + of_nat (length es)) \<and> m \<le> m'
     \<and> (\<forall>(s, t)\<in>set es. s \<le> m' \<and> t \<le> m') \<and> (m' = m \<or> (\<exists>(s, t)\<in>set es. m' = s \<or> m' = t))"
proof (induction es arbitrary: m k)
  case (Cons e es)
  obtain s t where e: "e = (s, t)" by (cases e)
  obtain m' where m': "check_edges es (max t (max s m), k + 1) = (m', k + 1 + of_nat (length es))"
    "max t (max s m) \<le> m'" "\<forall>(s, t)\<in>set es. s \<le> m' \<and> t \<le> m'"
    "m' = max t (max s m) \<or> (\<exists>(s, t)\<in>set es. m' = s \<or> m' = t)"
    using Cons.IH by blast
  have "m' = m \<or> (\<exists>(a, b)\<in>set (e # es). m' = a \<or> m' = b)"
    using m'(4) by (auto simp: e max_def split: if_splits)
  then show ?case using m'(1-3) by (auto simp: e add_ac)
qed simp

lemma check_files_ok:
  "check_files (map Some texts) acc = Inr (check_edges (concat (map read_edges texts)) acc)"
proof -
  have app: "check_edges (xs @ ys) acc = check_edges ys (check_edges xs acc)" for xs ys acc
    by (induction xs acc rule: check_edges.induct) simp_all
  show ?thesis by (induction texts arbitrary: acc) (simp_all add: app)
qed

text \<open>The rows of a graph file.\<close>

definition graph_rows :: "u64 \<Rightarrow> u64 list \<Rightarrow> nat \<Rightarrow> u64 list" where
  "graph_rows nv g v =
     (let (index, edges) = graph_views nv g in slice (unat (index ! v)) (unat (index ! Suc v)) edges)"

text \<open>What the arrays hold when every edge has been placed.\<close>

lemma rows_ok_csr:
  assumes rows: "rows_ok es loaded n ix' E" and orders: "mset loaded = mset es"
    and src: "\<forall>e\<in>set loaded. unat (fst e) < n \<and> unat (snd e) < n"
    and ix: "length ix = Suc n" "\<forall>j\<le>n. unat (ix ! j) = start es j"
  shows "length E = length es" and "csr_ok n (ix @ E) E"
    and "\<And>v. v < n \<Longrightarrow> slice (start es v) (start es (Suc v)) E = targets loaded v"
proof -
  have "set es = set loaded" using orders by (metis set_mset_mset)
  then have tot: "start es n = length es" using src by (intro start_total) auto
  show lenE: "length E = length es" using rows by (simp add: rows_ok_def)
  have deg: "deg loaded v = deg es v" for v using orders by (rule deg_mset)
  have row: "take (deg loaded v) (drop (start es v) E) = targets loaded v" if "v < n" for v
    using rows that by (simp add: rows_ok_def)
  have "take (start es n) E = concat (map (targets loaded) [0..<n])"
    by (rule rows_concat [where n = n, OF row deg]) simp_all
  then have "E = concat (map (targets loaded) [0..<n])" by (simp only: tot lenE [symmetric] take_all_iff order_refl take_all)
  then have "set E \<subseteq> snd ` set loaded" by (auto simp: targets_def)
  then have "\<forall>t\<in>set E. unat t < n" using src by auto
  then show "csr_ok n (ix @ E) E"
    using ix start_mono [of _ n es] tot lenE start_Suc by (simp add: csr_ok_def nth_append)
  show "slice (start es v) (start es (Suc v)) E = targets loaded v" if "v < n" for v
    using row [OF that] by (simp add: slice_def start_Suc deg)
qed

lemma ingest_edges_ok:
  assumes max: "\<forall>(s, t)\<in>set es. s \<le> max_id \<and> t \<le> max_id"
    and small: "unat max_id + 2 + length es < 2 ^ 64"
    and orders: "mset counted = mset es" "mset loaded = mset es"
  shows "\<exists>g. ingest_edges (replicate (unat max_id + 2 + length es) 0) max_id counted loaded = Inr g
       \<and> length g = unat max_id + 2 + length es
       \<and> csr_ok (unat max_id + 1) (fst (graph_views (max_id + 1) g)) (snd (graph_views (max_id + 1) g))
       \<and> (\<forall>v\<le>unat max_id. graph_rows (max_id + 1) g v = targets loaded v)
       \<and> (\<forall>v\<le>unat max_id + 1. unat (g ! v) = start es v)"
proof -
  let ?n = "unat max_id + 1"
  have w1: "unat (max_id + 1) = ?n" and w2: "unat (max_id + 2) = Suc ?n"
    using small unat_add_lem [of max_id 1] unat_add_lem [of max_id 2] by simp_all
  have src: "\<forall>e\<in>set xs. unat (fst e) < ?n \<and> unat (snd e) < ?n" if "mset xs = mset es" for xs
  proof -
    have "set xs = set es" using that by (metis set_mset_mset)
    then show ?thesis using max by (auto simp: word_le_nat_alt less_Suc_eq_le)
  qed
  have es_src: "\<forall>e\<in>set es. unat (fst e) < ?n" using src [of es] by blast
  have "\<forall>e\<in>set counted. unat (fst e) < Suc ?n" using src [OF orders(1)] by (auto simp: less_SucI)
  moreover have "length counted < 2 ^ 64" using mset_eq_length [OF orders(1)] small by linarith
  ultimately obtain ix1 where ix1: "count_degrees counted (replicate (Suc ?n) 0) = Inr ix1"
    "length ix1 = Suc ?n" "\<forall>v<Suc ?n. unat (ix1 ! v) = deg counted v"
    using count_degrees_zero by blast
  have tot: "start es ?n = length es" using es_src by (rule start_total)
  obtain ix where ix: "construct_index max_id ix1 = Inr ix" "length ix = Suc ?n"
    "\<forall>j\<le>?n. unat (ix ! j) = start es j"
    using construct_index_ok [OF w1, of es ix1] tot small ix1 deg_mset [OF orders(1)] by auto
  let ?E = "replicate (length es) (0 :: u64)"
  have wr: "write_index max_id ix (replicate (unat max_id + 2 + length es) 0) = Inr (ix @ ?E)"
    using ix(2) by (simp add: write_index_def w2)
  have start: "rows_ok es [] ?n ix ?E" using ix by (simp add: rows_ok_def deg_def targets_def)
  have "\<exists>ix' E. load_edges (max_id + 2) loaded ix (ix @ ?E) = Inr (ix @ E)
      \<and> rows_ok es ([] @ loaded) ?n ix' E"
    by (rule load_edges_ok [OF start es_src])
      (use src [OF orders(2)] deg_mset [OF orders(2)] ix(2) w2 small in simp_all)
  then obtain ix' E where ld: "load_edges (max_id + 2) loaded ix (ix @ ?E) = Inr (ix @ E)"
    and rows: "rows_ok es loaded ?n ix' E"
    by auto
  let ?g = "ix @ E"
  have run: "ingest_edges (replicate (unat max_id + 2 + length es) 0) max_id counted loaded = Inr ?g"
    using ix1(1) ix(1) wr ld by (simp add: ingest_edges_def w2 del: replicate_Suc)
  have views: "graph_views (max_id + 1) ?g = (?g, E)" using ix(2) w2 by (simp add: graph_views_def add.commute)
  have g: "unat (?g ! v) = start es v" if "v \<le> ?n" for v using ix(2,3) that by (simp add: nth_append)
  note arrays = rows_ok_csr [OF rows orders(2) src [OF orders(2)] ix(2,3)]
  have "graph_rows (max_id + 1) ?g v = targets loaded v" if "v \<le> unat max_id" for v
    using arrays(3) [of v] g [of v] g [of "Suc v"] that by (simp add: graph_rows_def views)
  then show ?thesis using run views g arrays(1,2) ix(2) by (intro exI [of _ ?g]) simp
qed

lemma ingest_main_ok:
  assumes es: "es = concat (map read_edges texts)"
    and orders: "mset counted = mset es" "mset loaded = mset es"
    and ids: "\<forall>(s, t)\<in>set es. unat s < k \<and> unat t < k" and k: "0 < k"
    and small: "(k + 1 + length es) * 8 < 2 ^ 64"
  obtains max_id g where "check_edge_list (map Some texts) = Inr (max_id, of_nat (length es))"
    and "\<forall>(s, t)\<in>set es. s \<le> max_id \<and> t \<le> max_id" and "unat max_id < k"
    and "ingest_main (map Some texts) counted loaded = Inr g" and "length g = unat max_id + 2 + length es"
    and "csr_ok (unat max_id + 1) (fst (graph_views (max_id + 1) g)) (snd (graph_views (max_id + 1) g))"
    and "\<forall>v\<le>unat max_id. graph_rows (max_id + 1) g v = targets loaded v"
    and "\<forall>v\<le>unat max_id + 1. unat (g ! v) = start es v"
proof -
  obtain max_id where chk: "check_edges es (0, 0) = (max_id, of_nat (length es))"
    and max: "\<forall>(s, t)\<in>set es. s \<le> max_id \<and> t \<le> max_id"
    and att: "max_id = 0 \<or> (\<exists>(s, t)\<in>set es. max_id = s \<or> max_id = t)"
    using check_edges_ok [of es 0 0] by auto
  have mk: "unat max_id < k" using att ids k by auto
  let ?m = "unat max_id + 2 + length es"
  have "?m \<le> k + 1 + length es" using mk by linarith
  then have "?m * 8 \<le> (k + 1 + length es) * 8" by (rule mult_le_mono1)
  then have "?m * 8 < 2 ^ 64" using small by (rule le_less_trans)
  moreover have "(max_id + 2 + of_nat (length es)) * 8 = (of_nat (?m * 8) :: u64)" by simp
  ultimately have size: "unat ((max_id + 2 + of_nat (length es)) * 8 :: u64) div 8 = ?m"
    by (simp only: unat_of_nat_u64) simp
  have check: "check_edge_list (map Some texts) = Inr (max_id, of_nat (length es))"
    unfolding check_edge_list_def check_files_ok es [symmetric] chk ..
  have "?m < 2 ^ 64" by (rule le_less_trans [OF _ \<open>?m * 8 < 2 ^ 64\<close>]) simp
  from ingest_edges_ok [OF max this orders] obtain g where
    g: "ingest_edges (replicate ?m 0) max_id counted loaded = Inr g" "length g = ?m"
    "csr_ok (unat max_id + 1) (fst (graph_views (max_id + 1) g)) (snd (graph_views (max_id + 1) g))"
    "\<forall>v\<le>unat max_id. graph_rows (max_id + 1) g v = targets loaded v"
    "\<forall>v\<le>unat max_id + 1. unat (g ! v) = start es v"
    by blast
  have "ingest_main (map Some texts) counted loaded = Inr g"
    unfolding ingest_main_def check bindR_simps prod.case Let_def size by (rule g(1))
  from that [OF check max mk this g(2-5)] show thesis .
qed

section \<open>Properties\<close>

text \<open>
  C34: The ingested graph. From files with edges whose vertices lie below \<open>k\<close>, small enough
  for the size of the graph file not to overflow, the program builds a graph file in
  compressed rows without an access out of range, in whatever order the parallel loops meet
  the edges: the row of a vertex holds the targets of its edges in the order of loading, and
  the file has exactly the size of index and edges.
\<close>

theorem ingest_builds_rows:
  assumes es: "es = concat (map read_edges texts)"
    and orders: "mset counted = mset es" "mset loaded = mset es"
    and ids: "\<forall>(s, t)\<in>set es. unat s < k \<and> unat t < k" and k: "0 < k"
    and small: "(k + 1 + length es) * 8 < 2 ^ 64"
  shows "\<exists>max_id g. check_edge_list (map Some texts) = Inr (max_id, of_nat (length es))
     \<and> (\<forall>(s, t)\<in>set es. s \<le> max_id \<and> t \<le> max_id) \<and> unat max_id < k
     \<and> ingest_main (map Some texts) counted loaded = Inr g \<and> length g = unat max_id + 2 + length es
     \<and> csr_ok (unat max_id + 1) (fst (graph_views (max_id + 1) g)) (snd (graph_views (max_id + 1) g))
     \<and> (\<forall>v\<le>unat max_id. graph_rows (max_id + 1) g v
           = map snd (filter (\<lambda>e. unat (fst e) = v) loaded))"
  by (rule ingest_main_ok [OF es orders ids k small]) (unfold targets_def, blast)

text \<open>Two files; the second is loaded first.\<close>

definition demo_texts :: "string list" where
  "demo_texts = [edge_text [(1, 2), (3, 1)], edge_text [(1, 3)]]"

lemma demo_texts_edges: "concat (map read_edges demo_texts) = [(1, 2), (3, 1), (1, 3)]"
  using read_edges_lines [of "[]"] by (simp add: demo_texts_def)

theorem ingest_builds_rows_witness:
  "\<exists>max_id g. ingest_main (map Some demo_texts) [(1, 2), (3, 1), (1, 3)] [(1, 3), (1, 2), (3, 1)] = Inr g
     \<and> check_edge_list (map Some demo_texts) = Inr (max_id, 3)
     \<and> (1 \<le> unat max_id \<longrightarrow> graph_rows (max_id + 1) g 1 = [3, 2])"
proof -
  let ?es = "[(1, 2), (3, 1), (1, 3)] :: edge_type list"
  have "mset [(1, 3), (1, 2), (3, 1)] = mset ?es" by simp
  moreover have "\<forall>(s, t)\<in>set ?es. unat s < 4 \<and> unat t < 4" by simp
  ultimately show ?thesis
    using ingest_builds_rows [OF demo_texts_edges [symmetric] refl, of "[(1, 3), (1, 2), (3, 1)]" 4]
    by force
qed

text \<open>The graph of a list of edges.\<close>

definition graph_of :: "edge_type list \<Rightarrow> (nat \<times> nat) set" where
  "graph_of es = {(unat s, unat t) | s t. (s, t) \<in> set es}"

lemma edge_rel_graph_of:
  assumes "\<forall>v<n. slice (unat (index ! v)) (unat (index ! Suc v)) edges = targets ld v"
    and "\<forall>(s, t)\<in>set ld. unat s < n"
  shows "edge_rel n index edges = graph_of ld"
proof -
  have "adjacent index edges u = {unat t | s t. (s, t) \<in> set ld \<and> unat s = u}" if "u < n" for u
    using assms(1) that by (force simp: adjacent_def targets_def image_iff)
  then show ?thesis using assms(2) by (auto simp: edge_rel_def graph_of_def) blast
qed

lemma is_root_least:
  assumes start: "\<forall>v\<le>n. unat (index ! v) = start es v" and r: "r < n"
    and ex: "(s, t) \<in> set es" "unat s = r" and least: "\<forall>(s, t)\<in>set es. r \<le> unat s"
  shows "is_root n index r"
proof -
  have "deg es v = 0" if "v < r" for v using least that by (auto simp: deg_def filter_empty_conv)
  moreover have "deg es r \<noteq> 0" using ex by (force simp: deg_def filter_empty_conv)
  ultimately have "index ! v = index ! Suc v" if "v < r" for v
    using that start r by (simp add: word_unat_eq_iff start_Suc)
  moreover have "index ! r \<noteq> index ! Suc r"
    using start r \<open>deg es r \<noteq> 0\<close> by (simp add: word_unat_eq_iff start_Suc)
  ultimately show ?thesis using r by (simp add: is_root_def)
qed

text \<open>
  Zeros behind the graph, as the search finds them in a file that has been extended to whole
  pages, change nothing.
\<close>

lemma csr_padded:
  assumes csr: "csr_ok n g E" and n: "0 < n"
  shows "csr_ok n (g @ replicate z 0) (E @ replicate z 0)"
    and "edge_rel n (g @ replicate z 0) (E @ replicate z 0) = edge_rel n g E"
    and "is_root n g r \<Longrightarrow> is_root n (g @ replicate z 0) r"
proof -
  have len: "n < length g" and up: "\<And>v. v < n \<Longrightarrow> unat (g ! v) \<le> unat (g ! Suc v)"
    and fits: "\<And>v. v \<le> n \<Longrightarrow> unat (g ! v) \<le> length E" and trg: "\<forall>t\<in>set E. unat t < n"
    using csr by (simp_all add: csr_ok_def)
  have ix: "(g @ replicate z 0) ! v = g ! v" if "v \<le> n" for v using len that by (simp add: nth_append)
  show "csr_ok n (g @ replicate z 0) (E @ replicate z 0)"
    unfolding csr_ok_def using len up fits trg n by (auto simp: ix intro: trans_le_add1)
  have "slice (unat (g ! u)) (unat (g ! Suc u)) (E @ replicate z 0)
      = slice (unat (g ! u)) (unat (g ! Suc u)) E" if "u < n" for u
    using fits [of "Suc u"] fits [of u] that by (simp add: slice_def)
  then have "adjacent (g @ replicate z 0) (E @ replicate z 0) u = adjacent g E u" if "u < n" for u
    using that by (simp add: adjacent_def ix Suc_leI)
  then show "edge_rel n (g @ replicate z 0) (E @ replicate z 0) = edge_rel n g E"
    by (auto simp: edge_rel_def)
  show "is_root n g r \<Longrightarrow> is_root n (g @ replicate z 0) r"
    by (auto simp: is_root_def ix Suc_leI)
qed

text \<open>
  From text files to distances. The graph that is ingested from files with edges, in any
  order of the parallel loops, is searched correctly: the level of a vertex is its distance
  from the root in the graph of the edges in the files, the infinite level if it cannot be
  reached, where the root is the least vertex with an edge and no distance reaches 65534.
\<close>

lemma ingested_graph_searched:
  assumes es: "es = concat (map read_edges texts)"
    and orders: "mset counted = mset es" "mset loaded = mset es"
    and ids: "\<forall>(s, t)\<in>set es. unat s < k \<and> unat t < k"
    and small: "(k + 1 + length es) * 8 < 2 ^ 64"
    and root: "r \<in> fst ` graph_of es" "\<forall>u\<in>fst ` graph_of es. r \<le> u"
    and shallow: "\<And>v j. distance (graph_of es) r v j \<Longrightarrow> j < 65534"
  obtains max_id g where "ingest_main (map Some texts) counted loaded = Inr g"
    and "check_edge_list (map Some texts) = Inr (max_id, of_nat (length es))"
    and "unat max_id < k" and "length g = unat max_id + 2 + length es"
    and "\<forall>z. \<exists>c lv cnt. (case graph_views (max_id + 1) (g @ replicate z 0) of (index, edges) \<Rightarrow>
             bfs_search (max_id + 1) index edges) = Some (Inr (c, lv))
         \<and> length lv = unat max_id + 1 \<and> count_level (max_id + 1) c lv = Some cnt
         \<and> (\<forall>v\<le>unat max_id. (lv ! v = k_infinite_level \<longleftrightarrow> (r, v) \<notin> (graph_of es)\<^sup>*)
              \<and> ((r, v) \<in> (graph_of es)\<^sup>* \<longrightarrow> distance (graph_of es) r v (unat (lv ! v))))"
proof -
  obtain s t where st: "(s, t) \<in> set es" "unat s = r" using root(1) by (auto simp: graph_of_def)
  have k: "0 < k" using ids st(1) by auto
  have least: "\<forall>(s, t)\<in>set es. r \<le> unat s" using root(2) by (force simp: graph_of_def)
  from ingest_main_ok [OF es orders ids k small] obtain max_id g where
    m: "check_edge_list (map Some texts) = Inr (max_id, of_nat (length es))"
    "\<forall>(s, t)\<in>set es. s \<le> max_id \<and> t \<le> max_id" "unat max_id < k"
    and run: "ingest_main (map Some texts) counted loaded = Inr g" "length g = unat max_id + 2 + length es"
    and csr: "csr_ok (unat max_id + 1) (fst (graph_views (max_id + 1) g)) (snd (graph_views (max_id + 1) g))"
    and rows: "\<forall>v\<le>unat max_id. graph_rows (max_id + 1) g v = targets loaded v"
    and starts: "\<forall>v\<le>unat max_id + 1. unat (g ! v) = start es v"
    by metis
  let ?n = "unat max_id + 1" and ?E = "snd (graph_views (max_id + 1) g)"
  have ix: "fst (graph_views (max_id + 1) g) = g" by (simp add: graph_views_def)
  have n: "unat (max_id + 1) = ?n" "unat (max_id + 1 + 1) = ?n + 1"
    using m(3) small unat_add_lem [of max_id 1] unat_add_lem [of "max_id + 1" 1] by simp_all
  have set: "set loaded = set es" using orders(2) by (metis set_mset_mset)
  have r: "r < ?n" using m(2) st by (auto simp: word_le_nat_alt less_Suc_eq_le)
  have "edge_rel ?n g ?E = graph_of loaded"
    by (rule edge_rel_graph_of)
      (use rows m(2) set ix in \<open>auto simp: graph_rows_def split_beta Let_def word_le_nat_alt less_Suc_eq_le\<close>)
  then have rel: "edge_rel ?n g ?E = graph_of es" by (simp add: graph_of_def set)
  have root_g: "is_root ?n g r" by (rule is_root_least [OF starts r st least])
  have "\<exists>c lv cnt. (case graph_views (max_id + 1) (g @ replicate z 0) of (index, edges) \<Rightarrow>
             bfs_search (max_id + 1) index edges) = Some (Inr (c, lv))
         \<and> length lv = unat max_id + 1 \<and> count_level (max_id + 1) c lv = Some cnt
         \<and> (\<forall>v\<le>unat max_id. (lv ! v = k_infinite_level \<longleftrightarrow> (r, v) \<notin> (graph_of es)\<^sup>*)
              \<and> ((r, v) \<in> (graph_of es)\<^sup>* \<longrightarrow> distance (graph_of es) r v (unat (lv ! v))))" for z
  proof -
    let ?ix = "g @ replicate z 0" and ?F = "?E @ replicate z 0"
    have views: "graph_views (max_id + 1) ?ix = (?ix, ?F)"
      using run(2) n(2) by (simp add: graph_views_def)
    have pad: "csr_ok ?n ?ix ?F" "edge_rel ?n ?ix ?F = graph_of es" "is_root ?n ?ix r"
      using csr_padded(1,2) [OF csr [unfolded ix], of z] csr_padded(3) [OF csr [unfolded ix] _ root_g] rel
      by simp_all
    obtain c lv cnt where "bfs_search (max_id + 1) ?ix ?F = Some (Inr (c, lv))" "length lv = ?n"
      "\<forall>v<?n. (lv ! v = k_infinite_level \<longleftrightarrow> (r, v) \<notin> (graph_of es)\<^sup>*)
          \<and> ((r, v) \<in> (graph_of es)\<^sup>* \<longrightarrow> distance (graph_of es) r v (unat (lv ! v)) \<and> lv ! v \<le> c)"
      "count_level (max_id + 1) c lv = Some cnt"
      using bfs_search_ok [of "max_id + 1" ?ix ?F r, unfolded n(1) pad(2), OF pad(1,3)] shallow by blast
    then show ?thesis unfolding views by (auto simp: less_Suc_eq_le)
  qed
  then show thesis using that [OF run(1) m(1,3) run(2)] by blast
qed

end
