(* ===== verification/Umapsort.thy ===== *)
theory Umapsort
  imports Bitmap Decimal "HOL-Library.Multiset"
begin

text \<open>
  The sorting benchmark of \<^verbatim>\<open>examples/umapsort\<close>: its options, the mapping of files, the
  division of the pages among several files, initialisation, sorting and validation.
\<close>

section \<open>Options\<close>

text \<open>\<^verbatim>\<open>strtoull\<close> with base 0: a prefix selects base 16 or 8; a number out of range gives the greatest value.\<close>

definition digit_value :: "char \<Rightarrow> nat" where
  "digit_value c =
     (let n = of_char c :: nat in
      if 48 \<le> n \<and> n \<le> 57 then n - 48
      else if 65 \<le> n \<and> n \<le> 90 then n - 55
      else if 97 \<le> n \<and> n \<le> 122 then n - 87
      else 36)"

fun base_prefix :: "string \<Rightarrow> nat \<times> string" where
  "base_prefix (z # x # d # s) =
     (if z = CHR ''0'' \<and> x \<in> {CHR ''x'', CHR ''X''} \<and> digit_value d < 16 then (16, d # s)
      else if z = CHR ''0'' then (8, z # x # d # s) else (10, z # x # d # s))"
| "base_prefix s = (if s \<noteq> [] \<and> hd s = CHR ''0'' then 8 else 10, s)"

definition strtoull :: "string \<Rightarrow> u64" where
  "strtoull s =
     (let (neg, s2) = split_sign (dropWhile is_space s); (base, s3) = base_prefix s2;
          n = foldl (\<lambda>n c. base * n + digit_value c) 0 (takeWhile (\<lambda>c. digit_value c < base) s3)
      in if 2 ^ 64 \<le> n then - 1 else if neg then - of_nat n else of_nat n)"

record umapcfg =
  cfg_page_size :: u64
  cfg_max_pages :: u64
  cfg_fillers :: u64
  cfg_evictors :: u64
  cfg_low_water :: u64
  cfg_high_water :: u64

record umt_optstruct_t =
  initonly :: bool
  noinit :: bool
  usemmap :: bool
  shuffle :: bool
  pagesize :: u64
  bufsize :: u64
  numpages :: u64
  numthreads :: u64
  numfiles :: u64
  num_filler_threads :: u64
  num_evictor_threads :: u64
  evict_hiwater :: u64
  evict_lowater :: u64
  pages_to_access :: u64
  filename :: string
  dirname :: string

definition default_opts :: "umapcfg \<Rightarrow> umt_optstruct_t" where
  "default_opts cfg =
     \<lparr>initonly = False, noinit = False, usemmap = False, shuffle = False,
      pagesize = cfg_page_size cfg, bufsize = cfg_max_pages cfg, numpages = 10000000,
      numthreads = 2, numfiles = 1, num_filler_threads = cfg_fillers cfg,
      num_evictor_threads = cfg_evictors cfg, evict_hiwater = cfg_high_water cfg,
      evict_lowater = cfg_low_water cfg, pages_to_access = 0, filename = ''abc'',
      dirname = ''/mnt/intel/''\<rparr>"

text \<open>
  What \<^verbatim>\<open>getopt_long\<close> delivers: a long option by its name or a short one with its argument; an
  unknown option is the short option \<^verbatim>\<open>?\<close>. The usage message ends the program.
\<close>

datatype getopt_event = Long string | Short char string

definition usage :: "'a result" where
  "usage = Inl (UMAP_ERROR ''usage'')"

text \<open>\<open>numfiles\<close> is signed in the source; it is kept as the 64-bit pattern and compared as signed.\<close>

fun getopt_loop :: "getopt_event list \<Rightarrow> umt_optstruct_t \<Rightarrow> umt_optstruct_t result" where
  "getopt_loop [] t = Inr t"
| "getopt_loop (Long name # es) t =
     (if name = ''initonly'' then getopt_loop es (t\<lparr>initonly := True\<rparr>)
      else if name = ''noinit'' then getopt_loop es (t\<lparr>noinit := True\<rparr>)
      else if name = ''usemmap'' then getopt_loop es (t\<lparr>usemmap := True\<rparr>)
      else if name = ''shuffle'' then getopt_loop es (t\<lparr>shuffle := True\<rparr>)
      else usage)"
| "getopt_loop (Short c optarg # es) t =
     (if c = CHR ''p'' then
        (if strtoull optarg > 0 then getopt_loop es (t\<lparr>numpages := strtoull optarg\<rparr>) else usage)
      else if c = CHR ''N'' then
        (if sint (strtoull optarg) > 0 then getopt_loop es (t\<lparr>numfiles := strtoull optarg\<rparr>) else usage)
      else if c = CHR ''t'' then
        (if strtoull optarg > 0 then getopt_loop es (t\<lparr>numthreads := strtoull optarg\<rparr>) else usage)
      else if c = CHR ''a'' then getopt_loop es (t\<lparr>pages_to_access := strtoull optarg\<rparr>)
      else if c = CHR ''d'' then getopt_loop es (t\<lparr>dirname := optarg\<rparr>)
      else if c = CHR ''f'' then getopt_loop es (t\<lparr>filename := optarg\<rparr>)
      else usage)"

text \<open>\<open>left_over\<close> says whether arguments remain after the options.\<close>

definition umt_getoptions ::
  "umapcfg \<Rightarrow> getopt_event list \<Rightarrow> bool \<Rightarrow> umt_optstruct_t result" where
  "umt_getoptions cfg events left_over =
     bindR (getopt_loop events (default_opts cfg)) (\<lambda>t.
       if numpages t < pages_to_access t then usage
       else if left_over then usage
       else Inr t)"

section \<open>Mapping files\<close>

text \<open>
  The answers of the system: the descriptor or \<open>None\<close>, whether the space could be allocated,
  the size of the file, and the address of the mapping. The flags are whether the file is
  written to and whether the address is fixed.
\<close>

record map_env =
  env_open :: "string \<Rightarrow> bool \<Rightarrow> bool \<Rightarrow> int option"
  env_fallocate :: "int \<Rightarrow> u64 \<Rightarrow> bool"
  env_fstat :: "int \<Rightarrow> u64 option"
  env_mmap :: "addr \<Rightarrow> u64 \<Rightarrow> bool \<Rightarrow> bool \<Rightarrow> int \<Rightarrow> addr option"
  env_umap :: "addr \<Rightarrow> u64 \<Rightarrow> bool \<Rightarrow> bool \<Rightarrow> int \<Rightarrow> addr option"

text \<open>The result 0 is the null pointer.\<close>

definition map_file ::
  "map_env \<Rightarrow> string \<Rightarrow> bool \<Rightarrow> bool \<Rightarrow> bool \<Rightarrow> u64 \<Rightarrow> addr \<Rightarrow> addr" where
  "map_file env name need_init has_write mmapped numbytes start_addr =
     (let has_write = (need_init \<or> has_write) in
      case env_open env name need_init has_write of
        None \<Rightarrow> 0
      | Some fd \<Rightarrow>
          if need_init \<and> \<not> env_fallocate env fd numbytes then 0
          else (case env_fstat env fd of
              None \<Rightarrow> 0
            | Some st_size \<Rightarrow>
                if st_size \<noteq> numbytes then 0
                else let fixed = (start_addr \<noteq> 0);
                         region = (if mmapped then env_mmap env start_addr numbytes has_write fixed fd
                                   else env_umap env start_addr numbytes has_write fixed fd)
                     in (case region of None \<Rightarrow> 0 | Some a \<Rightarrow> a)))"

text \<open>The division of the pages among the files: address and number of bytes of each.\<close>

function plan_files :: "u64 \<Rightarrow> u64 \<Rightarrow> u64 \<Rightarrow> nat \<Rightarrow> nat \<Rightarrow> addr \<Rightarrow> (addr \<times> u64) list" where
  "plan_files pages_per_file pages_in_last_file psize nfiles i rng_start =
     (if i < nfiles then
        let pagecount = (if i = nfiles - 1 then pages_per_file else pages_in_last_file);
            bcount = psize * pagecount
        in (rng_start, bcount)
           # plan_files pages_per_file pages_in_last_file psize nfiles (i + 1) (rng_start + bcount)
      else [])"
  by pat_completeness auto
termination
  by (relation "measure (\<lambda>(p, l, z, n, i, r). n - i)") auto

declare plan_files.simps [simp del]

definition file_plan :: "u64 \<Rightarrow> u64 \<Rightarrow> u64 \<Rightarrow> addr \<Rightarrow> (addr \<times> u64) list" where
  "file_plan npages nfiles psize rng_start =
     (let pages_per_file = npages div nfiles;
          pages_in_last_file = pages_per_file + npages mod nfiles
      in plan_files pages_per_file pages_in_last_file psize (unat nfiles) 0 rng_start)"

text \<open>The files are mapped one after the other; \<open>False\<close> if one fails.\<close>

definition map_files :: "map_env \<Rightarrow> umt_optstruct_t \<Rightarrow> (addr \<times> u64) list \<Rightarrow> bool" where
  "map_files env t plan =
     list_all (\<lambda>(i, a, n). map_file env (filename t @ ''.'' @ show_nat i) True True (usemmap t) n a \<noteq> 0)
       (enumerate 0 plan)"

section \<open>The program\<close>

definition initdata :: "u64 \<Rightarrow> u64 list \<Rightarrow> u64 list" where
  "initdata rlen region = map (\<lambda>i. rlen - of_nat i) [0..<unat rlen] @ drop (unat rlen) region"

text \<open>
  \<open>validatedata\<close>: the clause \<^verbatim>\<open>private(failed)\<close> gives every thread a copy of \<open>failed\<close> that is not
  initialised; \<open>failed i\<close> is what iteration \<open>i\<close> finds there. A difference ends the program.
\<close>

definition validatedata :: "(nat \<Rightarrow> bool) \<Rightarrow> bool \<Rightarrow> u64 list \<Rightarrow> u64 \<Rightarrow> unit result" where
  "validatedata failed sort_ascending region rlen =
     (if list_all (\<lambda>i. failed i \<or> region ! i = (if sort_ascending then of_nat i + 1 else rlen - of_nat i))
           [0..<unat rlen]
      then Inr () else Inl (UMAP_ERROR ''found an error''))"

text \<open>The parallel sort of the standard library, ascending or descending.\<close>

definition sort_array :: "bool \<Rightarrow> u64 list \<Rightarrow> u64 list" where
  "sort_array ascending xs = (if ascending then sort xs else rev (sort xs))"

text \<open>
  \<open>main\<close> after the options: the exit code and the array at the end. The files are created
  anew (\<open>map_file\<close> is called with \<^verbatim>\<open>need_init\<close> set), so that the mapped memory reads as zeros.
\<close>

definition umapsort :: "map_env \<Rightarrow> (nat \<Rightarrow> bool) \<Rightarrow> umt_optstruct_t \<Rightarrow> u64 \<Rightarrow> (int \<times> u64 list) result" where
  "umapsort env failed t psize =
     (let totalbytes = numpages t * psize;
          rng_start = map_file env (filename t) True True (usemmap t) totalbytes 0
      in if rng_start = 0 then Inr (- 1, [])
         else if sint (numfiles t) > 1 \<and> \<not> map_files env t (file_plan (numpages t) (numfiles t) psize rng_start)
         then Inr (- 1, [])
         else
           let arraysize = totalbytes div 8;
               arr = replicate (unat arraysize) 0;
               arr = (if noinit t then arr else initdata arraysize arr)
           in if initonly t then Inr (0, arr)
              else bindR (get_at arr 0) (\<lambda>first.
                     let sort_ascending = (first \<noteq> 1); arr = sort_array sort_ascending arr
                     in bindR (validatedata failed sort_ascending arr arraysize) (\<lambda>_. Inr (0, arr))))"

section \<open>Lemmas\<close>

lemma sort_array_ascending:
  assumes "n < 2 ^ 64"
  shows "sort (map (\<lambda>i. of_nat n - of_nat i) [0..<n] :: u64 list) = map of_nat [1..<Suc n]"
proof (rule properties_for_sort)
  have w: "unat (of_nat i :: u64) = i" if "i \<le> n" for i
    by (rule unat_of_nat_u64) (use that assms in linarith)
  show "sorted (map of_nat [1..<Suc n] :: u64 list)"
    unfolding sorted_iff_nth_mono
  proof (intro allI impI)
    fix i j assume "i \<le> j" "j < length (map of_nat [1..<Suc n] :: u64 list)"
    then show "(map of_nat [1..<Suc n] :: u64 list) ! i \<le> map of_nat [1..<Suc n] ! j"
      using w [of "Suc i"] w [of "Suc j"] by (simp add: word_le_nat_alt del: upt_Suc of_nat_Suc)
  qed
  have "rev [1..<Suc n] = map (\<lambda>i. n - i) [0..<n]"
    by (rule nth_equalityI) (simp_all add: rev_nth del: upt_Suc)
  then have "rev (map of_nat [1..<Suc n]) = (map (\<lambda>i. of_nat (n - i)) [0..<n] :: u64 list)"
    by (simp only: rev_map map_map comp_def)
  also have "\<dots> = map (\<lambda>i. of_nat n - of_nat i) [0..<n]" by (rule map_cong) simp_all
  finally have "rev (map of_nat [1..<Suc n]) = (map (\<lambda>i. of_nat n - of_nat i) [0..<n] :: u64 list)" .
  then show "mset (map of_nat [1..<Suc n] :: u64 list) = mset (map (\<lambda>i. of_nat n - of_nat i) [0..<n])"
    by (metis mset_rev)
qed

lemma validatedata_sorted: "validatedata failed True (map of_nat [1..<Suc (unat n)]) n = Inr ()"
proof -
  have "map of_nat [1..<Suc (unat n)] ! i = (of_nat i + 1 :: u64)" if "i < unat n" for i
    using that by (simp add: nth_append del: upt_Suc)
  then show ?thesis by (simp add: validatedata_def list_all_iff del: upt_Suc)
qed

text \<open>Two descriptions of the whole range: the program's plan and where it ends.\<close>

fun plan_end :: "addr \<Rightarrow> (addr \<times> u64) list \<Rightarrow> addr" where
  "plan_end a [] = a"
| "plan_end a ((b, n) # ps) = plan_end (b + n) ps"

lemma plan_files_end:
  assumes "i < nfiles"
  shows "plan_end a (plan_files per last_pages z nfiles i a)
       = a + z * (of_nat (nfiles - 1 - i) * last_pages + per)"
  using assms
proof (induction "nfiles - 1 - i" arbitrary: i a)
  case 0
  then have "i = nfiles - 1" by simp
  then show ?case using 0 by (simp add: plan_files.simps [of per last_pages z nfiles] Let_def)
next
  case (Suc k)
  then have i: "i < nfiles" "i \<noteq> nfiles - 1" and k: "k = nfiles - 1 - Suc i" by simp_all
  have "plan_end a (plan_files per last_pages z nfiles i a)
      = plan_end (a + z * last_pages) (plan_files per last_pages z nfiles (Suc i) (a + z * last_pages))"
    using i by (simp add: plan_files.simps [of per last_pages z nfiles i] Let_def)
  also have "\<dots> = a + z * last_pages + z * (of_nat k * last_pages + per)"
    using Suc.hyps(1) [of "Suc i"] k i by simp
  finally show ?case using Suc.hyps(2) [symmetric] by (simp add: algebra_simps)
qed

text \<open>The mapping of the range and of the files succeeds.\<close>

definition mapped_ok :: "map_env \<Rightarrow> umt_optstruct_t \<Rightarrow> u64 \<Rightarrow> bool" where
  "mapped_ok env t psize \<longleftrightarrow>
     (let a = map_file env (filename t) True True (usemmap t) (numpages t * psize) 0 in
      a \<noteq> 0 \<and> (sint (numfiles t) > 1 \<longrightarrow> map_files env t (file_plan (numpages t) (numfiles t) psize a)))"

lemma umapsort_mapped:
  assumes "mapped_ok env t psize"
  shows "umapsort env failed t psize =
     (let arraysize = numpages t * psize div 8;
          arr = (if noinit t then replicate (unat arraysize) 0
                 else initdata arraysize (replicate (unat arraysize) 0))
      in if initonly t then Inr (0, arr)
         else bindR (get_at arr 0) (\<lambda>first.
                let sort_ascending = (first \<noteq> 1); arr = sort_array sort_ascending arr
                in bindR (validatedata failed sort_ascending arr arraysize) (\<lambda>_. Inr (0, arr))))"
proof -
  let ?a = "map_file env (filename t) True True (usemmap t) (numpages t * psize) 0"
  have a: "?a \<noteq> 0" and f: "\<not> (sint (numfiles t) > 1 \<and> \<not> map_files env t (file_plan (numpages t) (numfiles t) psize ?a))"
    using assms by (simp_all add: mapped_ok_def Let_def)
  show ?thesis unfolding umapsort_def Let_def if_not_P [OF a] if_not_P [OF f] ..
qed

section \<open>Properties\<close>


text \<open>
  Skipping the initialisation never works: since the file is removed and created anew in
  every run, with \<^verbatim>\<open>--noinit\<close> the array holds zeros and the validation after sorting fails, as soon
  as one iteration finds its copy of \<open>failed\<close> cleared.
\<close>

lemma umapsort_noinit_fails:
  assumes ok: "mapped_ok env t psize" and "noinit t" "\<not> initonly t"
    and n: "n = numpages t * psize div 8" and i: "i < unat n" "\<not> failed i"
  shows "umapsort env failed t psize = Inl (UMAP_ERROR ''found an error'')"
proof -
  let ?z = "replicate (unat n) (0 :: u64)"
  have "get_at ?z 0 = Inr 0" using i by simp
  moreover have "sort_array True ?z = ?z" by (simp add: sort_array_def sorted_sort_id)
  moreover have "validatedata failed True ?z n = Inl (UMAP_ERROR ''found an error'')"
  proof -
    have "unat (of_nat i + 1 :: u64) = i + 1"
      using unat_of_nat_u64 [of "i + 1"] i unat_bound_u64 [of n] by (simp add: add.commute)
    then have "?z ! i \<noteq> of_nat i + 1" using i by (metis nth_replicate unat_0 add_is_0 one_neq_zero)
    then have "\<not> list_all (\<lambda>i. failed i \<or> ?z ! i = (if True then of_nat i + 1 else n - of_nat i)) [0..<unat n]"
      using i by (auto simp: list_all_iff)
    then show ?thesis by (simp only: validatedata_def if_False)
  qed
  ultimately show ?thesis
    using assms(2,3) by (simp add: umapsort_mapped [OF ok] n [symmetric] Let_def)
qed

text \<open>
  The files overrun the range. The two page counts of the division are interchanged: every
  file but the last gets the remainder. The files end after \<open>numfiles - 2\<close> times the remainder
  too many pages, which is right for two files or a number of pages that divides, and beyond
  the mapped range otherwise.
\<close>

lemma file_plan_overruns:
  assumes nf: "2 \<le> unat nf"
    and fits: "unat a + unat z * (unat np + (unat nf - 2) * (unat np mod unat nf)) < 2 ^ 64"
  shows "unat (plan_end a (file_plan np nf z a))
     = unat a + unat z * unat np + unat z * ((unat nf - 2) * (unat np mod unat nf))"
proof -
  let ?q = "unat np div unat nf" and ?r = "unat np mod unat nf"
  obtain m where m: "unat nf = m + 2" using nf by (metis add.commute le_Suc_ex)
  have w: "np div nf = of_nat ?q" "np mod nf = of_nat ?r"
    by (metis of_nat_unat ucast_id unat_div_distrib, metis of_nat_unat ucast_id unat_mod_distrib)
  have "(m + 1) * (?q + ?r) + ?q = (m + 2) * ?q + (m + 1) * ?r" by (simp add: algebra_simps)
  also have "\<dots> = unat np + m * ?r"
    using div_mult_mod_eq [of "unat np" "unat nf"] by (simp add: m algebra_simps)
  finally have pages: "(m + 1) * (?q + ?r) + ?q = unat np + m * ?r" .
  have "plan_end a (file_plan np nf z a) = a + z * (of_nat (m + 1) * (of_nat ?q + of_nat ?r) + of_nat ?q)"
    using plan_files_end [of 0 "unat nf" a "np div nf" "np div nf + np mod nf" z] m
    by (simp add: file_plan_def Let_def w)
  also have "\<dots> = of_nat (unat a + unat z * ((m + 1) * (?q + ?r) + ?q))"
    by (simp add: algebra_simps)
  finally have "plan_end a (file_plan np nf z a) = of_nat (unat a + unat z * (unat np + m * ?r))"
    by (simp only: pages)
  then have "unat (plan_end a (file_plan np nf z a)) = unat a + unat z * (unat np + m * ?r)"
    using fits m by (simp only: unat_of_nat_u64 diff_add_inverse2)
  then show ?thesis by (simp add: m algebra_simps)
qed

section \<open>Witnesses\<close>

definition sort_env :: map_env where
  "sort_env = \<lparr>env_open = (\<lambda>_ _ _. Some 3), env_fallocate = (\<lambda>_ _. True), env_fstat = (\<lambda>_. Some 32),
     env_mmap = (\<lambda>_ _ _ _ _. None), env_umap = (\<lambda>_ _ _ _ _. Some 0x1000)\<rparr>"

definition sort_opts :: umt_optstruct_t where
  "sort_opts = (default_opts \<lparr>cfg_page_size = 16, cfg_max_pages = 8, cfg_fillers = 1, cfg_evictors = 1,
     cfg_low_water = 70, cfg_high_water = 90\<rparr>)\<lparr>numpages := 2\<rparr>"

lemma demo_mapped: "mapped_ok sort_env sort_opts 16"
  by (simp add: mapped_ok_def map_file_def sort_env_def sort_opts_def default_opts_def Let_def)


end
