(* ===== verification/Graph_File.thy ===== *)
theory Graph_File
  imports Ingest Umapsort Sparse_Store_Props
begin

text \<open>
  The graph file on its way from the ingestion to the search: the wrappers of system calls in
  \<^verbatim>\<open>examples/bfs/utility/file.hpp\<close> and \<^verbatim>\<open>mmap.hpp\<close>, the functions of \<^verbatim>\<open>examples/bfs/main.cpp\<close> and
  \<^verbatim>\<open>ingest_edge_list.cpp\<close> that create, extend and map the file, and both programs as a whole on
  the files of \<^verbatim>\<open>Stores\<close>. The function \<open>map_file\<close> of \<^verbatim>\<open>map_file.hpp\<close>, which both examples have a
  copy of, is the one of \<^verbatim>\<open>Umapsort\<close>.
\<close>

section \<open>Files\<close>

text \<open>
  The answers of the system: whether it lets a file be opened, tells its status, changes its
  length; the page size, or -1; where it maps, for the call in \<^verbatim>\<open>mmap.hpp\<close> and the two in
  \<^verbatim>\<open>map_file.hpp\<close> (the arguments are the address, the length, whether the mapping is written to,
  further flags or whether the address is fixed, the descriptor, and the offset), and whether
  it unmaps.
\<close>

record file_answers =
  may_open :: "string \<Rightarrow> bool"
  may_stat :: "int \<Rightarrow> bool"
  may_truncate :: "int \<Rightarrow> u64 \<Rightarrow> bool"
  sysconf_page_size :: int
  sys_mmap :: "addr \<Rightarrow> u64 \<Rightarrow> bool \<Rightarrow> int \<Rightarrow> int \<Rightarrow> int \<Rightarrow> addr option"
  sys_mmap_noreserve :: "addr \<Rightarrow> u64 \<Rightarrow> bool \<Rightarrow> bool \<Rightarrow> int \<Rightarrow> addr option"
  sys_umap :: "addr \<Rightarrow> u64 \<Rightarrow> bool \<Rightarrow> bool \<Rightarrow> int \<Rightarrow> addr option"
  sys_munmap :: "addr \<Rightarrow> u64 \<Rightarrow> bool"
  sys_uunmap :: "addr \<Rightarrow> u64 \<Rightarrow> bool"

text \<open>\<^verbatim>\<open>open\<close> of a file that must exist, and with \<^verbatim>\<open>O_CREAT\<close> and \<^verbatim>\<open>O_TRUNC\<close>; \<open>None\<close> for -1.\<close>

definition open_existing :: "file_answers \<Rightarrow> string \<Rightarrow> fsys \<Rightarrow> (int \<times> fsys) option" where
  "open_existing ans name fs =
     (if may_open ans name \<and> data fs name \<noteq> None then Some (fs_open name fs) else None)"

definition open_truncated :: "file_answers \<Rightarrow> string \<Rightarrow> fsys \<Rightarrow> (int \<times> fsys) option" where
  "open_truncated ans name fs =
     (if may_open ans name then
        let (fd, fs1) = fs_open name fs in Some (fd, fs1\<lparr>data := (data fs1)(name \<mapsto> [])\<rparr>)
      else None)"

definition close_fd :: "int \<Rightarrow> fsys \<Rightarrow> fsys" where
  "close_fd fd fs = (case fs_close fd fs of None \<Rightarrow> fs | Some fs' \<Rightarrow> fs')"

definition contents :: "int \<Rightarrow> fsys \<Rightarrow> byte list" where
  "contents fd fs = (case Option.bind (fd_path fd fs) (data fs) of None \<Rightarrow> [] | Some d \<Rightarrow> d)"

definition ftruncate :: "int \<Rightarrow> nat \<Rightarrow> fsys \<Rightarrow> fsys" where
  "ftruncate fd n fs =
     (case fd_path fd fs of
        None \<Rightarrow> fs
      | Some path \<Rightarrow>
          fs\<lparr>data := (data fs)(path \<mapsto> take n (contents fd fs) @ replicate (n - length (contents fd fs)) 0)\<rparr>)"

text \<open>
  The version for systems other than Linux: \<open>buf\<close> is the new array, which is not initialised,
  and the results of the writes are not looked at.
\<close>

definition write_block :: "int \<Rightarrow> byte list \<Rightarrow> nat \<Rightarrow> fsys \<Rightarrow> fsys" where
  "write_block fd bs off fs = (case pwrite fd bs off fs of None \<Rightarrow> fs | Some fs' \<Rightarrow> fs')"

definition extend_file_size_manually :: "byte list \<Rightarrow> int \<Rightarrow> nat \<Rightarrow> fsys \<Rightarrow> fsys" where
  "extend_file_size_manually buf fd fsize fs =
     (let fs1 = fold (\<lambda>i. write_block fd buf (i * 4096)) [0..<fsize div 4096] fs;
          remained_size = fsize mod 4096
      in if remained_size > 0
         then write_block fd (take remained_size buf) (fsize - remained_size) fs1
         else fs1)"

definition extend_open_file :: "file_answers \<Rightarrow> int \<Rightarrow> u64 \<Rightarrow> fsys \<Rightarrow> bool \<times> fsys" where
  "extend_open_file ans fd fsize fs =
     (if \<not> may_stat ans fd then (False, fs)
      else if int (length (contents fd fs)) < sint fsize then
        (if may_truncate ans fd fsize then (True, ftruncate fd (unat fsize) fs)
         else (False, fs))
      else (True, fs))"

definition extend_file_size :: "file_answers \<Rightarrow> string \<Rightarrow> u64 \<Rightarrow> fsys \<Rightarrow> bool \<times> fsys" where
  "extend_file_size ans name fsize fs =
     (case open_existing ans name fs of
        None \<Rightarrow> (False, fs)
      | Some (fd, fs1) \<Rightarrow>
          (case extend_open_file ans fd fsize fs1 of
             (False, fs2) \<Rightarrow> (False, fs2)
           | (True, fs2) \<Rightarrow> (True, close_fd fd fs2)))"

definition create_file :: "file_answers \<Rightarrow> string \<Rightarrow> fsys \<Rightarrow> bool \<times> fsys" where
  "create_file ans name fs =
     (case open_truncated ans name fs of
        None \<Rightarrow> (False, fs) | Some (fd, fs1) \<Rightarrow> (True, close_fd fd fs1))"

text \<open>The size is the position at the end of a stream, -1 for one that cannot be opened.\<close>

definition get_file_size :: "file_answers \<Rightarrow> string \<Rightarrow> fsys \<Rightarrow> int" where
  "get_file_size ans name fs =
     (case data fs name of
        Some d \<Rightarrow> if may_open ans name then int (length d) else - 1
      | None \<Rightarrow> - 1)"

section \<open>Mappings\<close>

definition get_page_size :: "file_answers \<Rightarrow> int" where
  "get_page_size ans = sysconf_page_size ans"

text \<open>The \<open>map_file\<close> of \<^verbatim>\<open>mmap.hpp\<close>; 0 is the null pointer.\<close>

definition mmap_file :: "file_answers \<Rightarrow> addr \<Rightarrow> u64 \<Rightarrow> bool \<Rightarrow> int \<Rightarrow> int \<Rightarrow> int \<Rightarrow> addr" where
  "mmap_file ans a len writable flags fd offset =
     (let page_size = get_page_size ans in
      if page_size = - 1 then 0
      else if sint a mod page_size \<noteq> 0 then 0
      else if offset mod page_size \<noteq> 0 then 0
      else (case sys_mmap ans a len writable flags fd offset of
              None \<Rightarrow> 0
            | Some mapped_addr \<Rightarrow> if sint mapped_addr mod page_size \<noteq> 0 then 0 else mapped_addr))"

definition map_file_mode ::
  "bool \<Rightarrow> file_answers \<Rightarrow> string \<Rightarrow> addr \<Rightarrow> u64 \<Rightarrow> int \<Rightarrow> int \<Rightarrow> fsys \<Rightarrow> (int \<times> addr) \<times> fsys" where
  "map_file_mode writable ans name a len offset flags fs =
     (case open_existing ans name fs of
        None \<Rightarrow> ((- 1, 0), fs)
      | Some (fd, fs1) \<Rightarrow>
          let mapped_addr = mmap_file ans a len writable flags fd offset in
          if mapped_addr = 0 then ((- 1, 0), close_fd fd fs1) else ((fd, mapped_addr), fs1))"

definition map_file_read_mode ::
  "file_answers \<Rightarrow> string \<Rightarrow> addr \<Rightarrow> u64 \<Rightarrow> int \<Rightarrow> int \<Rightarrow> fsys \<Rightarrow> (int \<times> addr) \<times> fsys" where
  "map_file_read_mode = map_file_mode False"

definition map_file_write_mode ::
  "file_answers \<Rightarrow> string \<Rightarrow> addr \<Rightarrow> u64 \<Rightarrow> int \<Rightarrow> int \<Rightarrow> fsys \<Rightarrow> (int \<times> addr) \<times> fsys" where
  "map_file_write_mode = map_file_mode True"

text \<open>The counters of page faults, the tenth and the twelfth field of \<^verbatim>\<open>/proc/self/stat\<close>: \<open>stat\<close> is what
  \<^verbatim>\<open>fscanf\<close> converts there. A stream that was not opened is closed all the same.\<close>

definition get_num_page_faults :: "u64 list option \<Rightarrow> (u64 \<times> u64) result" where
  "get_num_page_faults stat =
     (case stat of
        None \<Rightarrow> Inl (UNDEFINED ''fclose of a null pointer'')
      | Some [minflt, majflt] \<Rightarrow> Inr (minflt, majflt)
      | Some _ \<Rightarrow> Inr (0, 0))"


section \<open>Mapped memory\<close>

text \<open>
  A shared mapping of a file shows its bytes as words, and writing to the memory is writing
  to the file. Words are stored with the lowest byte first.
\<close>

definition le_bytes :: "u64 \<Rightarrow> byte list" where
  "le_bytes w = map (\<lambda>i. ucast (drop_bit (8 * i) w)) [0..<8]"

definition le_word :: "byte list \<Rightarrow> u64" where
  "le_word bs = foldr (\<lambda>b w. ucast b OR push_bit 8 w) bs 0"

function words_of :: "byte list \<Rightarrow> u64 list" where
  "words_of d = (if length d < 8 then [] else le_word (take 8 d) # words_of (drop 8 d))"
  by pat_completeness auto
termination
  by (relation "measure length") auto

declare words_of.simps [simp del]

definition bytes_of :: "u64 list \<Rightarrow> byte list" where
  "bytes_of ws = concat (map le_bytes ws)"

section \<open>The programs\<close>

text \<open>
  \<open>map_file\<close> of \<^verbatim>\<open>map_file.hpp\<close>, called to read a file as it is: the file is opened and stays open,
  and the answers are about the descriptor. \<open>unmap_file\<close> ends the program when it fails.
\<close>

definition read_env :: "file_answers \<Rightarrow> int option \<Rightarrow> fsys \<Rightarrow> map_env" where
  "read_env ans opened fs =
     \<lparr>env_open = (\<lambda>name need_init has_write. opened),
      env_fallocate = (\<lambda>fd n. True),
      env_fstat = (\<lambda>fd. if may_stat ans fd then Some (of_nat (length (contents fd fs))) else None),
      env_mmap = sys_mmap_noreserve ans,
      env_umap = sys_umap ans\<rparr>"

definition map_existing :: "file_answers \<Rightarrow> string \<Rightarrow> bool \<Rightarrow> u64 \<Rightarrow> fsys \<Rightarrow> addr \<times> fsys" where
  "map_existing ans name mmapped numbytes fs =
     (case open_existing ans name fs of
        None \<Rightarrow> (map_file (read_env ans None fs) name False False mmapped numbytes 0, fs)
      | Some (fd, fs1) \<Rightarrow>
          (map_file (read_env ans (Some fd) fs1) name False False mmapped numbytes 0, fs1))"

definition unmap_file :: "file_answers \<Rightarrow> bool \<Rightarrow> u64 \<Rightarrow> addr \<Rightarrow> unit result" where
  "unmap_file ans mmapped numbytes reg =
     (if (if mmapped then sys_munmap ans reg numbytes else sys_uunmap ans reg numbytes) then Inr ()
      else Inl (UMAP_ERROR ''exit -1''))"

text \<open>
  \<open>map_graph\<close>: the address of the mapping and the two arrays. The memory shows the words of the
  file.
\<close>

definition file_words :: "string \<Rightarrow> fsys \<Rightarrow> u64 list" where
  "file_words name fs = (case data fs name of None \<Rightarrow> [] | Some d \<Rightarrow> words_of d)"

definition map_graph ::
  "file_answers \<Rightarrow> u64 \<Rightarrow> bfs_options \<Rightarrow> fsys \<Rightarrow> ((addr \<times> u64 list \<times> u64 list) \<times> fsys) result" where
  "map_graph ans psize options fs =
     (let g = graph_file_name options in
      bindR (if \<not> use_mmap options then
               bindR (calculate_umap_pagesize_aligned_graph_file_size psize
                        (num_vertices options) (num_edges options)) (\<lambda>size.
                 case extend_file_size ans g size fs of
                   (False, fs1) \<Rightarrow> Inl (UMAP_ERROR ''Failed to extend the graph file'')
                 | (True, fs1) \<Rightarrow> Inr fs1)
             else Inr fs)
        (\<lambda>fs1.
           let (a, fs2) = map_existing ans g (use_mmap options) (of_int (get_file_size ans g fs1)) fs1
           in if a = 0 then Inl (UMAP_ERROR ''Failed to map the graph'')
              else Inr ((a, graph_views (num_vertices options) (file_words g fs2)), fs2)))"

definition read_text :: "file_answers \<Rightarrow> fsys \<Rightarrow> string \<Rightarrow> string option" where
  "read_text ans fs name = (if may_open ans name then map_option decode_text (data fs name) else None)"

text \<open>
  \<open>main\<close> of the search, without its printouts: the greatest level, the levels and the numbers
  of vertices per level. \<open>None\<close>: the search does not end.
\<close>

definition bfs_main ::
  "file_answers \<Rightarrow> u64 \<Rightarrow> bfs_options \<Rightarrow> fsys
     \<Rightarrow> ((u16 \<times> u16 list \<times> nat list option) \<times> fsys) result option" where
  "bfs_main ans psize options fs =
     (case map_graph ans psize options fs of
        Inl e \<Rightarrow> Some (Inl e)
      | Inr ((a, index, edges), fs1) \<Rightarrow>
          map_option (\<lambda>r. bindR r (\<lambda>(max_level, level).
            let cnt = count_level (num_vertices options) max_level level;
                ref = bfs_level_reference_file_name options
            in bindR (if ref \<noteq> [] then validate_level level (read_text ans fs1 ref) else Inr ()) (\<lambda>_.
               bindR (unmap_file ans (use_mmap options)
                        (of_int (get_file_size ans (graph_file_name options) fs1)) a) (\<lambda>_.
                 Inr ((max_level, level, cnt), fs1)))))
            (bfs_search (num_vertices options) index edges))"

text \<open>
  The ingestion: its options are the pairs that \<^verbatim>\<open>getopt\<close> delivers and the remaining arguments,
  the names of the files with edges.
\<close>

fun parse_ingest_options :: "(char \<times> string) list \<Rightarrow> string \<Rightarrow> string" where
  "parse_ingest_options [] g = g"
| "parse_ingest_options ((c, optarg) # rest) g =
     parse_ingest_options rest (if c = CHR ''g'' then optarg else g)"

definition ingest_program ::
  "file_answers \<Rightarrow> (char \<times> string) list \<Rightarrow> string list \<Rightarrow> edge_type list \<Rightarrow> edge_type list
     \<Rightarrow> fsys \<Rightarrow> fsys result" where
  "ingest_program ans opts files counted loaded fs =
     (let g = parse_ingest_options opts [] in
      bindR (check_edge_list (map (read_text ans fs) files)) (\<lambda>(max_id, nedges).
        let graph_size = (max_id + 2 + nedges) * 8;
            (created, fs1) = create_file ans g fs
        in if \<not> created then Inl (UMAP_ERROR ''Failed to create a file'')
           else
             let (extended, fs2) = extend_file_size ans g graph_size fs1 in
             if \<not> extended then Inl (UMAP_ERROR ''Failed to extend a file'')
             else
               let ((fd, a), fs3) = map_file_write_mode ans g 0 graph_size 0 0 fs2 in
               if fd = - 1 \<or> a = 0 then Inl (UMAP_ERROR ''Failed to map a file with write mode'')
               else bindR (ingest_edges (file_words g fs3) max_id counted loaded) (\<lambda>ws.
                      Inr (write_block fd (bytes_of ws) 0 fs3))))"

section \<open>Bytes and words\<close>

lemma le_word_bytes_from:
  "k \<le> 8 \<Longrightarrow> foldr (\<lambda>b w. ucast b OR push_bit 8 w) (map (\<lambda>i. ucast (drop_bit (8 * i) w) :: byte) [k..<8]) 0
     = (drop_bit (8 * k) w :: u64)"
proof (induction "8 - k" arbitrary: k)
  case 0
  then have "k = 8" by simp
  then show ?case by (auto intro!: bit_word_eqI simp: bit_simps dest: bit_imp_le_length)
next
  case (Suc d)
  then have "k < 8" and IH: "foldr (\<lambda>b w. ucast b OR push_bit 8 w)
      (map (\<lambda>i. ucast (drop_bit (8 * i) w) :: byte) [Suc k..<8]) 0 = (drop_bit (8 * Suc k) w :: u64)"
    by auto
  have "ucast (ucast (drop_bit (8 * k) w) :: byte) OR push_bit 8 (drop_bit (8 * Suc k) w)
      = (drop_bit (8 * k) w :: u64)"
  proof (rule bit_word_eqI)
    fix n assume "n < LENGTH(64)"
    then show "bit (ucast (ucast (drop_bit (8 * k) w) :: byte) OR push_bit 8 (drop_bit (8 * Suc k) w)) n
        = bit (drop_bit (8 * k) w :: u64) n"
      by (cases "n < 8") (auto simp: bit_simps add.commute dest: bit_imp_le_length)
  qed
  then show ?case using IH \<open>k < 8\<close> by (simp add: upt_rec [of k])
qed

lemma le_word_bytes [simp]: "le_word (le_bytes w) = w"
  using le_word_bytes_from [of 0 w] by (simp add: le_word_def le_bytes_def)

lemma length_le_bytes [simp]: "length (le_bytes w) = 8"
  by (simp add: le_bytes_def)

lemma words_of_bytes [simp]: "words_of (bytes_of ws @ d) = ws @ words_of d"
proof (induction ws)
  case (Cons w ws)
  then show ?case by (subst words_of.simps) (simp add: bytes_of_def)
qed (simp add: bytes_of_def)

lemma length_bytes_of [simp]: "length (bytes_of ws) = 8 * length ws"
  by (induction ws) (simp_all add: bytes_of_def)

lemma bytes_of_Nil [simp]: "bytes_of ws = [] \<longleftrightarrow> ws = []"
  by (metis length_0_conv length_bytes_of mult_is_0 zero_neq_numeral)

lemma le_word_zeros: "le_word (replicate n 0) = 0"
  by (induction n) (simp_all add: le_word_def)

lemma words_of_zeros: "words_of (replicate n 0) = replicate (n div 8) 0"
proof (induction n rule: less_induct)
  case (less n)
  show ?case
  proof (cases "n < 8")
    case True
    then show ?thesis by (simp add: words_of.simps)
  next
    case False
    then have "n div 8 = Suc ((n - 8) div 8)" by (simp add: le_div_geq)
    moreover have "words_of (replicate n 0) = le_word (replicate 8 0) # words_of (replicate (n - 8) 0)"
      using False by (subst words_of.simps) (simp add: min_def del: replicate.simps)
    ultimately show ?thesis using less [of "n - 8"] False by (simp only: le_word_zeros replicate.simps)
  qed
qed

section \<open>The system calls\<close>

lemma data_close [simp]: "data (close_fd fd fs) = data fs"
  by (simp add: close_fd_def fs_close_def)

lemma open_existing_ok:
  assumes "may_open ans name" and "data fs name = Some d"
  obtains fd fs1 where "open_existing ans name fs = Some (fd, fs1)" and "data fs1 = data fs"
    and "fd_path fd fs1 = Some name" and "0 \<le> fd"
proof -
  obtain fd fs1 where o: "fs_open name fs = (fd, fs1)" by (cases "fs_open name fs")
  note p = fs_open_props [OF o]
  from that [of fd fs1] show thesis using o p(1,2,4) assms by (simp add: open_existing_def)
qed

lemma contents_path: "fd_path fd fs = Some name \<Longrightarrow> data fs name = Some d \<Longrightarrow> contents fd fs = d"
  by (simp add: contents_def)

lemma extend_file_size_ok:
  assumes "may_open ans name" "\<And>fd. may_stat ans fd" "\<And>fd n. may_truncate ans fd n"
    and d: "data fs name = Some d" and n: "unat n < 2 ^ 63"
  obtains fs' where "extend_file_size ans name n fs = (True, fs')"
    and "data fs' = (data fs)(name \<mapsto> d @ replicate (unat n - length d) 0)"
proof -
  obtain fd fs1 where o: "open_existing ans name fs = Some (fd, fs1)" "data fs1 = data fs"
    "fd_path fd fs1 = Some name"
    by (rule open_existing_ok [OF assms(1) d])
  have c: "contents fd fs1 = d" by (rule contents_path [OF o(3)]) (simp add: o(2) d)
  have s: "sint n = int (unat n)" 
  proof -
    have "int (unat n) < 2 ^ 63" using n by (metis of_nat_less_iff of_nat_numeral of_nat_power)
    then have "uint n < 2 ^ 63" by simp
    moreover have "- (2 ^ 63) \<le> uint n" by (rule order_trans [OF _ uint_ge_0]) simp
    ultimately show ?thesis by (simp add: sint_uint signed_take_bit_int_eq_self_iff)
  qed
  have lt: "int (length d) < sint n \<longleftrightarrow> length d < unat n" by (simp only: s of_nat_less_iff)
  show thesis
  proof (rule that)
    show "extend_file_size ans name n fs
        = (True, close_fd fd (if length d < unat n then ftruncate fd (unat n) fs1 else fs1))"
      using o(1) assms(2,3) by (simp add: extend_file_size_def extend_open_file_def c lt)
    show "data (close_fd fd (if length d < unat n then ftruncate fd (unat n) fs1 else fs1))
        = (data fs)(name \<mapsto> d @ replicate (unat n - length d) 0)"
      using o(2,3) d by (auto simp: ftruncate_def c)
  qed
qed

lemma create_file_ok:
  assumes "may_open ans name"
  obtains fs' where "create_file ans name fs = (True, fs')" and "data fs' = (data fs)(name \<mapsto> [])"
proof -
  obtain fd fs1 where o: "fs_open name fs = (fd, fs1)" by (cases "fs_open name fs")
  from that show thesis
    using o fs_open_props(4) [OF o] assms by (simp add: create_file_def open_truncated_def)
qed

text \<open>A system without errors, with pages of \<open>psize\<close> bytes in \<^verbatim>\<open>umap\<close>, which maps whole pages.\<close>

definition answers_ok :: "u64 \<Rightarrow> file_answers \<Rightarrow> bool" where
  "answers_ok psize ans \<longleftrightarrow> (\<forall>name. may_open ans name) \<and> (\<forall>fd. may_stat ans fd)
     \<and> (\<forall>fd n. may_truncate ans fd n) \<and> 0 < sysconf_page_size ans
     \<and> (\<forall>n fd. n \<noteq> 0 \<longrightarrow> (\<exists>a. a \<noteq> 0 \<and> sint a mod sysconf_page_size ans = 0
          \<and> sys_mmap ans 0 n True 0 fd 0 = Some a))
     \<and> (\<forall>n fd. n \<noteq> 0 \<longrightarrow> (\<exists>a. a \<noteq> 0 \<and> sys_mmap_noreserve ans 0 n False False fd = Some a))
     \<and> (\<forall>n fd. n \<noteq> 0 \<and> n mod psize = 0 \<longrightarrow> (\<exists>a. a \<noteq> 0 \<and> sys_umap ans 0 n False False fd = Some a))
     \<and> (\<forall>a n. sys_munmap ans a n) \<and> (\<forall>a n. sys_uunmap ans a n)"

lemma answers_okD:
  assumes "answers_ok psize ans"
  shows "may_open ans name" and "may_stat ans fd" and "may_truncate ans fd n"
    and "sys_munmap ans a m" and "sys_uunmap ans a m"
  using assms by (simp_all add: answers_ok_def)

lemma map_file_write_mode_ok:
  assumes "answers_ok psize ans" and "data fs name = Some d" and "n \<noteq> 0"
  obtains fd a fs' where "map_file_write_mode ans name 0 n 0 0 fs = ((fd, a), fs')"
    and "fd \<noteq> - 1" and "a \<noteq> 0" and "data fs' = data fs" and "fd_path fd fs' = Some name"
proof -
  obtain fd fs1 where o: "open_existing ans name fs = Some (fd, fs1)" "data fs1 = data fs"
    "fd_path fd fs1 = Some name" "0 \<le> fd"
    by (rule open_existing_ok [OF answers_okD(1) [OF assms(1)] assms(2)])
  obtain a where a: "a \<noteq> 0" "sint a mod sysconf_page_size ans = 0" "sys_mmap ans 0 n True 0 fd 0 = Some a"
    using assms(1,3) unfolding answers_ok_def by metis
  have p: "0 < sysconf_page_size ans" using assms(1) by (simp add: answers_ok_def)
  have "mmap_file ans 0 n True 0 fd 0 = a" using a p by (simp add: mmap_file_def get_page_size_def)
  then have "map_file_write_mode ans name 0 n 0 0 fs = ((fd, a), fs1)"
    using o(1) a(1) by (simp add: map_file_write_mode_def map_file_mode_def)
  from that [OF this _ a(1) o(2,3)] o(4) show thesis by simp
qed

lemma map_existing_ok:
  assumes ans: "answers_ok psize ans" and d: "data fs name = Some d" "d \<noteq> []" "length d < 2 ^ 64"
    and mult: "\<not> mmapped \<Longrightarrow> length d mod unat psize = 0"
  obtains a fs' where "map_existing ans name mmapped (of_nat (length d)) fs = (a, fs')"
    and "a \<noteq> 0" and "data fs' = data fs"
proof -
  obtain fd fs1 where o: "open_existing ans name fs = Some (fd, fs1)" "data fs1 = data fs"
    "fd_path fd fs1 = Some name"
    by (rule open_existing_ok [OF answers_okD(1) [OF ans] d(1)])
  let ?n = "of_nat (length d) :: u64"
  have n: "unat ?n = length d" using d(3) by (simp only: unat_of_nat_u64)
  have n0: "?n \<noteq> 0" using n d(2) by (metis length_0_conv unat_0)
  have c: "contents fd fs1 = d" by (rule contents_path [OF o(3)]) (simp add: o(2) d)
  have "?n mod psize = 0" if "\<not> mmapped"
    using mult [OF that] n by (metis unat_mod_distrib unat_eq_0)
  then obtain a where "a \<noteq> 0" "(if mmapped then sys_mmap_noreserve ans 0 ?n False False fd
      else sys_umap ans 0 ?n False False fd) = Some a"
    using ans n0 unfolding answers_ok_def by (cases mmapped) metis+
  moreover have "may_stat ans fd" using ans by (simp add: answers_ok_def)
  ultimately have "map_file (read_env ans (Some fd) fs1) name False False mmapped ?n 0 = a"
    by (cases mmapped) (simp_all add: map_file_def read_env_def c)
  then show thesis using that [of a fs1] o(1,2) \<open>a \<noteq> 0\<close> by (simp add: map_existing_def)
qed

section \<open>From text files to distances\<close>

lemma ingest_program_ok:
  assumes ans: "answers_ok psize ans" and texts: "map (read_text ans fs) files = map Some texts"
    and g: "parse_ingest_options opts [] = gname"
    and check: "check_edge_list (map Some texts) = Inr (max_id, of_nat m)"
    and run: "ingest_main (map Some texts) counted loaded = Inr ws"
    and len: "length ws = unat max_id + 2 + m" and small: "(unat max_id + 2 + m) * 8 < 2 ^ 63"
  obtains fs' where "ingest_program ans opts files counted loaded fs = Inr fs'"
    and "data fs' = (data fs)(gname \<mapsto> bytes_of ws)"
proof -
  let ?N = "unat max_id + 2 + m" and ?s = "(max_id + 2 + of_nat m) * 8 :: u64"
  have "?s = of_nat (?N * 8)" by simp
  moreover have "?N * 8 < 2 ^ 64" using small by simp
  ultimately have s: "unat ?s = ?N * 8" by (simp only: unat_of_nat_u64)
  note ok = answers_okD(1-3) [OF ans]
  obtain fs1 where c: "create_file ans gname fs = (True, fs1)" "data fs1 = (data fs)(gname \<mapsto> [])"
    by (rule create_file_ok [OF ok(1)])
  have "data fs1 gname = Some []" using c(2) by simp
  moreover have "unat ?s < 2 ^ 63" unfolding s by (rule small)
  ultimately obtain fs2 where e: "extend_file_size ans gname ?s fs1 = (True, fs2)"
    "data fs2 = (data fs1)(gname \<mapsto> [] @ replicate (unat ?s - length ([] :: byte list)) 0)"
    by (rule extend_file_size_ok [OF ok])
  have d2: "data fs2 gname = Some (replicate (?N * 8) 0)" using e(2) s by simp
  have "?s \<noteq> 0" using s by (metis add_is_0 mult_is_0 unat_0 zero_neq_numeral)
  then obtain fd a fs3 where m: "map_file_write_mode ans gname 0 ?s 0 0 fs2 = ((fd, a), fs3)"
    "fd \<noteq> - 1" "a \<noteq> 0" "data fs3 = data fs2" "fd_path fd fs3 = Some gname"
    by (rule map_file_write_mode_ok [OF ans d2])
  have words: "file_words gname fs3 = replicate (unat ?s div 8) 0"
    using m(4) d2 s words_of_zeros [of "?N * 8"] by (simp add: file_words_def)
  have ingest: "ingest_edges (file_words gname fs3) max_id counted loaded = Inr ws"
    using run check words by (simp add: ingest_main_def Let_def)
  have "overwrite 0 (bytes_of ws) (replicate (?N * 8) 0) = bytes_of ws"
    using len by (simp add: overwrite_def)
  then have "data (write_block fd (bytes_of ws) 0 fs3) = (data fs)(gname \<mapsto> bytes_of ws)"
    using m(4,5) d2 e(2) c(2) by (simp add: write_block_def pwrite_def)
  moreover have "ingest_program ans opts files counted loaded fs = Inr (write_block fd (bytes_of ws) 0 fs3)"
    using c(1) e(1) m(1-3) ingest by (simp add: ingest_program_def texts check g Let_def)
  ultimately show thesis using that by blast
qed

lemma map_existing_words:
  assumes ans: "answers_ok psize ans" and d: "data fs g = Some (bytes_of ws @ replicate z 0)" "ws \<noteq> []"
    and small: "length ws * 8 + z < 2 ^ 63"
    and mult: "\<not> mmapped \<Longrightarrow> unat psize dvd length ws * 8 + z"
  obtains a fs' where "map_existing ans g mmapped (of_int (get_file_size ans g fs)) fs = (a, fs')"
    and "a \<noteq> 0" and "data fs' = data fs" and "file_words g fs' = ws @ replicate (z div 8) 0"
proof -
  let ?d = "bytes_of ws @ replicate z 0"
  have size: "get_file_size ans g fs = int (length ?d)"
    using ans d(1) by (simp add: get_file_size_def answers_ok_def)
  obtain a fs' where "map_existing ans g mmapped (of_nat (length ?d)) fs = (a, fs')" "a \<noteq> 0"
    "data fs' = data fs"
    by (rule map_existing_ok [OF ans d(1), of mmapped])
      (use d(2) small mult in \<open>simp_all add: mult.commute mod_eq_0_iff_dvd\<close>)
  then show thesis
    using that d(1) unfolding size of_int_of_nat_eq by (simp add: file_words_def words_of_zeros)
qed

lemma map_graph_ok:
  assumes ans: "answers_ok psize ans" and p: "0 < psize"
    and d: "data fs (graph_file_name options) = Some (bytes_of ws)"
    and len: "length ws = unat (num_vertices options) + 1 + unat (num_edges options)"
    and small: "length ws * 8 + unat psize < 2 ^ 63"
  obtains a z fs' where "map_graph ans psize options fs
      = Inr ((a, graph_views (num_vertices options) (ws @ replicate (z div 8) 0)), fs')"
    and "data fs' = (data fs)(graph_file_name options \<mapsto> bytes_of ws @ replicate z 0)"
    and "if use_mmap options then z = 0 else z < unat psize \<and> unat psize dvd length ws * 8 + z"
proof -
  let ?g = "graph_file_name options" and ?n = "length ws * 8"
  have ws: "ws \<noteq> []" using len by auto
  show thesis
  proof (cases "use_mmap options")
    case True
    have "data fs ?g = Some (bytes_of ws @ replicate 0 0)" using d by simp
    then obtain a fs' where "map_existing ans ?g True (of_int (get_file_size ans ?g fs)) fs = (a, fs')"
      "a \<noteq> 0" "data fs' = data fs" "file_words ?g fs' = ws @ replicate (0 div 8) 0"
      by (rule map_existing_words [OF ans _ ws]) (use small in auto)
    then show thesis using that [of a 0 fs'] True d by (simp add: map_graph_def map_upd_triv)
  next
    case False
    have "(unat (num_vertices options) + 1 + unat (num_edges options)) * 8 + unat psize < 2 ^ 64"
      using small len by simp
    from aligned_graph_size [OF p this] obtain s where
      s: "calculate_umap_pagesize_aligned_graph_file_size psize (num_vertices options) (num_edges options) = Inr s"
      "unat psize dvd unat s" "?n \<le> unat s" "unat s < ?n + unat psize"
      unfolding len [symmetric] by blast
    define z where "z = unat s - ?n"
    have z: "z < unat psize" "?n + z = unat s" using s(3,4) by (simp_all add: z_def)
    have s63: "unat s < 2 ^ 63" using s(4) small by linarith
    obtain fs1 where e: "extend_file_size ans ?g s fs = (True, fs1)"
      "data fs1 = (data fs)(?g \<mapsto> bytes_of ws @ replicate (unat s - length (bytes_of ws)) 0)"
      by (rule extend_file_size_ok [OF answers_okD(1,2,3) [OF ans] d s63])
    have "data fs1 ?g = Some (bytes_of ws @ replicate z 0)" using e(2) by (simp add: z_def mult.commute)
    then obtain a fs' where "map_existing ans ?g False (of_int (get_file_size ans ?g fs1)) fs1 = (a, fs')"
      "a \<noteq> 0" "data fs' = data fs1" "file_words ?g fs' = ws @ replicate (z div 8) 0"
      by (rule map_existing_words [OF ans _ ws]) (use z(2) s(2) s63 in simp_all)
    then show thesis
      using that [of a z fs'] False s(1,2) e z by (simp add: map_graph_def z_def mult.commute)
  qed
qed

text \<open>The program on a file whose numbers can be searched, however many zeros follow them.\<close>

lemma bfs_main_ok:
  assumes ans: "answers_ok psize ans" "0 < psize" and d1: "data fs1 gname = Some (bytes_of g)"
    and lo: "length g = unat nv + 1 + unat ne" and fits: "length g * 8 + unat psize < 2 ^ 63"
    and search: "\<forall>z. \<exists>c lv cnt. (case graph_views nv (g @ replicate z 0) of (index, edges) \<Rightarrow>
             bfs_search nv index edges) = Some (Inr (c, lv))
         \<and> length lv = n \<and> count_level nv c lv = Some cnt \<and> P lv"
  shows "\<exists>c lv cnt fs2 z.
          bfs_main ans psize \<lparr>num_vertices = nv, num_edges = ne,
             graph_file_name = gname, bfs_level_reference_file_name = [], use_mmap = mm\<rparr> fs1
            = Some (Inr ((c, lv, Some cnt), fs2))
        \<and> length lv = n \<and> P lv
        \<and> data fs2 = (data fs1)(gname \<mapsto> bytes_of g @ replicate z 0)
        \<and> (if mm then z = 0 else z < unat psize \<and> unat psize dvd length (bytes_of g) + z)"
proof -
  let ?o = "\<lparr>num_vertices = nv, num_edges = ne,
             graph_file_name = gname, bfs_level_reference_file_name = [], use_mmap = mm\<rparr>"
  have d1': "data fs1 (graph_file_name ?o) = Some (bytes_of g)"
    and lo': "length g = unat (num_vertices ?o) + 1 + unat (num_edges ?o)" using d1 lo by simp_all
  obtain a z fs2 where mg: "map_graph ans psize ?o fs1
      = Inr ((a, graph_views nv (g @ replicate (z div 8) 0)), fs2)"
    and d2: "data fs2 = (data fs1)(gname \<mapsto> bytes_of g @ replicate z 0)"
    and z: "if mm then z = 0 else z < unat psize \<and> unat psize dvd length g * 8 + z"
    using map_graph_ok [OF ans d1' lo' fits] by auto
  obtain c lv cnt where s: "(case graph_views nv (g @ replicate (z div 8) 0) of (index, edges) \<Rightarrow>
           bfs_search nv index edges) = Some (Inr (c, lv))"
    and lv: "length lv = n" "count_level nv c lv = Some cnt" "P lv"
    using search by metis
  have um: "unmap_file ans b n x = Inr ()" for b n x using answers_okD(4,5) [OF ans(1)] by (simp add: unmap_file_def)
  have "bfs_main ans psize ?o fs1 = Some (Inr ((c, lv, Some cnt), fs2))"
    using s lv(2) um unfolding bfs_main_def mg by (simp split: prod.splits)
  moreover have "length (bytes_of g) = length g * 8" by simp
  ultimately show ?thesis using lv(1,3) d2 z by metis
qed


text \<open>
  The system of the witness: pages of 4096 bytes, umap pages of 64, two files with edges and a
  graph file that exists already.
\<close>

definition demo_answers :: file_answers where
  "demo_answers = \<lparr>may_open = (\<lambda>_. True), may_stat = (\<lambda>_. True), may_truncate = (\<lambda>_ _. True),
     sysconf_page_size = 4096, sys_mmap = (\<lambda>_ _ _ _ _ _. Some 4096),
     sys_mmap_noreserve = (\<lambda>_ _ _ _ _. Some 4096), sys_umap = (\<lambda>_ _ _ _ _. Some 8192),
     sys_munmap = (\<lambda>_ _. True), sys_uunmap = (\<lambda>_ _. True)\<rparr>"

definition demo_files :: fsys where
  "demo_files = \<lparr>data = [''a'' \<mapsto> encode_text (edge_text [(1, 2), (3, 1)]),
     ''b'' \<mapsto> encode_text (edge_text [(1, 3)]), ''g'' \<mapsto> [7]], dirs = {}, fds = []\<rparr>"


section \<open>Extending by hand\<close>

text \<open>
  Where \<open>ftruncate\<close> is not used, extending a file destroys it: every byte up to the new size
  is replaced by what the uninitialised buffer holds.
\<close>

lemma overwrite_prefix:
  assumes "length d0 = off"
  shows "\<exists>r. overwrite off bs (d0 @ d1) = d0 @ bs @ r"
  using assms by (simp add: overwrite_def)

lemma write_block_ok:
  "fd_path fd fs = Some name \<Longrightarrow> data fs name = Some d
    \<Longrightarrow> write_block fd bs off fs = fs\<lparr>data := (data fs)(name \<mapsto> overwrite off bs d)\<rparr>"
  by (simp add: write_block_def pwrite_def)

lemma write_blocks:
  assumes fd: "fd_path fd fs = Some name" and d: "data fs name = Some d" and buf: "length buf = 4096"
  shows "\<exists>fs' r. fold (\<lambda>i. write_block fd buf (i * 4096)) [0..<m] fs = fs' \<and> fd_path fd fs' = Some name
     \<and> data fs' name = Some (concat (replicate m buf) @ r)"
proof (induction m)
  case (Suc m)
  then obtain fs' r where "fold (\<lambda>i. write_block fd buf (i * 4096)) [0..<m] fs = fs'"
    "fd_path fd fs' = Some name" "data fs' name = Some (concat (replicate m buf) @ r)" by blast
  moreover have "length (concat (replicate m buf)) = m * 4096" using buf by (induction m) simp_all
  moreover from this obtain q where
    "overwrite (m * 4096) buf (concat (replicate m buf) @ r) = concat (replicate m buf) @ buf @ q"
    using overwrite_prefix by blast
  moreover have "concat (replicate (Suc m) buf) = concat (replicate m buf) @ buf"
    using replicate_append_same [of m buf] by (metis concat.simps concat_append append_Nil2 replicate_Suc)
  ultimately show ?case by (simp add: write_block_ok del: replicate.simps(2))
qed (use fd d in simp)

lemma extend_manually_destroys:
  assumes fd: "fd_path fd fs = Some name" and d: "data fs name = Some d" and buf: "length buf = 4096"
  shows "\<exists>r. data (extend_file_size_manually buf fd n fs) name
     = Some (concat (replicate (n div 4096) buf) @ take (n mod 4096) buf @ r)"
proof -
  let ?m = "n div 4096"
  obtain fs' r where f: "fold (\<lambda>i. write_block fd buf (i * 4096)) [0..<?m] fs = fs'"
    "fd_path fd fs' = Some name" "data fs' name = Some (concat (replicate ?m buf) @ r)"
    using write_blocks [OF assms, of ?m] by blast
  have "length (concat (replicate k buf)) = k * 4096" for k using buf by (induction k) simp_all
  then have "length (concat (replicate ?m buf)) = n - n mod 4096"
    by (simp only: minus_mod_eq_div_mult)
  then obtain q where
    "overwrite (n - n mod 4096) (take (n mod 4096) buf) (concat (replicate ?m buf) @ r)
       = concat (replicate ?m buf) @ take (n mod 4096) buf @ q"
    using overwrite_prefix by blast
  then show ?thesis
    using f by (cases "n mod 4096 = 0")
      (simp_all add: extend_file_size_manually_def Let_def write_block_ok)
qed

end
