(* ===== verification/Bfs_Parallel.thy ===== *)
theory Bfs_Parallel
  imports Bfs_Main
begin

text \<open>
  The search of \<^verbatim>\<open>examples/bfs/bfs_kernel.hpp\<close> compiled with OpenMP: the vertices of a level are
  divided among threads, which read and write the level array, the words of the bitmap and
  the flag one access at a time, in any interleaving and without a lock. Setting a bit is a
  load and a later store of a whole word, so that a thread may undo the bits that others have
  set in between.
\<close>

section \<open>Threads\<close>

text \<open>
  Where a thread is in its part of the loop, lines 84 to 94. A state ends with the next access
  to shared memory; the index and the edges are only read. \<open>At_Src\<close> and \<open>At_Edge\<close> stand before
  the tests of the two loops, the others inside of the inner one.
\<close>

datatype bfs_pc =
    At_Src u64
  | At_Edge u64 u64
  | Check_Level u64 u64 u64
  | Store_Level u64 u64 u64
  | Load_Word u64 u64 u64
  | Store_Word u64 u64 u64 u64
  | Raise_Flag u64 u64 u64
  | Thread_Done

fun thread_step ::
  "u64 list \<Rightarrow> u64 list \<Rightarrow> u16 \<Rightarrow> u64 \<Rightarrow> bfs_pc \<Rightarrow> bfs_state \<Rightarrow> (bfs_pc \<times> bfs_state) result" where
  "thread_step index edges c stop (At_Src src) (level, vf, new) =
     (if src < stop then
        bindR (get_at level src) (\<lambda>l.
          if l \<noteq> c then Inr (At_Src (src + 1), level, vf, new)
          else bindR (get_at index src) (\<lambda>i. Inr (At_Edge src i, level, vf, new)))
      else Inr (Thread_Done, level, vf, new))"
| "thread_step index edges c stop (At_Edge src i) (level, vf, new) =
     bindR (get_at index (src + 1)) (\<lambda>row_end.
       if i < row_end then
         bindR (get_at edges i) (\<lambda>trg. bindR (get_bit vf trg) (\<lambda>visited.
           Inr (if visited then At_Edge src (i + 1) else Check_Level src i trg, level, vf, new)))
       else Inr (At_Src (src + 1), level, vf, new))"
| "thread_step index edges c stop (Check_Level src i trg) (level, vf, new) =
     bindR (get_at level trg) (\<lambda>l.
       Inr (if l = k_infinite_level then Store_Level src i trg else At_Edge src (i + 1),
            level, vf, new))"
| "thread_step index edges c stop (Store_Level src i trg) (level, vf, new) =
     bindR (put_at level trg (c + 1)) (\<lambda>level'. Inr (Load_Word src i trg, level', vf, new))"
| "thread_step index edges c stop (Load_Word src i trg) (level, vf, new) =
     bindR (get_at vf (bitmap_global_pos trg)) (\<lambda>w. Inr (Store_Word src i trg w, level, vf, new))"
| "thread_step index edges c stop (Store_Word src i trg w) (level, vf, new) =
     bindR (put_at vf (bitmap_global_pos trg) (w OR push_bit (unat (bitmap_local_pos trg)) 1))
       (\<lambda>vf'. Inr (Raise_Flag src i trg, level, vf', new))"
| "thread_step index edges c stop (Raise_Flag src i trg) (level, vf, new) =
     Inr (At_Edge src (i + 1), level, vf, True)"
| "thread_step index edges c stop Thread_Done mem = Inr (Thread_Done, mem)"

section \<open>The program\<close>

text \<open>
  The division of the vertices among the threads is a parameter, which may differ from level
  to level: a list of chunks, the first vertex and the end of each.
\<close>

type_synonym schedule = "u16 \<Rightarrow> (u64 \<times> u64) list"

definition spawn :: "(u64 \<times> u64) list \<Rightarrow> bfs_pc list" where
  "spawn chunks = map (\<lambda>(start, stop). At_Src start) chunks"

datatype par_state =
    Running u16 "bfs_pc list" bfs_state
  | Returned u16 "u16 list" "u64 list"
  | Failed umap_error

text \<open>
  A step is an access of one thread. When all threads are through, the loop of line 77 either
  ends or begins the next level with new threads.
\<close>

inductive par_step :: "schedule \<Rightarrow> u64 list \<Rightarrow> u64 list \<Rightarrow> par_state \<Rightarrow> par_state \<Rightarrow> bool"
  for sched :: schedule and index :: "u64 list" and edges :: "u64 list" where
  par_thread: "\<lbrakk> j < length pcs; pcs ! j \<noteq> Thread_Done;
     thread_step index edges c (snd (sched c ! j)) (pcs ! j) mem = Inr (pc', mem') \<rbrakk>
   \<Longrightarrow> par_step sched index edges (Running c pcs mem) (Running c (pcs[j := pc']) mem')"
| par_fail: "\<lbrakk> j < length pcs; pcs ! j \<noteq> Thread_Done;
     thread_step index edges c (snd (sched c ! j)) (pcs ! j) mem = Inl e \<rbrakk>
   \<Longrightarrow> par_step sched index edges (Running c pcs mem) (Failed e)"
| par_next: "list_all (\<lambda>pc. pc = Thread_Done) pcs
   \<Longrightarrow> par_step sched index edges (Running c pcs (level, vf, True))
         (Running (c + 1) (spawn (sched (c + 1))) (level, vf, False))"
| par_return: "list_all (\<lambda>pc. pc = Thread_Done) pcs
   \<Longrightarrow> par_step sched index edges (Running c pcs (level, vf, False)) (Returned c level vf)"

inductive_cases par_runningE: "par_step sched index edges (Running c pcs mem) s'"
inductive_simps par_returned [simp]: "par_step sched index edges (Returned c lv vf) s'"
inductive_simps par_failed [simp]: "par_step sched index edges (Failed e) s'"

text \<open>The state in which the search begins, made as by \<open>bfs_search\<close>.\<close>

definition par_start :: "schedule \<Rightarrow> u64 \<Rightarrow> u64 list \<Rightarrow> par_state" where
  "par_start sched nv index =
     (let level = replicate (unat nv) 0; vf = replicate (unat (bitmap_size nv)) 0 in
      case bindR (init_bfs nv level vf) (\<lambda>(level1, vf1).
             bindR (find_bfs_root nv index level1) (\<lambda>level2. Inr (level2, vf1))) of
        Inl e \<Rightarrow> Failed e
      | Inr (level2, vf1) \<Rightarrow> Running 0 (spawn (sched 0)) (level2, vf1, False))"

text \<open>The chunks of a level: every vertex is in one of them.\<close>

definition chunks_ok :: "nat \<Rightarrow> (u64 \<times> u64) list \<Rightarrow> bool" where
  "chunks_ok n chunks \<longleftrightarrow> concat (map (\<lambda>(a, b). [unat a..<unat b]) chunks) = [0..<n]
     \<and> (\<forall>(a, b)\<in>set chunks. unat a \<le> unat b \<and> unat b \<le> n)"

section \<open>Invariants of a level\<close>

definition settled :: "u16 list \<Rightarrow> nat set \<Rightarrow> bool" where
  "settled lv A \<longleftrightarrow> (\<forall>v\<in>A. lv ! v \<noteq> k_infinite_level)"

text \<open>The rows of the vertices from \<open>a\<close> up to \<open>x\<close> are through.\<close>

definition rows_settled ::
  "u64 list \<Rightarrow> u64 list \<Rightarrow> u16 \<Rightarrow> u16 list \<Rightarrow> u16 list \<Rightarrow> nat \<Rightarrow> nat \<Rightarrow> bool" where
  "rows_settled index edges c lv0 lv a x \<longleftrightarrow>
     (\<forall>u. a \<le> u \<and> u < x \<and> lv0 ! u = c \<longrightarrow> settled lv (adjacent index edges u))"

text \<open>A thread is in the row of \<open>src\<close>, before edge \<open>i\<close>, or at an edge of it.\<close>

definition in_row ::
  "u64 list \<Rightarrow> u64 list \<Rightarrow> u16 \<Rightarrow> u16 list \<Rightarrow> u16 list \<Rightarrow> u64 \<times> u64 \<Rightarrow> u64 \<Rightarrow> u64 \<Rightarrow> bool" where
  "in_row index edges c lv0 lv ab src i \<longleftrightarrow>
     fst ab \<le> src \<and> src < snd ab \<and> lv0 ! unat src = c
   \<and> unat (index ! unat src) \<le> unat i \<and> unat i \<le> unat (index ! Suc (unat src))
   \<and> rows_settled index edges c lv0 lv (unat (fst ab)) (unat src)
   \<and> settled lv (unat ` set (slice (unat (index ! unat src)) (unat i) edges))"

definition at_edge ::
  "u64 list \<Rightarrow> u64 list \<Rightarrow> u16 \<Rightarrow> u16 list \<Rightarrow> u16 list \<Rightarrow> u64 \<times> u64 \<Rightarrow> u64 \<Rightarrow> u64 \<Rightarrow> u64 \<Rightarrow> bool" where
  "at_edge index edges c lv0 lv ab src i trg \<longleftrightarrow>
     in_row index edges c lv0 lv ab src i \<and> unat i < unat (index ! Suc (unat src))
   \<and> trg = edges ! unat i"

text \<open>A word that a thread has read: its bits belong to vertices that have a level.\<close>

definition word_ok :: "nat \<Rightarrow> u16 list \<Rightarrow> nat \<Rightarrow> u64 \<Rightarrow> bool" where
  "word_ok n lv g w \<longleftrightarrow> (\<forall>p<n. p div 64 = g \<and> bit w (p mod 64) \<longrightarrow> lv ! p \<noteq> k_infinite_level)"

fun thread_inv ::
  "nat \<Rightarrow> u64 list \<Rightarrow> u64 list \<Rightarrow> u16 \<Rightarrow> u16 list \<Rightarrow> u16 list \<Rightarrow> u64 \<times> u64 \<Rightarrow> bfs_pc \<Rightarrow> bool" where
  "thread_inv n index edges c lv0 lv ab (At_Src src) \<longleftrightarrow>
     fst ab \<le> src \<and> src \<le> snd ab \<and> rows_settled index edges c lv0 lv (unat (fst ab)) (unat src)"
| "thread_inv n index edges c lv0 lv ab (At_Edge src i) \<longleftrightarrow> in_row index edges c lv0 lv ab src i"
| "thread_inv n index edges c lv0 lv ab (Check_Level src i trg) \<longleftrightarrow>
     at_edge index edges c lv0 lv ab src i trg"
| "thread_inv n index edges c lv0 lv ab (Store_Level src i trg) \<longleftrightarrow>
     at_edge index edges c lv0 lv ab src i trg \<and> lv0 ! unat trg = k_infinite_level"
| "thread_inv n index edges c lv0 lv ab (Load_Word src i trg) \<longleftrightarrow>
     at_edge index edges c lv0 lv ab src i trg \<and> settled lv {unat trg}
   \<and> lv0 ! unat trg = k_infinite_level"
| "thread_inv n index edges c lv0 lv ab (Store_Word src i trg w) \<longleftrightarrow>
     at_edge index edges c lv0 lv ab src i trg \<and> settled lv {unat trg}
   \<and> lv0 ! unat trg = k_infinite_level
   \<and> word_ok n lv (unat trg div 64) w"
| "thread_inv n index edges c lv0 lv ab (Raise_Flag src i trg) \<longleftrightarrow>
     at_edge index edges c lv0 lv ab src i trg \<and> settled lv {unat trg}
   \<and> lv0 ! unat trg = k_infinite_level"
| "thread_inv n index edges c lv0 lv ab Thread_Done \<longleftrightarrow>
     rows_settled index edges c lv0 lv (unat (fst ab)) (unat (snd ab))"

text \<open>
  The memory during the level \<open>c\<close>, which began with the levels \<open>lv0\<close>: a vertex without a level
  may have got the next one when an edge leads to it, and only vertices with a level have a
  bit.
\<close>

definition mem_inv :: "nat \<Rightarrow> u16 \<Rightarrow> nat set \<Rightarrow> u16 list \<Rightarrow> bfs_state \<Rightarrow> bool" where
  "mem_inv n c F lv0 mem \<longleftrightarrow> filter_ok n (fst mem) (fst (snd mem))
   \<and> (\<forall>v<n. fst mem ! v = lv0 ! v
          \<or> lv0 ! v = k_infinite_level \<and> v \<in> F \<and> fst mem ! v = c + 1)
   \<and> (snd (snd mem) \<longrightarrow> (\<exists>v<n. v \<in> F \<and> lv0 ! v = k_infinite_level))"

text \<open>A thread that has set a level and not yet the flag.\<close>

fun raising :: "bfs_pc \<Rightarrow> bool" where
  "raising (Load_Word src i trg) = True"
| "raising (Store_Word src i trg w) = True"
| "raising (Raise_Flag src i trg) = True"
| "raising _ = False"

text \<open>A bound on the accesses a thread has still to make in the level.\<close>

fun weight :: "nat \<Rightarrow> u64 \<Rightarrow> bfs_pc \<Rightarrow> nat" where
  "weight m stop (At_Src src) = (unat stop - unat src) * (7 * m + 2) + 1"
| "weight m stop (At_Edge src i) = (unat stop - unat src - 1) * (7 * m + 2) + 7 * (m - unat i) + 2"
| "weight m stop (Check_Level src i trg) =
     (unat stop - unat src - 1) * (7 * m + 2) + 7 * (m - unat i) + 1"
| "weight m stop (Store_Level src i trg) = (unat stop - unat src - 1) * (7 * m + 2) + 7 * (m - unat i)"
| "weight m stop (Load_Word src i trg) =
     (unat stop - unat src - 1) * (7 * m + 2) + 7 * (m - unat i) - 1"
| "weight m stop (Store_Word src i trg w) =
     (unat stop - unat src - 1) * (7 * m + 2) + 7 * (m - unat i) - 2"
| "weight m stop (Raise_Flag src i trg) =
     (unat stop - unat src - 1) * (7 * m + 2) + 7 * (m - unat i) - 3"
| "weight m stop Thread_Done = 0"

section \<open>One access\<close>

text \<open>What an access of a thread does to the memory and to the thread.\<close>

definition advances ::
  "nat \<Rightarrow> u64 list \<Rightarrow> u64 list \<Rightarrow> u16 \<Rightarrow> u16 list \<Rightarrow> u64 \<times> u64 \<Rightarrow> bfs_pc \<Rightarrow> bfs_state
     \<Rightarrow> bfs_pc \<times> bfs_state \<Rightarrow> bool" where
  "advances n index edges c lv0 ab pc mem r \<longleftrightarrow>
     mem_inv n c (frontier n index edges c lv0 0) lv0 (snd r)
   \<and> thread_inv n index edges c lv0 (fst (snd r)) ab (fst r)
   \<and> (\<forall>v<n. fst mem ! v \<noteq> k_infinite_level \<longrightarrow> fst (snd r) ! v \<noteq> k_infinite_level)
   \<and> (snd (snd mem) \<longrightarrow> snd (snd (snd r)))
   \<and> (raising pc \<or> fst (snd r) \<noteq> fst mem \<longrightarrow> raising (fst r) \<or> snd (snd (snd r)))
   \<and> weight (length edges) (snd ab) (fst r) < weight (length edges) (snd ab) pc"

text \<open>An access that only reads leaves the memory as it is.\<close>

lemma advances_read:
  assumes "mem_inv n c (frontier n index edges c lv0 0) lv0 mem"
    and "thread_inv n index edges c lv0 (fst mem) ab pc'"
    and "raising pc \<longrightarrow> raising pc'"
    and "weight (length edges) (snd ab) pc' < weight (length edges) (snd ab) pc"
  shows "advances n index edges c lv0 ab pc mem (pc', mem)"
  using assms by (simp add: advances_def)

lemma settled_mono:
  assumes "settled lv A" and "A \<subseteq> {..<n}"
    and "\<And>v. v < n \<Longrightarrow> lv ! v \<noteq> k_infinite_level \<Longrightarrow> lv' ! v \<noteq> k_infinite_level"
  shows "settled lv' A"
  using assms unfolding settled_def by blast

lemma settled_insert: "settled lv (insert v A) \<longleftrightarrow> lv ! v \<noteq> k_infinite_level \<and> settled lv A"
  by (auto simp: settled_def)

lemma settled_empty [simp]: "settled lv {}"
  by (simp add: settled_def)

lemma rows_settled_refl [simp]: "rows_settled index edges c lv0 lv a a"
  by (auto simp: rows_settled_def)

lemma rows_settled_Suc:
  "rows_settled index edges c lv0 lv a (Suc x) \<longleftrightarrow> rows_settled index edges c lv0 lv a x
     \<and> (a \<le> x \<and> lv0 ! x = c \<longrightarrow> settled lv (adjacent index edges x))"
  unfolding rows_settled_def by (auto simp: less_Suc_eq)

lemma slice_snoc: "a \<le> i \<Longrightarrow> i < length xs \<Longrightarrow> slice a (Suc i) xs = slice a i xs @ [xs ! i]"
  by (simp add: slice_def Suc_diff_le take_Suc_conv_app_nth)

lemma slice_subset: "set (slice a b xs) \<subseteq> set xs"
  unfolding slice_def by (meson in_set_dropD in_set_takeD subsetI)

text \<open>What the rows of the graph give about an edge of vertex \<open>src\<close>.\<close>

lemma csr_row:
  assumes "csr_ok n index edges" and "u < n"
  shows "u < length index" and "Suc u < length index"
    and "unat (index ! u) \<le> unat (index ! Suc u)" and "unat (index ! Suc u) \<le> length edges"
    and "adjacent index edges u \<subseteq> {..<n}"
    and "i < unat (index ! Suc u) \<Longrightarrow> unat (edges ! i) < n"
    and "unat (index ! u) \<le> i \<Longrightarrow> i < unat (index ! Suc u) \<Longrightarrow> unat (edges ! i) \<in> adjacent index edges u"
proof -
  show len: "u < length index" "Suc u < length index"
    and row: "unat (index ! u) \<le> unat (index ! Suc u)"
    and row_end: "unat (index ! Suc u) \<le> length edges"
    using assms by (simp_all add: csr_ok_def)
  show "adjacent index edges u \<subseteq> {..<n}"
    using assms slice_subset by (fastforce simp: adjacent_def csr_ok_def)
  show "unat (edges ! i) < n" if "i < unat (index ! Suc u)"
    using assms(1) less_le_trans [OF that row_end] by (simp add: csr_ok_def)
  show "unat (edges ! i) \<in> adjacent index edges u"
    if "unat (index ! u) \<le> i" "i < unat (index ! Suc u)"
  proof -
    have "edges ! i = slice (unat (index ! u)) (unat (index ! Suc u)) edges ! (i - unat (index ! u))"
      using that row_end by (simp add: slice_def)
    moreover have "i - unat (index ! u) < length (slice (unat (index ! u)) (unat (index ! Suc u)) edges)"
      using that row_end by (simp add: slice_def)
    ultimately show ?thesis unfolding adjacent_def by (metis image_eqI nth_mem)
  qed
qed

text \<open>The invariant of a thread is kept by the others, which only add levels.\<close>

lemma thread_inv_mono:
  assumes csr: "csr_ok n index edges" and b: "unat (snd ab) \<le> n"
    and inv: "thread_inv n index edges c lv0 lv ab pc"
    and grow: "\<And>v. v < n \<Longrightarrow> lv ! v \<noteq> k_infinite_level \<Longrightarrow> lv' ! v \<noteq> k_infinite_level"
  shows "thread_inv n index edges c lv0 lv' ab pc"
proof -
  have rows: "rows_settled index edges c lv0 lv' a x"
    if "rows_settled index edges c lv0 lv a x" "x \<le> n" for a x
    using that settled_mono [OF _ csr_row(5) [OF csr] grow] unfolding rows_settled_def by fastforce
  have row: "in_row index edges c lv0 lv' ab src i" if r: "in_row index edges c lv0 lv ab src i" for src i
  proof -
    have "unat src < n" using r b by (auto simp: in_row_def word_less_nat_alt)
    moreover have "unat ` set (slice a z edges) \<subseteq> {..<n}" for a z
      using slice_subset csr by (fastforce simp: csr_ok_def)
    ultimately show ?thesis using r rows settled_mono [OF _ _ grow]
      unfolding in_row_def by (meson less_imp_le_nat)
  qed
  have edge: "at_edge index edges c lv0 lv' ab src i trg \<and> unat trg < n"
    if e: "at_edge index edges c lv0 lv ab src i trg" for src i trg
  proof -
    have "unat src < n" using e b by (auto simp: at_edge_def in_row_def word_less_nat_alt)
    from csr_row(6) [OF csr this] show ?thesis using e row by (auto simp: at_edge_def)
  qed
  have one: "settled lv' {v}" if "settled lv {v}" "v < n" for v using that grow by (simp add: settled_def)
  have word: "word_ok n lv' g w" if "word_ok n lv g w" for g w using that grow by (auto simp: word_ok_def)
  show ?thesis
    using inv rows b row edge one word
    by (cases pc) (auto simp: word_le_nat_alt)
qed

text \<open>A thread at an edge: what is in range, and what the next edge needs.\<close>

lemma at_edge_facts:
  assumes csr: "csr_ok n index edges" and b: "unat (snd ab) \<le> n"
    and e: "at_edge index edges c lv0 lv ab src i trg"
  shows "unat src < n" and "unat i < length edges" and "unat trg < n" and "unat (i + 1) = unat i + 1"
    and "unat trg \<in> frontier n index edges c lv0 0"
    and "lv ! unat trg \<noteq> k_infinite_level \<Longrightarrow> in_row index edges c lv0 lv ab src (i + 1)"
proof -
  have r: "in_row index edges c lv0 lv ab src i" and i: "unat i < unat (index ! Suc (unat src))"
    and trg: "trg = edges ! unat i"
    using e by (simp_all add: at_edge_def)
  show src: "unat src < n" using r b by (simp add: in_row_def word_less_nat_alt)
  note row = csr_row [OF csr src]
  show len: "unat i < length edges" using i row(4) by linarith
  show "unat trg < n" using row(6) [OF i] trg by simp
  show i1: "unat (i + 1) = unat i + 1" using i by (intro unat_next) (simp add: word_less_nat_alt)
  have "unat trg \<in> adjacent index edges (unat src)"
    using row(7) [OF _ i] r trg by (simp add: in_row_def)
  then show "unat trg \<in> frontier n index edges c lv0 0"
    using src r by (auto simp: frontier_def in_row_def)
  show "in_row index edges c lv0 lv ab src (i + 1)" if "lv ! unat trg \<noteq> k_infinite_level"
    using r i trg that slice_snoc [of "unat (index ! unat src)" "unat i" edges] len
    unfolding in_row_def i1 by (simp add: settled_insert)
qed

lemma edge_weight:
  assumes "unat i < m" and "unat (i + 1) = unat i + 1"
  shows "weight m stop (At_Edge src (i + 1)) < weight m stop (Raise_Flag src i trg)"
  using assms by simp

text \<open>The six accesses that only read.\<close>

lemma at_src_step:
  assumes csr: "csr_ok n index edges" and b: "unat (snd ab) \<le> n"
    and c: "c + 1 \<noteq> c" "c \<noteq> k_infinite_level"
    and mem: "mem_inv n c (frontier n index edges c lv0 0) lv0 (lv, vf, new)"
    and inv: "thread_inv n index edges c lv0 lv ab (At_Src src)"
  shows "\<exists>pc'. thread_step index edges c (snd ab) (At_Src src) (lv, vf, new) = Inr (pc', lv, vf, new)
       \<and> advances n index edges c lv0 ab (At_Src src) (lv, vf, new) (pc', lv, vf, new)"
proof (cases "src < snd ab")
  case False
  then have "src = snd ab" using inv by simp
  then show ?thesis using inv mem by (auto intro!: advances_read)
next
  case True
  then have lt: "unat src < unat (snd ab)" by (simp add: word_less_nat_alt)
  then have src: "unat src < n" using b by linarith
  note row = csr_row [OF csr src] and s1 = unat_next [OF True]
  have lv: "length lv = n" "lv ! unat src = c \<longleftrightarrow> lv0 ! unat src = c"
    using mem c src by (auto simp: mem_inv_def filter_ok_def)
  have "unat (snd ab) - unat src = Suc (unat (snd ab) - unat src - 1)" using lt by simp
  then have w: "(unat (snd ab) - unat src) * (7 * length edges + 2)
      = (7 * length edges + 2) + (unat (snd ab) - unat src - 1) * (7 * length edges + 2)"
    by (metis mult_Suc)
  show ?thesis
  proof (cases "lv ! unat src = c")
    case True
    have "in_row index edges c lv0 lv ab src (index ! unat src)"
      using inv True lv lt row(3) by (simp add: in_row_def word_less_nat_alt slice_Nil)
    then have "advances n index edges c lv0 ab (At_Src src) (lv, vf, new)
        (At_Edge src (index ! unat src), lv, vf, new)"
      using mem w by (intro advances_read) simp_all
    then show ?thesis using True \<open>src < snd ab\<close> lv(1) src row(1) by simp
  next
    case False
    have "rows_settled index edges c lv0 lv (unat (fst ab)) (unat (src + 1))"
      using inv False lv(2) s1 by (simp add: rows_settled_Suc)
    then have "thread_inv n index edges c lv0 lv ab (At_Src (src + 1))"
      using inv lt s1 by (simp add: word_le_nat_alt)
    then have "advances n index edges c lv0 ab (At_Src src) (lv, vf, new) (At_Src (src + 1), lv, vf, new)"
      using mem w s1 by (intro advances_read) simp_all
    then show ?thesis using False \<open>src < snd ab\<close> lv(1) src by simp
  qed
qed

lemma at_edge_step:
  assumes csr: "csr_ok n index edges" and b: "unat (snd ab) \<le> n"
    and mem: "mem_inv n c (frontier n index edges c lv0 0) lv0 (lv, vf, new)"
    and inv: "thread_inv n index edges c lv0 lv ab (At_Edge src i)"
  shows "\<exists>pc'. thread_step index edges c (snd ab) (At_Edge src i) (lv, vf, new) = Inr (pc', lv, vf, new)
       \<and> advances n index edges c lv0 ab (At_Edge src i) (lv, vf, new) (pc', lv, vf, new)"
proof -
  have r: "in_row index edges c lv0 lv ab src i" using inv by simp
  then have sb: "src < snd ab" and lt: "unat src < unat (snd ab)"
    by (simp_all add: in_row_def word_less_nat_alt)
  then have src: "unat src < n" using b by linarith
  note row = csr_row [OF csr src] and s1 = unat_next [OF sb]
  have ix: "get_at index (src + 1) = Inr (index ! Suc (unat src))" using row(2) s1 by simp
  have f: "filter_ok n lv vf" using mem by (simp add: mem_inv_def)
  show ?thesis
  proof (cases "i < index ! Suc (unat src)")
    case False
    then have i: "unat i = unat (index ! Suc (unat src))"
      using r by (simp add: in_row_def word_less_nat_alt)
    have "settled lv (adjacent index edges (unat src))" using r i by (simp add: in_row_def adjacent_def)
    then have "rows_settled index edges c lv0 lv (unat (fst ab)) (unat (src + 1))"
      using r s1 by (simp add: rows_settled_Suc in_row_def)
    then have "thread_inv n index edges c lv0 lv ab (At_Src (src + 1))"
      using r lt s1 by (simp add: in_row_def word_le_nat_alt)
    then have "advances n index edges c lv0 ab (At_Edge src i) (lv, vf, new) (At_Src (src + 1), lv, vf, new)"
      using mem s1 by (intro advances_read) simp_all
    then show ?thesis using False ix by simp
  next
    case True
    let ?t = "edges ! unat i"
    have e: "at_edge index edges c lv0 lv ab src i ?t"
      using r True by (simp add: at_edge_def word_less_nat_alt)
    note facts = at_edge_facts [OF csr b e]
    have "unat ?t div 64 < length vf" using facts(3) f unfolding filter_ok_def by linarith
    then have bit: "get_bit vf ?t = Inr (bit_at vf (unat ?t))" by (rule get_bit_spec)
    have "bit_at vf (unat ?t) \<Longrightarrow> lv ! unat ?t \<noteq> k_infinite_level"
      using f facts(3) by (simp add: filter_ok_def)
    moreover have "length edges - unat i = Suc (length edges - Suc (unat i))" using facts(2) by simp
    ultimately have "advances n index edges c lv0 ab (At_Edge src i) (lv, vf, new)
       (if bit_at vf (unat ?t) then At_Edge src (i + 1) else Check_Level src i ?t, lv, vf, new)"
      using mem e facts by (intro advances_read) simp_all
    then show ?thesis using True ix bit facts(2) by simp
  qed
qed

lemma check_level_step:
  assumes csr: "csr_ok n index edges" and b: "unat (snd ab) \<le> n"
    and mem: "mem_inv n c (frontier n index edges c lv0 0) lv0 (lv, vf, new)"
    and inv: "thread_inv n index edges c lv0 lv ab (Check_Level src i trg)"
    and c: "c + 1 \<noteq> k_infinite_level"
  shows "\<exists>pc'. thread_step index edges c (snd ab) (Check_Level src i trg) (lv, vf, new) = Inr (pc', lv, vf, new)
       \<and> advances n index edges c lv0 ab (Check_Level src i trg) (lv, vf, new) (pc', lv, vf, new)"
proof -
  note facts = at_edge_facts [OF csr b inv [simplified]]
  have "length lv = n" and "lv ! unat trg = k_infinite_level \<Longrightarrow> lv0 ! unat trg = k_infinite_level"
    using mem facts(3) c by (auto simp: mem_inv_def filter_ok_def)
  moreover have "length edges - unat i = Suc (length edges - Suc (unat i))" using facts(2) by simp
  ultimately have "advances n index edges c lv0 ab (Check_Level src i trg) (lv, vf, new)
     (if lv ! unat trg = k_infinite_level then Store_Level src i trg else At_Edge src (i + 1), lv, vf, new)"
    using mem inv facts by (intro advances_read) simp_all
  then show ?thesis using facts(3) \<open>length lv = n\<close> by simp
qed

lemma load_word_step:
  assumes csr: "csr_ok n index edges" and b: "unat (snd ab) \<le> n"
    and mem: "mem_inv n c (frontier n index edges c lv0 0) lv0 (lv, vf, new)"
    and inv: "thread_inv n index edges c lv0 lv ab (Load_Word src i trg)"
  shows "\<exists>pc'. thread_step index edges c (snd ab) (Load_Word src i trg) (lv, vf, new) = Inr (pc', lv, vf, new)
       \<and> advances n index edges c lv0 ab (Load_Word src i trg) (lv, vf, new) (pc', lv, vf, new)"
proof -
  have e: "at_edge index edges c lv0 lv ab src i trg" using inv by simp
  note facts = at_edge_facts [OF csr b e]
  let ?g = "unat trg div 64"
  have f: "filter_ok n lv vf" using mem by (simp add: mem_inv_def)
  then have g: "?g < length vf" using facts(3) unfolding filter_ok_def by linarith
  have "word_ok n lv ?g (vf ! ?g)" using f by (auto simp: word_ok_def filter_ok_def bit_at_def)
  then have "advances n index edges c lv0 ab (Load_Word src i trg) (lv, vf, new)
      (Store_Word src i trg (vf ! ?g), lv, vf, new)"
    using mem inv facts(2) by (intro advances_read) auto
  then show ?thesis using g by (simp add: unat_global_pos)
qed

text \<open>The three accesses that write.\<close>

lemma store_level_step:
  assumes csr: "csr_ok n index edges" and b: "unat (snd ab) \<le> n"
    and mem: "mem_inv n c (frontier n index edges c lv0 0) lv0 (lv, vf, new)"
    and inv: "thread_inv n index edges c lv0 lv ab (Store_Level src i trg)"
    and c: "c + 1 \<noteq> k_infinite_level"
  shows "\<exists>r. thread_step index edges c (snd ab) (Store_Level src i trg) (lv, vf, new) = Inr r
       \<and> advances n index edges c lv0 ab (Store_Level src i trg) (lv, vf, new) r"
proof -
  have e: "at_edge index edges c lv0 lv ab src i trg" and inf: "lv0 ! unat trg = k_infinite_level"
    using inv by simp_all
  note facts = at_edge_facts [OF csr b e]
  let ?lv = "lv[unat trg := c + 1]" and ?F = "frontier n index edges c lv0 0"
  have len: "length lv = n" using mem by (simp add: mem_inv_def filter_ok_def)
  have grow: "?lv ! v \<noteq> k_infinite_level" if "v < n" "lv ! v \<noteq> k_infinite_level" for v
    using that c facts(3) by (simp add: nth_list_update len)
  have "thread_inv n index edges c lv0 lv ab (Check_Level src i trg)" using e by simp
  then have "thread_inv n index edges c lv0 ?lv ab (Check_Level src i trg)"
    by (rule thread_inv_mono [OF csr b]) (use grow in auto)
  then have "thread_inv n index edges c lv0 ?lv ab (Load_Word src i trg)"
    using c facts(3) len inf by (simp add: settled_def)
  moreover have "mem_inv n c ?F lv0 (?lv, vf, new)"
    using mem grow inf facts(3,5) by (auto simp: mem_inv_def filter_ok_def nth_list_update)
  moreover have "weight (length edges) (snd ab) (Load_Word src i trg)
      < weight (length edges) (snd ab) (Store_Level src i trg)"
    using facts(2) by simp
  ultimately have "advances n index edges c lv0 ab (Store_Level src i trg) (lv, vf, new)
      (Load_Word src i trg, ?lv, vf, new)"
    using grow unfolding advances_def by (simp del: thread_inv.simps weight.simps)
  then show ?thesis using facts(3) len by simp
qed

text \<open>A stale word may clear the bits of others, but it sets only bits of vertices with a level.\<close>

lemma store_word_step:
  assumes csr: "csr_ok n index edges" and b: "unat (snd ab) \<le> n"
    and mem: "mem_inv n c (frontier n index edges c lv0 0) lv0 (lv, vf, new)"
    and inv: "thread_inv n index edges c lv0 lv ab (Store_Word src i trg w)"
  shows "\<exists>r. thread_step index edges c (snd ab) (Store_Word src i trg w) (lv, vf, new) = Inr r
       \<and> advances n index edges c lv0 ab (Store_Word src i trg w) (lv, vf, new) r"
proof -
  have e: "at_edge index edges c lv0 lv ab src i trg" and lev: "lv ! unat trg \<noteq> k_infinite_level"
    and w: "word_ok n lv (unat trg div 64) w"
    using inv by (simp_all add: settled_def)
  note facts = at_edge_facts [OF csr b e]
  let ?g = "unat trg div 64" and ?l = "unat trg mod 64"
  let ?vf = "vf[?g := w OR 2 ^ ?l]"
  have f: "filter_ok n lv vf" using mem by (simp add: mem_inv_def)
  then have g: "?g < length vf" using facts(3) unfolding filter_ok_def by linarith
  have "lv ! p \<noteq> k_infinite_level" if p: "p < n" "bit_at ?vf p" for p
  proof (cases "p div 64 = ?g")
    case True
    have "p = unat trg" if "p mod 64 = ?l" using that True by (metis div_mult_mod_eq)
    then show ?thesis using p True g w lev by (auto simp: bit_at_def bit_or_iff bit_exp_iff word_ok_def)
  next
    case False
    then show ?thesis using p f by (simp add: bit_at_def filter_ok_def)
  qed
  then have "mem_inv n c (frontier n index edges c lv0 0) lv0 (lv, ?vf, new)"
    using mem by (simp add: mem_inv_def filter_ok_def)
  then have "advances n index edges c lv0 ab (Store_Word src i trg w) (lv, vf, new)
      (Raise_Flag src i trg, lv, ?vf, new)"
    using inv facts(2) by (auto simp: advances_def)
  then show ?thesis using g by (simp add: unat_global_pos unat_local_pos)
qed

lemma raise_flag_step:
  assumes csr: "csr_ok n index edges" and b: "unat (snd ab) \<le> n"
    and mem: "mem_inv n c (frontier n index edges c lv0 0) lv0 (lv, vf, new)"
    and inv: "thread_inv n index edges c lv0 lv ab (Raise_Flag src i trg)"
  shows "\<exists>r. thread_step index edges c (snd ab) (Raise_Flag src i trg) (lv, vf, new) = Inr r
       \<and> advances n index edges c lv0 ab (Raise_Flag src i trg) (lv, vf, new) r"
proof -
  have e: "at_edge index edges c lv0 lv ab src i trg" and lev: "lv ! unat trg \<noteq> k_infinite_level"
    and inf: "lv0 ! unat trg = k_infinite_level"
    using inv by (simp_all add: settled_def)
  note facts = at_edge_facts [OF csr b e]
  have "mem_inv n c (frontier n index edges c lv0 0) lv0 (lv, vf, True)"
    using mem facts(3,5) inf by (auto simp: mem_inv_def)
  then show ?thesis using facts(6) [OF lev] edge_weight [OF facts(2,4)]
    by (simp add: advances_def del: weight.simps)
qed

text \<open>All accesses together.\<close>

lemma thread_step_ok:
  assumes "csr_ok n index edges" and "unat (snd ab) \<le> n"
    and "c + 1 \<noteq> c" and "c \<noteq> k_infinite_level" and "c + 1 \<noteq> k_infinite_level"
    and "mem_inv n c (frontier n index edges c lv0 0) lv0 mem"
    and "thread_inv n index edges c lv0 (fst mem) ab pc" and "pc \<noteq> Thread_Done"
  shows "\<exists>r. thread_step index edges c (snd ab) pc mem = Inr r
       \<and> advances n index edges c lv0 ab pc mem r"
proof -
  obtain lv vf new where mem: "mem = (lv, vf, new)" by (cases mem)
  note steps = at_src_step at_edge_step check_level_step load_word_step store_level_step
    store_word_step raise_flag_step
  note ok = assms(1-7) [unfolded mem fst_conv]
  show ?thesis
  proof (cases pc)
    case (At_Src src) then show ?thesis using at_src_step [OF ok(1-4,6)] ok(7) mem by blast
  next
    case (At_Edge src i) then show ?thesis using at_edge_step [OF ok(1,2,6)] ok(7) mem by blast
  next
    case (Check_Level src i trg)
    then show ?thesis using check_level_step [OF ok(1,2,6) _ ok(5)] ok(7) mem by blast
  next
    case (Store_Level src i trg)
    then show ?thesis using store_level_step [OF ok(1,2,6) _ ok(5)] ok(7) mem by blast
  next
    case (Load_Word src i trg) then show ?thesis using load_word_step [OF ok(1,2,6)] ok(7) mem by blast
  next
    case (Store_Word src i trg w) then show ?thesis using store_word_step [OF ok(1,2,6)] ok(7) mem by blast
  next
    case (Raise_Flag src i trg) then show ?thesis using raise_flag_step [OF ok(1,2,6)] ok(7) mem by blast
  next
    case Thread_Done then show ?thesis using assms(8) by simp
  qed
qed

section \<open>One level\<close>

text \<open>
  The invariant of all threads of a level: a level that was set is followed by the flag, at the
  latest when the thread goes on.
\<close>

definition pass_inv ::
  "nat \<Rightarrow> u64 list \<Rightarrow> u64 list \<Rightarrow> (u64 \<times> u64) list \<Rightarrow> u16 \<Rightarrow> u16 list \<Rightarrow> bfs_pc list \<Rightarrow> bfs_state \<Rightarrow> bool"
where
  "pass_inv n index edges chunks c lv0 pcs mem \<longleftrightarrow> length lv0 = n \<and> length pcs = length chunks
   \<and> mem_inv n c (frontier n index edges c lv0 0) lv0 mem
   \<and> (\<forall>j<length pcs. thread_inv n index edges c lv0 (fst mem) (chunks ! j) (pcs ! j))
   \<and> (fst mem \<noteq> lv0 \<longrightarrow> snd (snd mem) \<or> (\<exists>pc\<in>set pcs. raising pc))"

lemma chunks_bound: "chunks_ok n chunks \<Longrightarrow> j < length chunks \<Longrightarrow>
  fst (chunks ! j) \<le> snd (chunks ! j) \<and> unat (snd (chunks ! j)) \<le> n"
  by (cases "chunks ! j") (auto simp: chunks_ok_def word_le_nat_alt dest!: nth_mem [of j chunks])

lemma chunks_cover:
  assumes "chunks_ok n chunks" and "u < n"
  obtains j where "j < length chunks" "unat (fst (chunks ! j)) \<le> u" "u < unat (snd (chunks ! j))"
proof -
  have "u \<in> set (concat (map (\<lambda>(a, b). [unat a..<unat b]) chunks))"
    using assms unfolding chunks_ok_def by simp
  then obtain ab where "ab \<in> set chunks" "unat (fst ab) \<le> u" "u < unat (snd ab)" by auto
  then show thesis using that by (metis in_set_conv_nth)
qed

lemma pass_inv_spawn:
  assumes "chunks_ok n chunks" and "filter_ok n lv vf"
  shows "pass_inv n index edges chunks c lv (spawn chunks) (lv, vf, False)"
proof -
  have "thread_inv n index edges c lv lv (chunks ! j) (spawn chunks ! j)" if "j < length chunks" for j
    using chunks_bound [OF assms(1) that] that
    by (simp add: spawn_def case_prod_beta)
  then show ?thesis using assms(2)
    by (simp add: pass_inv_def mem_inv_def filter_ok_def spawn_def)
qed

lemma pass_inv_step:
  assumes csr: "csr_ok n index edges" and chunks: "chunks_ok n chunks"
    and c: "c + 1 \<noteq> c" "c \<noteq> k_infinite_level" "c + 1 \<noteq> k_infinite_level"
    and inv: "pass_inv n index edges chunks c lv0 pcs mem"
    and j: "j < length pcs" "pcs ! j \<noteq> Thread_Done"
  shows "\<exists>pc' mem'. thread_step index edges c (snd (chunks ! j)) (pcs ! j) mem = Inr (pc', mem')
       \<and> pass_inv n index edges chunks c lv0 (pcs[j := pc']) mem'
       \<and> weight (length edges) (snd (chunks ! j)) pc' < weight (length edges) (snd (chunks ! j)) (pcs ! j)"
proof -
  have len: "length pcs = length chunks" and mi: "mem_inv n c (frontier n index edges c lv0 0) lv0 mem"
    and ti: "\<And>k. k < length pcs \<Longrightarrow> thread_inv n index edges c lv0 (fst mem) (chunks ! k) (pcs ! k)"
    and fl: "fst mem \<noteq> lv0 \<longrightarrow> snd (snd mem) \<or> (\<exists>pc\<in>set pcs. raising pc)"
    using inv by (auto simp: pass_inv_def)
  have b: "unat (snd (chunks ! k)) \<le> n" if "k < length pcs" for k
    using chunks_bound [OF chunks] that len by simp
  obtain pc' mem' where step: "thread_step index edges c (snd (chunks ! j)) (pcs ! j) mem = Inr (pc', mem')"
    and adv: "advances n index edges c lv0 (chunks ! j) (pcs ! j) mem (pc', mem')"
    using thread_step_ok [OF csr b c mi ti j(2)] j(1) by force
  have grow: "\<And>v. v < n \<Longrightarrow> fst mem ! v \<noteq> k_infinite_level \<Longrightarrow> fst mem' ! v \<noteq> k_infinite_level"
    and mi': "mem_inv n c (frontier n index edges c lv0 0) lv0 mem'"
    and tj: "thread_inv n index edges c lv0 (fst mem') (chunks ! j) pc'"
    and keep: "snd (snd mem) \<longrightarrow> snd (snd mem')"
    and rise: "raising (pcs ! j) \<or> fst mem' \<noteq> fst mem \<longrightarrow> raising pc' \<or> snd (snd mem')"
    and less: "weight (length edges) (snd (chunks ! j)) pc' < weight (length edges) (snd (chunks ! j)) (pcs ! j)"
    using adv by (auto simp: advances_def)
  have "thread_inv n index edges c lv0 (fst mem') (chunks ! k) (pcs[j := pc'] ! k)"
    if "k < length pcs" for k
    using thread_inv_mono [OF csr b [OF that] ti [OF that] grow] tj j(1) that
    by (cases "k = j") simp_all
  moreover have "snd (snd mem') \<or> (\<exists>pc\<in>set (pcs[j := pc']). raising pc)" if "fst mem' \<noteq> lv0"
  proof (cases "raising (pcs ! j) \<or> fst mem' \<noteq> fst mem")
    case True
    then show ?thesis using rise set_update_memI [OF j(1)] by blast
  next
    case False
    then have "snd (snd mem) \<or> (\<exists>pc\<in>set pcs. raising pc)" using fl that by auto
    moreover have "\<exists>pc\<in>set (pcs[j := pc']). raising pc" if pc: "pc \<in> set pcs" "raising pc" for pc
    proof -
      obtain k where "k < length pcs" "pcs ! k = pc" using pc(1) by (auto simp: in_set_conv_nth)
      moreover from this have "k \<noteq> j" using False pc(2) by auto
      ultimately show ?thesis using pc(2) by (metis length_list_update nth_list_update_neq nth_mem)
    qed
    ultimately show ?thesis using keep by blast
  qed
  ultimately have "pass_inv n index edges chunks c lv0 (pcs[j := pc']) mem'"
    using inv mi' by (simp add: pass_inv_def)
  then show ?thesis using step less by blast
qed

text \<open>The end of a level: the same levels and the same flag as those of the loop of one thread.\<close>

lemma pass_inv_done:
  assumes csr: "csr_ok n index edges" and chunks: "chunks_ok n chunks"
    and c: "c + 1 \<noteq> k_infinite_level"
    and inv: "pass_inv n index edges chunks c lv0 pcs (lv, vf, new)"
    and all: "list_all (\<lambda>pc. pc = Thread_Done) pcs"
  defines "F \<equiv> frontier n index edges c lv0 0"
  shows "marked n (c + 1) F lv0 lv" and "filter_ok n lv vf"
    and "new \<longleftrightarrow> (\<exists>v<n. v \<in> F \<and> lv0 ! v = k_infinite_level)"
proof -
  have mi: "mem_inv n c F lv0 (lv, vf, new)" and len: "length pcs = length chunks" "length lv0 = n"
    and ti: "\<And>k. k < length pcs \<Longrightarrow> thread_inv n index edges c lv0 lv (chunks ! k) (pcs ! k)"
    using inv by (auto simp: pass_inv_def F_def)
  show f: "filter_ok n lv vf" using mi by (simp add: mem_inv_def)
  then have lenlv: "length lv = n" by (simp add: filter_ok_def)
  have rows: "rows_settled index edges c lv0 lv (unat (fst (chunks ! k))) (unat (snd (chunks ! k)))"
    if "k < length chunks" for k
    using ti [of k] that all len by (simp add: list_all_length)
  have "lv ! v \<noteq> k_infinite_level" if v: "v \<in> F" for v
  proof -
    obtain u where u: "u < n" "lv0 ! u = c" "v \<in> adjacent index edges u"
      using v by (auto simp: F_def frontier_def)
    obtain k where "k < length chunks" "unat (fst (chunks ! k)) \<le> u" "u < unat (snd (chunks ! k))"
      using chunks_cover [OF chunks u(1)] .
    then show ?thesis using rows u unfolding rows_settled_def settled_def by blast
  qed
  then have lv: "lv ! v = (if lv0 ! v = k_infinite_level \<and> v \<in> F then c + 1 else lv0 ! v)"
    if "v < n" for v
    using mi that by (auto simp: mem_inv_def)
  then show "marked n (c + 1) F lv0 lv" using lenlv by (simp add: marked_def)
  have none: "\<not> (\<exists>pc\<in>set pcs. raising pc)" using all by (auto simp: list_all_iff)
  show "new \<longleftrightarrow> (\<exists>v<n. v \<in> F \<and> lv0 ! v = k_infinite_level)"
  proof
    assume "\<exists>v<n. v \<in> F \<and> lv0 ! v = k_infinite_level"
    then obtain v where "v < n" "v \<in> F" "lv0 ! v = k_infinite_level" by blast
    then have "lv \<noteq> lv0" using lv c by force
    then show new using inv none by (simp add: pass_inv_def)
  qed (use mi in \<open>simp add: mem_inv_def\<close>)
qed

section \<open>The search\<close>

lemma marked_unique: "marked n c A lv lv1 \<Longrightarrow> marked n c A lv lv2 \<Longrightarrow> lv1 = lv2"
  by (auto simp: marked_def intro: nth_equalityI)

text \<open>A round of the loop of one thread, from the levels that any division of the pass gives.\<close>

lemma bfs_loop_round:
  assumes "filter_ok (unat N) lv0 vf0" and csr: "csr_ok (unat N) index edges"
    and c: "c + 1 \<noteq> k_infinite_level" "c \<noteq> k_infinite_level" "c + 1 \<noteq> c"
    and m: "marked (unat N) (c + 1) (frontier (unat N) index edges c lv0 0) lv0 lv"
    and new: "new \<longleftrightarrow> (\<exists>v<unat N. v \<in> frontier (unat N) index edges c lv0 0 \<and> lv0 ! v = k_infinite_level)"
  shows "\<exists>vf1. filter_ok (unat N) lv vf1 \<and> bfs_loop N index edges c lv0 vf0
       = (if new then bfs_loop N index edges (c + 1) lv vf1 else Some (Inr (c, lv, vf1)))"
proof -
  let ?F = "frontier (unat N) index edges c lv0 0"
  obtain lv1 vf1 new1 where scan: "scan_level N index edges c 0 (lv0, vf0, False) = Inr (lv1, vf1, new1)"
    and res: "pass_result (unat N) (c + 1) ?F (lv0, vf0, False) (lv1, vf1, new1)"
    using scan_level_ok [of N "(lv0, vf0, False)" index edges c 0, OF _ csr c] assms(1) by auto
  have "lv1 = lv" by (rule marked_unique [OF _ m]) (use res in \<open>simp add: pass_result_def\<close>)
  moreover have "new1 = new" "filter_ok (unat N) lv1 vf1" using res new by (simp_all add: pass_result_def)
  ultimately show ?thesis using scan by (intro exI [of _ vf1]) (subst bfs_loop.simps, simp)
qed

definition found_levels ::
  "(u16 \<times> u16 list \<times> u64 list) result option \<Rightarrow> (u16 \<times> u16 list) result option" where
  "found_levels = map_option (map_sum id (\<lambda>(c, lv, _). (c, lv)))"

text \<open>
  The invariant of the search: each level begins with the levels that one thread would have
  found, and \<open>goal\<close> is what the loop of one thread returns from there.
\<close>

fun search_inv ::
  "schedule \<Rightarrow> u64 \<Rightarrow> u64 list \<Rightarrow> u64 list \<Rightarrow> nat \<Rightarrow> (u16 \<times> u16 list) result option \<Rightarrow> par_state \<Rightarrow> bool"
where
  "search_inv sched N index edges r goal (Running c pcs mem) \<longleftrightarrow>
     (\<exists>k lv0 vf0. c = of_nat k \<and> k < 65534
        \<and> levels_ok (unat N) (edge_rel (unat N) index edges) r k lv0
        \<and> filter_ok (unat N) lv0 vf0 \<and> pass_inv (unat N) index edges (sched c) c lv0 pcs mem
        \<and> found_levels (bfs_loop N index edges c lv0 vf0) = goal)"
| "search_inv sched N index edges r goal (Returned c lv vf) \<longleftrightarrow> goal = Some (Inr (c, lv))"
| "search_inv sched N index edges r goal (Failed e) \<longleftrightarrow> False"

text \<open>What is left to do: levels, and accesses in the current level.\<close>

fun search_rank :: "schedule \<Rightarrow> u64 list \<Rightarrow> par_state \<Rightarrow> nat \<times> nat" where
  "search_rank sched edges (Running c pcs mem) =
     (65536 - unat c, \<Sum>j<length pcs. weight (length edges) (snd (sched c ! j)) (pcs ! j))"
| "search_rank sched edges _ = (0, 0)"

lemma rank_thread_less:
  assumes "j < length pcs" and "weight m (snd (chunks ! j)) pc' < weight m (snd (chunks ! j)) (pcs ! j)"
  shows "(\<Sum>i<length (pcs[j := pc']). weight m (snd (chunks ! i)) (pcs[j := pc'] ! i))
       < (\<Sum>i<length pcs. weight m (snd (chunks ! i)) (pcs ! i))"
  unfolding length_list_update
proof (rule sum_strict_mono_ex1)
  show "\<forall>i\<in>{..<length pcs}. weight m (snd (chunks ! i)) (pcs[j := pc'] ! i)
      \<le> weight m (snd (chunks ! i)) (pcs ! i)"
    using assms by (auto simp: nth_list_update)
  show "\<exists>i\<in>{..<length pcs}. weight m (snd (chunks ! i)) (pcs[j := pc'] ! i)
      < weight m (snd (chunks ! i)) (pcs ! i)"
    using assms by (intro bexI [of _ j]) simp_all
qed simp

text \<open>The levels at the end of a pass, for the loop of one thread as well.\<close>

lemma search_inv_done:
  assumes csr: "csr_ok (unat N) index edges" and chunks: "chunks_ok (unat N) (sched c)"
    and inv: "search_inv sched N index edges r goal (Running c pcs (lv, vf, new))"
    and all: "list_all (\<lambda>pc. pc = Thread_Done) pcs"
  obtains k lv0 vf1 where "c = of_nat k" and "k < 65534"
    and "levels_ok (unat N) (edge_rel (unat N) index edges) r (Suc k) lv"
    and "marked (unat N) (of_nat k + 1) (frontier (unat N) index edges c lv0 0) lv0 lv"
    and "new \<longleftrightarrow> (\<exists>v<unat N. v \<in> frontier (unat N) index edges c lv0 0 \<and> lv0 ! v = k_infinite_level)"
    and "filter_ok (unat N) lv vf" and "filter_ok (unat N) lv vf1"
    and "goal = found_levels (if new then bfs_loop N index edges (c + 1) lv vf1 else Some (Inr (c, lv, vf1)))"
proof -
  obtain k lv0 vf0 where k: "c = of_nat k" "k < 65534"
    and lev: "levels_ok (unat N) (edge_rel (unat N) index edges) r k lv0"
    and f0: "filter_ok (unat N) lv0 vf0"
    and pass: "pass_inv (unat N) index edges (sched c) c lv0 pcs (lv, vf, new)"
    and goal: "found_levels (bfs_loop N index edges c lv0 vf0) = goal"
    using inv by auto
  note w = level_words [OF k(2), folded k(1)]
  note fin = pass_inv_done [OF csr chunks w(1) pass all]
  have "levels_ok (unat N) (edge_rel (unat N) index edges) r (Suc k) lv"
    by (rule levels_ok_pass [OF lev k(2) refl csr]) (use fin(1) k in simp)
  moreover obtain vf1 where "filter_ok (unat N) lv vf1" "bfs_loop N index edges c lv0 vf0
      = (if new then bfs_loop N index edges (c + 1) lv vf1 else Some (Inr (c, lv, vf1)))"
    using bfs_loop_round [OF f0 csr w(1-3) fin(1,3)] by blast
  ultimately show thesis using that [of k lv0 vf1] k fin goal by simp
qed

lemma search_inv_thread:
  assumes csr: "csr_ok (unat N) index edges" and chunks: "chunks_ok (unat N) (sched c)"
    and inv: "search_inv sched N index edges r goal (Running c pcs mem)"
    and j: "j < length pcs" "pcs ! j \<noteq> Thread_Done"
  shows "\<exists>pc' mem'. thread_step index edges c (snd (sched c ! j)) (pcs ! j) mem = Inr (pc', mem')
     \<and> search_inv sched N index edges r goal (Running c (pcs[j := pc']) mem')
     \<and> (search_rank sched edges (Running c (pcs[j := pc']) mem'), search_rank sched edges (Running c pcs mem))
         \<in> less_than <*lex*> less_than"
proof -
  obtain k lv0 vf0 where k: "c = of_nat k" "k < 65534"
    and lev: "levels_ok (unat N) (edge_rel (unat N) index edges) r k lv0"
    and f0: "filter_ok (unat N) lv0 vf0"
    and pass: "pass_inv (unat N) index edges (sched c) c lv0 pcs mem"
    and goal: "found_levels (bfs_loop N index edges c lv0 vf0) = goal"
    using inv by auto
  note w = level_words [OF k(2), folded k(1)]
  obtain pc' mem' where "thread_step index edges c (snd (sched c ! j)) (pcs ! j) mem = Inr (pc', mem')"
    and next_pass: "pass_inv (unat N) index edges (sched c) c lv0 (pcs[j := pc']) mem'"
    and less: "weight (length edges) (snd (sched c ! j)) pc' < weight (length edges) (snd (sched c ! j)) (pcs ! j)"
    using pass_inv_step [OF csr chunks w(3,2,1) pass j] by blast
  moreover have "search_inv sched N index edges r goal (Running c (pcs[j := pc']) mem')"
    using k lev f0 next_pass goal by auto
  ultimately show ?thesis
    using rank_thread_less [where chunks = "sched c", OF j(1) less] by (intro exI conjI) simp_all
qed

lemma search_inv_step:
  assumes csr: "csr_ok (unat N) index edges" and chunks: "\<And>c. chunks_ok (unat N) (sched c)"
    and shallow: "\<And>v j. distance (edge_rel (unat N) index edges) r v j \<Longrightarrow> j < 65534"
    and inv: "search_inv sched N index edges r goal s" and step: "par_step sched index edges s s'"
  shows "search_inv sched N index edges r goal s'
     \<and> (search_rank sched edges s', search_rank sched edges s) \<in> less_than <*lex*> less_than"
  using step
proof cases
  case (par_thread j pcs c mem pc' mem')
  then show ?thesis using search_inv_thread [OF csr chunks inv [unfolded par_thread(1)] par_thread(3,4)] by auto
next
  case (par_fail j pcs c mem e)
  then show ?thesis using search_inv_thread [OF csr chunks inv [unfolded par_fail(1)] par_fail(3,4)] by auto
next
  case (par_next pcs c level vf)
  obtain k lv0 vf1 where k: "c = of_nat k" "k < 65534"
    and lev: "levels_ok (unat N) (edge_rel (unat N) index edges) r (Suc k) level"
    and m: "marked (unat N) (of_nat k + 1) (frontier (unat N) index edges c lv0 0) lv0 level"
    and found: "True \<longleftrightarrow> (\<exists>v<unat N. v \<in> frontier (unat N) index edges c lv0 0 \<and> lv0 ! v = k_infinite_level)"
    and f: "filter_ok (unat N) level vf" "filter_ok (unat N) level vf1"
    and goal: "goal = found_levels (if True then bfs_loop N index edges (c + 1) level vf1 else Some (Inr (c, level, vf1)))"
    by (rule search_inv_done [OF csr chunks inv [unfolded par_next(1)] par_next(3)])
  have Sk: "Suc k < 65534" by (rule level_bound_pass [OF lev k(2) m]) (use found shallow in auto)
  have c1: "c + 1 = of_nat (Suc k)" using k by simp
  have "search_inv sched N index edges r goal s'"
    using Sk lev f(2) pass_inv_spawn [OF chunks f(1)] goal c1 unfolding par_next(2) search_inv.simps
    by (intro exI [of _ "Suc k"] exI [of _ level] exI [of _ vf1]) (simp add: add.commute)
  moreover have "unat (c + 1) = Suc k" "unat c = k" using level_words [OF k(2)] k by simp_all
  then have "65536 - unat (c + 1) < 65536 - unat c" using Sk by linarith
  ultimately show ?thesis using par_next(1,2) by simp
next
  case (par_return pcs c level vf)
  have "unat c < 65536" using unsigned_less [of c] by simp
  then show ?thesis
    using search_inv_done [OF csr chunks inv [unfolded par_return(1)] par_return(3)] par_return(1,2)
    by (auto simp: found_levels_def)
qed

lemma search_progress:
  assumes csr: "csr_ok (unat N) index edges" and chunks: "\<And>c. chunks_ok (unat N) (sched c)"
    and inv: "search_inv sched N index edges r goal (Running c pcs mem)"
  shows "\<exists>s'. par_step sched index edges (Running c pcs mem) s'"
proof (cases "list_all (\<lambda>pc. pc = Thread_Done) pcs")
  case True
  obtain lv vf new where "mem = (lv, vf, new)" by (cases mem)
  then show ?thesis using True by (cases new) (auto intro: par_next par_return)
next
  case False
  then obtain j where j: "j < length pcs" "pcs ! j \<noteq> Thread_Done" by (auto simp: list_all_length)
  show ?thesis using search_inv_thread [OF csr chunks inv j] par_thread [OF j] by blast
qed

lemma par_start_inv:
  assumes csr: "csr_ok (unat N) index edges" and chunks: "\<And>c. chunks_ok (unat N) (sched c)"
    and root: "is_root (unat N) index r"
  shows "search_inv sched N index edges r (bfs_search N index edges) (par_start sched N index)"
proof -
  let ?n = "unat N" and ?lv0 = "(replicate (unat N) k_infinite_level)[r := 0]"
  let ?vf = "replicate (unat (bitmap_size N)) 0"
  have r: "r < ?n" and rr: "index ! r \<noteq> index ! Suc r" "\<forall>v<r. index ! v = index ! Suc v"
    using root by (simp_all add: is_root_def)
  have len: "?n < length index" using csr by (simp add: csr_ok_def)
  have find: "find_bfs_root N index (replicate ?n k_infinite_level) = Inr ?lv0"
    unfolding find_bfs_root_def by (rule find_root_from_ok [OF len _ r rr]) simp_all
  have start: "par_start sched N index = Running 0 (spawn (sched 0)) (?lv0, ?vf, False)"
    using find by (simp add: par_start_def init_bfs_ok Let_def)
  have goal: "bfs_search N index edges = found_levels (bfs_loop N index edges 0 ?lv0 ?vf)"
    using find by (simp add: bfs_search_def init_bfs_ok run_bfs_def Let_def found_levels_def)
  show ?thesis unfolding start goal search_inv.simps
    using init_levels_ok [OF r] init_filter_ok pass_inv_spawn [OF chunks init_filter_ok]
    by (intro exI [of _ "0 :: nat"] exI [of _ ?lv0] exI [of _ ?vf]) simp
qed

text \<open>
  C33: The races of the parallel search are harmless. Whatever way the vertices of each level are
  divided among threads, and in whatever order the threads' loads and stores happen, also when
  a store of a bitmap word undoes the bits that other threads have set: no access is out of
  range, the search never gets stuck, every run of it ends, and what it returns are the
  levels that the search by one thread finds.
\<close>

theorem parallel_search_correct:
  assumes csr: "csr_ok (unat nv) index edges" and root: "is_root (unat nv) index r"
    and shallow: "\<And>v j. distance (edge_rel (unat nv) index edges) r v j \<Longrightarrow> j < 65534"
    and chunks: "\<And>c. chunks_ok (unat nv) (sched c)"
  shows "(\<forall>s. (par_step sched index edges)\<^sup>*\<^sup>* (par_start sched nv index) s \<longrightarrow>
           (case s of Running c pcs mem \<Rightarrow> \<exists>s'. par_step sched index edges s s'
            | Returned c lv vf \<Rightarrow> bfs_search nv index edges = Some (Inr (c, lv))
            | Failed e \<Rightarrow> False))
       \<and> (\<nexists>f. f 0 = par_start sched nv index \<and> (\<forall>i. par_step sched index edges (f i) (f (Suc i))))"
proof -
  let ?I = "search_inv sched nv index edges r (bfs_search nv index edges)"
  have keep: "?I s' \<and> (search_rank sched edges s', search_rank sched edges s) \<in> less_than <*lex*> less_than"
    if "?I s" "par_step sched index edges s s'" for s s'
    by (rule search_inv_step [where sched = sched, OF csr chunks _ that]) (use shallow in auto)
  have reach: "?I s" if "(par_step sched index edges)\<^sup>*\<^sup>* (par_start sched nv index) s" for s
    using that
  proof (induction rule: rtranclp_induct)
    case base
    show ?case using par_start_inv [where sched = sched, OF csr chunks root] by simp
  next
    case (step s s')
    then show ?case using keep by blast
  qed
  have "\<not> (f 0 = par_start sched nv index \<and> (\<forall>i. par_step sched index edges (f i) (f (Suc i))))" for f
  proof
    assume f: "f 0 = par_start sched nv index \<and> (\<forall>i. par_step sched index edges (f i) (f (Suc i)))"
    have "(par_step sched index edges)\<^sup>*\<^sup>* (f 0) (f i)" for i
      by (induction i) (use f in \<open>auto intro: rtranclp.rtrancl_into_rtrancl\<close>)
    then have "?I (f i)" for i using reach f by simp
    then have "(search_rank sched edges (f (Suc i)), search_rank sched edges (f i)) \<in> less_than <*lex*> less_than" for i
      using keep f by blast
    then have "\<exists>g. \<forall>i. (g (Suc i), g i) \<in> less_than <*lex*> less_than"
      by (intro exI [of _ "\<lambda>i. search_rank sched edges (f i)"]) simp
    moreover have "wf (less_than <*lex*> less_than)" by auto
    ultimately show False unfolding wf_iff_no_infinite_down_chain by (rule notE [rotated])
  qed
  moreover have "\<exists>s'. par_step sched index edges (Running c pcs mem) s'" if "?I (Running c pcs mem)" for c pcs mem
    using search_progress [where sched = sched, OF csr chunks that] .
  ultimately show ?thesis using reach by (fastforce split: par_state.split)
qed

text \<open>Two threads on the graph of four vertices, from the beginning.\<close>

definition demo_chunks :: "(u64 \<times> u64) list" where "demo_chunks = [(0, 2), (2, 4)]"

theorem parallel_search_correct_witness:
  "(\<nexists>e. (par_step (\<lambda>_. demo_chunks) demo_index demo_edges)\<^sup>*\<^sup>*
         (par_start (\<lambda>_. demo_chunks) 4 demo_index) (Failed e))
   \<and> (\<nexists>f. f 0 = par_start (\<lambda>_. demo_chunks) 4 demo_index
         \<and> (\<forall>i. par_step (\<lambda>_. demo_chunks) demo_index demo_edges (f i) (f (Suc i))))"
proof -
  have four_u: "unat (4 :: u64) = 4" by simp
  have "chunks_ok 4 demo_chunks" by (simp add: chunks_ok_def demo_chunks_def upt_rec)
  then show ?thesis
    using parallel_search_correct [of 4 demo_index demo_edges 1 "\<lambda>_. demo_chunks"]
      demo_csr demo_root demo_shallow
    unfolding four_u by fastforce
qed

end
