(* ===== verification/Stream_Benchmark.thy ===== *)
theory Stream_Benchmark
  imports Bitmap Stores
begin

text \<open>
  The benchmark of \<^verbatim>\<open>examples/stream/stream.c\<close>: three arrays in mapped files, which one run
  initialises and another reads, four kernels over them, whose loops are divided among
  threads, and the validation of the result. The arithmetic of \<^verbatim>\<open>STREAM_TYPE\<close> is a parameter.
\<close>

section \<open>Arithmetic\<close>

text \<open>
  The operations on floating-point numbers; \<open>f_lit\<close> are the literals and the conversions from
  integers, \<open>f_trunc\<close> the conversion to \<^verbatim>\<open>int\<close>.
\<close>

record 'd fpu =
  f_lit :: "int \<Rightarrow> 'd"
  f_add :: "'d \<Rightarrow> 'd \<Rightarrow> 'd"
  f_sub :: "'d \<Rightarrow> 'd \<Rightarrow> 'd"
  f_mul :: "'d \<Rightarrow> 'd \<Rightarrow> 'd"
  f_div :: "'d \<Rightarrow> 'd \<Rightarrow> 'd"
  f_neg :: "'d \<Rightarrow> 'd"
  f_ge :: "'d \<Rightarrow> 'd \<Rightarrow> bool"
  f_lt :: "'d \<Rightarrow> 'd \<Rightarrow> bool"
  f_ne :: "'d \<Rightarrow> 'd \<Rightarrow> bool"
  f_trunc :: "'d \<Rightarrow> int"
  f_1e_6 :: 'd
  f_1e_13 :: 'd
  f_FLT_MAX :: 'd

definition f_abs :: "'d fpu \<Rightarrow> 'd \<Rightarrow> 'd" where
  "f_abs N x = (if f_ge N x (f_lit N 0) then x else f_neg N x)"

definition f_min :: "'d fpu \<Rightarrow> 'd \<Rightarrow> 'd \<Rightarrow> 'd" where
  "f_min N x y = (if f_lt N x y then x else y)"

definition f_max :: "'d fpu \<Rightarrow> 'd \<Rightarrow> 'd \<Rightarrow> 'd" where
  "f_max N x y = (if f_lt N y x then x else y)"

section \<open>Files\<close>

text \<open>\<^verbatim>\<open>atol\<close> and \<^verbatim>\<open>atoi\<close>, whose behaviour is undefined when the number does not fit.\<close>

definition ato :: "nat \<Rightarrow> string \<Rightarrow> int result" where
  "ato bits s =
     (let (neg, s2) = split_sign (dropWhile is_space s);
          m = int (digits_value (takeWhile is_digit s2)); n = (if neg then - m else m)
      in if n < - (2 ^ (bits - 1)) \<or> 2 ^ (bits - 1) \<le> n then Inl (UNDEFINED ''number out of range'')
         else Inr n)"

definition stream_args :: "string list \<Rightarrow> (u64 \<times> int) result" where
  "stream_args argv =
     bindR (case argv of _ # n # _ \<Rightarrow> bindR (ato 64 n) (\<lambda>i. Inr (of_int i)) | _ \<Rightarrow> Inr 4096) (\<lambda>array_size.
     bindR (case argv of _ # _ # i # _ \<Rightarrow> ato 32 i | _ \<Rightarrow> Inr 0) (\<lambda>is_init.
       Inr (array_size, is_init)))"

definition umap_region_length :: "u64 \<Rightarrow> u64 \<Rightarrow> u64" where
  "umap_region_length umap_psize array_size =
     (8 * array_size + umap_psize - 1) div umap_psize * umap_psize"

text \<open>
  \<open>open_prealloc_file\<close>; the answers of the system are the error number of \<^verbatim>\<open>unlink\<close>, if it fails,
  and the success of \<^verbatim>\<open>open\<close> and of \<^verbatim>\<open>posix_fallocate\<close>.
\<close>

record prealloc_env =
  pe_unlink :: "string \<Rightarrow> int option"
  pe_ENOENT :: int
  pe_open :: "string \<Rightarrow> bool"
  pe_fallocate :: "string \<Rightarrow> bool"

definition open_and_fill ::
  "prealloc_env \<Rightarrow> bool \<Rightarrow> string \<Rightarrow> u64 \<Rightarrow> fsys \<Rightarrow> int \<times> fsys" where
  "open_and_fill env is_init fname totalbytes fs =
     (if \<not> pe_open env fname then (- 1, fs)
      else
        let (fd, fs1) = fs_open fname fs in
        if is_init then
          (if \<not> pe_fallocate env fname then (- 1, fs1)
           else (fd, fallocate fd (unat totalbytes) fs1))
        else (fd, fs1))"

definition open_prealloc_file ::
  "prealloc_env \<Rightarrow> bool \<Rightarrow> string \<Rightarrow> u64 \<Rightarrow> fsys \<Rightarrow> int \<times> fsys" where
  "open_prealloc_file env is_init fname totalbytes fs =
     (case (if is_init then pe_unlink env fname else None) of
        Some eno \<Rightarrow>
          if eno \<noteq> pe_ENOENT env then (- 1, fs)
          else open_and_fill env is_init fname totalbytes fs
      | None \<Rightarrow>
          open_and_fill env is_init fname totalbytes
            (if is_init then fs\<lparr>data := (data fs)(fname := None)\<rparr> else fs))"

section \<open>Kernels\<close>

text \<open>
  The three arrays, as long as the mapped regions; a region that was not mapped has no
  elements. An iteration of a parallel loop works on its own index only, and the iterations
  may come in any order, which is a parameter.
\<close>

record 'd arrays =
  arr_a :: "'d list"
  arr_b :: "'d list"
  arr_c :: "'d list"

fun par_for :: "u64 list \<Rightarrow> (u64 \<Rightarrow> 's \<Rightarrow> 's result) \<Rightarrow> 's \<Rightarrow> 's result" where
  "par_for [] body s = Inr s"
| "par_for (j # js) body s = bindR (body j s) (\<lambda>s'. par_for js body s')"

definition init_element :: "'d fpu \<Rightarrow> u64 \<Rightarrow> 'd arrays \<Rightarrow> 'd arrays result" where
  "init_element N j s =
     bindR (put_at (arr_a s) j (f_lit N 1)) (\<lambda>a. bindR (put_at (arr_b s) j (f_lit N 2)) (\<lambda>b.
     bindR (put_at (arr_c s) j (f_lit N 0)) (\<lambda>c. Inr \<lparr>arr_a = a, arr_b = b, arr_c = c\<rparr>)))"

definition check_element :: "'d fpu \<Rightarrow> u64 \<Rightarrow> 'd arrays \<Rightarrow> 'd arrays result" where
  "check_element N j s =
     bindR (get_at (arr_a s) j) (\<lambda>x.
       if f_ne N x (f_lit N 1) then Inl (UMAP_ERROR ''exit 13'')
       else bindR (get_at (arr_b s) j) (\<lambda>y.
         if f_ne N y (f_lit N 2) then Inl (UMAP_ERROR ''exit 13'')
         else bindR (get_at (arr_c s) j) (\<lambda>z.
           if f_ne N z (f_lit N 0) then Inl (UMAP_ERROR ''exit 13'') else Inr s)))"

definition tick_element :: "'d fpu \<Rightarrow> u64 \<Rightarrow> 'd arrays \<Rightarrow> 'd arrays result" where
  "tick_element N j s =
     bindR (get_at (arr_a s) j) (\<lambda>x. bindR (put_at (arr_a s) j (f_mul N (f_lit N 2) x)) (\<lambda>a.
       Inr (s\<lparr>arr_a := a\<rparr>)))"

definition STREAM_Copy :: "u64 \<Rightarrow> 'd arrays \<Rightarrow> 'd arrays result" where
  "STREAM_Copy j s =
     bindR (get_at (arr_a s) j) (\<lambda>x. bindR (put_at (arr_c s) j x) (\<lambda>c. Inr (s\<lparr>arr_c := c\<rparr>)))"

definition STREAM_Scale :: "'d fpu \<Rightarrow> 'd \<Rightarrow> u64 \<Rightarrow> 'd arrays \<Rightarrow> 'd arrays result" where
  "STREAM_Scale N scalar j s =
     bindR (get_at (arr_c s) j) (\<lambda>z. bindR (put_at (arr_b s) j (f_mul N scalar z)) (\<lambda>b.
       Inr (s\<lparr>arr_b := b\<rparr>)))"

definition STREAM_Add :: "'d fpu \<Rightarrow> u64 \<Rightarrow> 'd arrays \<Rightarrow> 'd arrays result" where
  "STREAM_Add N j s =
     bindR (get_at (arr_a s) j) (\<lambda>x. bindR (get_at (arr_b s) j) (\<lambda>y.
     bindR (put_at (arr_c s) j (f_add N x y)) (\<lambda>c. Inr (s\<lparr>arr_c := c\<rparr>))))"

definition STREAM_Triad :: "'d fpu \<Rightarrow> 'd \<Rightarrow> u64 \<Rightarrow> 'd arrays \<Rightarrow> 'd arrays result" where
  "STREAM_Triad N scalar j s =
     bindR (get_at (arr_b s) j) (\<lambda>y. bindR (get_at (arr_c s) j) (\<lambda>z.
     bindR (put_at (arr_a s) j (f_add N y (f_mul N scalar z))) (\<lambda>a. Inr (s\<lparr>arr_a := a\<rparr>))))"

text \<open>The main loop; for each of the \<open>NTIMES\<close> rounds the orders of its four loops.\<close>

fun main_loop ::
  "'d fpu \<Rightarrow> (u64 list \<times> u64 list \<times> u64 list \<times> u64 list) list \<Rightarrow> 'd arrays \<Rightarrow> 'd arrays result" where
  "main_loop N [] s = Inr s"
| "main_loop N ((o1, o2, o3, o4) # os) s =
     bindR (par_for o1 STREAM_Copy s) (\<lambda>s1.
     bindR (par_for o2 (STREAM_Scale N (f_lit N 3)) s1) (\<lambda>s2.
     bindR (par_for o3 (STREAM_Add N) s2) (\<lambda>s3.
     bindR (par_for o4 (STREAM_Triad N (f_lit N 3)) s3) (\<lambda>s4. main_loop N os s4))))"

section \<open>Validation\<close>

definition expected_round :: "'d fpu \<Rightarrow> 'd \<times> 'd \<times> 'd \<Rightarrow> 'd \<times> 'd \<times> 'd" where
  "expected_round N = (\<lambda>(aj, bj, cj).
     let cj = aj; bj = f_mul N (f_lit N 3) cj; cj = f_add N aj bj;
         aj = f_add N bj (f_mul N (f_lit N 3) cj)
     in (aj, bj, cj))"

definition NTIMES :: nat where "NTIMES = 3"

definition expected :: "'d fpu \<Rightarrow> 'd \<times> 'd \<times> 'd" where
  "expected N = (expected_round N ^^ NTIMES) (f_mul N (f_lit N 2) (f_lit N 1), f_lit N 2, f_lit N 0)"

definition epsilon :: "'d fpu \<Rightarrow> nat \<Rightarrow> 'd" where
  "epsilon N sizeof = (if sizeof = 4 then f_1e_6 N else if sizeof = 8 then f_1e_13 N else f_1e_6 N)"

text \<open>
  The average error of an array; \<open>Some\<close> when it is too great, with the number of elements
  that are found wrong.
\<close>

definition check_array :: "'d fpu \<Rightarrow> 'd \<Rightarrow> u64 \<Rightarrow> 'd \<Rightarrow> 'd list \<Rightarrow> nat option result" where
  "check_array N eps array_size ej xs =
     (if length xs < unat array_size then Inl (UNDEFINED ''array index out of range'')
      else
        let ys = take (unat array_size) xs;
            sum_err = foldl (\<lambda>s x. f_add N s (f_abs N (f_sub N x ej))) (f_lit N 0) ys;
            avg_err = f_div N sum_err (f_lit N (uint array_size))
        in if f_lt N eps (f_abs N (f_div N avg_err ej))
           then Inr (Some (length (filter (\<lambda>x. f_lt N eps
                    (f_abs N (f_sub N (f_div N x ej) (f_lit N 1)))) ys)))
           else Inr None)"

definition checkSTREAMresults :: "'d fpu \<Rightarrow> nat \<Rightarrow> u64 \<Rightarrow> 'd arrays \<Rightarrow> (nat \<times> nat option list) result" where
  "checkSTREAMresults N sizeof array_size s =
     (let (aj, bj, cj) = expected N; eps = epsilon N sizeof in
      bindR (check_array N eps array_size aj (arr_a s)) (\<lambda>ra.
      bindR (check_array N eps array_size bj (arr_b s)) (\<lambda>rb.
      bindR (check_array N eps array_size cj (arr_c s)) (\<lambda>rc.
        Inr (length (filter (\<lambda>r. r \<noteq> None) [ra, rb, rc]), [ra, rb, rc])))))"

section \<open>The program\<close>

record loop_orders =
  lo_init :: "u64 list"
  lo_check :: "u64 list"
  lo_tick :: "u64 list"
  lo_kernels :: "(u64 list \<times> u64 list \<times> u64 list \<times> u64 list) list"

text \<open>
  The body of \<open>main\<close> between mapping and unmapping: the arrays at the end, which are written
  back to the files, and the outcome of the validation, if there is one. The times that are
  measured are only printed.
\<close>

definition stream_body ::
  "'d fpu \<Rightarrow> nat \<Rightarrow> loop_orders \<Rightarrow> u64 \<Rightarrow> int \<Rightarrow> 'd arrays
     \<Rightarrow> ('d arrays \<times> (nat \<times> nat option list) option) result" where
  "stream_body N sizeof lo array_size is_init s =
     (if is_init \<noteq> 0 then bindR (par_for (lo_init lo) (init_element N) s) (\<lambda>s'. Inr (s', None))
      else
        bindR (par_for (lo_check lo) (check_element N) s) (\<lambda>s1.
        bindR (par_for (lo_tick lo) (tick_element N) s1) (\<lambda>s2.
        bindR (main_loop N (lo_kernels lo) s2) (\<lambda>s3.
        bindR (checkSTREAMresults N sizeof array_size s3) (\<lambda>r. Inr (s3, Some r))))))"

text \<open>
  The beginning of \<open>main\<close>: the files are opened and mapped, unless one of the descriptors is
  not positive; \<open>decode\<close> is the representation of the numbers in memory, and \<open>map_file\<close> says
  whether a file can be mapped.
\<close>

definition map_array :: "(byte list \<Rightarrow> 'd list) \<Rightarrow> (int \<Rightarrow> bool) \<Rightarrow> int \<Rightarrow> nat \<Rightarrow> fsys \<Rightarrow> 'd list" where
  "map_array decode map_file fd len fs =
     (if map_file fd then case pread fd len 0 fs of None \<Rightarrow> [] | Some bs \<Rightarrow> decode bs else [])"

definition stream_setup ::
  "prealloc_env \<Rightarrow> (byte list \<Rightarrow> 'd list) \<Rightarrow> (int \<Rightarrow> bool) \<Rightarrow> u64 \<Rightarrow> string list \<Rightarrow> fsys
     \<Rightarrow> (u64 \<times> int \<times> 'd arrays \<times> fsys) result" where
  "stream_setup env decode map_file umap_psize argv fs =
     bindR (stream_args argv) (\<lambda>(array_size, is_init).
       if umap_psize = 0 then Inl (UNDEFINED ''division by zero'')
       else
         let len = umap_region_length umap_psize array_size;
             (fd0, fs0) = open_prealloc_file env (is_init \<noteq> 0) ''./stream_a'' len fs;
             (fd1, fs1) = open_prealloc_file env (is_init \<noteq> 0) ''./stream_b'' len fs0;
             (fd2, fs2) = open_prealloc_file env (is_init \<noteq> 0) ''./stream_c'' len fs1;
             mapped = (\<lambda>fd. if fd0 > 0 \<and> fd1 > 0 \<and> fd2 > 0
                            then map_array decode map_file fd (unat len) fs2 else [])
         in Inr (array_size, is_init,
                 \<lparr>arr_a = mapped fd0, arr_b = mapped fd1, arr_c = mapped fd2\<rparr>, fs2))"

section \<open>Times\<close>

text \<open>
  The readings of the clock, in their order, are a parameter. \<open>wait_tick\<close> is the loop of
  \<open>checktick\<close> that waits for the clock to advance, \<open>None\<close> when it never does; the value is
  the reading and the number of the next one.
\<close>

partial_function (option) wait_tick :: "'d fpu \<Rightarrow> (nat \<Rightarrow> 'd) \<Rightarrow> 'd \<Rightarrow> nat \<Rightarrow> ('d \<times> nat) option" where
  "wait_tick N clock t1 p =
     (if f_lt N (f_sub N (clock p) t1) (f_1e_6 N) then wait_tick N clock t1 (p + 1)
      else Some (clock p, p + 1))"

fun collect_ticks :: "'d fpu \<Rightarrow> (nat \<Rightarrow> 'd) \<Rightarrow> nat \<Rightarrow> nat \<Rightarrow> ('d list \<times> nat) option" where
  "collect_ticks N clock 0 p = Some ([], p)"
| "collect_ticks N clock (Suc m) p =
     Option.bind (wait_tick N clock (clock p) (p + 1)) (\<lambda>(t2, p').
     Option.bind (collect_ticks N clock m p') (\<lambda>(ts, p''). Some (t2 # ts, p'')))"

fun min_delta :: "'d fpu \<Rightarrow> int \<Rightarrow> 'd list \<Rightarrow> int" where
  "min_delta N m (t1 # t2 # ts) =
     min_delta N (min m (max (f_trunc N (f_mul N (f_lit N 1000000) (f_sub N t2 t1))) 0)) (t2 # ts)"
| "min_delta N m _ = m"

definition checktick :: "'d fpu \<Rightarrow> (nat \<Rightarrow> 'd) \<Rightarrow> nat \<Rightarrow> (int \<times> nat) option" where
  "checktick N clock p =
     Option.bind (collect_ticks N clock 20 p) (\<lambda>(timesfound, p').
       Some (min_delta N 1000000 timesfound, p'))"

text \<open>The summary of the times of a kernel, of which the first is left out: average, least and greatest.\<close>

definition summary :: "'d fpu \<Rightarrow> 'd list \<Rightarrow> 'd \<times> 'd \<times> 'd" where
  "summary N ts =
     (let (avg, mn, mx) = foldl (\<lambda>(avg, mn, mx) t. (f_add N avg t, f_min N mn t, f_max N mx t))
            (f_lit N 0, f_FLT_MAX N, f_lit N 0) (tl ts)
      in (f_div N avg (f_lit N (int NTIMES - 1)), mn, mx))"

section \<open>Parallel loops\<close>

definition elem :: "'d arrays \<Rightarrow> nat \<Rightarrow> 'd \<times> 'd \<times> 'd" where
  "elem s i = (arr_a s ! i, arr_b s ! i, arr_c s ! i)"

definition set_elem :: "nat \<Rightarrow> 'd \<times> 'd \<times> 'd \<Rightarrow> 'd arrays \<Rightarrow> 'd arrays" where
  "set_elem i = (\<lambda>(x, y, z) s. \<lparr>arr_a = (arr_a s)[i := x], arr_b = (arr_b s)[i := y], arr_c = (arr_c s)[i := z]\<rparr>)"

definition room :: "nat \<Rightarrow> 'd arrays \<Rightarrow> bool" where
  "room n s \<longleftrightarrow> n \<le> length (arr_a s) \<and> n \<le> length (arr_b s) \<and> n \<le> length (arr_c s)"

text \<open>A body that replaces the elements at its index by a function of them.\<close>

definition pointwise ::
  "nat \<Rightarrow> (u64 \<Rightarrow> 'd arrays \<Rightarrow> 'd arrays result) \<Rightarrow> ('d \<times> 'd \<times> 'd \<Rightarrow> 'd \<times> 'd \<times> 'd) \<Rightarrow> bool" where
  "pointwise n body f \<longleftrightarrow>
     (\<forall>j s. unat j < n \<and> room n s \<longrightarrow> body j s = Inr (set_elem (unat j) (f (elem s (unat j))) s))"

lemma room_set_elem [simp]: "room n (set_elem i v s) \<longleftrightarrow> room n s"
  by (cases v) (simp add: set_elem_def room_def)

lemma elem_set_elem:
  "room n s \<Longrightarrow> i < n \<Longrightarrow> k < n \<Longrightarrow> elem (set_elem i v s) k = (if k = i then v else elem s k)"
  by (cases v) (auto simp: set_elem_def elem_def room_def nth_list_update)

text \<open>In whatever order the iterations come, each element is replaced once.\<close>

lemma par_for_pointwise:
  assumes body: "pointwise n body f" and "distinct js" and "\<forall>j\<in>set js. unat j < n" and "room n s"
  shows "\<exists>s'. par_for js body s = Inr s' \<and> room n s'
       \<and> (\<forall>i<n. elem s' i = (if of_nat i \<in> set js \<and> unat (of_nat i :: u64) = i then f (elem s i) else elem s i))"
  using assms(2-4)
proof (induction js arbitrary: s)
  case (Cons j js)
  let ?s1 = "set_elem (unat j) (f (elem s (unat j))) s"
  have j: "unat j < n" and step: "body j s = Inr ?s1"
    using body Cons.prems by (auto simp: pointwise_def)
  obtain s' where s': "par_for js body ?s1 = Inr s'" "room n s'"
    "\<forall>i<n. elem s' i = (if of_nat i \<in> set js \<and> unat (of_nat i :: u64) = i then f (elem ?s1 i) else elem ?s1 i)"
    using Cons.IH [of ?s1] Cons.prems by auto
  have "elem s' i = (if of_nat i \<in> set (j # js) \<and> unat (of_nat i :: u64) = i then f (elem s i) else elem s i)"
    if "i < n" for i
  proof (cases "i = unat j")
    case True
    then have "of_nat i = j" by (metis of_nat_unat ucast_id)
    then show ?thesis using s'(3) that True Cons.prems(1,3) by (simp add: elem_set_elem [OF Cons.prems(3)])
  next
    case False
    have "elem ?s1 i = elem s i"
      using elem_set_elem [OF Cons.prems(3) j that] False by simp
    moreover have "unat (of_nat i :: u64) = i \<Longrightarrow> of_nat i \<noteq> j" using False by auto
    ultimately show ?thesis using s'(3) that by auto
  qed
  then show ?case using step s'(1,2) by auto
qed simp

text \<open>An order of the iterations of a loop up to \<open>n\<close>.\<close>

definition loop_order :: "u64 \<Rightarrow> u64 list \<Rightarrow> bool" where
  "loop_order n js \<longleftrightarrow> distinct js \<and> (\<forall>j. j \<in> set js \<longleftrightarrow> j < n)"

definition filled :: "u64 \<Rightarrow> 'd \<times> 'd \<times> 'd \<Rightarrow> 'd arrays \<Rightarrow> bool" where
  "filled n v s \<longleftrightarrow> room (unat n) s \<and> (\<forall>i<unat n. elem s i = v)"

lemma par_for_map:
  assumes "pointwise (unat n) body f" and "loop_order n js" and "room (unat n) s"
  shows "\<exists>s'. par_for js body s = Inr s' \<and> room (unat n) s' \<and> (\<forall>i<unat n. elem s' i = f (elem s i))"
proof -
  have js: "distinct js" "\<forall>j\<in>set js. unat j < unat n"
    using assms(2) by (simp_all add: loop_order_def word_less_nat_alt)
  have "(of_nat i :: u64) \<in> set js \<and> unat (of_nat i :: u64) = i" if "i < unat n" for i
  proof -
    have "i < 2 ^ 64" using that unat_bound_u64 [of n] by linarith
    then have "unat (of_nat i :: u64) = i" by (rule unat_of_nat_u64)
    then show ?thesis using assms(2) that by (simp add: loop_order_def word_less_nat_alt)
  qed
  then show ?thesis using par_for_pointwise [OF assms(1) js assms(3)] by auto
qed

lemma par_for_filled:
  assumes "pointwise (unat n) body f" and "loop_order n js" and "filled n v s"
  shows "\<exists>s'. par_for js body s = Inr s' \<and> filled n (f v) s'"
  using par_for_map [OF assms(1,2), of s] assms(3) by (auto simp: filled_def)

lemma pointwise_bodies:
  "pointwise n (init_element N) (\<lambda>_. (f_lit N 1, f_lit N 2, f_lit N 0))"
  "pointwise n (tick_element N) (\<lambda>(x, y, z). (f_mul N (f_lit N 2) x, y, z))"
  "pointwise n STREAM_Copy (\<lambda>(x, y, z). (x, y, x))"
  "pointwise n (STREAM_Scale N q) (\<lambda>(x, y, z). (x, f_mul N q z, z))"
  "pointwise n (STREAM_Add N) (\<lambda>(x, y, z). (x, y, f_add N x y))"
  "pointwise n (STREAM_Triad N q) (\<lambda>(x, y, z). (f_add N y (f_mul N q z), y, z))"
  by (auto simp: pointwise_def init_element_def tick_element_def STREAM_Copy_def STREAM_Scale_def
      STREAM_Add_def STREAM_Triad_def room_def set_elem_def elem_def)

lemma main_loop_filled:
  assumes "\<forall>(o1, o2, o3, o4)\<in>set os. loop_order n o1 \<and> loop_order n o2 \<and> loop_order n o3 \<and> loop_order n o4"
    and "filled n v s"
  shows "\<exists>s'. main_loop N os s = Inr s' \<and> filled n ((expected_round N ^^ length os) v) s'"
  using assms
proof (induction os arbitrary: v s)
  case (Cons ord os)
  obtain o1 o2 o3 o4 where o: "ord = (o1, o2, o3, o4)" by (cases ord)
  obtain x y z where v: "v = (x, y, z)" by (cases v)
  have ok: "loop_order n o1" "loop_order n o2" "loop_order n o3" "loop_order n o4"
    using Cons.prems(1) o by auto
  obtain s1 where s1: "par_for o1 STREAM_Copy s = Inr s1" "filled n (x, y, x) s1"
    using par_for_filled [OF pointwise_bodies(3) ok(1) Cons.prems(2)] v by auto
  let ?b = "f_mul N (f_lit N 3) x"
  obtain s2 where s2: "par_for o2 (STREAM_Scale N (f_lit N 3)) s1 = Inr s2" "filled n (x, ?b, x) s2"
    using par_for_filled [OF pointwise_bodies(4) ok(2) s1(2)] by auto
  obtain s3 where s3: "par_for o3 (STREAM_Add N) s2 = Inr s3" "filled n (x, ?b, f_add N x ?b) s3"
    using par_for_filled [OF pointwise_bodies(5) ok(3) s2(2)] by auto
  obtain s4 where s4: "par_for o4 (STREAM_Triad N (f_lit N 3)) s3 = Inr s4" "filled n (expected_round N v) s4"
    using par_for_filled [OF pointwise_bodies(6) ok(4) s3(2)] v
    by (auto simp: expected_round_def Let_def)
  obtain s' where "main_loop N os s4 = Inr s'" "filled n ((expected_round N ^^ length os) (expected_round N v)) s'"
    using Cons.IH [OF _ s4(2)] Cons.prems(1) by auto
  then show ?case using o s1(1) s2(1) s3(1) s4(1) by (simp add: funpow_swap1)
qed simp

section \<open>Validation\<close>

text \<open>
  What the validation needs of the arithmetic: a number that is neither infinite nor not a
  number leaves nothing when it is taken from itself, nothing divided by it is nothing, and
  nothing is below the tolerance and not negative.
\<close>

definition cancels :: "'d fpu \<Rightarrow> 'd \<Rightarrow> bool" where
  "cancels N x \<longleftrightarrow> f_sub N x x = f_lit N 0 \<and> f_div N (f_lit N 0) x = f_lit N 0"

definition zero_laws :: "'d fpu \<Rightarrow> nat \<Rightarrow> u64 \<Rightarrow> bool" where
  "zero_laws N sizeof n \<longleftrightarrow> f_ge N (f_lit N 0) (f_lit N 0)
     \<and> f_add N (f_lit N 0) (f_lit N 0) = f_lit N 0
     \<and> f_div N (f_lit N 0) (f_lit N (uint n)) = f_lit N 0
     \<and> \<not> f_lt N (epsilon N sizeof) (f_lit N 0)"

definition literals_equal :: "'d fpu \<Rightarrow> bool" where
  "literals_equal N \<longleftrightarrow> (\<forall>k\<in>{0, 1, 2}. \<not> f_ne N (f_lit N k) (f_lit N k))"

lemma check_array_exact:
  assumes laws: "zero_laws N sizeof n" "cancels N x"
    and xs: "unat n \<le> length xs" "\<forall>i<unat n. xs ! i = x"
  shows "check_array N (epsilon N sizeof) n x xs = Inr None"
proof -
  have "take (unat n) xs = replicate (unat n) x" using xs by (auto intro!: nth_equalityI)
  moreover have "foldl (\<lambda>s y. f_add N s (f_abs N (f_sub N y x))) (f_lit N 0) (replicate m x) = f_lit N 0" for m
    by (induction m) (use laws in \<open>simp_all add: zero_laws_def cancels_def f_abs_def\<close>)
  ultimately show ?thesis using laws xs(1)
    by (simp add: check_array_def zero_laws_def cancels_def f_abs_def Let_def)
qed

lemma check_filled:
  assumes "literals_equal N" and "filled n (f_lit N 1, f_lit N 2, f_lit N 0) s" and "\<forall>j\<in>set js. j < n"
  shows "par_for js (check_element N) s = Inr s"
  using assms(3)
proof (induction js)
  case (Cons j js)
  then have "check_element N j s = Inr s"
    using assms(1,2) by (auto simp: check_element_def filled_def elem_def room_def literals_equal_def word_less_nat_alt)
  then show ?case using Cons by simp
qed simp

lemma check_refuses:
  assumes "filled n (x, y, z) s" and "f_ne N x (f_lit N 1)" and "loop_order n js" and "0 < n"
  shows "par_for js (check_element N) s = Inl (UMAP_ERROR ''exit 13'')"
proof (cases js)
  case Nil
  then show ?thesis using assms(3,4) by (auto simp: loop_order_def)
next
  case (Cons j js')
  then have "unat j < unat n" using assms(3) by (auto simp: loop_order_def word_less_nat_alt)
  then have "check_element N j s = Inl (UMAP_ERROR ''exit 13'')"
    using assms(1,2) by (auto simp: check_element_def filled_def elem_def room_def)
  then show ?thesis using Cons by simp
qed

definition orders_ok :: "u64 \<Rightarrow> loop_orders \<Rightarrow> bool" where
  "orders_ok n lo \<longleftrightarrow> loop_order n (lo_init lo) \<and> loop_order n (lo_check lo) \<and> loop_order n (lo_tick lo)
     \<and> length (lo_kernels lo) = NTIMES
     \<and> (\<forall>(o1, o2, o3, o4)\<in>set (lo_kernels lo).
          loop_order n o1 \<and> loop_order n o2 \<and> loop_order n o3 \<and> loop_order n o4)"

lemma stream_init_run:
  assumes "orders_ok n lo" and "room (unat n) s" and "i \<noteq> 0"
  shows "\<exists>s1. stream_body N sizeof lo n i s = Inr (s1, None) \<and> filled n (f_lit N 1, f_lit N 2, f_lit N 0) s1"
proof -
  have "loop_order n (lo_init lo)" using assms(1) by (simp add: orders_ok_def)
  from par_for_map [OF pointwise_bodies(1) [of "unat n" N] this assms(2)] show ?thesis
    using assms(3) by (auto simp: stream_body_def filled_def)
qed

lemma stream_compute_run:
  assumes ord: "orders_ok n lo" and s: "filled n (f_lit N 1, f_lit N 2, f_lit N 0) s"
    and laws: "zero_laws N sizeof n" "literals_equal N"
    and e: "expected N = (aj, bj, cj)" "cancels N aj" "cancels N bj" "cancels N cj"
  shows "\<exists>s2. stream_body N sizeof lo n 0 s = Inr (s2, Some (0, [None, None, None])) \<and> filled n (expected N) s2"
proof -
  have lo: "loop_order n (lo_check lo)" "loop_order n (lo_tick lo)" "length (lo_kernels lo) = NTIMES"
    using ord by (simp_all add: orders_ok_def)
  have check: "par_for (lo_check lo) (check_element N) s = Inr s"
    by (rule check_filled [OF laws(2) s]) (use lo(1) in \<open>simp add: loop_order_def\<close>)
  obtain s1 where s1: "par_for (lo_tick lo) (tick_element N) s = Inr s1"
    "filled n (f_mul N (f_lit N 2) (f_lit N 1), f_lit N 2, f_lit N 0) s1"
    using par_for_filled [OF pointwise_bodies(2) [of "unat n" N] lo(2) s] by auto
  obtain s2 where s2: "main_loop N (lo_kernels lo) s1 = Inr s2" "filled n (expected N) s2"
    using main_loop_filled [OF _ s1(2), of "lo_kernels lo" N] ord lo(3)
    by (auto simp: orders_ok_def expected_def)
  have "checkSTREAMresults N sizeof n s2 = Inr (0, [None, None, None])"
    using s2(2) check_array_exact [OF laws(1)] e
    by (auto simp: checkSTREAMresults_def filled_def elem_def room_def)
  then show ?thesis using check s1(1) s2 by (simp add: stream_body_def)
qed

lemma region_length_room:
  assumes "0 < psize" and "8 * unat n + unat psize < 2 ^ 64"
  shows "unat n \<le> unat (umap_region_length psize n) div 8"
    and "unat psize dvd unat (umap_region_length psize n)"
    and "unat (umap_region_length psize n) < 8 * unat n + unat psize"
proof -
  let ?p = "unat psize" and ?t = "8 * unat n + unat psize - 1"
  have p: "0 < ?p" using assms(1) by (simp add: word_less_nat_alt)
  have "8 * n + psize - 1 = of_nat ?t"
  proof -
    have "?t = 8 * unat n + (?p - 1)" using p by linarith
    moreover have "of_nat (?p - 1) = psize - 1" using p by (simp add: of_nat_diff Suc_leI)
    ultimately show ?thesis by (simp add: add_diff_eq)
  qed
  then have t: "unat (8 * n + psize - 1) = ?t" using assms(2) by (simp add: unat_of_nat_u64)
  have "?t div ?p * ?p \<le> ?t" by simp
  then have "?t div ?p * ?p < 2 ^ 64" using assms(2) by linarith
  moreover have q: "unat ((8 * n + psize - 1) div psize) = ?t div ?p" by (simp only: unat_div_distrib t)
  ultimately have "unat ((8 * n + psize - 1) div psize) * ?p < 2 ^ LENGTH(64)" by simp
  then have "unat ((8 * n + psize - 1) div psize * psize) = unat ((8 * n + psize - 1) div psize) * ?p"
    by (simp only: unat_mult_lem)
  then have u: "unat (umap_region_length psize n) = ?t div ?p * ?p"
    unfolding umap_region_length_def q .
  have split: "?t div ?p * ?p + ?t mod ?p = ?t" "?t mod ?p < ?p" using p by simp_all
  show "?p dvd unat (umap_region_length psize n)" unfolding u by simp
  show "unat (umap_region_length psize n) < 8 * unat n + ?p" unfolding u using split p by linarith
  have "8 * unat n \<le> unat (umap_region_length psize n)" unfolding u using split p by linarith
  then show "unat n \<le> unat (umap_region_length psize n) div 8" by linarith
qed


text \<open>Arithmetic of integers, two elements and pages of 32 bytes; one run counts up, the other down.\<close>

definition demo_fpu :: "int fpu" where
  "demo_fpu = \<lparr>f_lit = (\<lambda>k. k), f_add = (+), f_sub = (-), f_mul = (*), f_div = (div), f_neg = uminus,
     f_ge = (\<ge>), f_lt = (<), f_ne = (\<noteq>), f_trunc = (\<lambda>x. x), f_1e_6 = 1, f_1e_13 = 0, f_FLT_MAX = 1000\<rparr>"

definition demo_orders :: "u64 list \<Rightarrow> loop_orders" where
  "demo_orders js = \<lparr>lo_init = js, lo_check = js, lo_tick = js, lo_kernels = replicate 3 (js, js, js, js)\<rparr>"


section \<open>The clock\<close>

text \<open>\<open>checktick\<close> returns, with a plausible number, when the clock always advances at last.\<close>

lemma wait_tick_ok:
  assumes "\<not> f_lt N (f_sub N (clock (p + k)) t1) (f_1e_6 N)"
  shows "\<exists>t2 p'. wait_tick N clock t1 p = Some (t2, p')"
  using assms
proof (induction k arbitrary: p)
  case 0
  then show ?case by (subst wait_tick.simps) simp
next
  case (Suc k)
  then show ?case using Suc.IH [of "p + 1"] by (subst wait_tick.simps) simp
qed

lemma collect_ticks_ok:
  assumes "\<And>t p. \<exists>k. \<not> f_lt N (f_sub N (clock (p + k)) t) (f_1e_6 N)"
  shows "\<exists>ts p'. collect_ticks N clock m p = Some (ts, p') \<and> length ts = m"
proof (induction m arbitrary: p)
  case (Suc m)
  obtain t2 p1 where "wait_tick N clock (clock p) (p + 1) = Some (t2, p1)"
    using wait_tick_ok assms by metis
  moreover obtain ts p2 where "collect_ticks N clock m p1 = Some (ts, p2)" "length ts = m"
    using Suc by blast
  ultimately show ?case by simp
qed simp

lemma min_delta_bounds: "0 \<le> m \<Longrightarrow> 0 \<le> min_delta N m ts \<and> min_delta N m ts \<le> m"
  by (induction N m ts rule: min_delta.induct) auto

lemma checktick_returns:
  assumes "\<And>t p. \<exists>k. \<not> f_lt N (f_sub N (clock (p + k)) t) (f_1e_6 N)"
  shows "\<exists>d p'. checktick N clock p = Some (d, p') \<and> 0 \<le> d \<and> d \<le> 1000000"
proof -
  obtain ts p' where "collect_ticks N clock 20 p = Some (ts, p')"
    using collect_ticks_ok [OF assms, of 20 p] by blast
  then show ?thesis using min_delta_bounds [of 1000000 N ts] by (simp add: checktick_def)
qed

section \<open>New files\<close>

text \<open>A file that is opened for initialisation is new: zeros of the length that is asked for.\<close>

lemma open_prealloc_new:
  assumes "pe_unlink env fname = None \<or> pe_unlink env fname = Some (pe_ENOENT env) \<and> data fs fname = None"
    and "pe_open env fname" and "pe_fallocate env fname"
  shows "\<exists>fd fs'. open_prealloc_file env True fname nbytes fs = (fd, fs') \<and> 0 \<le> fd
       \<and> fd_path fd fs' = Some fname \<and> data fs' fname = Some (replicate (unat nbytes) 0)
       \<and> (\<forall>p. p \<noteq> fname \<longrightarrow> data fs' p = data fs p)"
proof -
  define fs1 where "fs1 = (if pe_unlink env fname = None then fs\<lparr>data := (data fs)(fname := None)\<rparr> else fs)"
  have fs1: "data fs1 fname = None" "\<And>p. p \<noteq> fname \<Longrightarrow> data fs1 p = data fs p"
    using assms(1) by (auto simp: fs1_def)
  obtain fd fs2 where o: "fs_open fname fs1 = (fd, fs2)" by (cases "fs_open fname fs1")
  note new = fs_open_props [OF o]
  have d2: "data fs2 fname = Some []" using new(4) fs1(1) by simp
  have "open_prealloc_file env True fname nbytes fs = open_and_fill env True fname nbytes fs1"
    using assms(1) by (auto simp: open_prealloc_file_def fs1_def)
  also have "\<dots> = (fd, fallocate fd (unat nbytes) fs2)" using assms(2,3) o by (simp add: open_and_fill_def)
  finally show ?thesis using new(1,2,4) d2 fs1 by (auto simp: fallocate_def)
qed

end
