(* ===== verification/Fits.thy ===== *)
theory Fits
  imports Umap_API
begin

text \<open>
  The images of \<^verbatim>\<open>examples/bfs/utility/umap_fits_file.hpp\<close>: a cube is a region behind which the
  data parts of the FITS files \<^verbatim>\<open>name1.fits\<close>, \<^verbatim>\<open>name2.fits\<close>, \<dots> stand one after the other. What the
  library cfitsio and the system answer about the files are parameters.
\<close>

section \<open>Tiles\<close>

record Tile_Dim =
  td_xDim :: u64
  td_yDim :: u64
  td_elem_size :: u64

record Tile_File =
  tf_fd :: int
  tf_fname :: string
  tf_tile_start :: u64
  tf_tile_size :: u64
  tf_pgaligned_tile_start :: u64

record Tile =
  t_file :: Tile_File
  t_dim :: Tile_Dim
  t_map_start :: u64
  t_map_size :: u64

text \<open>
  The answers of cfitsio for a file, the status of each call and its results; \<open>ff_naxis\<close> are
  the lengths of the axes that the file has.
\<close>

record fits_file =
  ff_open_data :: int
  ff_get_hduaddrll :: int
  ff_datastart :: int
  ff_dataend :: int
  ff_get_img_type :: int
  ff_get_img_param :: int
  ff_bitpix :: int
  ff_naxis :: "int list"
  ff_close_file :: int

definition elem_size_of :: "int \<Rightarrow> u64" where
  "elem_size_of bitpix = (if bitpix < 0 then of_int ((- bitpix) div 8) else of_int (bitpix div 8))"

definition Tile_init :: "(string \<Rightarrow> fits_file) \<Rightarrow> (string \<Rightarrow> int) \<Rightarrow> string \<Rightarrow> Tile result" where
  "Tile_init fits open_file fn =
     (let h = fits fn; fd = open_file fn in
      if ff_open_data h \<noteq> 0 then Inl (UMAP_ERROR ''fits_open_data'')
      else if ff_get_hduaddrll h \<noteq> 0 then Inl (UMAP_ERROR ''fits_get_hduaddrll'')
      else if ff_get_img_type h \<noteq> 0 then Inl (UMAP_ERROR ''fits_get_img_type'')
      else if ff_get_img_param h \<noteq> 0 then Inl (UMAP_ERROR ''fits_get_img_param'')
      else if ff_close_file h \<noteq> 0 then Inl (UMAP_ERROR ''fits_close_file'')
      else if fd = - 1 then Inl (UMAP_ERROR ''open'')
      else
        (case ff_naxis h of
           x # y # _ \<Rightarrow>
             let d = \<lparr>td_xDim = of_int x, td_yDim = of_int y,
                      td_elem_size = elem_size_of (ff_bitpix h)\<rparr>;
                 size = td_xDim d * td_yDim d * td_elem_size d;
                 start = of_int (ff_datastart h);
                 aligned = start AND NOT (4096 - 1)
             in if of_int (ff_dataend h - ff_datastart h) < size
                then Inl (ASSERT_FAIL ''(dataend - datastart) >= (dim.xDim * dim.yDim * dim.elem_size)'')
                else Inr \<lparr>t_file = \<lparr>tf_fd = fd, tf_fname = fn, tf_tile_start = start,
                              tf_tile_size = size, tf_pgaligned_tile_start = aligned\<rparr>,
                          t_dim = d, t_map_start = start - aligned,
                          t_map_size = size + (start - aligned)\<rparr>
         | _ \<Rightarrow> Inl (UNDEFINED ''uninitialised axis'')))"

definition Tile_show :: "Tile \<Rightarrow> string" where
  "Tile_show t =
     tf_fname (t_file t) @ '' Start='' @ show_nat (unat (tf_tile_start (t_file t)))
       @ '', Size='' @ show_nat (unat (tf_tile_size (t_file t)))
       @ '', XDim='' @ show_nat (unat (td_xDim (t_dim t)))
       @ '', YDim='' @ show_nat (unat (td_yDim (t_dim t)))
       @ '', ESize='' @ show_nat (unat (td_elem_size (t_dim t))) @ '' ''"

text \<open>
  \<open>buffered_read\<close>: the bytes that \<^verbatim>\<open>pread\<close> delivers are put in front of the buffer, none when it
  fails, and then moved down. The value is the number of bytes said to have been read and
  the buffer.
\<close>

type_synonym pread_fun = "int \<Rightarrow> nat \<Rightarrow> nat \<Rightarrow> byte list option"

definition buffered_read ::
  "pread_fun \<Rightarrow> Tile \<Rightarrow> byte list \<Rightarrow> u64 \<Rightarrow> u64 \<Rightarrow> (u64 \<times> byte list) result" where
  "buffered_read rd t request_buf request_size request_offset =
     (let ua_request_size = request_size + t_map_start t;
          req_end = request_offset + ua_request_size;
          eof = (if t_map_size t \<le> req_end then req_end - t_map_size t else 0);
          got = (case rd (tf_fd (t_file t)) (unat (ua_request_size - eof))
                        (unat (tf_pgaligned_tile_start (t_file t))) of
                   None \<Rightarrow> [] | Some bs \<Rightarrow> bs);
          m = unat (t_map_start t);
          n = unat request_size
      in if length request_buf < length got \<or> length request_buf < m + n
         then Inl (UNDEFINED ''buffer overrun'')
         else let b = got @ drop (length got) request_buf
              in Inr (request_size - eof, take n (drop m b) @ drop n b))"

section \<open>The store\<close>

record Cube =
  cu_tile_size :: u64
  cu_cube_size :: u64
  cu_page_size :: u64
  cu_tiles :: "Tile list"

text \<open>A short read is filled up, up to the last byte.\<close>

definition pad_page :: "u64 \<Rightarrow> u64 \<Rightarrow> byte list \<Rightarrow> (u64 \<times> byte list) result" where
  "pad_page nb rval b' =
     (if rval = - 1 then Inl (UMAP_ERROR ''ERROR: buffered_read failed'')
      else if rval < nb then
        Inr (rval, take (unat rval) b' @ replicate (unat (nb - rval - 1)) 255
                     @ drop (unat rval + unat (nb - rval - 1)) b')
      else Inr (rval, b'))"

definition Cfits_read_from_store ::
  "pread_fun \<Rightarrow> Cube \<Rightarrow> byte list \<Rightarrow> u64 \<Rightarrow> u64 \<Rightarrow> (u64 \<times> byte list) result" where
  "Cfits_read_from_store rd cube b nb off =
     (if cu_tile_size cube = 0 then Inl (UNDEFINED ''division by zero'')
      else
        let tileno = off div cu_tile_size cube; tileoffset = off mod cu_tile_size cube in
        if length (cu_tiles cube) \<le> unat tileno then Inl (UNDEFINED ''vector index out of range'')
        else
          bindR (buffered_read rd (cu_tiles cube ! unat tileno) b nb tileoffset)
            (\<lambda>(rval, b'). pad_page nb rval b'))"

definition Cfits_write_to_store :: "byte list \<Rightarrow> u64 \<Rightarrow> u64 \<Rightarrow> u64 result" where
  "Cfits_write_to_store b nb off = Inl (ASSERT_FAIL ''FITS write not supported'')"

section \<open>Cubes\<close>

text \<open>The values that \<open>PerFits_alloc_cube\<close> returns through pointers.\<close>

record cube_dims =
  BytesPerElement :: u64
  cd_xDim :: u64
  cd_yDim :: u64
  cd_zDim :: u64

definition tile_name :: "string \<Rightarrow> int \<Rightarrow> string" where
  "tile_name basename i = basename @ show_nat (nat i) @ ''.fits''"

text \<open>The sizes are taken from the first file, and those of the others are compared.\<close>

definition next_dims :: "Tile_Dim \<Rightarrow> cube_dims \<Rightarrow> Cube \<Rightarrow> (cube_dims \<times> Cube) result" where
  "next_dims d ds cube =
     (if BytesPerElement ds = 0 then
        Inr (ds\<lparr>cd_xDim := td_xDim d, cd_yDim := td_yDim d, BytesPerElement := td_elem_size d\<rparr>,
             cube\<lparr>cu_tile_size := td_xDim d * td_yDim d * td_elem_size d\<rparr>)
      else if cd_xDim ds = td_xDim d \<and> cd_yDim ds = td_yDim d \<and> BytesPerElement ds = td_elem_size d
      then Inr (ds, cube)
      else Inl (ASSERT_FAIL ''xDim == dim.xDim''))"

text \<open>
  The loop over the files; \<open>None\<close>: the first one does not exist. The counter is an \<^verbatim>\<open>int\<close>.
\<close>

function alloc_tiles ::
  "(string \<Rightarrow> bool) \<Rightarrow> (string \<Rightarrow> fits_file) \<Rightarrow> (string \<Rightarrow> int) \<Rightarrow> string \<Rightarrow> int \<Rightarrow> cube_dims \<Rightarrow> Cube
     \<Rightarrow> (cube_dims \<times> Cube) option result" where
  "alloc_tiles exists_file fits open_file basename i ds cube =
     (if 2 ^ 31 \<le> i then Inl (UNDEFINED ''signed overflow'')
      else if \<not> exists_file (tile_name basename i) then
        (if i = 1 then Inr None else Inr (Some (ds, cube)))
      else
        bindR (Tile_init fits open_file (tile_name basename i)) (\<lambda>T.
          bindR (next_dims (t_dim T) ds cube) (\<lambda>(ds', cube').
            alloc_tiles exists_file fits open_file basename (i + 1) (ds'\<lparr>cd_zDim := of_int i\<rparr>)
              (cube'\<lparr>cu_cube_size := cu_cube_size cube' + cu_tile_size cube',
                     cu_tiles := cu_tiles cube' @ [T]\<rparr>))))"
  by pat_completeness auto
termination
  by (relation "measure (\<lambda>(ex, ft, op, bn, i, ds, cube). nat (2 ^ 31 - i))") auto

declare alloc_tiles.simps [simp del]

definition pad_cube :: "u64 \<Rightarrow> Cube \<Rightarrow> Cube" where
  "pad_cube psize cube =
     (let remainder = cu_cube_size cube mod psize in
      cube\<lparr>cu_cube_size := cu_cube_size cube + (if remainder \<noteq> 0 then psize - remainder else 0)\<rparr>)"

text \<open>
  The map from regions to cubes; \<open>str\<close> names the new store and \<open>r\<close> the new descriptor. The
  first component of the result is the pointer that is returned.
\<close>

type_synonym cubes = "addr \<rightharpoonup> Cube"

definition PerFits_alloc_cube ::
  "uffd_abi \<Rightarrow> mman_abi \<Rightarrow> bool \<Rightarrow> sys_env \<Rightarrow> rid \<Rightarrow> store_ref
     \<Rightarrow> (string \<Rightarrow> bool) \<Rightarrow> (string \<Rightarrow> fits_file) \<Rightarrow> (string \<Rightarrow> int) \<Rightarrow> string \<Rightarrow> u64
     \<Rightarrow> cubes \<Rightarrow> RegionManager \<Rightarrow> (addr \<times> cube_dims \<times> cubes \<times> RegionManager) result" where
  "PerFits_alloc_cube abi mm ro env r str exists_file fits open_file basename z0 cubes M =
     (let psize = umapcfg_get_umap_page_size M;
          ds0 = \<lparr>BytesPerElement = 0, cd_xDim = 0, cd_yDim = 0, cd_zDim = z0\<rparr>;
          cube0 = \<lparr>cu_tile_size = 0, cu_cube_size = 0, cu_page_size = psize, cu_tiles = []\<rparr>
      in bindR (alloc_tiles exists_file fits open_file basename 1 ds0 cube0) (\<lambda>found.
           case found of
             None \<Rightarrow> Inr (0, ds0, cubes, M)
           | Some (ds, cube) \<Rightarrow>
               if psize = 0 then Inl (UNDEFINED ''division by zero'')
               else
                 let cube' = pad_cube psize cube in
                 bindR (umap_ex abi mm ro env r 0 0 (cu_cube_size cube')
                          (PROT_READ mm OR PROT_WRITE mm) (MAP_PRIVATE mm) 0 0 (Some str) M)
                   (\<lambda>(reg, _, _, M').
                     if reg = - 1 then Inr (0, ds, cubes, M')
                     else Inr (reg, ds, cubes(reg \<mapsto> cube'), M'))))"

text \<open>
  \<open>PerFits_free_cube\<close>: the call of \<open>uunmap\<close> waits for the pages of the region to be evicted
  between the first and the second half.
\<close>

definition free_cube_begin ::
  "bool \<Rightarrow> addr \<Rightarrow> cubes \<Rightarrow> RegionManager \<Rightarrow> (rid \<times> engine \<times> unmap_pc) result" where
  "free_cube_begin busy reg cubes M =
     (case cubes reg of
        None \<Rightarrow> Inl (ASSERT_FAIL ''free_cube: failed to find control object'')
      | Some cube \<Rightarrow> uunmap_begin busy reg (cu_cube_size cube) M)"

definition free_cube_end ::
  "sys_env \<Rightarrow> rid \<Rightarrow> addr \<Rightarrow> cubes \<Rightarrow> RegionManager \<Rightarrow> (cubes \<times> RegionManager) result" where
  "free_cube_end env r reg cubes M =
     (case cubes reg of
        None \<Rightarrow> Inl (ASSERT_FAIL ''free_cube: failed to find control object'')
      | Some cube \<Rightarrow>
          bindR (uunmap_end env r reg (cu_cube_size cube) M) (\<lambda>(rc, M').
            if rc < 0 then Inl (UMAP_ERROR ''uunmap failed'')
            else Inr (cubes(reg := None), M')))"

section \<open>Reading\<close>

text \<open>What the constructor establishes: where the data stand in the file.\<close>

definition tile_ok :: "u64 \<Rightarrow> Tile \<Rightarrow> bool" where
  "tile_ok ts t \<longleftrightarrow> tf_tile_size (t_file t) = ts \<and> t_map_size t = ts + t_map_start t
     \<and> unat (t_map_start t) < 4096
     \<and> unat (tf_tile_start (t_file t)) = unat (tf_pgaligned_tile_start (t_file t)) + unat (t_map_start t)"

definition dim_size :: "Tile_Dim \<Rightarrow> u64" where
  "dim_size d = td_xDim d * td_yDim d * td_elem_size d"

lemma Tile_init_ok:
  assumes "Tile_init fits op fn = Inr t"
  shows "tile_ok (dim_size (t_dim t)) t"
    and "td_elem_size (t_dim t) = elem_size_of (ff_bitpix (fits fn))"
proof -
  let ?s = "of_int (ff_datastart (fits fn)) :: u64"
  have t: "tf_tile_size (t_file t) = dim_size (t_dim t)"
    "t_map_size t = dim_size (t_dim t) + t_map_start t" "tf_tile_start (t_file t) = ?s"
    "tf_pgaligned_tile_start (t_file t) = ?s AND NOT 4095" "t_map_start t = ?s - (?s AND NOT 4095)"
    "td_elem_size (t_dim t) = elem_size_of (ff_bitpix (fits fn))"
    using assms by (auto simp: Tile_init_def Let_def dim_size_def split: if_splits list.splits)
  show "td_elem_size (t_dim t) = elem_size_of (ff_bitpix (fits fn))" by (rule t(6))
  have "unat (?s AND NOT 4095) \<le> unat ?s" by (rule unat_and_not)
  then have "unat (t_map_start t) = unat ?s - unat (?s AND NOT 4095)"
    unfolding t(5) by (intro unat_sub) (simp add: word_le_nat_alt)
  moreover have "unat ?s \<le> unat (?s AND NOT 4095) + 4095" using unat_and_not(2) [of ?s 4095] by simp
  ultimately show "tile_ok (dim_size (t_dim t)) t"
    using unat_and_not(1) [of ?s 4095] t by (simp add: tile_ok_def)
qed

lemma unat_plus_small:
  assumes "unat x + unat y < 2 ^ 64"
  shows "unat (x + y :: u64) = unat x + unat y"
proof -
  have "unat x + unat y < 2 ^ LENGTH(64)" using assms by simp
  then show ?thesis by (simp only: unat_add_lem)
qed

text \<open>The number of bytes of the tile from an offset on, at most \<open>nb\<close>.\<close>

definition avail :: "nat \<Rightarrow> nat \<Rightarrow> nat \<Rightarrow> nat" where
  "avail ts nb off = min nb (ts - off)"

lemma moved_bytes:
  assumes "m + n \<le> length b" and "a + m + k \<le> length d" and "k \<le> n"
  defines "got \<equiv> take (m + k) (drop a d)"
  defines "b1 \<equiv> got @ drop (length got) b"
  shows "take n (take n (drop m b1) @ drop n b1)
       = take k (drop (a + m) d) @ map (\<lambda>i. b ! (m + i)) [k..<n]"
proof -
  have len: "length got = m + k" using assms(2) by (simp add: got_def)
  have b1: "b1 = take (m + k) (drop a d) @ drop (m + k) b" using len by (simp add: b1_def got_def)
  have "drop m (take (m + k) (drop a d)) = take k (drop (a + m) d)"
    by (simp add: drop_take add.commute)
  moreover have "take (n - k) (drop (m + k) b) = map (\<lambda>i. b ! (m + i)) [k..<n]"
    using assms(1,3) by (auto intro!: nth_equalityI simp: add.assoc)
  moreover have "drop m b1 = drop m (take (m + k) (drop a d)) @ drop (m + k) b"
    using assms(2) by (simp add: b1)
  moreover have "length (take k (drop (a + m) d)) = k" using assms(2) by simp
  moreover have "length (take n (drop m b1)) = n" using assms(1-3) len by (simp add: b1_def)
  ultimately show ?thesis using assms(3) by simp
qed

text \<open>
  What \<open>buffered_read\<close> does to a buffer with enough room behind the request: the bytes in
  front are those at the beginning of the tile, wherever the request begins.
\<close>

lemma buffered_read_ok:
  assumes t: "tile_ok ts t" and off: "unat off < unat ts" and room: "unat (t_map_start t) + unat nb \<le> length b"
    and size: "unat ts + unat nb + 4096 < 2 ^ 64"
    and rd: "\<And>n a. rd (tf_fd (t_file t)) n a = Some (take n (drop a d))"
    and whole: "unat (tf_tile_start (t_file t)) + unat ts \<le> length d"
  defines "k \<equiv> avail (unat ts) (unat nb) (unat off)"
  shows "\<exists>b'. buffered_read rd t b nb off = Inr (of_nat k, b') \<and> length b' = length b
       \<and> take (unat nb) b' = take k (drop (unat (tf_tile_start (t_file t))) d)
            @ map (\<lambda>i. b ! (unat (t_map_start t) + i)) [k..<unat nb]"
proof -
  let ?m = "unat (t_map_start t)" and ?n = "unat nb" and ?a = "unat (tf_pgaligned_tile_start (t_file t))"
  have m: "t_map_size t = ts + t_map_start t" "?m < 4096" "unat (tf_tile_start (t_file t)) = ?a + ?m"
    using t by (simp_all add: tile_ok_def)
  have ms: "unat (ts + t_map_start t) = unat ts + ?m" using size m(2) by (intro unat_plus_small) linarith
  have ua: "unat (nb + t_map_start t) = ?n + ?m" using size m(2) by (intro unat_plus_small) linarith
  have re: "unat (off + (nb + t_map_start t)) = unat off + (?n + ?m)"
    using size m(2) off ua unat_plus_small [of off "nb + t_map_start t"] by linarith
  define eof where "eof = (if t_map_size t \<le> off + (nb + t_map_start t)
      then off + (nb + t_map_start t) - t_map_size t else 0)"
  have k: "k \<le> ?n" by (simp add: k_def avail_def)
  have e: "unat eof = ?n - k"
  proof (cases "t_map_size t \<le> off + (nb + t_map_start t)")
    case True
    then have "unat eof = unat off + (?n + ?m) - (unat ts + ?m)"
      unfolding eof_def m(1) using ms re by (simp only: if_True unat_sub)
    then show ?thesis using True off ms re m(1) by (simp add: k_def avail_def word_le_nat_alt)
  next
    case False
    then have "unat off + (?n + ?m) < unat ts + ?m" using ms re m(1) by (simp add: word_le_nat_alt)
    then show ?thesis using False by (simp add: eof_def k_def avail_def)
  qed
  have "eof \<le> nb + t_map_start t" "eof \<le> nb" unfolding word_le_nat_alt e ua by simp_all
  then have n1: "unat (nb + t_map_start t - eof) = ?m + k" and n2: "unat (nb - eof) = k"
    using k by (simp_all only: unat_sub e ua)
  let ?got = "take (?m + k) (drop ?a d)"
  have len: "length ?got = ?m + k" using whole m(3) off by (simp add: k_def avail_def)
  let ?b1 = "?got @ drop (length ?got) b"
  let ?b2 = "take ?n (drop ?m ?b1) @ drop ?n ?b1"
  have got: "(case rd (tf_fd (t_file t)) (?m + k) ?a of None \<Rightarrow> [] | Some bs \<Rightarrow> bs) = ?got"
    by (simp only: rd option.case)
  have "\<not> (length b < length ?got \<or> length b < ?m + ?n)" using room len k by linarith
  then have read: "buffered_read rd t b nb off = Inr (nb - eof, ?b2)"
    unfolding buffered_read_def Let_def eof_def [symmetric] n1 got by (rule if_not_P)
  have "nb - eof = of_nat k" using n2 by (metis of_nat_unat ucast_id)
  with read have "buffered_read rd t b nb off = Inr (of_nat k, ?b2)" by (simp only:)
  moreover have "length ?b2 = length b" using room len k by simp
  moreover have "take ?n ?b2 = take k (drop (unat (tf_tile_start (t_file t))) d) @ map (\<lambda>i. b ! (?m + i)) [k..<?n]"
    unfolding m(3) by (rule moved_bytes [OF _ _ k]) (use room whole off m(3) in \<open>simp_all add: k_def avail_def\<close>)
  ultimately show ?thesis by blast
qed

text \<open>The bytes behind the tile: all but the last one are overwritten.\<close>

lemma padded_bytes:
  assumes "take n b = xs @ map f [k..<n]" and "length xs = k" and "k < n" and "n \<le> length b"
  shows "take n (take k b @ replicate (n - k - 1) y @ drop (k + (n - k - 1)) b)
       = xs @ replicate (n - k - 1) y @ [f (n - 1)]"
proof -
  have "take k b = take k (take n b)" using assms(3) by simp
  then have front: "take k b = xs" unfolding assms(1) using assms(2) by simp
  have "b ! (n - 1) = take n b ! (n - 1)" using assms(3) by simp
  then have "b ! (n - 1) = f (n - 1)" unfolding assms(1) using assms(2,3) by (auto simp: nth_append)
  moreover have "drop (n - 1) b = b ! (n - 1) # drop n b"
    using assms(3,4) Cons_nth_drop_Suc [of "n - 1" b] by simp
  ultimately show ?thesis using assms(2,3) front by simp
qed

lemma pad_page_ok:
  assumes b': "take (unat nb) b' = xs @ map f [k..<unat nb]" "length xs = k" "unat nb \<le> length b'"
    and k: "k \<le> unat nb" "k < 2 ^ 64 - 1"
  shows "\<exists>b''. pad_page nb (of_nat k) b' = Inr (of_nat k, b'') \<and> length b'' = length b'
       \<and> take (unat nb) b'' = xs @ (if k < unat nb then replicate (unat nb - k - 1) 255 @ [f (unat nb - 1)] else [])"
proof -
  let ?n = "unat nb"
  have uk: "unat (of_nat k :: u64) = k" using k(2) by (intro unat_of_nat_u64) linarith
  have "of_nat k \<noteq> (- 1 :: u64)"
  proof
    assume "of_nat k = (- 1 :: u64)"
    then have "k = unat (- 1 :: u64)" using uk by simp
    then show False using k(2) by (simp add: unsigned_minus_1_eq_mask mask_eq_exp_minus_1)
  qed
  then have read: "pad_page nb (of_nat k) b' = (if of_nat k < nb then
        Inr (of_nat k, take k b' @ replicate (unat (nb - of_nat k - 1)) 255
                     @ drop (k + unat (nb - of_nat k - 1)) b')
      else Inr (of_nat k, b'))"
    unfolding pad_page_def uk by (simp only: if_False)
  show ?thesis
  proof (cases "k < ?n")
    case True
    have lt: "of_nat k < nb" using True uk by (simp add: word_less_nat_alt)
    then have "unat (nb - of_nat k) = ?n - k" using uk by (simp add: unat_sub)
    moreover from this have "unat (nb - of_nat k - 1) = ?n - k - 1"
      using unat_minus_one [of "nb - of_nat k"] True by fastforce
    ultimately have "pad_page nb (of_nat k) b'
        = Inr (of_nat k, take k b' @ replicate (?n - k - 1) 255 @ drop (k + (?n - k - 1)) b')"
      using read lt by (simp only: if_True)
    moreover note padded_bytes [OF b'(1,2) True b'(3), of 255]
    moreover have "length (take k b' @ replicate (?n - k - 1) 255 @ drop (k + (?n - k - 1)) b') = length b'"
      using True b'(3) by simp
    ultimately show ?thesis using True by auto
  next
    case False
    then have "\<not> of_nat k < nb" and "k = ?n" using uk k(1) by (simp_all add: word_less_nat_alt)
    then show ?thesis using read b' by simp
  qed
qed

lemma Cfits_read_step:
  assumes "cu_tile_size cube = ts" and "unat off div unat ts < length (cu_tiles cube)" and "0 < ts"
  shows "Cfits_read_from_store rd cube b nb off
       = bindR (buffered_read rd (cu_tiles cube ! (unat off div unat ts)) b nb (off mod ts))
           (\<lambda>(rval, b'). pad_page nb rval b')"
  using assms by (auto simp: Cfits_read_from_store_def Let_def unat_div_distrib)

text \<open>
  C39: What a fault in a cube of images gets. With the one page of memory that a filler hands to
  the store, a read of a tile whose data do not begin at a multiple of 4096 overruns the
  buffer. With enough room behind it the page holds the bytes from the beginning of the
  tile, wherever in the tile the page begins; a page that goes beyond the tile is filled up
  with the byte 255, its last byte excepted, which stays what it was in the buffer.
\<close>

theorem fits_page_read:
  assumes cube: "cu_tile_size cube = ts" "unat off div unat ts < length (cu_tiles cube)"
    and t: "t = cu_tiles cube ! (unat off div unat ts)" "tile_ok ts t"
    and pos: "0 < ts" "0 < nb" and size: "unat ts + unat nb + 4096 < 2 ^ 64"
    and rd: "\<And>n a. rd (tf_fd (t_file t)) n a = Some (take n (drop a d))"
    and whole: "unat (tf_tile_start (t_file t)) + unat ts \<le> length d"
  defines "k \<equiv> avail (unat ts) (unat nb) (unat off mod unat ts)"
  shows "(length b = unat nb \<and> t_map_start t \<noteq> 0
       \<longrightarrow> Cfits_read_from_store rd cube b nb off = Inl (UNDEFINED ''buffer overrun''))
    \<and> (unat (t_map_start t) + unat nb \<le> length b
       \<longrightarrow> (\<exists>b'. Cfits_read_from_store rd cube b nb off = Inr (of_nat k, b') \<and> length b' = length b
            \<and> take (unat nb) b' = take k (drop (unat (tf_tile_start (t_file t))) d)
                @ (if k < unat nb then replicate (unat nb - k - 1) 255
                       @ [b ! (unat (t_map_start t) + (unat nb - 1))] else [])))"
proof (intro conjI impI)
  let ?m = "unat (t_map_start t)" and ?n = "unat nb" and ?o = "off mod ts"
  have ts: "0 < unat ts" using pos(1) by (simp add: word_less_nat_alt)
  have o: "unat ?o = unat off mod unat ts" "unat ?o < unat ts" using ts by (simp_all add: unat_mod_distrib)
  note read = Cfits_read_step [OF cube pos(1), of rd b nb, folded t(1)]
  show "Cfits_read_from_store rd cube b nb off = Inl (UNDEFINED ''buffer overrun'')"
    if "length b = ?n \<and> t_map_start t \<noteq> 0"
  proof -
    have "length b < ?m + ?n" using that by (simp add: unat_gt_0)
    then show ?thesis unfolding read buffered_read_def Let_def by simp
  qed
  assume room: "?m + ?n \<le> length b"
  let ?xs = "take k (drop (unat (tf_tile_start (t_file t))) d)"
  obtain b' where b': "buffered_read rd t b nb ?o = Inr (of_nat k, b')" "length b' = length b"
    "take ?n b' = ?xs @ map (\<lambda>i. b ! (?m + i)) [k..<?n]"
    using buffered_read_ok [where rd = rd and d = d, OF t(2) o(2) room size rd whole] o(1)
    unfolding k_def by auto
  have k: "k \<le> ?n" "k \<le> unat ts" "length ?xs = k" using whole by (simp_all add: k_def avail_def)
  have "\<exists>b''. pad_page nb (of_nat k) b' = Inr (of_nat k, b'') \<and> length b'' = length b'
      \<and> take ?n b'' = ?xs @ (if k < ?n then replicate (?n - k - 1) 255 @ [b ! (?m + (?n - 1))] else [])"
    by (rule pad_page_ok [OF b'(3) k(3) _ k(1)]) (use room b'(2) k(2) size in linarith)+
  then show "\<exists>b'. Cfits_read_from_store rd cube b nb off = Inr (of_nat k, b') \<and> length b' = length b
        \<and> take ?n b' = ?xs @ (if k < ?n then replicate (?n - k - 1) 255 @ [b ! (?m + (?n - 1))] else [])"
    unfolding read b' by simp
qed

text \<open>A tile of three bytes behind a header of two.\<close>

definition demo_tile :: Tile where
  "demo_tile = \<lparr>t_file = \<lparr>tf_fd = 3, tf_fname = ''a1.fits'', tf_tile_start = 2, tf_tile_size = 3,
       tf_pgaligned_tile_start = 0\<rparr>,
     t_dim = \<lparr>td_xDim = 3, td_yDim = 1, td_elem_size = 1\<rparr>, t_map_start = 2, t_map_size = 5\<rparr>"

definition demo_cube :: Cube where
  "demo_cube = \<lparr>cu_tile_size = 3, cu_cube_size = 4, cu_page_size = 4, cu_tiles = [demo_tile]\<rparr>"

theorem fits_page_read_witness:
  "Cfits_read_from_store (\<lambda>fd n a. Some (take n (drop a [1, 1, 5, 6, 7]))) demo_cube
      [9, 9, 9, 9] 4 0 = Inl (UNDEFINED ''buffer overrun'')
   \<and> (\<exists>b'. Cfits_read_from_store (\<lambda>fd n a. Some (take n (drop a [1, 1, 5, 6, 7]))) demo_cube
          [9, 9, 9, 9, 9, 9, 9, 9] 4 1 = Inr (2, b') \<and> take 4 b' = [5, 6, 255, 9])"
proof -
  let ?d = "[1, 1, 5, 6, 7 :: byte]"
  let ?rd = "\<lambda>(fd :: int) n a. Some (take n (drop a ?d))"
  have t: "tile_ok 3 demo_tile" by (simp add: tile_ok_def demo_tile_def)
  have k: "avail 3 4 0 = 3" "avail 3 4 (Suc 0) = 2" by (simp_all add: avail_def)
  show ?thesis
    using fits_page_read [of demo_cube 3 0 demo_tile 4 ?rd ?d "[9, 9, 9, 9]"]
      fits_page_read [of demo_cube 3 1 demo_tile 4 ?rd ?d "[9, 9, 9, 9, 9, 9, 9, 9]"] t
    by (simp add: demo_cube_def demo_tile_def k) blast
qed

section \<open>Cubes\<close>

text \<open>After \<open>n\<close> files have been read.\<close>

definition dims_of :: "cube_dims \<Rightarrow> Tile_Dim" where
  "dims_of ds = \<lparr>td_xDim = cd_xDim ds, td_yDim = cd_yDim ds, td_elem_size = BytesPerElement ds\<rparr>"

definition tiles_inv ::
  "(string \<Rightarrow> bool) \<Rightarrow> (string \<Rightarrow> fits_file) \<Rightarrow> (string \<Rightarrow> int) \<Rightarrow> string \<Rightarrow> nat \<Rightarrow> cube_dims \<Rightarrow> Cube \<Rightarrow> bool"
where
  "tiles_inv exists_file fits op bn n ds cube \<longleftrightarrow> length (cu_tiles cube) = n
   \<and> cu_cube_size cube = of_nat n * cu_tile_size cube
   \<and> (if n = 0 then BytesPerElement ds = 0
      else BytesPerElement ds \<noteq> 0 \<and> cd_zDim ds = of_nat n \<and> cu_tile_size cube = dim_size (dims_of ds))
   \<and> (\<forall>j<n. exists_file (tile_name bn (int j + 1))
        \<and> Tile_init fits op (tile_name bn (int j + 1)) = Inr (cu_tiles cube ! j)
        \<and> t_dim (cu_tiles cube ! j) = dims_of ds)"

lemma next_dims_ok:
  assumes "next_dims d ds cube = Inr (ds', cube')"
  shows "cu_tiles cube' = cu_tiles cube" and "cu_cube_size cube' = cu_cube_size cube"
    and "dims_of ds' = d"
    and "BytesPerElement ds \<noteq> 0 \<Longrightarrow> ds' = ds \<and> cube' = cube"
    and "BytesPerElement ds = 0 \<Longrightarrow> cu_tile_size cube' = dim_size d"
  using assms by (auto simp: next_dims_def dims_of_def dim_size_def split: if_splits)

lemma tiles_inv_step:
  assumes inv: "tiles_inv ex fits op bn n ds cube" and present: "ex (tile_name bn (int n + 1))"
    and T: "Tile_init fits op (tile_name bn (int n + 1)) = Inr T" "td_elem_size (t_dim T) \<noteq> 0"
    and dims: "next_dims (t_dim T) ds cube = Inr (ds', cube')"
  shows "tiles_inv ex fits op bn (Suc n) (ds'\<lparr>cd_zDim := of_int (int n + 1)\<rparr>)
       (cube'\<lparr>cu_cube_size := cu_cube_size cube' + cu_tile_size cube', cu_tiles := cu_tiles cube' @ [T]\<rparr>)"
proof -
  note nd = next_dims_ok [OF dims]
  have len: "length (cu_tiles cube') = n" using inv nd(1) by (simp add: tiles_inv_def)
  have b0: "BytesPerElement ds' \<noteq> 0" using T(2) nd(3) by (metis dims_of_def Tile_Dim.select_convs(3))
  have ts: "cu_tile_size cube' = dim_size (dims_of ds')"
    and size: "cu_cube_size cube' = of_nat n * cu_tile_size cube'"
    using inv nd by (cases "n = 0"; auto simp: tiles_inv_def)+
  have size': "cu_cube_size cube' + cu_tile_size cube' = of_nat (Suc n) * cu_tile_size cube'"
    unfolding size by (simp add: distrib_right)
  have old: "ex (tile_name bn (int j + 1)) \<and> t_dim (cu_tiles cube' ! j) = dims_of ds'
      \<and> Tile_init fits op (tile_name bn (int j + 1)) = Inr (cu_tiles cube' ! j)" if "j < n" for j
    using inv nd(1,4) that by (auto simp: tiles_inv_def)
  have z: "dims_of (ds'\<lparr>cd_zDim := z\<rparr>) = dims_of ds'" for z by (simp add: dims_of_def)
  show ?thesis
    unfolding tiles_inv_def using len size' ts old present T(1) nd(3) b0
    by (auto simp: nth_append less_Suc_eq z add.commute)
qed

lemma alloc_tiles_ok:
  assumes "tiles_inv ex fits op bn n ds cube"
    and elem: "\<And>fn. elem_size_of (ff_bitpix (fits fn)) \<noteq> 0"
    and "alloc_tiles ex fits op bn (int n + 1) ds cube = Inr (Some (ds', cube'))"
  shows "\<exists>N>0. N < 2 ^ 31 \<and> tiles_inv ex fits op bn N ds' cube' \<and> \<not> ex (tile_name bn (int N + 1))
           \<and> cu_page_size cube' = cu_page_size cube"
  using assms(1,3)
proof (induction "2 ^ 31 - n" arbitrary: n ds cube rule: less_induct)
  case less
  note step = alloc_tiles.simps [of ex fits op bn "int n + 1" ds cube]
  show ?case
  proof (cases "ex (tile_name bn (int n + 1))")
    case False
    then show ?thesis using less.prems step by (auto split: if_splits)
  next
    case True
    obtain T ds1 cube1 where small: "\<not> 2 ^ 31 \<le> int n + 1"
      and T: "Tile_init fits op (tile_name bn (int n + 1)) = Inr T"
      and d: "next_dims (t_dim T) ds cube = Inr (ds1, cube1)"
      and rest: "alloc_tiles ex fits op bn (int n + 1 + 1) (ds1\<lparr>cd_zDim := of_int (int n + 1)\<rparr>)
         (cube1\<lparr>cu_cube_size := cu_cube_size cube1 + cu_tile_size cube1, cu_tiles := cu_tiles cube1 @ [T]\<rparr>)
         = Inr (Some (ds', cube'))"
      using less.prems(2) True unfolding step by (auto simp: bindR_eq_Inr_iff split: if_splits)
    have "td_elem_size (t_dim T) \<noteq> 0" using Tile_init_ok(2) [OF T] elem by simp
    note inv = tiles_inv_step [OF less.prems(1) True T this d]
    have "cu_page_size cube1 = cu_page_size cube" using d by (auto simp: next_dims_def split: if_splits)
    moreover have "2 ^ 31 - Suc n < 2 ^ 31 - n" using small by simp
    moreover have "int n + 1 + 1 = int (Suc n) + 1" by simp
    ultimately show ?thesis using less.hyps [OF _ inv] rest by simp
  qed
qed

lemma PerFits_alloc_result:
  assumes alloc: "PerFits_alloc_cube abi mm ro env r str ex fits op bn z0 cubes M = Inr (reg, ds, cubes', M')"
    and reg: "reg \<noteq> 0"
  obtains cube where "alloc_tiles ex fits op bn 1
       \<lparr>BytesPerElement = 0, cd_xDim = 0, cd_yDim = 0, cd_zDim = z0\<rparr>
       \<lparr>cu_tile_size = 0, cu_cube_size = 0, cu_page_size = umapcfg_get_umap_page_size M, cu_tiles = []\<rparr>
         = Inr (Some (ds, cube))"
    and "umapcfg_get_umap_page_size M \<noteq> 0"
    and "cubes' = cubes(reg \<mapsto> pad_cube (umapcfg_get_umap_page_size M) cube)"
proof -
  obtain found where f: "alloc_tiles ex fits op bn 1
       \<lparr>BytesPerElement = 0, cd_xDim = 0, cd_yDim = 0, cd_zDim = z0\<rparr>
       \<lparr>cu_tile_size = 0, cu_cube_size = 0, cu_page_size = umapcfg_get_umap_page_size M, cu_tiles = []\<rparr>
         = Inr found"
    using alloc by (auto simp: PerFits_alloc_cube_def Let_def bindR_eq_Inr_iff)
  show thesis
  proof (cases found)
    case None
    then show thesis using alloc reg f by (simp add: PerFits_alloc_cube_def Let_def)
  next
    case (Some dc)
    obtain ds1 cube where dc: "dc = (ds1, cube)" by (cases dc)
    have "umapcfg_get_umap_page_size M \<noteq> 0" "ds1 = ds"
      "cubes' = cubes(reg \<mapsto> pad_cube (umapcfg_get_umap_page_size M) cube)"
      using alloc reg f Some dc
      by (auto simp: PerFits_alloc_cube_def Let_def bindR_eq_Inr_iff split: if_splits)
    then show thesis using that f Some dc by simp
  qed
qed

text \<open>The pages of the cube lie in its tiles.\<close>

lemma page_in_tile:
  assumes "p dvd off" and "off < s" and "p dvd s" and "s < n * ts + p"
  shows "off div ts < (n :: nat)"
proof -
  have "off + p \<le> s" using assms(1-3) by (metis dvd_imp_le dvd_diff_nat le_add_diff_inverse less_imp_le_nat nat_add_left_cancel_le zero_less_diff)
  then have "off < n * ts" using assms(4) by linarith
  then show ?thesis by (simp add: less_mult_imp_div_less)
qed

text \<open>
  A cube that is allocated holds the data of all files \<open>name1.fits\<close> up to the first that does
  not exist, in this order and all of the same dimensions, which are reported; its size is
  the smallest multiple of the page size that holds them, and each page of it begins in one
  of the tiles, so that no fault looks for a tile out of range.
\<close>

lemma fits_cube_layout:
  assumes alloc: "PerFits_alloc_cube abi mm ro env r str ex fits op bn z0 cubes M = Inr (reg, ds, cubes', M')"
    and reg: "reg \<noteq> 0" and elem: "\<And>fn. elem_size_of (ff_bitpix (fits fn)) \<noteq> 0"
    and small: "unat (cd_zDim ds) * unat (dim_size (dims_of ds))
                  + unat (umapcfg_get_umap_page_size M) < 2 ^ 64"
  shows "\<exists>cube N. cubes' = cubes(reg \<mapsto> cube) \<and> 0 < N \<and> length (cu_tiles cube) = N \<and> cd_zDim ds = of_nat N
     \<and> (\<forall>j<N. ex (tile_name bn (int j + 1))
          \<and> Tile_init fits op (tile_name bn (int j + 1)) = Inr (cu_tiles cube ! j)
          \<and> t_dim (cu_tiles cube ! j) = dims_of ds \<and> tile_ok (cu_tile_size cube) (cu_tiles cube ! j))
     \<and> \<not> ex (tile_name bn (int N + 1))
     \<and> unat (umapcfg_get_umap_page_size M) dvd unat (cu_cube_size cube)
     \<and> N * unat (cu_tile_size cube) \<le> unat (cu_cube_size cube)
     \<and> unat (cu_cube_size cube) < N * unat (cu_tile_size cube) + unat (umapcfg_get_umap_page_size M)
     \<and> (\<forall>off<unat (cu_cube_size cube). unat (umapcfg_get_umap_page_size M) dvd off
          \<longrightarrow> off div unat (cu_tile_size cube) < N)"
proof -
  let ?p = "umapcfg_get_umap_page_size M"
  let ?ds0 = "\<lparr>BytesPerElement = 0, cd_xDim = 0, cd_yDim = 0, cd_zDim = z0\<rparr>"
  let ?cube0 = "\<lparr>cu_tile_size = 0, cu_cube_size = 0, cu_page_size = ?p, cu_tiles = []\<rparr>"
  obtain cube where tiles: "alloc_tiles ex fits op bn 1 ?ds0 ?cube0 = Inr (Some (ds, cube))"
    and p: "?p \<noteq> 0" and cubes: "cubes' = cubes(reg \<mapsto> pad_cube ?p cube)"
    by (rule PerFits_alloc_result [OF alloc reg])
  have "tiles_inv ex fits op bn 0 ?ds0 ?cube0" by (simp add: tiles_inv_def)
  from alloc_tiles_ok [OF this elem, of ds cube] tiles obtain N where N: "0 < N" "N < 2 ^ 31"
    and inv: "tiles_inv ex fits op bn N ds cube" and stop: "\<not> ex (tile_name bn (int N + 1))"
    by auto
  let ?c = "pad_cube ?p cube" and ?ts = "unat (cu_tile_size cube)"
  have ts: "cu_tile_size cube = dim_size (dims_of ds)" and z: "cd_zDim ds = of_nat N"
    and size: "cu_cube_size cube = of_nat N * cu_tile_size cube" and len: "length (cu_tiles cube) = N"
    using inv N(1) by (simp_all add: tiles_inv_def)
  have c: "cu_tiles ?c = cu_tiles cube" "cu_tile_size ?c = cu_tile_size cube"
    "cu_cube_size ?c = cu_cube_size cube
       + (if cu_cube_size cube mod ?p \<noteq> 0 then ?p - cu_cube_size cube mod ?p else 0)"
    by (simp_all add: pad_cube_def Let_def)
  have "unat (cd_zDim ds) = N" unfolding z using N(2) by (intro unat_of_nat_u64) simp
  then have bound: "N * ?ts + unat ?p < 2 ^ 64" using small ts by simp
  have "cu_cube_size cube = of_nat (N * ?ts)" using size by simp
  then have u: "unat (cu_cube_size cube) = N * ?ts" using bound by (simp only: unat_of_nat_u64)
  have "0 < ?p" using p by (simp add: word_neq_0_conv)
  note up = unat_round_up [of ?p "cu_cube_size cube", OF this, folded c(3), unfolded u, OF bound]
  have "off div ?ts < N" if "off < unat (cu_cube_size ?c)" "unat ?p dvd off" for off
    using page_in_tile [OF that(2,1) up(1,3)] .
  moreover have "tile_ok (cu_tile_size cube) (cu_tiles cube ! j)" if "j < N" for j
    using inv that Tile_init_ok(1) ts by (fastforce simp: tiles_inv_def)
  moreover have "\<forall>j<N. ex (tile_name bn (int j + 1))
          \<and> Tile_init fits op (tile_name bn (int j + 1)) = Inr (cu_tiles cube ! j)
          \<and> t_dim (cu_tiles cube ! j) = dims_of ds"
    using inv by (simp add: tiles_inv_def)
  ultimately show ?thesis
    using N(1) stop z len up cubes by (intro exI [of _ ?c] exI [of _ N]) (simp add: c(1,2))
qed

text \<open>Two files with images of 100 times 50 bytes, and pages of 8192 bytes.\<close>

definition demo_fits :: "string \<Rightarrow> fits_file" where
  "demo_fits _ = \<lparr>ff_open_data = 0, ff_get_hduaddrll = 0, ff_datastart = 2880, ff_dataend = 8640,
     ff_get_img_type = 0, ff_get_img_param = 0, ff_bitpix = 8, ff_naxis = [100, 50], ff_close_file = 0\<rparr>"

definition demo_exists :: "string \<Rightarrow> bool" where
  "demo_exists fn \<longleftrightarrow> fn = ''a1.fits'' \<or> fn = ''a2.fits''"

lemma demo_alloc:
  obtains ds cubes' M' where
    "PerFits_alloc_cube demo_abi demo_mman False demo_env 0 9 demo_exists demo_fits (\<lambda>_. 7) ''a'' 0
       Map.empty demo_manager = Inr (73728, ds, cubes', M')"
    and "cd_zDim ds = 2" and "dim_size (dims_of ds) = 5000"
proof -
  have "case PerFits_alloc_cube demo_abi demo_mman False demo_env 0 9 demo_exists demo_fits (\<lambda>_. 7) ''a'' 0
       Map.empty demo_manager of
      Inl _ \<Rightarrow> False
    | Inr (a, ds, _) \<Rightarrow> a = 73728 \<and> cd_zDim ds = 2 \<and> dim_size (dims_of ds) = 5000" by code_simp
  then show thesis using that by (auto split: sum.splits)
qed

lemma fits_cube_layout_example:
  "\<exists>ds cube M'. PerFits_alloc_cube demo_abi demo_mman False demo_env 0 9 demo_exists demo_fits (\<lambda>_. 7) ''a'' 0
       Map.empty demo_manager = Inr (73728, ds, [73728 \<mapsto> cube], M')
     \<and> length (cu_tiles cube) > 0 \<and> \<not> demo_exists (tile_name ''a'' (int (length (cu_tiles cube)) + 1))"
proof -
  obtain ds cubes' M' where a: "PerFits_alloc_cube demo_abi demo_mman False demo_env 0 9 demo_exists demo_fits
      (\<lambda>_. 7) ''a'' 0 Map.empty demo_manager = Inr (73728, ds, cubes', M')"
    and ds: "cd_zDim ds = 2" "dim_size (dims_of ds) = 5000"
    by (rule demo_alloc)
  have elem: "elem_size_of (ff_bitpix (demo_fits fn)) \<noteq> 0" for fn
    by (simp add: elem_size_of_def demo_fits_def)
  have small: "unat (cd_zDim ds) * unat (dim_size (dims_of ds)) + unat (umapcfg_get_umap_page_size demo_manager) < 2 ^ 64"
    by (simp add: ds umapcfg_get_umap_page_size_def demo_manager_def)
  from fits_cube_layout [OF a _ elem small] obtain cube N where
    "cubes' = [73728 \<mapsto> cube]" "0 < N" "length (cu_tiles cube) = N" "\<not> demo_exists (tile_name ''a'' (int N + 1))"
    by auto
  then show ?thesis using a by auto
qed

end
