(* ===== verification/Spec2Isabelle.thy ===== *)
theory Spec2Isabelle
  imports Engine_Life Sparse_Store_Props Logging Graph_File Bfs_Parallel Umapsort
    Stream_Benchmark Fits
begin

text \<open>
  Verification of UMap, a library that maps files into memory and handles the page faults in
  user space (\<^verbatim>\<open>src/umap\<close>), and of its examples \<^verbatim>\<open>examples/bfs\<close>, \<^verbatim>\<open>examples/umapsort\<close>
  and \<^verbatim>\<open>examples/stream\<close>.

  \<^bold>\<open>The program.\<close> An application maps a region (\<^verbatim>\<open>umap.cpp\<close>), which the region manager enters in
  its table. A monitor thread (\<^verbatim>\<open>Uffd.cpp\<close>) reads batches of page faults from the kernel and
  hands every page to the buffer (\<^verbatim>\<open>Buffer.cpp\<close>), which finds or allocates a page descriptor,
  waiting where it must, and queues work for the fill workers (\<^verbatim>\<open>FillWorkers.cpp\<close>): they read
  the page from the store and install it, write protected unless the fault was a write. Above
  the high water mark the eviction manager (\<^verbatim>\<open>EvictManager.cpp\<close>) picks the oldest pages for the
  eviction workers (\<^verbatim>\<open>EvictWorkers.cpp\<close>), which protect a dirty page, write it to the store, and
  drop it; a flush has them write all dirty pages while it holds the mutex of the buffer. The
  pools of workers share a queue with two condition variables
  (\<^verbatim>\<open>WorkQueue.hpp\<close>, \<^verbatim>\<open>WorkerPool.hpp\<close>). Stores are a file or many files of a fixed size
  (\<^verbatim>\<open>store/StoreFile.cpp\<close>, \<^verbatim>\<open>store/SparseStore.cpp\<close>).

  \<^bold>\<open>How the code is modelled.\<close> Structures are records with the names of the source, integers
  words of their width, exceptions, failed assertions and undefined behaviour values of
  \<open>umap_error\<close>. A method that runs under a mutex is one function of the state; where it waits on
  a condition variable it is split into the part before and the loop after, so that other
  threads run in between. A thread is a program counter and a step function, and a run is a
  sequence of steps of any thread. System calls and the kernel are arguments; what is relied on
  is a named hypothesis (\<open>kernel_ok\<close>: an installed page has the given contents, protection and
  removal act on the page they name).

  \<^bold>\<open>The library.\<close>
  \<^item> \<^verbatim>\<open>Umap_Prelude\<close>: machine types, errors and their sequencing, lemmas on words and on
    counting threads. \<^verbatim>\<open>Float_Round\<close>: rounding to single and double precision.
    \<^verbatim>\<open>Decimal\<close>: formatted reading and writing of numbers, and that one undoes the other.
    \<^verbatim>\<open>Token_Pool\<close>: ownership of work items by the threads of a pool.
  \<^item> \<^verbatim>\<open>Page_Descriptor\<close>, \<^verbatim>\<open>Region_Descriptor\<close>, \<^verbatim>\<open>Region_Manager\<close>, \<^verbatim>\<open>Work_Queue\<close>, \<^verbatim>\<open>Worker_Pool\<close>,
    \<^verbatim>\<open>Buffer\<close>, \<^verbatim>\<open>Uffd\<close>, \<^verbatim>\<open>Fill_Workers\<close>, \<^verbatim>\<open>Evict_Workers\<close>, \<^verbatim>\<open>Evict_Manager\<close>, \<^verbatim>\<open>Prefetch\<close>
    (\<open>fetch_and_pin\<close>), \<^verbatim>\<open>Config\<close>, \<^verbatim>\<open>Umap_API\<close>, \<^verbatim>\<open>Stores\<close>, \<^verbatim>\<open>Sparse_Store\<close>, \<^verbatim>\<open>Logging\<close>: one theory per
    component, with its operations in the order of the source. \<^verbatim>\<open>Buffer_Inv\<close> and
    \<^verbatim>\<open>Sparse_Store_Props\<close> hold the invariants and properties of the larger ones,
    \<^verbatim>\<open>Demo_World\<close> the concrete machine the witnesses run on.
  \<^item> \<^verbatim>\<open>Paging_Core\<close>, \<^verbatim>\<open>Paging\<close>, \<^verbatim>\<open>Paging_Workers\<close>, \<^verbatim>\<open>Paging_Props\<close>: the threads together. The step
    relation \<open>sys_step\<close> interleaves the monitor, the fill and eviction workers, the eviction daemon
    and the application; the invariant says who may touch a page in which state. \<^verbatim>\<open>Flushing\<close>
    adds \<open>flush_dirty_pages\<close>: \<open>locked_step\<close> is what the others do while it holds the mutex,
    \<^verbatim>\<open>Unmapping\<close> the thread that unmaps one of several regions: in \<open>unmap_run\<close> its steps come between
    those of the others. \<^verbatim>\<open>Evict_All\<close> does the same for the last region (\<open>EvictAll\<close>), whose pages are
    given up without being removed from memory: the invariant holds for a shadow of the
    state in which they are gone. \<^verbatim>\<open>Engine_Life\<close> puts all of it together: in \<open>life\<close> runs of the
    threads alternate with calls that map and unmap regions.
  \<^item> \<^verbatim>\<open>Bitmap\<close>, \<^verbatim>\<open>Bfs\<close>, \<^verbatim>\<open>Bfs_Main\<close>, \<^verbatim>\<open>Rmat_Hash\<close>, \<^verbatim>\<open>Rmat\<close>, \<^verbatim>\<open>Edge_List\<close>, \<^verbatim>\<open>Ingest\<close>,
    \<^verbatim>\<open>Graph_File\<close>: the graph programs, from the generation of random edges over text files and
    the graph file to the search; \<open>Graph_File\<close> has the system calls and both programs as a
    whole. \<^verbatim>\<open>Bfs_Parallel\<close>: the search with the threads of OpenMP, which race at every access to
    the level array and the bitmap. \<^verbatim>\<open>Fits\<close>: cubes of images (\<^verbatim>\<open>bfs/utility/umap_fits_file.hpp\<close>).
    \<^verbatim>\<open>Umapsort\<close>: the sorting benchmark. \<^verbatim>\<open>Stream_Benchmark\<close>: the STREAM benchmark
    (\<^verbatim>\<open>stream/stream.c\<close>), over an arbitrary arithmetic.

  \<^bold>\<open>The interfaces\<close> are locales, each interpreted on the model: \<open>region_lookup\<close> (what the table
  promises the buffer), \<open>work_channel\<close> (what a queue promises a pool and a pool its clients),
  \<open>byte_store\<close> (what a store promises the paging engine), for files and for sparse stores.

  \<^bold>\<open>What is shown.\<close>
  \<^item> The engine refines a flat memory: in every run the application reads from a page what it
    wrote last or what the store held at first; an evicted page is in the store; no worker
    meets a page in an unexpected state, and no two have the same page in hand
    (\<^verbatim>\<open>Paging_Props\<close>). A flush ends with all contents in the stores if no page is being evicted
    when it starts (\<^verbatim>\<open>Flushing\<close>). Unmapping one of several regions loses no contents, leaves the
    pages of the region in its store and comes to an end (\<^verbatim>\<open>Unmapping\<close>); so does unmapping the last
    one, after which the buffer is empty (\<^verbatim>\<open>Evict_All\<close>). Over the whole life of the engine the
    regions show files that only writes change: mapping and unmapping lose nothing, and what
    is not mapped is in the stores (\<^verbatim>\<open>Engine_Life\<close>). One batch of faults leads to one call per
    page, a write if one of its faults was a write (\<^verbatim>\<open>Uffd\<close>). Eviction takes the oldest evictable pages, and the water marks
    are bounded although they are computed in single precision (\<^verbatim>\<open>Buffer_Inv\<close>).
  \<^item> Descriptors keep their life cycle; the queue is first in, first out for any number of
    threads, \<open>wait_for_idle\<close> is a barrier, no wake-up is lost; stopping a pool drains it; the cached
    lookup of regions equals the plain one.
  \<^item> Stores are memories of pages; a sparse store never lets a page straddle files and can be
    opened again. Mapping places a region inside the reserved memory and refuses what it must;
    the engine exists exactly while regions do. Settings follow the environment.
  \<^item> The graph programs: the hash is a permutation, generated edges are in range and are read
    back from their files, the ingested graph has the right rows for every interleaving of the
    loops, and the search computes distances, also in parallel, where bits of the bitmap may
    be lost; from text files over the graph file to the levels the programs fit together.
  \<^item> The benchmarks: the sorted array is sorted, the arrays of STREAM hold what its validation
    expects for every order of the loops; a cube of images is laid out page by page.
  \<^item> Defects, as theorems: \<open>evict_oldest_pages\<close> runs out of its array in a case that is stated, a
    fetch up to the end of a region fails an assertion, a flush that meets an eviction never
    ends, every page of an image shows its beginning and its buffer is overrun, the sorting
    benchmark fails with \<^verbatim>\<open>--noinit\<close> and maps files beyond its range.

  \<^bold>\<open>Bounds and loops.\<close> There is no fuel. Loops are structural or come with a measure; those that
  may not end (the search, the fetching loop on wrapped offsets, the wait for the next tick of
  the clock) are partial functions, for which it is proved that they return; for the threads
  of the parallel search, of a flush and of both ways of unmapping a measure decreases. Page
  sizes are powers of two where alignment is computed by masks; sizes of sparse stores are
  below two to the 53, where double precision is exact; distances in the search are below
  65534, the greatest level of 16 bits.

  \<^bold>\<open>Not modelled.\<close> The runs of an unmapping end with \<open>evict_region\<close>: the source lets a fault bring in a
  page of the region afterwards, before the region is taken from the table; in \<open>life\<close> it is taken at
  once, while the monitor does not sleep on one of its pages. Those with \<open>EvictAll\<close>
  have no faults and the daemon at rest: the source does not wait for it, and pages in its
  hands are lost. Of \<open>flush_dirty_pages\<close> the runs have the case in which
  it does not have to wait for a page. Fetched and pinned pages are treated apart from the
  runs as well, as they have no descriptor. The memory order of the locks, time stamps and
  the creation of threads are left out, as are printouts of the examples, the clocks and the
  OpenMP queries they use, and the tests. Floating-point arithmetic is modelled where results
  depend on it in the library (water marks, sizes of sparse stores) and a parameter in the
  random generator and the STREAM benchmark; what cfitsio says of an image is a parameter.
\<close>

end
